(* ===== verification/Prelude.thy ===== *)
theory Prelude
  imports Main "HOL-Library.Word"
begin

text \<open>
  Shared vocabulary of the development: bytes and byte strings, exceptions as values of a
  sum type, Python's slices, the big-endian conversions \<open>int.from_bytes\<close> and
  \<open>int.to_bytes\<close>, masks on natural numbers and decimal digits. The interfaces several components
  share are in \<open>Interfaces\<close>.
\<close>

unbundle bit_operations_syntax

section \<open>Types\<close>

type_synonym byte = "8 word"
type_synonym bytes = "byte list"

text \<open>
  Every \<open>raise\<close> of the modelled code is a value of this type. The messages of the errors are
  kept where they are constant texts; an f-string keeps its constant part.
\<close>

datatype exn =
    PayloadError string
  | MkvError string
  | MediaError string
  | HotkeyError string
  | ActionError string nat
  | OverflowError
  | ValueError
  | IndexError
  | AttributeError
  | TypeError
  | KeyError
  | RuntimeError string
  | SdpError string
  | LightingError string
  | PlanError string
  | Superseded
  | SettingsError string
  | OSError string
  | ReplayError string nat

type_synonym 'a result = "exn + 'a"

definition bindE :: "'a result \<Rightarrow> ('a \<Rightarrow> 'b result) \<Rightarrow> 'b result" where
  "bindE m f = (case m of Inl e \<Rightarrow> Inl e | Inr x \<Rightarrow> f x)"

fun mapE :: "('a \<Rightarrow> 'b result) \<Rightarrow> 'a list \<Rightarrow> 'b list result" where
  "mapE f [] = Inr []"
| "mapE f (x # xs) = bindE (f x) (\<lambda>y. bindE (mapE f xs) (\<lambda>ys. Inr (y # ys)))"

lemma bindE_simps [simp]:
  "bindE (Inl e) f = Inl e"
  "bindE (Inr x) f = f x"
  by (simp_all add: bindE_def)

lemma bindE_eq_Inr [simp]: "bindE m f = Inr y \<longleftrightarrow> (\<exists>x. m = Inr x \<and> f x = Inr y)"
  by (cases m) auto

lemma bindE_eq_Inl: "bindE m f = Inl e \<longleftrightarrow> m = Inl e \<or> (\<exists>x. m = Inr x \<and> f x = Inl e)"
  by (cases m) auto

lemma bindE_assoc: "bindE (bindE m f) g = bindE m (\<lambda>x. bindE (f x) g)"
  by (cases m) simp_all

lemma bindE_cong [fundef_cong]:
  "m = m' \<Longrightarrow> (\<And>x. m' = Inr x \<Longrightarrow> f x = g x) \<Longrightarrow> bindE m f = bindE m' g"
  by (cases m') simp_all

lemma mapE_Inr: "(\<And>x. x \<in> set xs \<Longrightarrow> f x = Inr (g x)) \<Longrightarrow> mapE f xs = Inr (map g xs)"
  by (induction xs) auto

section \<open>Slices and bytes\<close>

text \<open>\<open>xs[a:b]\<close> for indices that are not negative.\<close>

definition pyslice :: "'a list \<Rightarrow> nat \<Rightarrow> nat \<Rightarrow> 'a list" where
  "pyslice xs a b = take (b - a) (drop a xs)"

lemma length_pyslice [simp]: "length (pyslice xs a b) = min (b - a) (length xs - a)"
  by (simp add: pyslice_def)

lemma slice_append_right:
  "pyslice (pre @ xs) (length pre + a) (length pre + b) = pyslice xs a b"
  by (simp add: pyslice_def)

lemma slice_prefix: "b \<le> length xs \<Longrightarrow> pyslice (xs @ ys) a b = pyslice xs a b"
  by (simp add: pyslice_def)

lemma slice_at:
  "i = length pre \<Longrightarrow> j = length pre + length xs \<Longrightarrow> pyslice (pre @ xs @ post) i j = xs"
  by (simp add: pyslice_def)

lemma slice_split:
  "a \<le> b \<Longrightarrow> b \<le> c \<Longrightarrow> pyslice xs a b @ pyslice xs b c = pyslice xs a c"
proof -
  assume "a \<le> b" "b \<le> c"
  then have "take (c - a) (drop a xs) = take (b - a) (drop a xs) @ take (c - b) (drop (b - a) (drop a xs))"
    by (metis diff_add_inverse diff_add_inverse2 le_add_diff_inverse2 le_diff_conv2 add.commute diff_diff_add
        Nat.add_diff_assoc2 take_add)
  with \<open>a \<le> b\<close> show ?thesis by (simp add: pyslice_def)
qed

text \<open>A byte built from an integer; every use has an argument below 256.\<close>

definition byte_of :: "nat \<Rightarrow> byte" where
  "byte_of n = word_of_nat n"

lemma unat_byte_of: "unat (byte_of n) = n mod 256"
  by (simp add: byte_of_def unat_of_nat)

lemma unat_byte_of_small [simp]: "n < 256 \<Longrightarrow> unat (byte_of n) = n"
  by (simp add: unat_byte_of)

lemma byte_of_unat [simp]: "byte_of (unat b) = b"
  by (simp add: byte_of_def)

lemma unat_byte_less [simp]: "unat (b :: byte) < 256"
  using unsigned_less [of b, where ?'a = nat] by simp

lemma unat_byte_le [simp]: "unat (b :: byte) \<le> 255"
  using unat_byte_less [of b] by linarith

subsection \<open>Big-endian integers\<close>

definition from_be :: "bytes \<Rightarrow> nat" where
  "from_be bs = foldl (\<lambda>n b. n * 256 + unat b) 0 bs"

text \<open>\<open>n.to_bytes(len, "big")\<close>: \<open>OverflowError\<close> when the number does not fit.\<close>

fun be_digits :: "nat \<Rightarrow> nat \<Rightarrow> bytes" where
  "be_digits 0 n = []"
| "be_digits (Suc k) n = be_digits k (n div 256) @ [byte_of (n mod 256)]"

definition to_be :: "nat \<Rightarrow> nat \<Rightarrow> bytes result" where
  "to_be len n = (if n < 256 ^ len then Inr (be_digits len n) else Inl OverflowError)"

lemma length_be_digits [simp]: "length (be_digits k n) = k"
  by (induction k arbitrary: n) auto

lemma be_digits_2: "be_digits 2 n = [byte_of (n div 256 mod 256), byte_of (n mod 256)]"
  by (simp add: numeral_2_eq_2)

lemma from_be_Nil [simp]: "from_be [] = 0"
  by (simp add: from_be_def)

lemma from_be_snoc [simp]: "from_be (bs @ [b]) = from_be bs * 256 + unat b"
  by (simp add: from_be_def)

lemma from_be_digits: "from_be (be_digits k n) = n mod 256 ^ k"
proof (induction k arbitrary: n)
  case (Suc k)
  have "n mod 256 ^ Suc k = (n div 256) mod 256 ^ k * 256 + n mod 256"
    by (metis mod_mult2_eq add.commute mult.commute power_Suc)
  then show ?case by (simp add: Suc)
qed simp

lemma from_be_digits_small [simp]: "n < 256 ^ k \<Longrightarrow> from_be (be_digits k n) = n"
  by (simp add: from_be_digits)

lemma from_be_bound: "from_be bs < 256 ^ length bs"
proof (induction bs rule: rev_induct)
  case (snoc b bs)
  have "from_be bs * 256 + unat b < (from_be bs + 1) * 256" by simp
  also have "\<dots> \<le> 256 ^ length bs * 256"
    using snoc by (intro mult_right_mono) auto
  finally show ?case by (simp add: mult.commute)
qed simp

subsection \<open>Masks on natural numbers\<close>

lemma and_mask_nat: "(n :: nat) AND mask k = n mod 2 ^ k"
  by (simp add: take_bit_eq_mod flip: take_bit_eq_mask)

lemma nat_masks:
  "(n :: nat) AND 0x03 = n mod 4"
  "n AND 0x0F = n mod 16"
  "n AND 0x1F = n mod 32"
  "n AND 0x3F = n mod 64"
  "n AND 0x7F = n mod 128"
  "n AND 0xFF = n mod 256"
  using and_mask_nat [of n 2] and_mask_nat [of n 4] and_mask_nat [of n 5]
    and_mask_nat [of n 6] and_mask_nat [of n 7] and_mask_nat [of n 8]
  by (simp_all add: mask_eq_exp_minus_1)

text \<open>Setting bits above a number that does not reach them is addition.\<close>

lemma or_shifted_nat:
  assumes "(a :: nat) < 2 ^ k"
  shows "a OR (b * 2 ^ k) = a + b * 2 ^ k"
proof -
  have "a = take_bit k a" using assms by (simp add: take_bit_nat_eq_self)
  moreover have "b * 2 ^ k = push_bit k b" by (simp add: push_bit_eq_mult)
  ultimately have "\<not> bit a n \<or> \<not> bit (b * 2 ^ k) n" for n
    by (metis bit_push_bit_iff_nat bit_take_bit_iff not_le)
  then show ?thesis by (simp add: disjunctive_add)
qed

lemma and_or_distrib_nat: "((x :: nat) OR y) AND z = (x AND z) OR (y AND z)"
  by (rule bit_eqI) (auto simp: bit_simps)

text \<open>Testing one bit.\<close>

lemma and_pow_nat: "(n :: nat) AND 2 ^ k = (if odd (n div 2 ^ k) then 2 ^ k else 0)"
proof -
  have "bit (n AND 2 ^ k) m \<longleftrightarrow> bit (if odd (n div 2 ^ k) then 2 ^ k else (0 :: nat)) m" for m
    by (cases "m = k") (auto simp: bit_and_iff bit_exp_iff simp flip: bit_iff_odd)
  then show ?thesis by (rule bit_eqI)
qed

lemma and_128: "n < 256 \<Longrightarrow> (n :: nat) AND 128 = (if n < 128 then 0 else 128)"
proof -
  assume "n < 256"
  then have "n div 128 = (if n < 128 then 0 else 1)" by auto
  then show ?thesis using and_pow_nat [of n 7] by simp
qed

section \<open>Text\<close>

text \<open>The decimal digits of an \<open>int\<close> that is not negative, as an f-string prints it.\<close>

definition digit_char :: "nat \<Rightarrow> char" where
  "digit_char n = char_of (48 + n)"

fun decimal :: "nat \<Rightarrow> string" where
  "decimal n = (if n < 10 then [digit_char n] else decimal (n div 10) @ [digit_char (n mod 10)])"

declare decimal.simps [simp del]

end
