(* ===== verification/Interfaces.thy ===== *)
theory Interfaces
  imports Prelude
begin

text \<open>
  The interfaces several components share, each a locale with the laws its providers promise:
  \<open>framed_loop\<close> (a \<open>while at < len(data)\<close> reader over self-delimiting units),
  \<open>fragment_receiver\<close> (a receiver that joins start, middle and end fragments) and
  \<open>incremental_reader\<close> (a reader fed with whatever a pipe delivered). The clients' lemmas are
  proved here once; the components interpret the locales on the models of the code.
\<close>

section \<open>Loops over self-delimiting units\<close>

text \<open>
  \<open>loop data at\<close> reads units from offset \<open>at\<close> to the end, \<open>step data at\<close> reads one and says
  where the next starts. \<open>enc a\<close> is the encoding of unit \<open>a\<close>, \<open>out a\<close> what the loop collects
  for it (nothing for a unit the code skips).
\<close>

locale framed_loop =
  fixes loop :: "bytes \<Rightarrow> nat \<Rightarrow> 'b list result"
    and step :: "bytes \<Rightarrow> nat \<Rightarrow> ('b list \<times> nat) result"
    and enc :: "'a \<Rightarrow> bytes"
    and out :: "'a \<Rightarrow> 'b list"
    and valid :: "'a \<Rightarrow> bool"
  assumes loop_unfold: "loop data at =
      (if at < length data
       then bindE (step data at) (\<lambda>(us, at'). bindE (loop data at') (\<lambda>r. Inr (us @ r)))
       else Inr [])"
    and enc_nonempty: "valid a \<Longrightarrow> enc a \<noteq> []"
    and step_enc: "valid a \<Longrightarrow>
      step (pre @ enc a @ post) (length pre) = Inr (out a, length pre + length (enc a))"
begin

lemma loop_end: "length data \<le> at \<Longrightarrow> loop data at = Inr []"
  by (subst loop_unfold) simp

lemma loop_concat_from:
  "list_all valid xs \<Longrightarrow>
    loop (pre @ concat (map enc xs)) (length pre) = Inr (concat (map out xs))"
proof (induction xs arbitrary: pre)
  case Nil
  then show ?case by (simp add: loop_end)
next
  case (Cons x xs)
  then have "valid x" "list_all valid xs" by simp_all
  have rest: "loop (pre @ enc x @ concat (map enc xs)) (length pre + length (enc x)) =
      Inr (concat (map out xs))"
    using Cons.IH [OF \<open>list_all valid xs\<close>, of "pre @ enc x"] by simp
  show ?case
    using enc_nonempty [OF \<open>valid x\<close>] step_enc [OF \<open>valid x\<close>, of pre "concat (map enc xs)"] rest
    by (subst loop_unfold) simp
qed

lemma loop_concat: "list_all valid xs \<Longrightarrow> loop (concat (map enc xs)) 0 = Inr (concat (map out xs))"
  using loop_concat_from [of xs "[]"] by simp

end

section \<open>Fragments and their receiver\<close>

text \<open>
  The fragments of a body in order; the first carries the start flag and the last the end flag,
  as \<open>for k, chunk in enumerate(chunks)\<close> with \<open>k == 0\<close> and \<open>k == len(chunks) - 1\<close> sets them.
\<close>

fun flag_fragments :: "(bool \<Rightarrow> bool \<Rightarrow> bytes \<Rightarrow> bytes) \<Rightarrow> bool \<Rightarrow> bytes list \<Rightarrow> bytes list" where
  "flag_fragments frag first [] = []"
| "flag_fragments frag first (c # cs) = frag first (cs = []) c # flag_fragments frag False cs"

lemma flag_fragments_elem:
  "p \<in> set (flag_fragments frag first cs) \<Longrightarrow> \<exists>s e x. x \<in> set cs \<and> p = frag s e x"
proof (induction cs arbitrary: first)
  case (Cons c cs)
  then show ?case by (cases "p = frag first (cs = []) c") (simp, blast, fastforce)
qed simp

lemma length_flag_fragments [simp]: "length (flag_fragments frag first cs) = length cs"
  by (induction cs arbitrary: first) auto

text \<open>\<open>[body[i : i + sz] for i in range(0, len(body), sz)]\<close>, for a positive sz.\<close>

function chunks :: "nat \<Rightarrow> bytes \<Rightarrow> bytes list" where
  "chunks sz body =
     (if body = [] \<or> sz = 0 then [] else take sz body # chunks sz (drop sz body))"
  by pat_completeness auto
termination
  by (relation "measure (\<lambda>(sz, body). length body)") auto

declare chunks.simps [simp del]

lemma concat_chunks: "0 < sz \<Longrightarrow> concat (chunks sz body) = body"
proof (induction sz body rule: chunks.induct)
  case (1 sz body)
  then show ?case by (subst chunks.simps) simp
qed

lemma chunks_bound: "c \<in> set (chunks sz body) \<Longrightarrow> length c \<le> sz \<and> c \<noteq> []"
proof (induction sz body rule: chunks.induct)
  case (1 sz body)
  then show ?case by (cases "body = [] \<or> sz = 0") (auto simp: chunks.simps [of sz body])
qed

lemma chunks_two:
  assumes "0 < sz" and "sz < length body"
  obtains c d cs where "chunks sz body = c # d # cs"
proof -
  from assms have "body \<noteq> []" "drop sz body \<noteq> []" by auto
  with assms have "chunks sz body =
      take sz body # take sz (drop sz body) # chunks sz (drop sz (drop sz body))"
    by (simp add: chunks.simps [of sz body] chunks.simps [of sz "drop sz body"])
  then show thesis by (rule that)
qed

locale fragment_receiver =
  fixes recv :: "bytes option \<times> bytes list \<Rightarrow> bytes \<Rightarrow> bytes option \<times> bytes list"
    and frag :: "bool \<Rightarrow> bool \<Rightarrow> bytes \<Rightarrow> bytes"
    and head :: bytes
  assumes recv_start: "recv (acc, units) (frag True False c) = (Some (head @ c), units)"
    and recv_middle: "recv (Some u, units) (frag False False c) = (Some (u @ c), units)"
    and recv_end: "recv (Some u, units) (frag False True c) = (None, units @ [u @ c])"
begin

lemma recv_rest:
  "cs \<noteq> [] \<Longrightarrow>
    foldl recv (Some u, units) (flag_fragments frag False cs) = (None, units @ [u @ concat cs])"
proof (induction cs arbitrary: u)
  case (Cons c cs)
  then show ?case by (cases "cs = []") (simp_all add: recv_middle recv_end)
qed simp

lemma recv_fragments:
  "foldl recv (acc, units) (flag_fragments frag True (c # d # cs)) =
    (None, units @ [head @ concat (c # d # cs)])"
  using recv_rest [of "d # cs" "head @ c"] by (simp add: recv_start)

end

section \<open>Incremental readers\<close>

text \<open>
  A reader takes whatever arrived and returns its new state and the events that completed, or the
  error it raises. \<open>feed_append\<close> is the promise that the cut between two deliveries does not matter;
  with it the outcome of any run depends only on the bytes, never on how the pipe cut them. \<open>fits\<close>
  is what a delivery must satisfy (a bounded buffer).
\<close>

fun feed_all :: "('s \<Rightarrow> 'i list \<Rightarrow> ('s \<times> 'e list) result) \<Rightarrow> 's \<Rightarrow> 'i list list \<Rightarrow> ('s \<times> 'e list) result" where
  "feed_all feed s [] = Inr (s, [])"
| "feed_all feed s (x # xs) =
     bindE (feed s x) (\<lambda>(s1, es1). bindE (feed_all feed s1 xs) (\<lambda>(s2, es2). Inr (s2, es1 @ es2)))"

locale incremental_reader =
  fixes feed :: "'s \<Rightarrow> 'i list \<Rightarrow> ('s \<times> 'e list) result"
    and fits :: "'s \<Rightarrow> 'i list \<Rightarrow> bool"
    and inv :: "'s \<Rightarrow> bool"
  assumes feed_nil: "inv s \<Longrightarrow> feed s [] = Inr (s, [])"
    and feed_inv: "inv s \<Longrightarrow> feed s x = Inr (s', es) \<Longrightarrow> inv s'"
    and fits_append: "fits s (x @ y) \<Longrightarrow> fits s x \<and> (\<forall>s' es. feed s x = Inr (s', es) \<longrightarrow> fits s' y)"
    and feed_append: "inv s \<Longrightarrow> fits s (x @ y) \<Longrightarrow>
      feed s (x @ y) = bindE (feed s x) (\<lambda>(s1, es1). bindE (feed s1 y) (\<lambda>(s2, es2). Inr (s2, es1 @ es2)))"
begin

lemma feed_concat: "inv s \<Longrightarrow> fits s (concat xs) \<Longrightarrow> feed_all feed s xs = feed s (concat xs)"
proof (induction xs arbitrary: s)
  case Nil
  then show ?case by (simp add: feed_nil)
next
  case (Cons x xs)
  from Cons.prems have fits: "fits s (x @ concat xs)" by simp
  show ?case
  proof (cases "feed s x")
    case (Inl e)
    then show ?thesis using feed_append [OF Cons.prems(1) fits] by simp
  next
    case (Inr r)
    obtain s1 es1 where r: "r = (s1, es1)" by (cases r)
    have "feed_all feed s1 xs = feed s1 (concat xs)"
      using Cons.prems(1) Inr r fits_append [OF fits] by (intro Cons.IH) (auto intro: feed_inv)
    then show ?thesis using feed_append [OF Cons.prems(1) fits] Inr r by simp
  qed
qed

lemma feed_cut_independent:
  "inv s \<Longrightarrow> fits s (concat xs) \<Longrightarrow> concat xs = concat ys \<Longrightarrow>
    feed_all feed s xs = feed_all feed s ys"
  using feed_concat by simp

end

end
