(* ===== verification/RtpUnits.thy ===== *)
theory RtpUnits
  imports Interfaces
begin

text \<open>
  The helpers of \<open>stream/whip/payload.py\<close>: LEB128 numbers and the length-prefixed NAL units of an
  AVC/HEVC sample.
\<close>

definition MAX_PAYLOAD :: nat where
  "MAX_PAYLOAD = 1200"

section \<open>LEB128\<close>

text \<open>The callers pass lengths, so the argument is never negative (the loop would not end).\<close>

function leb128 :: "nat \<Rightarrow> bytes" where
  "leb128 v =
     (let b = v AND 0x7F; v' = drop_bit 7 v
      in if v' \<noteq> 0 then byte_of (b OR 0x80) # leb128 v' else [byte_of b])"
  by pat_completeness auto
termination
  by (relation "measure id") (auto simp: drop_bit_eq_div div_eq_0_iff)

declare leb128.simps [simp del]

text \<open>\<open>for k in range(8)\<close>; the last argument counts the iterations left.\<close>

fun read_leb_loop :: "bytes \<Rightarrow> nat \<Rightarrow> nat \<Rightarrow> nat \<Rightarrow> nat \<Rightarrow> (nat \<times> nat) result" where
  "read_leb_loop data at v k 0 = Inl (PayloadError ''LEB128 number is longer than 8 bytes'')"
| "read_leb_loop data at v k (Suc n) =
     (if length data \<le> at + k then Inl (PayloadError ''truncated LEB128 number'')
      else let b = unat (data ! (at + k));
               v' = v OR push_bit (7 * k) (b AND 0x7F)
           in if b AND 0x80 = 0 then Inr (v', k + 1) else read_leb_loop data at v' (k + 1) n)"

definition read_leb128 :: "bytes \<Rightarrow> nat \<Rightarrow> (nat \<times> nat) result" where
  "read_leb128 data at = read_leb_loop data at 0 0 8"

lemma leb128_unfold:
  "leb128 v = (if v < 128 then [byte_of v] else byte_of (v mod 128 + 128) # leb128 (v div 128))"
proof -
  have "(v mod 128) OR 128 = v mod 128 + 128"
    using or_shifted_nat [of "v mod 128" 7 1] by simp
  then show ?thesis
    by (subst leb128.simps) (auto simp: nat_masks drop_bit_eq_div Let_def div_eq_0_iff)
qed

lemma leb128_nonempty [simp]: "leb128 v \<noteq> []"
  by (subst leb128_unfold) simp

lemma leb128_length_pos [simp]: "Suc 0 \<le> length (leb128 v)"
  by (simp add: Suc_le_eq)

lemma read_leb_step:
  "read_leb_loop data at v k (Suc n) =
    (if length data \<le> at + k then Inl (PayloadError ''truncated LEB128 number'')
     else let b = unat (data ! (at + k)); v' = v OR (b mod 128 * 2 ^ (7 * k))
          in if b < 128 then Inr (v', k + 1) else read_leb_loop data at v' (k + 1) n)"
  by (simp add: Let_def and_128 nat_masks push_bit_eq_mult)

declare read_leb_loop.simps(2) [simp del]

lemma read_leb_loop_leb128:
  assumes "at + k = length pre" and "acc < 2 ^ (7 * k)" and "v < 2 ^ (7 * n)" and "0 < n"
  shows "read_leb_loop (pre @ leb128 v @ post) at acc k n =
    Inr (acc + v * 2 ^ (7 * k), k + length (leb128 v))"
  using assms
proof (induction n arbitrary: pre acc k v)
  case (Suc n)
  have nth: "(pre @ b # xs) ! (at + k) = b" for b xs
    using Suc.prems(1) by simp
  note acc_or = or_shifted_nat [OF Suc.prems(2)]
  show ?case
  proof (cases "v < 128")
    case True
    then show ?thesis
      using Suc.prems(1) nth [of "byte_of v" post]
      by (simp add: leb128_unfold [of v] read_leb_step Let_def acc_or)
  next
    case False
    with Suc.prems(3) have "0 < n" by (cases n) auto
    have v': "v div 128 < 2 ^ (7 * n)"
      using Suc.prems(3) by (simp add: power_add mult.commute less_mult_imp_div_less)
    have "acc + v mod 128 * 2 ^ (7 * k) < 2 ^ (7 * k) + 127 * 2 ^ (7 * k)"
      using Suc.prems(2) by (intro add_less_le_mono mult_right_mono) auto
    then have acc': "acc + v mod 128 * 2 ^ (7 * k) < 2 ^ (7 * Suc k)"
      by (simp add: power_add)
    have pre': "at + Suc k = length (pre @ [byte_of (v mod 128 + 128)])"
      using Suc.prems(1) by simp
    have IH: "read_leb_loop (pre @ byte_of (v mod 128 + 128) # leb128 (v div 128) @ post) at
        (acc + v mod 128 * 2 ^ (7 * k)) (Suc k) n =
        Inr (acc + v mod 128 * 2 ^ (7 * k) + v div 128 * 2 ^ (7 * Suc k),
             Suc k + length (leb128 (v div 128)))"
      using Suc.IH [OF pre' acc' v' \<open>0 < n\<close>] by simp
    have b: "v mod 128 + 128 < 256" by simp
    then have step: "unat (byte_of (v mod 128 + 128)) = v mod 128 + 128" by simp
    have "r + 128 * q = v \<Longrightarrow> r * p + q * (128 * p) = v * p" for r q p :: nat
      by (auto simp: algebra_simps)
    from this [OF mod_mult_div_eq]
    have dm: "v mod 128 * 2 ^ (7 * k) + v div 128 * 2 ^ (7 * Suc k) = v * 2 ^ (7 * k)"
      by (simp add: power_add)
    from False IH dm show ?thesis
      using Suc.prems(1) nth [of "byte_of (v mod 128 + 128)" "leb128 (v div 128) @ post"]
      by (simp add: leb128_unfold [of v] read_leb_step Let_def step acc_or add.assoc)
  qed
qed simp

lemma read_leb128_leb128:
  "v < 2 ^ 56 \<Longrightarrow> read_leb128 (pre @ leb128 v @ post) (length pre) = Inr (v, length (leb128 v))"
  using read_leb_loop_leb128 [of "length pre" 0 pre 0 v 8 post] by (simp add: read_leb128_def)

lemma read_leb_loop_used:
  "read_leb_loop data at acc k n = Inr (v, u) \<Longrightarrow> k < u \<and> at + u \<le> length data \<and> u \<le> k + n"
proof (induction n arbitrary: acc k)
  case (Suc n)
  show ?case
  proof (cases "unat (data ! (at + k)) < 128 \<or> length data \<le> at + k")
    case True
    with Suc.prems show ?thesis by (auto simp: read_leb_step Let_def split: if_splits)
  next
    case False
    with Suc.prems have "read_leb_loop data at
        (acc OR (unat (data ! (at + k)) mod 128 * 2 ^ (7 * k))) (Suc k) n = Inr (v, u)"
      by (simp add: read_leb_step Let_def)
    from Suc.IH [OF this] show ?thesis by simp
  qed
qed simp

lemma read_leb128_used:
  "read_leb128 data at = Inr (v, u) \<Longrightarrow> 0 < u \<and> u \<le> 8 \<and> at + u \<le> length data"
  unfolding read_leb128_def by (drule read_leb_loop_used) simp

lemma length_leb128_bound: "0 < n \<Longrightarrow> v < 2 ^ (7 * n) \<Longrightarrow> length (leb128 v) \<le> n"
proof (induction n arbitrary: v)
  case (Suc n)
  show ?case
  proof (cases "v < 128")
    case True
    then show ?thesis by (simp add: leb128_unfold)
  next
    case False
    with Suc.prems have "0 < n" by (cases n) auto
    moreover have "v div 128 < 2 ^ (7 * n)"
      using Suc.prems by (simp add: power_add mult.commute less_mult_imp_div_less)
    ultimately show ?thesis
      using False Suc.IH [of "v div 128"] by (simp add: leb128_unfold [of v])
  qed
qed simp

lemma length_leb128_mono: "v \<le> w \<Longrightarrow> length (leb128 v) \<le> length (leb128 w)"
proof (induction w arbitrary: v rule: less_induct)
  case (less w)
  show ?case
  proof (cases "v < 128")
    case True
    then show ?thesis by (simp add: leb128_unfold [of v] leb128_unfold [of w])
  next
    case False
    with less.prems have "\<not> w < 128" "w div 128 < w" "v div 128 \<le> w div 128"
      by (auto intro: div_le_mono)
    with False less.IH [of "w div 128" "v div 128"] show ?thesis
      by (simp add: leb128_unfold [of v] leb128_unfold [of w])
  qed
qed

section \<open>Length-prefixed units\<close>

text \<open>One turn of the \<open>while at < len(data)\<close> loop: the units it appends and the next offset.\<close>

definition length_prefixed_step :: "nat \<Rightarrow> bytes \<Rightarrow> nat \<Rightarrow> (bytes list \<times> nat) result" where
  "length_prefixed_step length_size data at =
     (if length data < at + length_size then Inl (PayloadError ''truncated NAL length'')
      else let sz = from_be (pyslice data at (at + length_size)); at' = at + length_size
           in if sz = 0 then Inr ([], at')
              else if length data < at' + sz
                   then Inl (PayloadError ''a NAL unit runs past the end of its sample'')
                   else Inr ([pyslice data at' (at' + sz)], at' + sz))"

text \<open>The guard on \<open>length_size\<close> only makes the loop total: the caller has refused size 0.\<close>

function length_prefixed_loop :: "nat \<Rightarrow> bytes \<Rightarrow> nat \<Rightarrow> bytes list result" where
  "length_prefixed_loop length_size data at =
     (if at < length data \<and> 0 < length_size
      then bindE (length_prefixed_step length_size data at)
             (\<lambda>(us, at'). bindE (length_prefixed_loop length_size data at') (\<lambda>r. Inr (us @ r)))
      else Inr [])"
  by pat_completeness auto
termination
  by (relation "measure (\<lambda>(ls, data, at). length data - at)")
    (auto simp: length_prefixed_step_def Let_def split: if_splits)

declare length_prefixed_loop.simps [simp del]

definition length_prefixed :: "bytes \<Rightarrow> nat \<Rightarrow> bytes list result" where
  "length_prefixed data length_size =
     (if length_size \<notin> {1, 2, 3, 4} then Inl (PayloadError ''NAL length size is not 1 to 4'')
      else length_prefixed_loop length_size data 0)"

text \<open>The encoder's side of the format: each unit after its big-endian length.\<close>

definition prefix_unit :: "nat \<Rightarrow> bytes \<Rightarrow> bytes" where
  "prefix_unit length_size u = be_digits length_size (length u) @ u"

lemma length_prefixed_step_enc:
  assumes "length u < 256 ^ ls"
  shows "length_prefixed_step ls (pre @ prefix_unit ls u @ post) (length pre) =
    Inr (if u = [] then [] else [u], length pre + length (prefix_unit ls u))"
proof -
  have sz: "pyslice (pre @ be_digits ls (length u) @ u @ post) (length pre) (length pre + ls) =
      be_digits ls (length u)"
    by (rule slice_at) simp_all
  have body: "pyslice (pre @ be_digits ls (length u) @ u @ post)
      (length pre + ls) (length pre + ls + length u) = u"
    using slice_at [of "length pre + ls" "pre @ be_digits ls (length u)" _ u post] by simp
  show ?thesis
    using assms by (simp add: length_prefixed_step_def prefix_unit_def Let_def sz body)
qed

interpretation nal_units: framed_loop "length_prefixed_loop (Suc k)" "length_prefixed_step (Suc k)"
    "prefix_unit (Suc k)" "\<lambda>u. if u = [] then [] else [u]" "\<lambda>u. length u < 256 ^ Suc k" for k
proof unfold_locales
  show "length_prefixed_loop (Suc k) data at =
      (if at < length data
       then bindE (length_prefixed_step (Suc k) data at)
              (\<lambda>(us, at'). bindE (length_prefixed_loop (Suc k) data at') (\<lambda>r. Inr (us @ r)))
       else Inr [])" for data at
    by (subst length_prefixed_loop.simps) simp
  show "prefix_unit (Suc k) u \<noteq> []" for u :: bytes
    by (simp add: prefix_unit_def)
qed (rule length_prefixed_step_enc)

lemma concat_nonempty: "concat (map (\<lambda>u. if u = [] then [] else [u]) us) = filter (\<lambda>u. u \<noteq> []) us"
  by (induction us) auto

lemma length_prefixed_concat:
  assumes "length_size \<in> {1, 2, 3, 4}" and "\<forall>u \<in> set us. length u < 256 ^ length_size"
  shows "length_prefixed (concat (map (prefix_unit length_size) us)) length_size =
    Inr (filter (\<lambda>u. u \<noteq> []) us)"
proof -
  from assms(1) obtain k where k: "length_size = Suc k" by (cases length_size) auto
  with assms(2) have "list_all (\<lambda>u. length u < 256 ^ Suc k) us" by (simp add: list_all_iff)
  from nal_units.loop_concat [OF this] assms(1) show ?thesis
    by (simp add: length_prefixed_def k concat_nonempty)
qed

end
