(* ===== verification/RtpNal.thy ===== *)
theory RtpNal
  imports RtpUnits
begin

text \<open>
  The H.264 (RFC 6184, packetization mode 1) and HEVC (RFC 7798) packetizers of
  \<open>stream/whip/payload.py\<close>, and the receivers the two RFCs describe. The receivers are the
  specification: what they rebuild from the packets must be the NAL units that went in.
\<close>

section \<open>H.264\<close>

text \<open>
  \<open>_fu_a\<close>. \<open>size = max_payload - 2\<close> is the step of a \<open>range\<close>: Python refuses step 0 and yields
  nothing for a negative step.
\<close>

definition fu_a_packet :: "bytes \<Rightarrow> bool \<Rightarrow> bool \<Rightarrow> bytes \<Rightarrow> bytes" where
  "fu_a_packet nal first lst chunk =
     (let n0 = unat (nal ! 0); indicator = (n0 AND 0xE0) OR 28; kind = n0 AND 0x1F;
          header = kind OR (if first then 0x80 else 0) OR (if lst then 0x40 else 0)
      in [byte_of indicator, byte_of header] @ chunk)"

definition fu_a :: "bytes \<Rightarrow> nat \<Rightarrow> bytes list result" where
  "fu_a nal max_payload =
     (if nal = [] then Inl IndexError
      else if max_payload = 2 then Inl ValueError
      else if max_payload < 2 then Inr []
      else Inr (flag_fragments (fu_a_packet nal) True (chunks (max_payload - 2) (drop 1 nal))))"

text \<open>The inner \<open>flush\<close>: what it appends to \<open>out\<close> for the current run.\<close>

definition stap_a_unit :: "bytes \<Rightarrow> bytes result" where
  "stap_a_unit n = bindE (to_be 2 (length n)) (\<lambda>l. Inr (l @ n))"

definition flush_h264 :: "bytes list \<Rightarrow> bytes list result" where
  "flush_h264 run =
     (case run of
        [] \<Rightarrow> Inr []
      | [n] \<Rightarrow> Inr [n]
      | _ \<Rightarrow> (let ref = Max (set (map (\<lambda>n. unat (n ! 0) AND 0x60) run))
             in bindE (mapE stap_a_unit run) (\<lambda>us. Inr [byte_of (ref OR 24) # concat us])))"

text \<open>The loop over the NAL units with its local variables \<open>run\<close> and \<open>used\<close>.\<close>

fun packetize_h264_loop :: "nat \<Rightarrow> bytes list \<Rightarrow> bytes list \<Rightarrow> nat \<Rightarrow> bytes list result" where
  "packetize_h264_loop max_payload [] run used = flush_h264 run"
| "packetize_h264_loop max_payload (nal # nals) run used =
     (if nal = [] then packetize_h264_loop max_payload nals run used
      else if max_payload < length nal then
        bindE (flush_h264 run) (\<lambda>a. bindE (fu_a nal max_payload) (\<lambda>b.
          bindE (packetize_h264_loop max_payload nals [] 1) (\<lambda>c. Inr (a @ b @ c))))
      else if run \<noteq> [] \<and> max_payload < used + 2 + length nal then
        bindE (flush_h264 run) (\<lambda>a.
          bindE (packetize_h264_loop max_payload nals [nal] (1 + 2 + length nal)) (\<lambda>c. Inr (a @ c)))
      else packetize_h264_loop max_payload nals (run @ [nal]) (used + 2 + length nal))"

definition packetize_h264 :: "bytes list \<Rightarrow> nat \<Rightarrow> bytes list result" where
  "packetize_h264 nals max_payload = packetize_h264_loop max_payload nals [] 1"

subsection \<open>The receiver of RFC 6184\<close>

text \<open>
  \<open>nal_type\<close> is the low five bits of the first byte: 24 is an aggregation packet, 28 a fragment,
  anything else a NAL unit of its own. The state is the unit being joined and the finished ones.
\<close>

definition nal_type :: "bytes \<Rightarrow> nat" where
  "nal_type p = unat (p ! 0) AND 0x1F"

definition plain_nal :: "bytes \<Rightarrow> bool" where
  "plain_nal n \<longleftrightarrow> n \<noteq> [] \<and> nal_type n \<noteq> 24 \<and> nal_type n \<noteq> 28"

definition fu_a_recv :: "bytes option \<times> bytes list \<Rightarrow> bytes \<Rightarrow> bytes option \<times> bytes list" where
  "fu_a_recv s p =
     (let indicator = unat (p ! 0); header = unat (p ! 1); c = drop 2 p;
          u = (if header AND 0x80 \<noteq> 0
               then byte_of ((indicator AND 0xE0) OR (header AND 0x1F)) # c
               else (case fst s of None \<Rightarrow> c | Some a \<Rightarrow> a @ c))
      in if header AND 0x40 \<noteq> 0 then (None, snd s @ [u]) else (Some u, snd s))"

definition recv_h264 :: "bytes option \<times> bytes list \<Rightarrow> bytes \<Rightarrow> bytes option \<times> bytes list" where
  "recv_h264 s p =
     (if nal_type p = 24 then
        (case length_prefixed (drop 1 p) 2 of Inl _ \<Rightarrow> s | Inr us \<Rightarrow> (None, snd s @ us))
      else if nal_type p = 28 then fu_a_recv s p
      else (None, snd s @ [p]))"

definition depacketize_h264 :: "bytes list \<Rightarrow> bytes list" where
  "depacketize_h264 ps = snd (foldl recv_h264 (None, []) ps)"

subsection \<open>Header bytes\<close>

lemma and_disjoint: "((a :: nat) AND b) AND c = a AND (b AND c)"
  by (simp add: and.assoc)

lemma fu_a_indicator:
  "((n AND 0xE0) OR 28) AND 0x1F = (28 :: nat)"
  "((n AND 0xE0) OR 28) AND 0xE0 = n AND (0xE0 :: nat)"
  by (simp_all add: and_or_distrib_nat and_disjoint)

lemma fu_a_kind:
  "((n AND 0x1F) OR (if s then 0x80 else 0) OR (if e then 0x40 else 0)) AND 0x1F = n AND (0x1F :: nat)"
  "((n AND 0x1F) OR (if s then 0x80 else 0) OR (if e then 0x40 else 0)) AND 0x80 = (if s then 0x80 else 0 :: nat)"
  "((n AND 0x1F) OR (if s then 0x80 else 0) OR (if e then 0x40 else 0)) AND 0x40 = (if e then 0x40 else 0 :: nat)"
  by (simp_all add: and_or_distrib_nat and_disjoint)

lemma or_less_nat: "(a :: nat) < 2 ^ k \<Longrightarrow> b < 2 ^ k \<Longrightarrow> a OR b < 2 ^ k"
  by (simp flip: take_bit_nat_eq_self_iff)

lemma or_less_256: "(a :: nat) < 256 \<Longrightarrow> b < 256 \<Longrightarrow> a OR b < 256"
  using or_less_nat [of a 8 b] by simp

lemma and_less_256: "m < 256 \<Longrightarrow> (n :: nat) AND m < 256"
proof -
  assume "m < 256"
  then have "n AND m = (n AND m) AND 0xFF" by (simp add: and_disjoint nat_masks(6) [of m])
  then show ?thesis by (simp add: nat_masks(6) [of "n AND m"])
qed

lemma split_byte: "n < 256 \<Longrightarrow> ((n AND 0xE0) OR (n AND 0x1F)) = (n :: nat)"
proof -
  assume "n < 256"
  then have "n = n AND 0xFF" by (simp add: nat_masks)
  also have "0xFF = (0xE0 OR 0x1F :: nat)" by simp
  also have "n AND (0xE0 OR 0x1F) = (n AND 0xE0) OR (n AND 0x1F)"
    by (metis and.commute and_or_distrib_nat)
  finally show ?thesis by simp
qed

lemma fu_a_packet_fields:
  "fu_a_packet nal s e c ! 0 = byte_of ((unat (nal ! 0) AND 0xE0) OR 28)"
  "fu_a_packet nal s e c ! Suc 0 = byte_of ((unat (nal ! 0) AND 0x1F) OR (if s then 0x80 else 0) OR (if e then 0x40 else 0))"
  "drop 2 (fu_a_packet nal s e c) = c"
  "length (fu_a_packet nal s e c) = length c + 2"
  by (simp_all add: fu_a_packet_def Let_def)

lemma fu_a_bytes_small:
  "(n AND 0xE0) OR 28 < (256 :: nat)"
  "(n AND 0x1F) OR (if s then 0x80 else 0) OR (if e then 0x40 else 0) < (256 :: nat)"
  by (intro or_less_256 and_less_256; simp)+

lemma fu_a_type: "nal_type (fu_a_packet nal s e c) = 28"
  by (simp add: nal_type_def fu_a_packet_fields fu_a_bytes_small fu_a_indicator)

lemma fu_a_recv_packet:
  "recv_h264 st (fu_a_packet nal s e c) =
    (let u = (if s then nal ! 0 # c else (case fst st of None \<Rightarrow> c | Some a \<Rightarrow> a @ c))
     in if e then (None, snd st @ [u]) else (Some u, snd st))"
proof -
  define p where "p = fu_a_packet nal s e c"
  have "byte_of ((unat (nal ! 0) AND 0xE0) OR (unat (nal ! 0) AND 0x1F)) = nal ! 0"
    by (simp add: split_byte)
  moreover have "unat (p ! 0) AND 0xE0 = unat (nal ! 0) AND 0xE0"
    by (simp add: p_def fu_a_packet_fields fu_a_bytes_small fu_a_indicator)
  moreover have "unat (p ! 1) AND 0x1F = unat (nal ! 0) AND 0x1F"
    "unat (p ! 1) AND 0x80 = (if s then 0x80 else 0)"
    "unat (p ! 1) AND 0x40 = (if e then 0x40 else 0)"
    by (simp_all only: p_def One_nat_def fu_a_packet_fields fu_a_bytes_small fu_a_kind unat_byte_of_small)
  moreover have "nal_type p = 28" "drop 2 p = c"
    by (simp_all add: p_def fu_a_type fu_a_packet_fields(3))
  ultimately have "recv_h264 st p =
      (let u = (if s then nal ! 0 # c else (case fst st of None \<Rightarrow> c | Some a \<Rightarrow> a @ c))
       in if e then (None, snd st @ [u]) else (Some u, snd st))"
    by (simp add: recv_h264_def fu_a_recv_def Let_def del: One_nat_def)
  then show ?thesis by (simp only: p_def)
qed

interpretation fu_a_units: fragment_receiver recv_h264 "fu_a_packet nal" "[nal ! 0]" for nal
  by unfold_locales (simp_all add: fu_a_recv_packet)

subsection \<open>What a flush puts on the wire\<close>

lemma stap_a_unit_prefix: "length n < 65536 \<Longrightarrow> stap_a_unit n = Inr (prefix_unit 2 n)"
  by (simp add: stap_a_unit_def to_be_def prefix_unit_def)

definition stap_ref :: "bytes list \<Rightarrow> nat" where
  "stap_ref run = Max (set (map (\<lambda>n. unat (n ! 0) AND 0x60) run))"

lemma stap_ref_masked: "run \<noteq> [] \<Longrightarrow> \<exists>x. stap_ref run = x AND 0x60"
proof -
  assume "run \<noteq> []"
  then have "stap_ref run \<in> set (map (\<lambda>n. unat (n ! 0) AND 0x60) run)"
    unfolding stap_ref_def by (intro Max_in) auto
  then show ?thesis by auto
qed

lemma flush_h264_many:
  assumes "\<forall>n \<in> set run. length n < 65536" and "2 \<le> length run"
  shows "flush_h264 run = Inr [byte_of (stap_ref run OR 24) # concat (map (prefix_unit 2) run)]"
proof -
  from assms(2) obtain a b ns where run: "run = a # b # ns"
    by (cases run; cases "tl run") auto
  have "mapE stap_a_unit run = Inr (map (prefix_unit 2) run)"
    using assms(1) by (intro mapE_Inr stap_a_unit_prefix) auto
  then show ?thesis by (simp add: flush_h264_def run stap_ref_def Let_def)
qed

lemma flush_h264_recv:
  assumes "\<forall>n \<in> set run. plain_nal n \<and> length n < 65536"
  obtains ps where "flush_h264 run = Inr ps"
    and "foldl recv_h264 (None, units) ps = (None, units @ run)"
proof (cases "2 \<le> length run")
  case True
  obtain x where x: "stap_ref run = x AND 0x60"
    using stap_ref_masked [of run] True by force
  let ?p = "byte_of (stap_ref run OR 24) # concat (map (prefix_unit 2) run)"
  have small: "(x AND 0x60) OR 24 < (256 :: nat)"
    by (intro or_less_256 and_less_256) simp_all
  have type: "nal_type ?p = 24"
    by (simp add: nal_type_def x small and_or_distrib_nat and_disjoint)
  have "filter (\<lambda>u. u \<noteq> []) run = run"
    using assms by (auto simp: plain_nal_def intro!: filter_True)
  then have "length_prefixed (drop 1 ?p) 2 = Inr run"
    using assms length_prefixed_concat [of 2 run] by simp
  with type have "foldl recv_h264 (None, units) [?p] = (None, units @ run)"
    by (simp add: recv_h264_def)
  with flush_h264_many [of run] assms True show thesis by (intro that [of "[?p]"]) auto
next
  case False
  then consider "run = []" | n where "run = [n]" by (cases run; cases "tl run") auto
  then show thesis
  proof cases
    case 1
    then show thesis by (intro that [of "[]"]) (auto simp: flush_h264_def)
  next
    case 2
    with assms show thesis
      by (intro that [of run]) (auto simp: flush_h264_def recv_h264_def plain_nal_def)
  qed
qed

lemma fu_a_roundtrip:
  assumes "3 \<le> mp" and "mp < length nal"
  obtains ps where "fu_a nal mp = Inr ps" and "\<forall>p \<in> set ps. 2 < length p \<and> length p \<le> mp"
    and "foldl recv_h264 (acc, units) ps = (None, units @ [nal])"
proof -
  from assms have "nal \<noteq> []" "0 < mp - 2" "mp - 2 < length (drop 1 nal)" by auto
  then obtain c d cs where ch: "chunks (mp - 2) (drop 1 nal) = c # d # cs"
    using chunks_two by metis
  let ?ps = "flag_fragments (fu_a_packet nal) True (c # d # cs)"
  have "concat (c # d # cs) = drop 1 nal"
    using concat_chunks [OF \<open>0 < mp - 2\<close>, of "drop 1 nal"] ch by simp
  moreover have "[nal ! 0] @ drop 1 nal = nal"
    using \<open>nal \<noteq> []\<close> by (cases nal) auto
  ultimately have recv: "foldl recv_h264 (acc, units) ?ps = (None, units @ [nal])"
    using fu_a_units.recv_fragments [where nal = nal and c = c and d = d and cs = cs] by simp
  have "2 < length p \<and> length p \<le> mp" if "p \<in> set ?ps" for p
  proof -
    from flag_fragments_elem [OF that] obtain s e x where x: "x \<in> set (c # d # cs)" "p = fu_a_packet nal s e x"
      by blast
    with ch have "length x \<le> mp - 2 \<and> x \<noteq> []" by (metis chunks_bound)
    then show ?thesis using assms(1) x(2) by (cases x) (simp_all add: fu_a_packet_fields)
  qed
  with recv show thesis
    using assms \<open>nal \<noteq> []\<close> ch by (intro that [of ?ps]) (auto simp: fu_a_def)
qed

subsection \<open>The packetizer's loop\<close>

text \<open>What holds of \<open>run\<close> and \<open>used\<close> at the head of the loop.\<close>

definition run_inv :: "nat \<Rightarrow> bytes list \<Rightarrow> nat \<Rightarrow> bool" where
  "run_inv mp run used \<longleftrightarrow>
     used = 1 + sum_list (map (\<lambda>n. 2 + length n) run) \<and>
     (\<forall>n \<in> set run. plain_nal n \<and> length n \<le> mp) \<and> (length run \<le> 1 \<or> used \<le> mp)"

lemma length_stap: "length (concat (map (prefix_unit 2) run)) = sum_list (map (\<lambda>n. 2 + length n) run)"
  by (induction run) (simp_all add: prefix_unit_def)

lemma flush_h264_bound:
  assumes "run_inv mp run used" and "mp < 65536" and "flush_h264 run = Inr ps"
  shows "\<forall>p \<in> set ps. p \<noteq> [] \<and> length p \<le> mp"
proof (cases "2 \<le> length run")
  case True
  with assms flush_h264_many [of run] length_stap [of run] show ?thesis
    by (fastforce simp: run_inv_def)
next
  case False
  then consider "run = []" | n where "run = [n]" by (cases run; cases "tl run") auto
  then show ?thesis
    using assms by cases (auto simp: flush_h264_def run_inv_def plain_nal_def)
qed

lemma run_inv_flush:
  assumes "run_inv mp run used" and "mp < 65536"
  obtains ps where "flush_h264 run = Inr ps" and "\<forall>p \<in> set ps. p \<noteq> [] \<and> length p \<le> mp"
    and "foldl recv_h264 (None, units) ps = (None, units @ run)"
proof -
  have "\<forall>n \<in> set run. plain_nal n \<and> length n < 65536"
    using assms by (auto simp: run_inv_def)
  from flush_h264_recv [OF this, of units] obtain ps where
    "flush_h264 run = Inr ps" "foldl recv_h264 (None, units) ps = (None, units @ run)" .
  with flush_h264_bound [OF assms] that show thesis by blast
qed

lemma packetize_h264_loop_ok:
  assumes "3 \<le> mp" and "mp < 65536"
  shows "run_inv mp run used \<Longrightarrow> \<forall>n \<in> set nals. n = [] \<or> plain_nal n \<Longrightarrow>
    \<exists>ps. packetize_h264_loop mp nals run used = Inr ps \<and>
      (\<forall>p \<in> set ps. p \<noteq> [] \<and> length p \<le> mp) \<and>
      foldl recv_h264 (None, units) ps = (None, units @ run @ filter (\<lambda>n. n \<noteq> []) nals)"
proof (induction nals arbitrary: run used units)
  case Nil
  then show ?case using run_inv_flush [OF Nil.prems(1) assms(2), of units] by (metis append_Nil2
      filter.simps(1) packetize_h264_loop.simps(1))
next
  case (Cons nal nals)
  note nals = Cons.prems(2)
  have fresh: "run_inv mp [] 1" by (simp add: run_inv_def)
  consider (empty) "nal = []" | (big) "nal \<noteq> []" "mp < length nal"
    | (cut) "nal \<noteq> []" "length nal \<le> mp" "run \<noteq> []" "mp < used + 2 + length nal"
    | (keep) "nal \<noteq> []" "length nal \<le> mp" "run = [] \<or> used + 2 + length nal \<le> mp"
    by linarith
  then show ?case
  proof cases
    case empty
    then show ?thesis using Cons.IH [OF Cons.prems(1)] nals by simp
  next
    case big
    obtain a where a: "flush_h264 run = Inr a" "\<forall>p \<in> set a. p \<noteq> [] \<and> length p \<le> mp"
      "foldl recv_h264 (None, units) a = (None, units @ run)"
      using run_inv_flush [OF Cons.prems(1) assms(2)] .
    obtain b where b: "fu_a nal mp = Inr b" "\<forall>p \<in> set b. 2 < length p \<and> length p \<le> mp"
      "foldl recv_h264 (None, units @ run) b = (None, (units @ run) @ [nal])"
      using fu_a_roundtrip [OF assms(1) big(2)] .
    obtain c where c: "packetize_h264_loop mp nals [] 1 = Inr c" "\<forall>p \<in> set c. p \<noteq> [] \<and> length p \<le> mp"
      "foldl recv_h264 (None, units @ run @ [nal]) c =
        (None, (units @ run @ [nal]) @ filter (\<lambda>n. n \<noteq> []) nals)"
      using Cons.IH [OF fresh, of "units @ run @ [nal]"] nals by auto
    have "\<forall>p \<in> set (a @ b @ c). p \<noteq> [] \<and> length p \<le> mp" using a(2) b(2) c(2) by force
    with big a b c show ?thesis by simp
  next
    case cut
    obtain a where a: "flush_h264 run = Inr a" "\<forall>p \<in> set a. p \<noteq> [] \<and> length p \<le> mp"
      "foldl recv_h264 (None, units) a = (None, units @ run)"
      using run_inv_flush [OF Cons.prems(1) assms(2)] .
    have "run_inv mp [nal] (1 + 2 + length nal)" using cut nals by (simp add: run_inv_def)
    from Cons.IH [OF this, of "units @ run"] nals obtain c where
      c: "packetize_h264_loop mp nals [nal] (1 + 2 + length nal) = Inr c"
      "\<forall>p \<in> set c. p \<noteq> [] \<and> length p \<le> mp"
      "foldl recv_h264 (None, units @ run) c =
        (None, (units @ run) @ [nal] @ filter (\<lambda>n. n \<noteq> []) nals)" by auto
    with cut a show ?thesis by auto
  next
    case keep
    then have "run_inv mp (run @ [nal]) (used + 2 + length nal)"
      using Cons.prems by (auto simp: run_inv_def)
    from Cons.IH [OF this, of units] nals keep show ?thesis by auto
  qed
qed

text \<open>The packetizer and the receiver of RFC 6184 fit together.\<close>

lemma h264_rebuild:
  assumes "3 \<le> mp" and "mp < 65536" and "\<forall>n \<in> set nals. n = [] \<or> plain_nal n"
  shows "\<exists>ps. packetize_h264 nals mp = Inr ps \<and> (\<forall>p \<in> set ps. p \<noteq> [] \<and> length p \<le> mp) \<and>
    depacketize_h264 ps = filter (\<lambda>n. n \<noteq> []) nals"
proof -
  have "run_inv mp [] 1" by (simp add: run_inv_def)
  from packetize_h264_loop_ok [OF assms(1,2) this assms(3), of "[]"]
  show ?thesis by (auto simp: packetize_h264_def depacketize_h264_def)
qed

text \<open>
  C36. For every access unit whose NAL units are of a type a NAL unit may have on its own (the type
  numbers 24 and 28 belong to the RTP format), the H.264 packetizer never fails, every payload it
  makes is non-empty and fits in \<open>max_payload\<close>, and a receiver rebuilds exactly the non-empty NAL
  units, in order, whatever mixture of STAP-A, single and FU-A packets carried them.
\<close>

theorem h264_packets_rebuild:
  assumes "3 \<le> mp" and "mp < 65536" and "\<forall>n \<in> set nals. n = [] \<or> plain_nal n"
  shows "\<exists>ps. packetize_h264 nals mp = Inr ps \<and> (\<forall>p \<in> set ps. p \<noteq> [] \<and> length p \<le> mp) \<and>
    depacketize_h264 ps = filter (\<lambda>n. n \<noteq> []) nals"
  using assms by (rule h264_rebuild)

text \<open>Its witness: a keyframe with small parameter sets and a slice cut into three fragments.\<close>

theorem h264_packets_rebuild_witness:
  "\<exists>ps. packetize_h264 [[0x67, 1], [0x68], [], [0x65, 1, 2, 3, 4, 5, 6, 7, 8]] 5 = Inr ps \<and>
    (\<forall>p \<in> set ps. p \<noteq> [] \<and> length p \<le> 5) \<and>
    depacketize_h264 ps = [[0x67, 1], [0x68], [0x65, 1, 2, 3, 4, 5, 6, 7, 8]]"
  using h264_packets_rebuild [of 5 "[[0x67, 1], [0x68], [], [0x65, 1, 2, 3, 4, 5, 6, 7, 8]]"]
  by (simp add: plain_nal_def nal_type_def)

end
