(* ===== verification/RtpAv1.thy ===== *)
theory RtpAv1
  imports RtpNal
begin

text \<open>
  AV1 in \<open>stream/whip/payload.py\<close>: \<open>split_obus\<close> (the OBUs of a temporal unit, rewritten without
  their size field), \<open>has_obu\<close>, \<open>packetize_av1\<close> (OBU elements spread over RTP payloads) and the
  receiver of the AOM RTP specification that rebuilds the elements.
\<close>

section \<open>Splitting a temporal unit\<close>

definition OBU_SEQUENCE_HEADER :: nat where "OBU_SEQUENCE_HEADER = 1"
definition OBU_TEMPORAL_DELIMITER :: nat where "OBU_TEMPORAL_DELIMITER = 2"
definition OBU_PADDING :: nat where "OBU_PADDING = 15"

record obu =
  obu_kind :: nat
  obu_element :: bytes

text \<open>
  One turn of the loop. The code's \<open>head & ~0x02\<close> is \<open>head AND 0xFD\<close> for a head below 256.
\<close>

definition split_obus_step :: "bytes \<Rightarrow> nat \<Rightarrow> (obu list \<times> nat) result" where
  "split_obus_step data at =
     (let head = unat (data ! at)
      in if head AND 0x80 \<noteq> 0 then Inl (PayloadError ''AV1 OBU with the forbidden bit set'')
      else let kind = drop_bit 3 head AND 0x0F;
               has_ext = (head AND 0x04 \<noteq> 0);
               has_size = (head AND 0x02 \<noteq> 0);
               header_len = 1 + (if has_ext then 1 else 0)
      in if length data < at + header_len then Inl (PayloadError ''truncated AV1 OBU header'')
      else bindE
        (if has_size
         then bindE (read_leb128 data (at + header_len))
                (\<lambda>(sz, used). Inr (sz, at + header_len + used))
         else Inr (length data - at - header_len, at + header_len))
        (\<lambda>(sz, start).
           if length data < start + sz
           then Inl (PayloadError ''an AV1 OBU runs past the end of its sample'')
           else Inr
             (if kind \<noteq> OBU_TEMPORAL_DELIMITER \<and> kind \<noteq> OBU_PADDING
              then [\<lparr>obu_kind = kind,
                     obu_element = [byte_of (head AND 0xFD)]
                       @ (if has_ext then pyslice data (at + 1) (at + 2) else [])
                       @ pyslice data start (start + sz)\<rparr>]
              else [], start + sz)))"

lemma split_obus_step_progress:
  "split_obus_step data at = Inr (os, at') \<Longrightarrow> at < at' \<and> at' \<le> length data"
  by (auto simp: split_obus_step_def Let_def split: if_splits)

function split_obus_loop :: "bytes \<Rightarrow> nat \<Rightarrow> obu list result" where
  "split_obus_loop data at =
     (if at < length data
      then bindE (split_obus_step data at)
             (\<lambda>(os, at'). bindE (split_obus_loop data at') (\<lambda>r. Inr (os @ r)))
      else Inr [])"
  by pat_completeness auto
termination
  by (relation "measure (\<lambda>(data, at). length data - at)") (auto dest!: split_obus_step_progress)

declare split_obus_loop.simps [simp del]

definition split_obus :: "bytes \<Rightarrow> obu list result" where
  "split_obus data = split_obus_loop data 0"

definition has_obu :: "bytes \<Rightarrow> nat \<Rightarrow> bool result" where
  "has_obu data kind = bindE (split_obus data) (\<lambda>os. Inr (list_ex (\<lambda>o'. obu_kind o' = kind) os))"

section \<open>Packing elements into payloads\<close>

text \<open>\<open>[z, y, [element bytes], used]\<close>.\<close>

record av1_packet =
  pkt_z :: bool
  pkt_y :: bool
  pkt_elements :: "bytes list"
  pkt_used :: nat

definition fresh_packet :: av1_packet where
  "fresh_packet = \<lparr>pkt_z = False, pkt_y = False, pkt_elements = [], pkt_used = 1\<rparr>"

definition av1_flush :: "av1_packet list \<Rightarrow> av1_packet \<Rightarrow> av1_packet list" where
  "av1_flush packets cur = (if pkt_elements cur \<noteq> [] then packets @ [cur] else packets)"

text \<open>\<open>while chunk + len(leb128(chunk)) > room: chunk -= 1\<close>.\<close>

fun shrink_chunk :: "nat \<Rightarrow> nat \<Rightarrow> nat" where
  "shrink_chunk room 0 = 0"
| "shrink_chunk room (Suc c) =
     (if room < Suc c + length (leb128 (Suc c)) then shrink_chunk room c else Suc c)"

definition av1_chunk :: "nat \<Rightarrow> nat" where
  "av1_chunk room = shrink_chunk room (room - length (leb128 room))"

text \<open>
  The inner \<open>while off < len(element)\<close>. \<open>None\<close> is a loop that does not end, which the code allows
  for a \<open>max_payload\<close> too small to hold a fragment.
\<close>

partial_function (option) av1_element ::
    "nat \<Rightarrow> bytes \<Rightarrow> nat \<Rightarrow> av1_packet list \<Rightarrow> av1_packet \<Rightarrow> (av1_packet list \<times> av1_packet) option" where
  "av1_element max_payload element off packets cur =
     (if off < length element then
        let room = int max_payload - int (pkt_used cur); remaining = length element - off
        in if int (remaining + length (leb128 remaining)) \<le> room then
             Some (packets, cur\<lparr>pkt_elements := pkt_elements cur @ [drop off element],
                                pkt_used := pkt_used cur + remaining + length (leb128 remaining)\<rparr>)
           else if room < 16 then
             av1_element max_payload element off (av1_flush packets cur) fresh_packet
           else
             let chunk = av1_chunk (nat room);
                 full = cur\<lparr>pkt_elements := pkt_elements cur @ [pyslice element off (off + chunk)],
                            pkt_y := True\<rparr>
             in av1_element max_payload element (off + chunk) (av1_flush packets full)
                  (fresh_packet\<lparr>pkt_z := True\<rparr>)
      else Some (packets, cur))"

fun av1_elements ::
    "nat \<Rightarrow> obu list \<Rightarrow> av1_packet list \<Rightarrow> av1_packet \<Rightarrow> (av1_packet list \<times> av1_packet) option" where
  "av1_elements max_payload [] packets cur = Some (packets, cur)"
| "av1_elements max_payload (o' # os) packets cur =
     (case av1_element max_payload (obu_element o') 0 packets cur of
        None \<Rightarrow> None
      | Some (packets', cur') \<Rightarrow> av1_elements max_payload os packets' cur')"

definition av1_body :: "bytes list \<Rightarrow> bytes" where
  "av1_body es = concat (map (\<lambda>e. leb128 (length e) @ e) es)"

definition av1_render :: "bool \<Rightarrow> nat \<Rightarrow> av1_packet \<Rightarrow> bytes" where
  "av1_render new_sequence k p =
     (let head = (if pkt_z p then 0x80 else 0) OR (if pkt_y p then 0x40 else 0)
                   OR (if new_sequence \<and> k = 0 then 0x08 else 0)
      in byte_of head # av1_body (pkt_elements p))"

definition packetize_av1 :: "obu list \<Rightarrow> bool \<Rightarrow> nat \<Rightarrow> bytes list option" where
  "packetize_av1 obus new_sequence max_payload =
     (case av1_elements max_payload obus [] fresh_packet of
        None \<Rightarrow> None
      | Some (packets, cur) \<Rightarrow>
          Some (map (\<lambda>(k, p). av1_render new_sequence k p) (enumerate 0 (av1_flush packets cur))))"

section \<open>The receiver of the AOM specification\<close>

definition av1_element_step :: "bytes \<Rightarrow> nat \<Rightarrow> (bytes list \<times> nat) result" where
  "av1_element_step data at =
     bindE (read_leb128 data at) (\<lambda>(sz, used).
       if length data < at + used + sz then Inl (PayloadError ''element past the packet'')
       else Inr ([pyslice data (at + used) (at + used + sz)], at + used + sz))"

function av1_elements_of :: "bytes \<Rightarrow> nat \<Rightarrow> bytes list result" where
  "av1_elements_of data at =
     (if at < length data
      then bindE (av1_element_step data at)
             (\<lambda>(us, at'). bindE (av1_elements_of data at') (\<lambda>r. Inr (us @ r)))
      else Inr [])"
  by pat_completeness auto
termination
  by (relation "measure (\<lambda>(data, at). length data - at)")
    (auto simp: av1_element_step_def dest!: read_leb128_used split: if_splits)

declare av1_elements_of.simps [simp del]

text \<open>The elements of one packet joined to a pending fragment (Z), its last left open (Y).\<close>

fun join_elements :: "bytes option \<times> bytes list \<Rightarrow> bool \<Rightarrow> bool \<Rightarrow> bytes list \<Rightarrow> bytes option \<times> bytes list" where
  "join_elements (pending, done) z y es =
     (let es' = (case (pending, es) of (Some a, e # r) \<Rightarrow> if z then (a @ e) # r else es | _ \<Rightarrow> es)
      in if y \<and> es' \<noteq> [] then (Some (last es'), done @ butlast es') else (None, done @ es'))"

definition recv_av1 :: "bytes option \<times> bytes list \<Rightarrow> bytes \<Rightarrow> bytes option \<times> bytes list" where
  "recv_av1 s p =
     (case av1_elements_of (drop 1 p) 0 of
        Inl _ \<Rightarrow> (None, snd s)
      | Inr es \<Rightarrow> join_elements s (unat (p ! 0) AND 0x80 \<noteq> 0) (unat (p ! 0) AND 0x40 \<noteq> 0) es)"

definition depacketize_av1 :: "bytes list \<Rightarrow> bytes list" where
  "depacketize_av1 ps = snd (foldl recv_av1 (None, []) ps)"

lemma av1_element_step_enc:
  assumes "length e < 2 ^ 56"
  shows "av1_element_step (pre @ (leb128 (length e) @ e) @ post) (length pre) =
    Inr ([e], length pre + length (leb128 (length e) @ e))"
proof -
  have "pyslice (pre @ leb128 (length e) @ e @ post) (length pre + length (leb128 (length e)))
      (length pre + length (leb128 (length e)) + length e) = e"
    using slice_at [of _ "pre @ leb128 (length e)" _ e post] by simp
  then show ?thesis
    using read_leb128_leb128 [OF assms, of pre "e @ post"] by (simp add: av1_element_step_def)
qed

interpretation av1_units: framed_loop av1_elements_of av1_element_step
    "\<lambda>e. leb128 (length e) @ e" "\<lambda>e. [e]" "\<lambda>e. length e < 2 ^ 56"
  by unfold_locales (subst av1_elements_of.simps, simp, simp, rule av1_element_step_enc)

lemma av1_elements_of_body:
  "\<forall>e \<in> set es. length e < 2 ^ 56 \<Longrightarrow> av1_elements_of (av1_body es) 0 = Inr es"
  using av1_units.loop_concat [of es] by (simp add: av1_body_def list_all_iff)

lemma av1_render_bits:
  "unat (av1_render n k p ! 0) AND 0x80 = (if pkt_z p then 0x80 else 0)"
  "unat (av1_render n k p ! 0) AND 0x40 = (if pkt_y p then 0x40 else 0)"
  "unat (av1_render n k p ! 0) AND 0x08 = (if n \<and> k = 0 then 0x08 else 0)"
  by (simp_all add: av1_render_def Let_def)

lemma recv_av1_render:
  "\<forall>e \<in> set (pkt_elements p). length e < 2 ^ 56 \<Longrightarrow>
    recv_av1 s (av1_render n k p) = join_elements s (pkt_z p) (pkt_y p) (pkt_elements p)"
proof -
  assume "\<forall>e \<in> set (pkt_elements p). length e < 2 ^ 56"
  then have "av1_elements_of (drop 1 (av1_render n k p)) 0 = Inr (pkt_elements p)"
    by (simp add: av1_elements_of_body av1_render_def Let_def)
  then show ?thesis unfolding recv_av1_def av1_render_bits by simp
qed

section \<open>Fragments fit\<close>

lemma shrink_chunk_fits:
  assumes "1 \<le> room"
  shows "shrink_chunk room c + length (leb128 (shrink_chunk room c)) \<le> room"
proof (induction c)
  case 0
  then show ?case using assms by (simp add: leb128_unfold)
next
  case (Suc c)
  then show ?case by simp
qed

lemma shrink_chunk_pos: "2 \<le> room \<Longrightarrow> 0 < c \<Longrightarrow> 0 < shrink_chunk room c"
proof (induction c)
  case (Suc c)
  then show ?case by (cases c) (auto simp: leb128_unfold)
qed simp

lemma av1_chunk_ok:
  assumes "16 \<le> room"
  shows "0 < av1_chunk room" and "av1_chunk room + length (leb128 (av1_chunk room)) \<le> room"
proof -
  have "room < 2 ^ room" by (rule less_exp)
  also have "(2 :: nat) ^ room \<le> 2 ^ (7 * (room - 1))"
    using assms by (intro power_increasing) auto
  finally have "length (leb128 room) \<le> room - 1"
    using assms by (intro length_leb128_bound) auto
  then show "0 < av1_chunk room"
    using assms unfolding av1_chunk_def by (intro shrink_chunk_pos) auto
  show "av1_chunk room + length (leb128 (av1_chunk room)) \<le> room"
    using assms unfolding av1_chunk_def by (intro shrink_chunk_fits) auto
qed

text \<open>A chunk is shorter than what is left of an element that did not fit.\<close>

lemma chunk_less_remaining:
  assumes "room < remaining + length (leb128 remaining)" and "c + length (leb128 c) \<le> room"
  shows "c < remaining"
proof (rule ccontr)
  assume "\<not> c < remaining"
  then have "length (leb128 remaining) \<le> length (leb128 c)" by (intro length_leb128_mono) simp
  with assms \<open>\<not> c < remaining\<close> show False by simp
qed

section \<open>The packer's invariant\<close>

definition body_size :: "bytes list \<Rightarrow> nat" where
  "body_size es = sum_list (map (\<lambda>e. length (leb128 (length e)) + length e) es)"

lemma length_av1_body: "length (av1_body es) = body_size es"
  by (induction es) (simp_all add: av1_body_def body_size_def)

text \<open>A finished packet: it holds an element and fits. \<open>small\<close> keeps the sizes in LEB128's range.\<close>

definition packet_ok :: "nat \<Rightarrow> av1_packet \<Rightarrow> bool" where
  "packet_ok mp p \<longleftrightarrow> pkt_elements p \<noteq> [] \<and> 1 + body_size (pkt_elements p) \<le> mp"

text \<open>The packet being filled.\<close>

definition cur_ok :: "nat \<Rightarrow> av1_packet \<Rightarrow> bool" where
  "cur_ok mp cur \<longleftrightarrow> \<not> pkt_y cur \<and> pkt_used cur = 1 + body_size (pkt_elements cur) \<and>
     pkt_used cur \<le> mp \<and> (pkt_elements cur = [] \<longrightarrow> \<not> pkt_z cur)"

definition join_packet :: "bytes option \<times> bytes list \<Rightarrow> av1_packet \<Rightarrow> bytes option \<times> bytes list" where
  "join_packet s p = join_elements s (pkt_z p) (pkt_y p) (pkt_elements p)"

definition received :: "av1_packet list \<Rightarrow> bytes option \<times> bytes list" where
  "received packets = foldl join_packet (None, []) packets"

text \<open>What the receiver has once the packet being filled arrives as it is.\<close>

definition view :: "av1_packet list \<Rightarrow> av1_packet \<Rightarrow> bytes option \<times> bytes list" where
  "view packets cur = received (av1_flush packets cur)"

lemma received_snoc [simp]: "received (packets @ [p]) = join_packet (received packets) p"
  by (simp add: received_def)

lemma join_elements_snoc:
  "es \<noteq> [] \<Longrightarrow> snd (join_elements s z False es) @ [e] = snd (join_elements s z False (es @ [e]))"
  "es \<noteq> [] \<Longrightarrow> join_elements s z True (es @ [e]) = (Some e, snd (join_elements s z False es))"
  by (cases s; cases es; simp split: option.splits add: butlast_append)+

lemma fst_join_open [simp]: "fst (join_elements s z False es) = None"
  by (cases s) simp

lemma cur_fresh: "1 \<le> mp \<Longrightarrow> cur_ok mp fresh_packet"
  by (simp add: cur_ok_def fresh_packet_def body_size_def)

lemma body_size_snoc: "body_size (es @ [e]) = body_size es + length (leb128 (length e)) + length e"
  by (simp add: body_size_def)

text \<open>Appending a whole element to the packet being filled.\<close>

lemma view_append:
  assumes "view packets cur = (None, done)" and "cur_ok mp cur"
  shows "view packets (cur\<lparr>pkt_elements := pkt_elements cur @ [e], pkt_used := u\<rparr>) = (None, done @ [e])"
proof (cases "pkt_elements cur = []")
  case True
  with assms show ?thesis
    by (simp add: view_def av1_flush_def join_packet_def cur_ok_def split: option.splits)
next
  case False
  with assms have joined: "join_elements (received packets) (pkt_z cur) False (pkt_elements cur) = (None, done)"
    by (simp add: view_def av1_flush_def join_packet_def cur_ok_def)
  from join_elements_snoc(1) [OF False, of "received packets" "pkt_z cur" e] joined
  have "join_elements (received packets) (pkt_z cur) False (pkt_elements cur @ [e]) = (None, done @ [e])"
    by (intro prod_eqI) simp_all
  with assms(2) show ?thesis by (simp add: view_def av1_flush_def join_packet_def cur_ok_def)
qed

text \<open>Closing the packet being filled with the first fragment of an element.\<close>

lemma received_first_fragment:
  assumes "view packets cur = (None, done)" and "cur_ok mp cur"
  shows "received (packets @ [cur\<lparr>pkt_elements := pkt_elements cur @ [c], pkt_y := True\<rparr>]) = (Some c, done)"
proof (cases "pkt_elements cur = []")
  case True
  with assms show ?thesis
    by (simp add: view_def av1_flush_def join_packet_def cur_ok_def split: option.splits)
next
  case False
  with assms have "join_elements (received packets) (pkt_z cur) False (pkt_elements cur) = (None, done)"
    by (simp add: view_def av1_flush_def join_packet_def cur_ok_def)
  with join_elements_snoc(2) [OF False, of "received packets" "pkt_z cur" c] show ?thesis
    by (simp add: join_packet_def)
qed

text \<open>The outcome of one element: the loop ends, the invariant holds, the element is received.\<close>

definition element_done ::
    "nat \<Rightarrow> bytes list \<Rightarrow> (av1_packet list \<times> av1_packet) option \<Rightarrow> bool" where
  "element_done mp done r \<longleftrightarrow> (\<exists>packets cur. r = Some (packets, cur) \<and>
     list_all (packet_ok mp) packets \<and> cur_ok mp cur \<and> view packets cur = (None, done))"

text \<open>The three branches of a turn of the loop, with the room as a natural number.\<close>

lemma room_nat:
  assumes "used \<le> mp"
  shows "int n \<le> int mp - int used \<longleftrightarrow> n \<le> mp - used" "int mp - int used < 16 \<longleftrightarrow> mp - used < 16"
    "nat (int mp - int used) = mp - used"
  using assms by auto

lemma av1_element_fits:
  assumes "off < length e" and "pkt_used cur \<le> mp"
    and "length e - off + length (leb128 (length e - off)) \<le> mp - pkt_used cur"
  shows "av1_element mp e off packets cur =
    Some (packets, cur\<lparr>pkt_elements := pkt_elements cur @ [drop off e],
      pkt_used := pkt_used cur + (length e - off) + length (leb128 (length e - off))\<rparr>)"
  by (subst av1_element.simps) (simp only: Let_def room_nat [OF assms(2)] assms if_True)

lemma av1_element_flushes:
  assumes "off < length e" and "pkt_used cur \<le> mp"
    and "\<not> length e - off + length (leb128 (length e - off)) \<le> mp - pkt_used cur"
    and "mp - pkt_used cur < 16"
  shows "av1_element mp e off packets cur = av1_element mp e off (av1_flush packets cur) fresh_packet"
  by (subst av1_element.simps) (simp only: Let_def room_nat [OF assms(2)] assms if_True if_False)

lemma av1_element_cuts:
  assumes "off < length e" and "pkt_used cur \<le> mp"
    and "\<not> length e - off + length (leb128 (length e - off)) \<le> mp - pkt_used cur"
    and "16 \<le> mp - pkt_used cur"
  shows "av1_element mp e off packets cur =
    av1_element mp e (off + av1_chunk (mp - pkt_used cur))
      (packets @ [cur\<lparr>pkt_elements := pkt_elements cur @
          [pyslice e off (off + av1_chunk (mp - pkt_used cur))], pkt_y := True\<rparr>])
      (fresh_packet\<lparr>pkt_z := True\<rparr>)"
proof -
  from assms(4) have "\<not> mp - pkt_used cur < 16" by simp
  then show ?thesis
    by (subst av1_element.simps)
      (simp add: Let_def room_nat [OF assms(2)] assms(1,3) av1_flush_def
        del: of_nat_add)
qed

lemma fresh_fields [simp]:
  "pkt_z fresh_packet = False" "pkt_y fresh_packet = False" "pkt_elements fresh_packet = []"
  "pkt_used fresh_packet = 1"
  by (simp_all add: fresh_packet_def)

lemma av1_flush_fresh [simp]: "av1_flush packets fresh_packet = packets"
  by (simp add: av1_flush_def)

lemma av1_element_continues:
  assumes "17 \<le> mp"
  shows "0 < off \<Longrightarrow> off < length e \<Longrightarrow> list_all (packet_ok mp) packets \<Longrightarrow>
    received packets = (Some (take off e), done) \<Longrightarrow>
    element_done mp (done @ [e]) (av1_element mp e off packets (fresh_packet\<lparr>pkt_z := True\<rparr>))"
proof (induction "length e - off" arbitrary: off packets rule: less_induct)
  case less
  let ?rem = "length e - off" and ?cur = "fresh_packet\<lparr>pkt_z := True\<rparr>"
  show ?case
  proof (cases "?rem + length (leb128 ?rem) \<le> mp - 1")
    case True
    let ?cur' = "?cur\<lparr>pkt_elements := [drop off e], pkt_used := 1 + ?rem + length (leb128 ?rem)\<rparr>"
    have eq: "av1_element mp e off packets ?cur = Some (packets, ?cur')"
      using av1_element_fits [of off e ?cur mp packets] less.prems(2) True assms by simp
    have "cur_ok mp ?cur'"
      using True assms by (simp add: cur_ok_def body_size_def)
    moreover have "view packets ?cur' = (None, done @ [e])"
      using less.prems by (simp add: view_def av1_flush_def join_packet_def)
    ultimately show ?thesis using less.prems(3) by (auto simp: element_done_def eq)
  next
    case False
    let ?c = "av1_chunk (mp - 1)"
    have c: "0 < ?c" "?c + length (leb128 ?c) \<le> mp - 1"
      using assms by (intro av1_chunk_ok; simp)+
    then have small: "?c < ?rem"
      using chunk_less_remaining [of "mp - 1" ?rem ?c] False by linarith
    let ?full = "?cur\<lparr>pkt_elements := [pyslice e off (off + ?c)], pkt_y := True\<rparr>"
    have eq: "av1_element mp e off packets ?cur =
        av1_element mp e (off + ?c) (packets @ [?full]) ?cur"
      using av1_element_cuts [of off e ?cur mp packets] less.prems(2) False assms by simp
    have len: "length (pyslice e off (off + ?c)) = ?c" using small by simp
    have "packet_ok mp ?full"
      using c assms len by (simp add: packet_ok_def body_size_def del: length_pyslice)
    moreover have "received (packets @ [?full]) = (Some (take (off + ?c) e), done)"
      using less.prems(4) by (simp add: join_packet_def pyslice_def take_add)
    ultimately have "element_done mp (done @ [e]) (av1_element mp e (off + ?c) (packets @ [?full]) ?cur)"
      using less.prems small c by (intro less.hyps) auto
    then show ?thesis by (simp only: eq)
  qed
qed

lemma av1_element_no_flush:
  assumes "17 \<le> mp" and "cur_ok mp cur" and "view packets cur = (None, done)" and "e \<noteq> []"
    and "list_all (packet_ok mp) packets"
    and room: "length e + length (leb128 (length e)) \<le> mp - pkt_used cur \<or> 16 \<le> mp - pkt_used cur"
  shows "element_done mp (done @ [e]) (av1_element mp e 0 packets cur)"
proof (cases "length e + length (leb128 (length e)) \<le> mp - pkt_used cur")
  case True
  let ?cur' = "cur\<lparr>pkt_elements := pkt_elements cur @ [e],
      pkt_used := pkt_used cur + length e + length (leb128 (length e))\<rparr>"
  have eq: "av1_element mp e 0 packets cur = Some (packets, ?cur')"
    using av1_element_fits [of 0 e cur mp packets] assms(2,4) True by (simp add: cur_ok_def)
  have "cur_ok mp ?cur'"
    using assms(2) True by (auto simp: cur_ok_def body_size_snoc)
  with view_append [OF assms(3,2)] assms(5) show ?thesis by (auto simp: element_done_def eq)
next
  case False
  with room have r16: "16 \<le> mp - pkt_used cur" by simp
  let ?c = "av1_chunk (mp - pkt_used cur)"
  have c: "0 < ?c" "?c + length (leb128 ?c) \<le> mp - pkt_used cur"
    using r16 by (intro av1_chunk_ok; simp)+
  then have small: "?c < length e"
    using chunk_less_remaining [of "mp - pkt_used cur" "length e" ?c] False by linarith
  let ?full = "cur\<lparr>pkt_elements := pkt_elements cur @ [take ?c e], pkt_y := True\<rparr>"
  have eq: "av1_element mp e 0 packets cur =
      av1_element mp e ?c (packets @ [?full]) (fresh_packet\<lparr>pkt_z := True\<rparr>)"
    using av1_element_cuts [of 0 e cur mp packets] assms(2,4) False r16
    by (simp add: cur_ok_def pyslice_def)
  have "packet_ok mp ?full"
    using assms(2) c small by (auto simp: packet_ok_def cur_ok_def body_size_snoc)
  moreover have "received (packets @ [?full]) = (Some (take ?c e), done)"
    by (rule received_first_fragment [OF assms(3,2)])
  ultimately show ?thesis
    unfolding eq using c small assms by (intro av1_element_continues) auto
qed

lemma av1_element_ok:
  assumes "17 \<le> mp" and "cur_ok mp cur" and "view packets cur = (None, done)"
    and "list_all (packet_ok mp) packets"
  shows "element_done mp (done @ (if e = [] then [] else [e])) (av1_element mp e 0 packets cur)"
proof (cases "e = []")
  case True
  then show ?thesis using assms by (subst av1_element.simps) (auto simp: element_done_def)
next
  case nonempty: False
  show ?thesis
  proof (cases "length e + length (leb128 (length e)) \<le> mp - pkt_used cur \<or> 16 \<le> mp - pkt_used cur")
    case True
    then show ?thesis using nonempty av1_element_no_flush [OF assms(1-3) nonempty assms(4)] by simp
  next
    case False
    then have eq: "av1_element mp e 0 packets cur = av1_element mp e 0 (av1_flush packets cur) fresh_packet"
      using av1_element_flushes [of 0 e cur mp packets] nonempty assms(2) by (simp add: cur_ok_def)
    from False assms(1) have "pkt_used cur \<noteq> 1" by auto
    with assms(2) have "pkt_elements cur \<noteq> []" by (auto simp: cur_ok_def body_size_def)
    with assms have packets: "list_all (packet_ok mp) (av1_flush packets cur)"
      by (auto simp: av1_flush_def packet_ok_def cur_ok_def)
    have "view (av1_flush packets cur) fresh_packet = (None, done)"
      using assms(3) by (simp add: view_def)
    moreover have "cur_ok mp fresh_packet" "16 \<le> mp - pkt_used fresh_packet"
      using assms(1) cur_fresh [of mp] by simp_all
    ultimately show ?thesis
      unfolding eq using nonempty av1_element_no_flush [OF assms(1) _ _ nonempty packets] by simp
  qed
qed

section \<open>Round trip\<close>

lemma av1_elements_ok:
  assumes "17 \<le> mp"
  shows "cur_ok mp cur \<Longrightarrow> view packets cur = (None, done) \<Longrightarrow> list_all (packet_ok mp) packets \<Longrightarrow>
    element_done mp (done @ filter (\<lambda>e. e \<noteq> []) (map obu_element obus))
      (av1_elements mp obus packets cur)"
proof (induction obus arbitrary: packets cur "done")
  case Nil
  then show ?case by (simp add: element_done_def)
next
  case (Cons ob obus)
  let ?e = "obu_element ob"
  from av1_element_ok [OF assms Cons.prems, of ?e] obtain packets' cur' where
    step: "av1_element mp ?e 0 packets cur = Some (packets', cur')"
    and inv: "list_all (packet_ok mp) packets'" "cur_ok mp cur'"
      "view packets' cur' = (None, done @ (if ?e = [] then [] else [?e]))"
    by (auto simp: element_done_def)
  from Cons.IH [OF inv(2,3,1)] step show ?case by (cases "?e = []") simp_all
qed

lemma foldl_recv_render:
  "\<forall>p \<in> set pkts. \<forall>e \<in> set (pkt_elements p). length e < 2 ^ 56 \<Longrightarrow>
    foldl recv_av1 s (map (\<lambda>(k, p). av1_render ns k p) (enumerate n pkts)) = foldl join_packet s pkts"
  by (induction pkts arbitrary: s n) (simp_all add: recv_av1_render join_packet_def)

lemma body_size_elem: "e \<in> set es \<Longrightarrow> length e \<le> body_size es"
  by (induction es) (auto simp: body_size_def)

text \<open>
  C5. With room for at least seventeen bytes per payload the AV1 packetizer ends (a smaller limit
  can make its loop run forever), every payload fits, the N bit is set exactly on the first packet
  of a unit that starts a coded sequence, and the receiver of the AOM specification rebuilds the
  non-empty OBU elements in order, however they were cut and joined.
\<close>

theorem av1_packets_rebuild:
  assumes "17 \<le> mp" and "mp < 2 ^ 56"
  shows "\<exists>ps. packetize_av1 obus new_sequence mp = Some ps \<and>
    (\<forall>p \<in> set ps. 2 \<le> length p \<and> length p \<le> mp) \<and>
    (\<forall>k < length ps. (unat (ps ! k ! 0) AND 0x08 \<noteq> 0) = (new_sequence \<and> k = 0)) \<and>
    depacketize_av1 ps = filter (\<lambda>e. e \<noteq> []) (map obu_element obus)"
proof -
  have "view [] fresh_packet = (None, [])" by (simp add: view_def received_def)
  with av1_elements_ok [of mp fresh_packet "[]" "[]" obus] assms(1) cur_fresh [of mp]
  obtain packets cur where
    run: "av1_elements mp obus [] fresh_packet = Some (packets, cur)"
    and inv: "list_all (packet_ok mp) packets" "cur_ok mp cur"
      "view packets cur = (None, filter (\<lambda>e. e \<noteq> []) (map obu_element obus))"
    by (auto simp: element_done_def)
  let ?pkts = "av1_flush packets cur"
  let ?ps = "map (\<lambda>(k, p). av1_render new_sequence k p) (enumerate 0 ?pkts)"
  have ok: "packet_ok mp p" if "p \<in> set ?pkts" for p
    using that inv(1,2) by (auto simp: av1_flush_def list_all_iff packet_ok_def cur_ok_def split: if_splits)
  have "length e < 2 ^ 56" if "p \<in> set ?pkts" "e \<in> set (pkt_elements p)" for p e
    using ok [OF that(1)] body_size_elem [OF that(2)] assms(2) by (simp add: packet_ok_def)
  then have "depacketize_av1 ?ps = snd (received ?pkts)"
    by (simp add: depacketize_av1_def received_def foldl_recv_render)
  moreover have "2 \<le> length p \<and> length p \<le> mp" if "p \<in> set ?ps" for p
  proof -
    from that obtain k q where q: "q \<in> set ?pkts" "p = av1_render new_sequence k q"
      by (auto simp: enumerate_eq_zip dest: set_zip_rightD)
    with ok [OF q(1)] show ?thesis
      by (cases "pkt_elements q")
        (auto simp: av1_render_def Let_def length_av1_body packet_ok_def body_size_def trans_le_add1)
  qed
  moreover have "(unat (?ps ! k ! 0) AND 0x08 \<noteq> 0) = (new_sequence \<and> k = 0)" if "k < length ?ps" for k
    using that av1_render_bits(3) [of new_sequence k "?pkts ! k"] by (simp add: nth_enumerate_eq)
  ultimately show ?thesis
    using run inv(3) by (intro exI [of _ ?ps]) (simp add: packetize_av1_def view_def)
qed

theorem av1_packets_rebuild_witness:
  "\<exists>ps. packetize_av1 [\<lparr>obu_kind = 6, obu_element = replicate 40 7\<rparr>] True 20 = Some ps \<and>
    (\<forall>p \<in> set ps. 2 \<le> length p \<and> length p \<le> 20) \<and>
    (\<forall>k < length ps. (unat (ps ! k ! 0) AND 0x08 \<noteq> 0) = (True \<and> k = 0)) \<and>
    depacketize_av1 ps = [replicate 40 7]"
  using av1_packets_rebuild [of 20 "[\<lparr>obu_kind = 6, obu_element = replicate 40 7\<rparr>]" True]
  by simp




section \<open>Splitting gives the OBUs back\<close>

text \<open>
  An OBU in the low-overhead format with its size inline: header byte with the size flag, the
  extension byte when its flag is set, the LEB128 size, the payload.
\<close>

record stored_obu =
  so_head :: byte
  so_ext :: bytes
  so_payload :: bytes

definition stored_ok :: "stored_obu \<Rightarrow> bool" where
  "stored_ok s \<longleftrightarrow> unat (so_head s) AND 0x80 = 0 \<and> unat (so_head s) AND 0x02 \<noteq> 0 \<and>
     length (so_ext s) = (if unat (so_head s) AND 0x04 \<noteq> 0 then 1 else 0) \<and>
     length (so_payload s) < 2 ^ 56"

definition store_obu :: "stored_obu \<Rightarrow> bytes" where
  "store_obu s = so_head s # so_ext s @ leb128 (length (so_payload s)) @ so_payload s"

definition sent_obu :: "stored_obu \<Rightarrow> obu list" where
  "sent_obu s =
     (let kind = drop_bit 3 (unat (so_head s)) AND 0x0F
      in if kind = OBU_TEMPORAL_DELIMITER \<or> kind = OBU_PADDING then []
         else [\<lparr>obu_kind = kind,
                obu_element = byte_of (unat (so_head s) AND 0xFD) # so_ext s @ so_payload s\<rparr>])"

lemma split_obus_step_stored:
  assumes "stored_ok s"
  shows "split_obus_step (pre @ store_obu s @ post) (length pre) =
    Inr (sent_obu s, length pre + length (store_obu s))"
proof -
  let ?data = "pre @ store_obu s @ post"
  let ?n = "length pre + 1 + length (so_ext s)"
  have nth: "?data ! length pre = so_head s" by (simp add: store_obu_def)
  have leb: "read_leb128 ?data ?n = Inr (length (so_payload s), length (leb128 (length (so_payload s))))"
    using read_leb128_leb128 [of "length (so_payload s)" "pre @ so_head s # so_ext s" "so_payload s @ post"]
      assms by (simp add: store_obu_def stored_ok_def)
  have ext: "pyslice ?data (length pre + 1) (length pre + 1 + length (so_ext s)) = so_ext s"
    using slice_at [of "length pre + 1" "pre @ [so_head s]" _ "so_ext s"] by (simp add: store_obu_def)
  have body: "pyslice ?data (?n + length (leb128 (length (so_payload s))))
      (?n + length (leb128 (length (so_payload s))) + length (so_payload s)) = so_payload s"
    using slice_at [of _ "pre @ so_head s # so_ext s @ leb128 (length (so_payload s))" _ "so_payload s" post]
    by (simp add: store_obu_def add.assoc)
  have len: "length ?data = ?n + length (leb128 (length (so_payload s))) + length (so_payload s) + length post"
    by (simp add: store_obu_def)
  show ?thesis
  proof (cases "unat (so_head s) AND 0x04 = 0")
    case True
    with assms have "so_ext s = []" by (simp add: stored_ok_def)
    with True assms nth leb ext body len show ?thesis
      by (simp add: split_obus_step_def Let_def stored_ok_def sent_obu_def)
  next
    case False
    with assms have "length (so_ext s) = 1" by (simp add: stored_ok_def)
    with False assms nth leb ext body len show ?thesis
      by (simp add: split_obus_step_def Let_def stored_ok_def sent_obu_def)
  qed
qed

interpretation stored_units: framed_loop split_obus_loop split_obus_step store_obu sent_obu stored_ok
  by unfold_locales
    (subst split_obus_loop.simps, simp, simp add: store_obu_def, simp add: split_obus_step_stored)

text \<open>
  A temporal unit written in the low-overhead format is split into exactly its OBUs, in order,
  each rewritten without the size flag and the size, temporal delimiters and padding dropped.
\<close>

theorem split_obus_stored:
  assumes "list_all stored_ok ss"
  shows "split_obus (concat (map store_obu ss)) = Inr (concat (map sent_obu ss))"
  unfolding split_obus_def by (rule stored_units.loop_concat [OF assms])

theorem split_obus_stored_witness:
  "split_obus [0x12, 0, 0x0A, 2, 5, 6] = Inr [\<lparr>obu_kind = 1, obu_element = [0x08, 5, 6]\<rparr>]"
proof -
  let ?ss = "[\<lparr>so_head = 0x12, so_ext = [], so_payload = []\<rparr>,
              \<lparr>so_head = 0x0A, so_ext = [], so_payload = [5, 6]\<rparr>]"
  have ok: "list_all stored_ok ?ss" by (simp add: stored_ok_def)
  have "concat (map store_obu ?ss) = [0x12, 0, 0x0A, 2, 5, 6]"
    by (simp add: store_obu_def leb128_unfold byte_of_def)
  moreover have "concat (map sent_obu ?ss) = [\<lparr>obu_kind = 1, obu_element = [0x08, 5, 6]\<rparr>]"
    by (simp add: sent_obu_def OBU_TEMPORAL_DELIMITER_def OBU_PADDING_def byte_of_def Let_def)
  ultimately show ?thesis using split_obus_stored [OF ok] by simp
qed

end
