(* ===== verification/RtpHevc.thy ===== *)
theory RtpHevc
  imports RtpNal
begin

text \<open>
  The HEVC packetizer of \<open>stream/whip/payload.py\<close> (\<open>packetize_hevc\<close>) and the receiver RFC 7798
  describes for the packets it makes: single NAL unit packets and fragmentation units (type 49).
\<close>

section \<open>The packetizer\<close>

definition hevc_fu_packet :: "bytes \<Rightarrow> bool \<Rightarrow> bool \<Rightarrow> bytes \<Rightarrow> bytes" where
  "hevc_fu_packet nal first lst chunk =
     (let n0 = unat (nal ! 0); kind = drop_bit 1 n0 AND 0x3F;
          header = [byte_of ((n0 AND 0x81) OR push_bit 1 49), nal ! 1];
          fu = kind OR (if first then 0x80 else 0) OR (if lst then 0x40 else 0)
      in header @ [byte_of fu] @ chunk)"

text \<open>One NAL unit of the loop; \<open>range\<close> refuses step 0 and yields nothing for a negative one.\<close>

definition hevc_unit :: "nat \<Rightarrow> bytes \<Rightarrow> bytes list result" where
  "hevc_unit max_payload nal =
     (if length nal < 3 then Inr []
      else if length nal \<le> max_payload then Inr [nal]
      else if max_payload = 3 then Inl ValueError
      else if max_payload < 3 then Inr []
      else Inr (flag_fragments (hevc_fu_packet nal) True (chunks (max_payload - 3) (drop 2 nal))))"

definition packetize_hevc :: "bytes list \<Rightarrow> nat \<Rightarrow> bytes list result" where
  "packetize_hevc nals max_payload =
     bindE (mapE (hevc_unit max_payload) nals) (\<lambda>pss. Inr (concat pss))"

section \<open>The receiver of RFC 7798\<close>

definition hevc_type :: "bytes \<Rightarrow> nat" where
  "hevc_type p = drop_bit 1 (unat (p ! 0)) AND 0x3F"

text \<open>A NAL unit of its own: a two-byte header, a body, and a type below those of the RTP format.\<close>

definition plain_hevc :: "bytes \<Rightarrow> bool" where
  "plain_hevc n \<longleftrightarrow> hevc_type n < 48"

definition recv_hevc :: "bytes option \<times> bytes list \<Rightarrow> bytes \<Rightarrow> bytes option \<times> bytes list" where
  "recv_hevc s p =
     (if hevc_type p = 49 then
        (let h = unat (p ! 0); fu = unat (p ! 2); c = drop 3 p;
             u = (if fu AND 0x80 \<noteq> 0
                  then [byte_of ((h AND 0x81) OR push_bit 1 (fu AND 0x3F)), p ! 1] @ c
                  else (case fst s of None \<Rightarrow> c | Some a \<Rightarrow> a @ c))
         in if fu AND 0x40 \<noteq> 0 then (None, snd s @ [u]) else (Some u, snd s))
      else (None, snd s @ [p]))"

definition depacketize_hevc :: "bytes list \<Rightarrow> bytes list" where
  "depacketize_hevc ps = snd (foldl recv_hevc (None, []) ps)"

section \<open>Header bytes\<close>

lemma shift_mask: "push_bit 1 (drop_bit 1 n AND x) = n AND push_bit 1 (x :: nat)"
proof -
  have "bit (push_bit 1 (drop_bit 1 n AND x)) m = bit (n AND push_bit 1 x) m" for m
    by (simp only: bit_push_bit_iff_nat bit_and_iff bit_drop_bit_eq o_def) auto
  then show ?thesis by (rule bit_eqI)
qed

lemma hevc_header:
  "drop_bit 1 ((n AND 0x81) OR 98) AND 0x3F = (49 :: nat)"
  "((n AND 0x81) OR 98) AND 0x81 = n AND (0x81 :: nat)"
  "(n AND 0x81) OR 98 < (256 :: nat)"
  by (simp_all add: drop_bit_or drop_bit_and and_or_distrib_nat and_disjoint)
    (intro or_less_256 and_less_256; simp)

lemma hevc_header_back:
  assumes "n < 256"
  shows "(n AND 0x81) OR push_bit 1 (drop_bit 1 n AND 0x3F) = (n :: nat)"
proof -
  have "n = n AND (0x81 OR 0x7E)" using assms by (simp add: nat_masks)
  also have "\<dots> = (n AND 0x81) OR (n AND 0x7E)" by (metis and.commute and_or_distrib_nat)
  finally show ?thesis unfolding shift_mask by simp
qed

lemma hevc_fu_bits:
  "((n AND 0x3F) OR (if s then 0x80 else 0) OR (if e then 0x40 else 0)) AND 0x3F = n AND (0x3F :: nat)"
  "((n AND 0x3F) OR (if s then 0x80 else 0) OR (if e then 0x40 else 0)) AND 0x80 = (if s then 0x80 else 0 :: nat)"
  "((n AND 0x3F) OR (if s then 0x80 else 0) OR (if e then 0x40 else 0)) AND 0x40 = (if e then 0x40 else 0 :: nat)"
  by (simp_all add: and_or_distrib_nat and_disjoint)

lemma hevc_fu_small:
  "(n AND 0x3F) OR (if s then 0x80 else 0) OR (if e then 0x40 else 0) < (256 :: nat)"
  by (intro or_less_256 and_less_256; simp)

lemma hevc_fu_fields:
  "hevc_fu_packet nal s e c ! 0 = byte_of ((unat (nal ! 0) AND 0x81) OR 98)"
  "hevc_fu_packet nal s e c ! 1 = nal ! 1"
  "hevc_fu_packet nal s e c ! 2 =
     byte_of ((drop_bit 1 (unat (nal ! 0)) AND 0x3F) OR (if s then 0x80 else 0) OR (if e then 0x40 else 0))"
  "drop 3 (hevc_fu_packet nal s e c) = c"
  "length (hevc_fu_packet nal s e c) = length c + 3"
  by (simp_all add: hevc_fu_packet_def Let_def)

lemma recv_hevc_packet:
  "recv_hevc st (hevc_fu_packet nal s e c) =
    (let u = (if s then [nal ! 0, nal ! 1] @ c else (case fst st of None \<Rightarrow> c | Some a \<Rightarrow> a @ c))
     in if e then (None, snd st @ [u]) else (Some u, snd st))"
proof -
  define p where "p = hevc_fu_packet nal s e c"
  note hdr = hevc_header [of "unat (nal ! 0)"]
  have "hevc_type p = 49" "unat (p ! 0) AND 0x81 = unat (nal ! 0) AND 0x81"
    by (simp_all only: hevc_type_def p_def hevc_fu_fields hdr unat_byte_of_small)
  moreover have "unat (p ! 2) AND 0x3F = drop_bit 1 (unat (nal ! 0)) AND 0x3F"
    "unat (p ! 2) AND 0x80 = (if s then 0x80 else 0)"
    "unat (p ! 2) AND 0x40 = (if e then 0x40 else 0)"
    by (simp_all only: p_def hevc_fu_fields hevc_fu_bits hevc_fu_small unat_byte_of_small)
  moreover have "drop 3 p = c" "p ! 1 = nal ! 1"
    by (simp_all only: p_def hevc_fu_fields)
  ultimately have "recv_hevc st p =
      (let u = (if s then [nal ! 0, nal ! 1] @ c else (case fst st of None \<Rightarrow> c | Some a \<Rightarrow> a @ c))
       in if e then (None, snd st @ [u]) else (Some u, snd st))"
    by (simp add: recv_hevc_def Let_def hevc_header_back del: One_nat_def push_bit_and)
  then show ?thesis by (simp only: p_def)
qed

interpretation hevc_fu: fragment_receiver recv_hevc "hevc_fu_packet nal" "[nal ! 0, nal ! 1]" for nal
  by unfold_locales (simp_all add: recv_hevc_packet)

section \<open>Round trip\<close>

lemma hevc_unit_ok:
  assumes "4 \<le> mp" and "length n < 3 \<or> plain_hevc n"
  obtains ps where "hevc_unit mp n = Inr ps" and "\<forall>p \<in> set ps. 2 < length p \<and> length p \<le> mp"
    and "foldl recv_hevc (None, units) ps = (None, units @ (if length n < 3 then [] else [n]))"
proof -
  consider "length n < 3" | "3 \<le> length n" "length n \<le> mp" | "mp < length n" by linarith
  then show thesis
  proof cases
    case 1
    then show thesis by (intro that [of "[]"]) (simp_all add: hevc_unit_def)
  next
    case 2
    then show thesis
      using assms(2) by (intro that [of "[n]"]) (auto simp: hevc_unit_def recv_hevc_def plain_hevc_def)
  next
    case 3
    with assms(1) have big: "0 < mp - 3" "mp - 3 < length (drop 2 n)" by auto
    then obtain c d cs where ch: "chunks (mp - 3) (drop 2 n) = c # d # cs"
      using chunks_two by metis
    let ?ps = "flag_fragments (hevc_fu_packet n) True (c # d # cs)"
    from 3 assms(1) obtain a b n' where "n = a # b # n'" by (cases n; cases "tl n") auto
    moreover have "concat (c # d # cs) = drop 2 n"
      using concat_chunks [OF big(1), of "drop 2 n"] ch by simp
    ultimately have "[n ! 0, n ! 1] @ concat (c # d # cs) = n" by simp
    then have "foldl recv_hevc (None, units) ?ps = (None, units @ [n])"
      using hevc_fu.recv_fragments [where nal = n and c = c and d = d and cs = cs] by simp
    moreover have "2 < length p \<and> length p \<le> mp" if "p \<in> set ?ps" for p
    proof -
      from flag_fragments_elem [OF that] obtain s e x where
        "x \<in> set (c # d # cs)" "p = hevc_fu_packet n s e x" by blast
      then have "length x \<le> mp - 3" "x \<noteq> []" "length p = length x + 3"
        using chunks_bound [of x "mp - 3" "drop 2 n"] ch by (simp_all add: hevc_fu_fields)
      then show ?thesis using assms(1) by (cases x) simp_all
    qed
    ultimately show thesis
      using assms(1) 3 ch by (intro that [of ?ps]) (auto simp: hevc_unit_def)
  qed
qed

text \<open>
  With at least four bytes of payload the HEVC packetizer never fails, every payload has more
  than its two header bytes and fits, and a receiver rebuilds, in order, exactly the NAL units that
  have a body; units of fewer than three bytes are dropped.
\<close>

theorem hevc_packets_rebuild:
  assumes "4 \<le> mp" and "\<forall>n \<in> set nals. length n < 3 \<or> plain_hevc n"
  shows "\<exists>ps. packetize_hevc nals mp = Inr ps \<and> (\<forall>p \<in> set ps. 2 < length p \<and> length p \<le> mp) \<and>
    depacketize_hevc ps = filter (\<lambda>n. 3 \<le> length n) nals"
proof -
  have "\<exists>pss. mapE (hevc_unit mp) nals = Inr pss \<and>
      (\<forall>p \<in> set (concat pss). 2 < length p \<and> length p \<le> mp) \<and>
      foldl recv_hevc (None, units) (concat pss) = (None, units @ filter (\<lambda>n. 3 \<le> length n) nals)"
    for units
    using assms(2)
  proof (induction nals arbitrary: units)
    case (Cons n nals)
    obtain ps where ps: "hevc_unit mp n = Inr ps" "\<forall>p \<in> set ps. 2 < length p \<and> length p \<le> mp"
      "foldl recv_hevc (None, units) ps = (None, units @ (if length n < 3 then [] else [n]))"
      using hevc_unit_ok [OF assms(1), of n units] Cons.prems by auto
    from Cons.IH [of "units @ (if length n < 3 then [] else [n])"] Cons.prems
    obtain pss where "mapE (hevc_unit mp) nals = Inr pss"
      "\<forall>p \<in> set (concat pss). 2 < length p \<and> length p \<le> mp"
      "foldl recv_hevc (None, units @ (if length n < 3 then [] else [n])) (concat pss) =
        (None, (units @ (if length n < 3 then [] else [n])) @ filter (\<lambda>n. 3 \<le> length n) nals)"
      by auto
    with ps show ?case by (intro exI [of _ "ps # pss"]) auto
  qed simp
  from this [of "[]"] show ?thesis by (auto simp: packetize_hevc_def depacketize_hevc_def)
qed

theorem hevc_packets_rebuild_witness:
  "\<exists>ps. packetize_hevc [[0x40, 1, 12], [0x26, 1, 2, 3, 4, 5, 6, 7, 8, 9], [7]] 6 = Inr ps \<and>
    (\<forall>p \<in> set ps. 2 < length p \<and> length p \<le> 6) \<and>
    depacketize_hevc ps = [[0x40, 1, 12], [0x26, 1, 2, 3, 4, 5, 6, 7, 8, 9]]"
  using hevc_packets_rebuild [of 6 "[[0x40, 1, 12], [0x26, 1, 2, 3, 4, 5, 6, 7, 8, 9], [7]]"]
  by (simp add: plain_hevc_def hevc_type_def)

end
