(* ===== verification/CodecRecords.thy ===== *)
theory CodecRecords
  imports RtpAv1
begin

text \<open>
  The configuration records Matroska carries (\<open>avcC\<close>, \<open>hvcC\<close>, \<open>av1C\<close>) and the duration of an Opus
  packet, as \<open>stream/whip/payload.py\<close> reads them.
\<close>

section \<open>Opus\<close>

text \<open>The table-of-contents byte: configuration (frame length), stereo flag, frame count code.\<close>

definition opus_tenth_ms :: "nat \<Rightarrow> nat" where
  "opus_tenth_ms config =
     (if config < 12 then [100, 200, 400, 600] ! (config mod 4)
      else if config < 16 then [100, 200] ! (config mod 2)
      else [25, 50, 100, 200] ! (config mod 4))"

definition opus_samples :: "bytes \<Rightarrow> nat result" where
  "opus_samples packet =
     (if packet = [] then Inl (PayloadError ''empty Opus packet'')
      else let toc = unat (packet ! 0); tenth_ms = opus_tenth_ms (drop_bit 3 toc); code = toc AND 3
           in bindE
             (if code = 0 then Inr 1
              else if code \<in> {1, 2} then Inr 2
              else if length packet < 2 then Inl (PayloadError ''truncated Opus packet'')
              else Inr (unat (packet ! 1) AND 0x3F))
             (\<lambda>frames. Inr (frames * tenth_ms * 48 div 10)))"

section \<open>The shared unit loop\<close>

text \<open>
  \<open>for _ in range(count)\<close>: a two-byte length, then the unit. The end offset comes back with the
  units. The message is the record's own.
\<close>

fun read_units :: "string \<Rightarrow> bytes \<Rightarrow> nat \<Rightarrow> nat \<Rightarrow> (bytes list \<times> nat) result" where
  "read_units msg rec 0 at = Inr ([], at)"
| "read_units msg rec (Suc n) at =
     (if length rec < at + 2 then Inl (PayloadError msg)
      else let sz = from_be (pyslice rec at (at + 2)); at' = at + 2
           in if length rec < at' + sz then Inl (PayloadError msg)
              else bindE (read_units msg rec n (at' + sz))
                     (\<lambda>(us, e). Inr (pyslice rec at' (at' + sz) # us, e)))"

section \<open>avcC\<close>

record avc_config =
  avc_length_size :: nat
  avc_sps :: "bytes list"
  avc_pps :: "bytes list"
  avc_profile_level_id :: string

definition avc_parameter_sets :: "avc_config \<Rightarrow> bytes list" where
  "avc_parameter_sets c = avc_sps c @ avc_pps c"

definition hex_digit :: "nat \<Rightarrow> char" where
  "hex_digit n = ''0123456789abcdef'' ! n"

definition hex_bytes :: "bytes \<Rightarrow> string" where
  "hex_bytes bs = concat (map (\<lambda>b. [hex_digit (unat b div 16), hex_digit (unat b mod 16)]) bs)"

definition avcc_truncated :: string where
  "avcc_truncated = ''truncated avcC record''"

text \<open>One turn of \<open>for mask in (0x1F, 0xFF)\<close>.\<close>

definition avcc_set :: "bytes \<Rightarrow> nat \<Rightarrow> nat \<Rightarrow> (bytes list \<times> nat) result" where
  "avcc_set rec msk at =
     (if length rec \<le> at then Inl (PayloadError avcc_truncated)
      else read_units avcc_truncated rec (unat (rec ! at) AND msk) (at + 1))"

definition parse_avcc :: "bytes \<Rightarrow> avc_config result" where
  "parse_avcc rec =
     (if length rec < 7 \<or> rec ! 0 \<noteq> 1 then Inl (PayloadError ''not an avcC record'')
      else bindE (avcc_set rec 0x1F 5) (\<lambda>(sps, at).
           bindE (avcc_set rec 0xFF at) (\<lambda>(pps, _).
             if sps = [] \<or> pps = []
             then Inl (PayloadError ''the avcC record has no SPS or no PPS'')
             else Inr \<lparr>avc_length_size = (unat (rec ! 4) AND 3) + 1, avc_sps = sps, avc_pps = pps,
                       avc_profile_level_id = hex_bytes (pyslice rec 1 4)\<rparr>)))"

section \<open>hvcC\<close>

record hevc_config =
  hevc_length_size :: nat
  hevc_vps :: "bytes list"
  hevc_sps :: "bytes list"
  hevc_pps :: "bytes list"
  hevc_profile_id :: nat
  hevc_tier_flag :: nat
  hevc_level_id :: nat

definition hevc_parameter_sets :: "hevc_config \<Rightarrow> bytes list" where
  "hevc_parameter_sets c = hevc_vps c @ hevc_sps c @ hevc_pps c"

definition hvcc_truncated :: string where
  "hvcc_truncated = ''truncated hvcC record''"

text \<open>\<open>found.get(kind)\<close> as a truth value is a list with something in it: no entry reads as \<open>[]\<close>.\<close>

fun hvcc_arrays :: "bytes \<Rightarrow> nat \<Rightarrow> nat \<Rightarrow> (nat \<Rightarrow> bytes list) \<Rightarrow> (nat \<Rightarrow> bytes list) result" where
  "hvcc_arrays rec 0 at found = Inr found"
| "hvcc_arrays rec (Suc n) at found =
     (if length rec < at + 3 then Inl (PayloadError hvcc_truncated)
      else let kind = unat (rec ! at) AND 0x3F; count = from_be (pyslice rec (at + 1) (at + 3))
           in bindE (read_units hvcc_truncated rec count (at + 3)) (\<lambda>(us, e).
                hvcc_arrays rec n e (found(kind := found kind @ us))))"

definition parse_hvcc :: "bytes \<Rightarrow> hevc_config result" where
  "parse_hvcc rec =
     (if length rec < 23 \<or> rec ! 0 \<noteq> 1 then Inl (PayloadError ''not an hvcC record'')
      else bindE (hvcc_arrays rec (unat (rec ! 22)) 23 (\<lambda>_. [])) (\<lambda>found.
             if found 32 = [] \<or> found 33 = [] \<or> found 34 = []
             then Inl (PayloadError ''the hvcC record lacks a VPS, SPS or PPS'')
             else Inr \<lparr>hevc_length_size = (unat (rec ! 21) AND 3) + 1,
                       hevc_vps = found 32, hevc_sps = found 33, hevc_pps = found 34,
                       hevc_profile_id = unat (rec ! 1) AND 0x1F,
                       hevc_tier_flag = drop_bit 5 (unat (rec ! 1)) AND 1,
                       hevc_level_id = unat (rec ! 12)\<rparr>))"

section \<open>av1C\<close>

record av1_config =
  av1_profile :: nat
  av1_level_idx :: nat
  av1_tier :: nat
  av1_sequence_header :: bytes

definition parse_av1c :: "bytes \<Rightarrow> av1_config result" where
  "parse_av1c rec =
     (if length rec < 4 \<or> rec ! 0 \<noteq> 0x81 then Inl (PayloadError ''not an av1C record'')
      else bindE (if 4 < length rec then split_obus (drop 4 rec) else Inr []) (\<lambda>obus.
        Inr \<lparr>av1_profile = drop_bit 5 (unat (rec ! 1)), av1_level_idx = unat (rec ! 1) AND 0x1F,
             av1_tier = drop_bit 7 (unat (rec ! 2)),
             av1_sequence_header =
               concat (map obu_element (filter (\<lambda>o'. obu_kind o' = OBU_SEQUENCE_HEADER) obus))\<rparr>))"

section \<open>Reading back what an encoder wrote\<close>

text \<open>
  ISO/IEC 14496-15: five fixed bytes (the reserved bits are ones), the SPS count under three
  reserved bits, the SPSs, the PPS count, the PPSs.
\<close>

definition write_units :: "bytes list \<Rightarrow> bytes" where
  "write_units us = concat (map (prefix_unit 2) us)"

definition write_avcc :: "bytes \<Rightarrow> nat \<Rightarrow> bytes list \<Rightarrow> bytes list \<Rightarrow> bytes" where
  "write_avcc profile length_size sps pps =
     [1] @ profile @ [byte_of (0xFC + (length_size - 1)), byte_of (0xE0 + length sps)] @ write_units sps
       @ [byte_of (length pps)] @ write_units pps"

lemma read_units_write:
  assumes "\<forall>u \<in> set us. length u < 65536"
  shows "read_units msg (pre @ write_units us @ post) (length us) (length pre) =
    Inr (us, length pre + length (write_units us))"
  using assms
proof (induction us arbitrary: pre)
  case Nil
  then show ?case by (simp add: write_units_def)
next
  case (Cons u us)
  let ?data = "pre @ prefix_unit 2 u @ write_units us @ post"
  have len: "pyslice ?data (length pre) (length pre + 2) = be_digits 2 (length u)"
    using slice_at [of _ pre _ "be_digits 2 (length u)" "u @ write_units us @ post"]
    by (simp add: prefix_unit_def)
  have unit: "pyslice ?data (length pre + 2) (length pre + 2 + length u) = u"
    using slice_at [of _ "pre @ be_digits 2 (length u)" _ u "write_units us @ post"]
    by (simp add: prefix_unit_def)
  have "read_units msg ((pre @ prefix_unit 2 u) @ write_units us @ post) (length us)
      (length (pre @ prefix_unit 2 u)) =
      Inr (us, length (pre @ prefix_unit 2 u) + length (write_units us))"
    using Cons.prems by (intro Cons.IH) simp
  then have rest: "read_units msg ?data (length us) (length pre + 2 + length u) =
      Inr (us, length pre + 2 + length u + length (write_units us))"
    by (simp add: prefix_unit_def add.assoc)
  show ?case
    using Cons.prems len unit rest
    by (simp add: write_units_def Let_def prefix_unit_def)
qed

lemma profile_bits:
  "n < 4 \<Longrightarrow> unat (byte_of (0xFC + n)) AND 3 = n"
  "n < 32 \<Longrightarrow> unat (byte_of (0xE0 + n)) AND 0x1F = n"
  "n < 256 \<Longrightarrow> unat (byte_of n) AND 0xFF = n"
proof -
  have "n + 252 = n + 63 * 4" "n + 224 = n + 7 * 32" by simp_all
  then have "n < 4 \<Longrightarrow> (n + 252) mod 4 = n" "n < 32 \<Longrightarrow> (n + 224) mod 32 = n"
    by (simp_all only: mod_mult_self1 mod_less)
  then show "n < 4 \<Longrightarrow> unat (byte_of (0xFC + n)) AND 3 = n"
    "n < 32 \<Longrightarrow> unat (byte_of (0xE0 + n)) AND 0x1F = n"
    "n < 256 \<Longrightarrow> unat (byte_of n) AND 0xFF = n"
    by (simp_all add: nat_masks add.commute)
qed

lemma avcc_set_write:
  assumes "\<forall>u \<in> set us. length u < 65536" and "unat b AND msk = length us" and "at = length pre"
  shows "avcc_set (pre @ b # write_units us @ post) msk at =
    Inr (us, at + 1 + length (write_units us))"
  using read_units_write [OF assms(1), of avcc_truncated "pre @ [b]" post] assms(2,3)
  by (simp add: avcc_set_def)

text \<open>
  The avcC reader returns exactly the parameter sets, the NAL length size and the profile of a
  record an encoder wrote for at least one SPS (at most 31) and at least one PPS (at most 255).
\<close>

theorem parse_avcc_written:
  assumes "length profile = 3" and "length_size \<in> {1, 2, 3, 4}"
    and "sps \<noteq> []" and "length sps < 32" and "pps \<noteq> []" and "length pps < 256"
    and units: "\<forall>u \<in> set (sps @ pps). length u < 65536"
  shows "parse_avcc (write_avcc profile length_size sps pps) =
    Inr \<lparr>avc_length_size = length_size, avc_sps = sps, avc_pps = pps,
         avc_profile_level_id = hex_bytes profile\<rparr>"
proof -
  let ?b4 = "byte_of (0xFC + (length_size - 1))" and ?b5 = "byte_of (0xE0 + length sps)"
    and ?bp = "byte_of (length pps)"
  let ?rec = "write_avcc profile length_size sps pps"
  obtain a b c where profile: "profile = [a, b, c]"
    using assms(1) by (auto simp: length_Suc_conv numeral_3_eq_3)
  have rec: "?rec = [1, a, b, c, ?b4] @ ?b5 # write_units sps @ ?bp # write_units pps"
    by (simp add: write_avcc_def profile)
  have "\<forall>u \<in> set sps. length u < 65536" "\<forall>u \<in> set pps. length u < 65536"
    using units by auto
  note units' = this
  have sps: "avcc_set ?rec 0x1F 5 = Inr (sps, 5 + 1 + length (write_units sps))"
    unfolding rec by (rule avcc_set_write [OF units'(1) profile_bits(2)]) (simp_all add: assms(4))
  have rec': "?rec = ([1, a, b, c, ?b4, ?b5] @ write_units sps) @ ?bp # write_units pps @ []"
    by (simp add: write_avcc_def profile)
  have pps: "avcc_set ?rec 0xFF (5 + 1 + length (write_units sps)) =
      Inr (pps, 5 + 1 + length (write_units sps) + 1 + length (write_units pps))"
    unfolding rec' by (rule avcc_set_write [OF units'(2) profile_bits(3)]) (simp_all add: assms(6))
  have fixed: "?rec ! 0 = 1" "?rec ! 4 = ?b4" "7 \<le> length ?rec" "pyslice ?rec 1 4 = profile"
    by (simp_all add: write_avcc_def profile pyslice_def)
  have "unat ?b4 AND 3 = length_size - 1"
    using assms(2) by (intro profile_bits(1)) auto
  with assms(2,3,5) sps pps fixed show ?thesis by (auto simp: parse_avcc_def)
qed

theorem parse_avcc_written_witness:
  "parse_avcc [1, 0x64, 0, 0x28, 0xFF, 0xE1, 0, 2, 0x67, 0x64, 1, 0, 1, 0x68] =
    Inr \<lparr>avc_length_size = 4, avc_sps = [[0x67, 0x64]], avc_pps = [[0x68]],
         avc_profile_level_id = ''640028''\<rparr>"
  using parse_avcc_written [of "[0x64, 0, 0x28]" 4 "[[0x67, 0x64]]" "[[0x68]]"]
  by (simp add: write_avcc_def write_units_def prefix_unit_def byte_of_def hex_bytes_def
      hex_digit_def be_digits_2)

section \<open>Bounds on Opus durations\<close>

text \<open>
  An Opus packet the reader accepts lasts a whole number of 2.5 ms frames: the sample count is a
  multiple of 120 and at most 63 frames of 60 ms; the only refusals are an empty packet and a packet
  whose frame count byte is missing.
\<close>

theorem opus_samples_bounds:
  "case opus_samples packet of
     Inl e \<Rightarrow> packet = [] \<or> (length packet = 1 \<and> unat (packet ! 0) AND 3 = 3)
   | Inr n \<Rightarrow> packet \<noteq> [] \<and> 120 dvd n \<and> n \<le> 181440"
proof (cases "packet = []")
  case True
  then show ?thesis by (simp add: opus_samples_def)
next
  case False
  let ?t = "opus_tenth_ms (drop_bit 3 (unat (packet ! 0)))"
  have "config < 12 \<or> config < 16 \<or> True \<Longrightarrow> opus_tenth_ms config \<in> {25, 50, 100, 200, 400, 600}" for config
  proof -
    have "config mod 4 \<in> {0, 1, 2, 3}" "config mod 2 \<in> {0, 1}" by auto
    then show ?thesis by (auto simp: opus_tenth_ms_def)
  qed
  then have t: "?t \<in> {25, 50, 100, 200, 400, 600}" by blast
  have samples: "120 dvd f * ?t * 48 div 10 \<and> f * ?t * 48 div 10 \<le> 181440" if "f \<le> 63" for f
  proof -
    from t obtain q where q: "?t = 25 * q" "q \<le> 24" by auto
    then have "f * ?t * 48 div 10 = 120 * (f * q)" by simp
    moreover have "f * q \<le> 63 * 24" using that q(2) by (intro mult_le_mono)
    ultimately show ?thesis by simp
  qed
  have code: "unat (packet ! 0) AND 3 < 4" "unat (packet ! 1) AND 0x3F \<le> 63"
    by (simp_all add: nat_masks)
  then consider "unat (packet ! 0) AND 3 = 0" | "unat (packet ! 0) AND 3 \<in> {1, 2}"
    | "unat (packet ! 0) AND 3 = 3" by fastforce
  then show ?thesis
    using False samples [of 1] samples [of 2] samples [OF code(2)]
    by cases (cases packet; auto simp: opus_samples_def Let_def)+
qed

end
