(* ===== verification/Ebml.thy ===== *)
theory Ebml
  imports Interfaces
begin

text \<open>
  The EBML primitives of \<open>stream/mkv.py\<close>: element ids and data sizes (variable-length integers),
  elements, and the children of a master element.
\<close>

section \<open>Identifiers of the elements the code names\<close>

definition ID_EBML :: nat where "ID_EBML = 0x1A45DFA3"
definition ID_SEGMENT :: nat where "ID_SEGMENT = 0x18538067"
definition ID_INFO :: nat where "ID_INFO = 0x1549A966"
definition ID_TRACKS :: nat where "ID_TRACKS = 0x1654AE6B"
definition ID_CLUSTER :: nat where "ID_CLUSTER = 0x1F43B675"
definition ID_TIMESTAMP :: nat where "ID_TIMESTAMP = 0xE7"
definition ID_SIMPLEBLOCK :: nat where "ID_SIMPLEBLOCK = 0xA3"
definition ID_BLOCKGROUP :: nat where "ID_BLOCKGROUP = 0xA0"
definition ID_BLOCK :: nat where "ID_BLOCK = 0xA1"
definition ID_REFERENCE_BLOCK :: nat where "ID_REFERENCE_BLOCK = 0xFB"
definition ID_TIMESTAMP_SCALE :: nat where "ID_TIMESTAMP_SCALE = 0x2AD7B1"
definition ID_MUXING_APP :: nat where "ID_MUXING_APP = 0x4D80"
definition ID_WRITING_APP :: nat where "ID_WRITING_APP = 0x5741"
definition ID_TRACK_ENTRY :: nat where "ID_TRACK_ENTRY = 0xAE"
definition ID_TRACK_NUMBER :: nat where "ID_TRACK_NUMBER = 0xD7"
definition ID_TRACK_UID :: nat where "ID_TRACK_UID = 0x73C5"
definition ID_TRACK_TYPE :: nat where "ID_TRACK_TYPE = 0x83"
definition ID_CODEC_ID :: nat where "ID_CODEC_ID = 0x86"
definition ID_VIDEO :: nat where "ID_VIDEO = 0xE0"
definition ID_PIXEL_WIDTH :: nat where "ID_PIXEL_WIDTH = 0xB0"
definition ID_PIXEL_HEIGHT :: nat where "ID_PIXEL_HEIGHT = 0xBA"
definition ID_TRACK_NAME :: nat where "ID_TRACK_NAME = 0x536E"

lemmas element_ids = ID_EBML_def ID_SEGMENT_def ID_INFO_def ID_TRACKS_def ID_CLUSTER_def
  ID_TIMESTAMP_def ID_SIMPLEBLOCK_def ID_BLOCKGROUP_def ID_BLOCK_def ID_REFERENCE_BLOCK_def
  ID_TIMESTAMP_SCALE_def ID_MUXING_APP_def ID_WRITING_APP_def ID_TRACK_ENTRY_def
  ID_TRACK_NUMBER_def ID_TRACK_UID_def ID_TRACK_TYPE_def ID_CODEC_ID_def ID_VIDEO_def
  ID_PIXEL_WIDTH_def ID_PIXEL_HEIGHT_def ID_TRACK_NAME_def

section \<open>Reading\<close>

text \<open>\<open>while length <= limit and not first & (0x80 >> (length - 1)): length += 1\<close>.\<close>

function vint_length :: "nat \<Rightarrow> nat \<Rightarrow> nat \<Rightarrow> nat" where
  "vint_length first limit len =
     (if len \<le> limit \<and> first AND drop_bit (len - 1) 0x80 = 0
      then vint_length first limit (len + 1) else len)"
  by pat_completeness auto
termination
  by (relation "measure (\<lambda>(first, limit, len). limit + 1 - len)") auto

declare vint_length.simps [simp del]

text \<open>\<open>None\<close> asks for more bytes.\<close>

definition read_id :: "bytes \<Rightarrow> nat \<Rightarrow> (nat \<times> nat) option result" where
  "read_id buf at =
     (if length buf \<le> at then Inr None
      else let first = unat (buf ! at); len = vint_length first 4 1
           in if 4 < len then Inl (MkvError ''invalid element id byte'')
              else if length buf < at + len then Inr None
              else Inr (Some (len, from_be (pyslice buf at (at + len)))))"

definition read_size :: "bytes \<Rightarrow> nat \<Rightarrow> (nat \<times> nat option) option result" where
  "read_size buf at =
     (if length buf \<le> at then Inr None
      else let first = unat (buf ! at); len = vint_length first 8 1
           in if 8 < len then Inl (MkvError ''invalid element size byte'')
              else if length buf < at + len then Inr None
              else let value = foldl (\<lambda>v b. push_bit 8 v OR unat b)
                                 (first AND (drop_bit (len - 1) 0x80 - 1))
                                 (pyslice buf (at + 1) (at + len))
                   in Inr (Some (len, if value = 2 ^ (7 * len) - 1 then None else Some value)))"

section \<open>Writing\<close>

function bit_length :: "nat \<Rightarrow> nat" where
  "bit_length n = (if n = 0 then 0 else 1 + bit_length (n div 2))"
  by pat_completeness auto
termination
  by (relation "measure id") auto

declare bit_length.simps [simp del]

definition enc_id :: "nat \<Rightarrow> bytes" where
  "enc_id element_id = be_digits ((bit_length element_id + 7) div 8) element_id"

text \<open>\<open>while size >= (1 << (7 * length)) - 1: length += 1\<close>.\<close>

lemma seven_power: "n \<le> 2 ^ (7 * n) - (1 :: nat)"
proof -
  have "n < 2 ^ n" by (rule less_exp)
  also have "(2 :: nat) ^ n \<le> 2 ^ (7 * n)" by (rule power_increasing) auto
  finally show ?thesis by simp
qed

function size_length :: "nat \<Rightarrow> nat \<Rightarrow> nat" where
  "size_length sz len = (if 2 ^ (7 * len) - 1 \<le> sz then size_length sz (len + 1) else len)"
  by pat_completeness auto
termination
proof (relation "measure (\<lambda>(sz, len). sz + 1 - len)")
  fix sz len :: nat
  assume "2 ^ (7 * len) - 1 \<le> sz"
  then have "len \<le> sz" using seven_power [of len] by linarith
  then show "((sz, len + 1), sz, len) \<in> measure (\<lambda>(sz, len). sz + 1 - len)" by simp
qed simp

declare size_length.simps [simp del]

definition enc_size :: "nat \<Rightarrow> nat \<Rightarrow> bytes result" where
  "enc_size sz minimum =
     (let len = size_length sz (max minimum 1)
      in if 8 < len then Inl (MkvError ''element too large'')
         else to_be len (2 ^ (7 * len) OR sz))"

definition element :: "nat \<Rightarrow> bytes \<Rightarrow> bytes result" where
  "element element_id body = bindE (enc_size (length body) 1) (\<lambda>s. Inr (enc_id element_id @ s @ body))"

definition uint_element :: "nat \<Rightarrow> nat \<Rightarrow> bytes result" where
  "uint_element element_id v = element element_id (be_digits (max 1 ((bit_length v + 7) div 8)) v)"

definition read_uint :: "bytes \<Rightarrow> nat" where
  "read_uint data = from_be data"

section \<open>Children of a master element\<close>

type_synonym child = "nat \<times> bytes \<times> bytes"

definition children_step :: "bytes \<Rightarrow> nat \<Rightarrow> (child list \<times> nat) result" where
  "children_step body at =
     bindE (read_id body at) (\<lambda>ident.
       case ident of
         None \<Rightarrow> Inl (MkvError ''truncated element id inside a master element'')
       | Some (id_len, element_id) \<Rightarrow>
           bindE (read_size body (at + id_len)) (\<lambda>sized.
             case sized of
               Some (size_len, Some sz) \<Rightarrow>
                 (let start = at + id_len + size_len; end' = start + sz
                  in if length body < end'
                     then Inl (MkvError ''element runs past the end of its parent'')
                     else Inr ([(element_id, pyslice body start end', pyslice body at end')], end'))
             | _ \<Rightarrow> Inl (MkvError ''unknown or truncated size inside a master element'')))"

lemma vint_length_ge: "len \<le> vint_length first limit len"
proof (induction first limit len rule: vint_length.induct)
  case (1 first limit len)
  then show ?case by (subst vint_length.simps) (auto intro: Suc_leD)
qed

lemma read_id_length: "read_id buf at = Inr (Some (n, v)) \<Longrightarrow> 0 < n \<and> at + n \<le> length buf"
  using vint_length_ge [of 1 "unat (buf ! at)" 4]
  by (auto simp: read_id_def Let_def split: if_splits)

lemma read_size_length: "read_size buf at = Inr (Some (n, v)) \<Longrightarrow> 0 < n \<and> at + n \<le> length buf"
  using vint_length_ge [of 1 "unat (buf ! at)" 8]
  by (auto simp: read_size_def Let_def split: if_splits)

lemma children_stepE:
  assumes "children_step body at = Inr (cs, at')"
  obtains id_len element_id size_len sz where
    "read_id body at = Inr (Some (id_len, element_id))"
    and "read_size body (at + id_len) = Inr (Some (size_len, Some sz))"
    and "at' = at + id_len + size_len + sz" and "at' \<le> length body"
    and "cs = [(element_id, pyslice body (at + id_len + size_len) at', pyslice body at at')]"
  using assms
  by (auto simp: children_step_def bindE_def Let_def not_less
      split: sum.splits option.splits prod.splits if_splits)

lemma children_step_progress:
  assumes "children_step body at = Inr (cs, at')"
  shows "at < at' \<and> at' \<le> length body"
proof -
  from assms obtain id_len element_id size_len sz where
    "read_id body at = Inr (Some (id_len, element_id))"
    "at' = at + id_len + size_len + sz" "at' \<le> length body"
    by (rule children_stepE)
  then show ?thesis using read_id_length [of body at id_len element_id] by simp
qed

function children_loop :: "bytes \<Rightarrow> nat \<Rightarrow> child list result" where
  "children_loop body at =
     (if at < length body
      then bindE (children_step body at)
             (\<lambda>(cs, at'). bindE (children_loop body at') (\<lambda>r. Inr (cs @ r)))
      else Inr [])"
  by pat_completeness auto
termination
  by (relation "measure (\<lambda>(body, at). length body - at)") (auto dest!: children_step_progress)

declare children_loop.simps [simp del]

definition children :: "bytes \<Rightarrow> child list result" where
  "children body = children_loop body 0"

section \<open>Variable-length integers\<close>

lemma be_digits_Cons: "be_digits (Suc k) n = byte_of (n div 256 ^ k mod 256) # be_digits k n"
proof (induction k arbitrary: n)
  case (Suc k)
  have "be_digits (Suc (Suc k)) n = be_digits (Suc k) (n div 256) @ [byte_of (n mod 256)]" by simp
  also have "\<dots> = byte_of (n div 256 div 256 ^ k mod 256) # be_digits (Suc k) n"
    by (subst Suc) simp
  finally show ?case by (simp add: div_mult2_eq)
qed simp

lemma marker_bit: "1 \<le> k \<Longrightarrow> k \<le> 8 \<Longrightarrow> drop_bit (k - 1) (0x80 :: nat) = 2 ^ (8 - k)"
proof -
  assume "1 \<le> k" "k \<le> 8"
  then have "(2 :: nat) ^ 7 = 2 ^ (8 - k) * 2 ^ (k - 1)" by (simp flip: power_add)
  then have "(2 :: nat) ^ 7 div 2 ^ (k - 1) = 2 ^ (8 - k)"
    by (simp only: nonzero_mult_div_cancel_right power_not_zero zero_neq_numeral simp_thms not_False_eq_True)
  then show ?thesis by (simp add: drop_bit_eq_div)
qed

text \<open>The position of the first set bit decides the length.\<close>

lemma vint_length_marker:
  assumes "2 ^ (8 - n) \<le> first" and "first < 2 ^ (9 - n)" and "n \<le> limit" and "limit \<le> 8"
  shows "1 \<le> k \<Longrightarrow> k \<le> n \<Longrightarrow> vint_length first limit k = n"
proof (induction "n - k" arbitrary: k)
  case 0
  then have "k = n" by simp
  have "(2 :: nat) ^ (9 - n) = 2 * 2 ^ (8 - n)"
    using 0 assms by (simp add: Suc_diff_le flip: power_Suc)
  with assms have "first div 2 ^ (8 - n) = 1" by (intro div_nat_eqI) auto
  then have "first AND drop_bit (n - 1) 0x80 \<noteq> 0"
    using 0 assms marker_bit [of n] by (simp add: and_pow_nat)
  then show ?case using \<open>k = n\<close> by (subst vint_length.simps) simp
next
  case (Suc d)
  then have "k < n" by simp
  have "(2 :: nat) ^ (9 - n) \<le> 2 ^ (8 - k)"
    using \<open>k < n\<close> Suc.prems assms by (intro power_increasing) auto
  with assms(2) have "first < 2 ^ (8 - k)" by (rule less_le_trans)
  then have "first div 2 ^ (8 - k) = 0" by simp
  then have "first AND drop_bit (k - 1) 0x80 = 0"
    using Suc.prems \<open>k < n\<close> assms marker_bit [of k] by (simp add: and_pow_nat)
  then show ?case
    using Suc.hyps \<open>k < n\<close> assms by (subst vint_length.simps) simp
qed

lemma foldl_be: "foldl (\<lambda>v b. push_bit 8 v OR unat b) v bs = v * 256 ^ length bs + from_be bs"
proof (induction bs rule: rev_induct)
  case (snoc b bs)
  have "push_bit 8 x OR unat b = x * 256 + unat b" for x :: nat
    using or_shifted_nat [of "unat b" 8 x] by (simp add: push_bit_eq_mult or.commute)
  with snoc show ?case by (simp add: algebra_simps)
qed simp

text \<open>The first byte of a number with its marker bit, and what is left below the marker.\<close>

lemma marked_first:
  fixes v :: nat
  assumes "v < 2 ^ (7 * Suc k)" and "Suc k \<le> 8"
  shows "(2 ^ (7 * Suc k) + v) div 256 ^ k = 2 ^ (8 - Suc k) + v div 256 ^ k"
    and "v div 256 ^ k < 2 ^ (8 - Suc k)"
proof -
  have "7 * Suc k = (7 - k) + 8 * k" using assms(2) by simp
  then have p: "(2 :: nat) ^ (7 * Suc k) = 2 ^ (7 - k) * 256 ^ k"
    by (simp only: power_add power_mult) simp
  then show "(2 ^ (7 * Suc k) + v) div 256 ^ k = 2 ^ (8 - Suc k) + v div 256 ^ k"
    by (simp add: div_mult_self1 del: power_Suc mult_Suc_right)
  from assms(1) p show "v div 256 ^ k < 2 ^ (8 - Suc k)"
    by (simp add: less_mult_imp_div_less del: power_Suc mult_Suc_right)
qed

lemma marked_bounds:
  fixes v :: nat
  assumes "v < 2 ^ (7 * Suc k)" and "Suc k \<le> 8"
  defines "first \<equiv> (2 ^ (7 * Suc k) + v) div 256 ^ k"
  shows "2 ^ (8 - Suc k) \<le> first" and "first < 2 ^ (9 - Suc k)" and "first < 256"
    and "first mod 2 ^ (8 - Suc k) = v div 256 ^ k"
proof -
  note first = marked_first [OF assms(1,2), folded first_def]
  from first show "2 ^ (8 - Suc k) \<le> first" by simp
  have "(2 :: nat) ^ (9 - Suc k) = 2 * 2 ^ (8 - Suc k)"
    using assms(2) by (simp add: Suc_diff_le flip: power_Suc)
  with first show lt: "first < 2 ^ (9 - Suc k)" by simp
  have "(2 :: nat) ^ (9 - Suc k) \<le> 2 ^ 8" by (rule power_increasing) auto
  with lt show "first < 256" by simp
  from first show "first mod 2 ^ (8 - Suc k) = v div 256 ^ k" by simp
qed

lemma size_length_bound:
  "len \<le> size_length sz len" "sz < 2 ^ (7 * size_length sz len) - 1"
proof (induction sz len rule: size_length.induct)
  case (1 sz len)
  {
    case 1
    then show ?case using "1.IH"(1) by (auto simp: size_length.simps [of sz len])
  next
    case 2
    then show ?case using "1.IH"(2) by (auto simp: size_length.simps [of sz len])
  }
qed

lemma size_length_le:
  "sz < 2 ^ (7 * n) - 1 \<Longrightarrow> len \<le> n \<Longrightarrow> size_length sz len \<le> n"
proof (induction sz len rule: size_length.induct)
  case (1 sz len)
  show ?case
  proof (cases "2 ^ (7 * len) - 1 \<le> sz")
    case True
    have "len \<noteq> n"
    proof
      assume "len = n"
      with True "1.prems" show False by (metis not_le)
    qed
    with True "1.prems" have "size_length sz (len + 1) \<le> n" by (intro "1.IH") auto
    with True show ?thesis by (simp add: size_length.simps [of sz len])
  next
    case False
    with "1.prems" show ?thesis by (simp add: size_length.simps [of sz len])
  qed
qed

text \<open>What \<open>enc_size\<close> writes, and that \<open>read_size\<close> reads it back.\<close>

lemma enc_size_bytes:
  assumes "size_length sz (max m 1) \<le> 8"
  shows "enc_size sz m = Inr (be_digits (size_length sz (max m 1)) (2 ^ (7 * size_length sz (max m 1)) + sz))"
proof -
  let ?n = "size_length sz (max m 1)"
  have sz: "sz < 2 ^ (7 * ?n)" using size_length_bound(2) [of sz "max m 1"] by linarith
  have "2 ^ (7 * ?n) OR sz = 2 ^ (7 * ?n) + sz"
    using or_shifted_nat [OF sz, of 1] by (simp add: or.commute add.commute)
  moreover have "2 ^ (7 * ?n) + sz < 256 ^ ?n"
  proof -
    have "1 \<le> ?n" using size_length_bound(1) [of "max m 1" sz] by simp
    then have "(2 :: nat) * 2 ^ (7 * ?n) \<le> 2 ^ (8 * ?n)"
      by (simp only: power_Suc [symmetric]) (rule power_increasing, auto)
    with sz show ?thesis by (simp add: power_mult)
  qed
  ultimately show ?thesis using assms by (simp add: enc_size_def to_be_def Let_def)
qed

lemma read_size_marked:
  assumes "v < 2 ^ (7 * n) - 1" and "1 \<le> n" and "n \<le> 8"
  shows "read_size (pre @ be_digits n (2 ^ (7 * n) + v) @ post) (length pre) = Inr (Some (n, Some v))"
proof -
  from assms(2) obtain k where k: "n = Suc k" by (cases n) auto
  have v: "v < 2 ^ (7 * Suc k)" and len: "Suc k \<le> 8" using assms k by auto
  define w where "w = 2 ^ (7 * Suc k) + v"
  define first where "first = w div 256 ^ k"
  note b = marked_bounds [OF v len, folded w_def, folded first_def]
  let ?buf = "pre @ be_digits (Suc k) w @ post"
  have bytes: "be_digits (Suc k) w = byte_of first # be_digits k w"
    using b(3) unfolding be_digits_Cons first_def by simp
  have nth: "unat (?buf ! length pre) = first"
    using b(3) unfolding bytes by simp
  have vl: "vint_length first 8 1 = Suc k"
    using vint_length_marker [OF b(1,2) len, of 1] by simp
  have rest: "pyslice ?buf (length pre + 1) (length pre + Suc k) = be_digits k w"
    using slice_at [of _ "pre @ [byte_of first]" _ "be_digits k w" post] unfolding bytes by simp
  have "drop_bit (Suc k - 1) (0x80 :: nat) - 1 = mask (8 - Suc k)"
    using marker_bit [of "Suc k"] len by (simp add: mask_eq_exp_minus_1)
  then have top: "first AND (drop_bit (Suc k - 1) 0x80 - 1) = v div 256 ^ k"
    using and_mask_nat [of first "8 - Suc k"] b(4) by simp
  have "w mod 256 ^ k = v mod 256 ^ k"
  proof -
    have "7 * Suc k = (7 - k) + 8 * k" using len by simp
    then have "(2 :: nat) ^ (7 * Suc k) = 2 ^ (7 - k) * 256 ^ k"
      by (simp only: power_add power_mult) simp
    then show ?thesis by (simp add: w_def del: power_Suc mult_Suc_right)
  qed
  then have decoded: "foldl (\<lambda>v b. push_bit 8 v OR unat b) (v div 256 ^ k) (be_digits k w) = v"
    by (simp only: foldl_be length_be_digits from_be_digits div_mult_mod_eq)
  have "length pre < length ?buf" "length pre + Suc k \<le> length ?buf" by simp_all
  moreover have "v \<noteq> 2 ^ (7 * Suc k) - 1" using assms(1) k by simp
  moreover have "\<not> 8 < Suc k" using len by simp
  ultimately have "read_size ?buf (length pre) = Inr (Some (Suc k, Some v))"
    unfolding read_size_def Let_def nth vl rest top decoded by simp
  then show ?thesis by (simp only: k w_def)
qed

lemma enc_size_reads:
  assumes "sz < 2 ^ 56 - 1" and "m \<le> 8"
  obtains s where "enc_size sz m = Inr s" and "s \<noteq> []"
    and "\<And>pre post. read_size (pre @ s @ post) (length pre) = Inr (Some (length s, Some sz))"
proof -
  let ?n = "size_length sz (max m 1)"
  have n: "?n \<le> 8" "1 \<le> ?n"
    using assms size_length_le [of sz 8 "max m 1"] size_length_bound(1) [of "max m 1" sz] by auto
  let ?s = "be_digits ?n (2 ^ (7 * ?n) + sz)"
  have "length ?s = ?n" by simp
  then have "?s \<noteq> []" using n(2) by (metis list.size(3) not_one_le_zero)
  with n show thesis
    using enc_size_bytes [of sz m] read_size_marked [OF size_length_bound(2) n(2,1)]
    by (intro that [of ?s]) auto
qed

section \<open>Element ids\<close>

text \<open>An id of class \<open>n\<close>: its first byte has its first set bit where a length of \<open>n\<close> puts it.\<close>

definition valid_id :: "nat \<Rightarrow> bool" where
  "valid_id i \<longleftrightarrow> (\<exists>n \<in> {1, 2, 3, 4}. 2 ^ (7 * n) \<le> i \<and> i < 2 ^ (7 * n + 1))"

lemma bit_length_exact: "2 ^ k \<le> n \<Longrightarrow> n < 2 ^ Suc k \<Longrightarrow> bit_length n = Suc k"
proof (induction k arbitrary: n)
  case 0
  then show ?case by (simp add: bit_length.simps [of n] bit_length.simps [of 0])
next
  case (Suc k)
  then have "bit_length (n div 2) = Suc k" by (intro Suc.IH) auto
  moreover have "n \<noteq> 0" using Suc.prems(1) by (cases n) auto
  ultimately show ?case by (simp add: bit_length.simps [of n])
qed

lemma enc_id_class:
  assumes "2 ^ (7 * n) \<le> i" and "i < 2 ^ (7 * n + 1)" and "n \<in> {1, 2, 3, 4}"
  shows "enc_id i = be_digits n i"
proof -
  from assms(2) have "i < 2 ^ Suc (7 * n)" by (metis Suc_eq_plus1)
  with assms(1) have "bit_length i = Suc (7 * n)" by (rule bit_length_exact)
  moreover have "(Suc (7 * n) + 7) div 8 = n" using assms(3) by auto
  ultimately show ?thesis by (simp only: enc_id_def)
qed

lemma read_id_enc:
  assumes "valid_id i"
  shows "read_id (pre @ enc_id i @ post) (length pre) = Inr (Some (length (enc_id i), i))"
    and "enc_id i \<noteq> []"
proof -
  from assms obtain n where n: "n \<in> {1, 2, 3, 4}" "2 ^ (7 * n) \<le> i" "i < 2 ^ (7 * n + 1)"
    unfolding valid_id_def by (elim bexE conjE)
  then obtain k where k: "n = Suc k" "Suc k \<le> 4" by (cases n) auto
  define v where "v = i - 2 ^ (7 * Suc k)"
  have i: "i = 2 ^ (7 * Suc k) + v" and v: "v < 2 ^ (7 * Suc k)"
    using n k by (auto simp: v_def)
  note b = marked_bounds [OF v, folded i]
  have enc: "enc_id i = byte_of (i div 256 ^ k) # be_digits k i"
    using enc_id_class [OF n(2,3,1)] k b(3) by (simp only: be_digits_Cons mod_less le_trans)
  then have len: "length (enc_id i) = Suc k" by simp
  have "i < 256 ^ Suc k"
  proof -
    have "(2 :: nat) ^ (7 * n + 1) \<le> 2 ^ (8 * n)" using n(1) by (intro power_increasing) auto
    with n(3) k show ?thesis by (simp add: power_mult del: mult_Suc_right)
  qed
  then have decoded: "from_be (enc_id i) = i"
    using enc_id_class [OF n(2,3,1)] k(1) by (simp del: be_digits.simps power_Suc)
  let ?buf = "pre @ enc_id i @ post"
  have nth: "unat (?buf ! length pre) = i div 256 ^ k" using b(3) k by (simp add: enc)
  have vl: "vint_length (i div 256 ^ k) 4 1 = Suc k"
    using vint_length_marker [OF b(1,2) k(2), of 1] k(2) by simp
  have sl: "pyslice ?buf (length pre) (length pre + Suc k) = enc_id i"
    using len by (intro slice_at) simp_all
  have "length pre < length ?buf" "length pre + Suc k \<le> length ?buf" using len by simp_all
  then show "read_id ?buf (length pre) = Inr (Some (length (enc_id i), i))"
    using nth vl sl decoded len k(2) unfolding read_id_def by (simp add: Let_def)
  show "enc_id i \<noteq> []" by (simp add: enc)
qed

lemma valid_ids [simp]:
  "valid_id ID_EBML" "valid_id ID_SEGMENT" "valid_id ID_INFO" "valid_id ID_TRACKS"
  "valid_id ID_CLUSTER" "valid_id ID_TIMESTAMP" "valid_id ID_SIMPLEBLOCK" "valid_id ID_BLOCKGROUP"
  "valid_id ID_BLOCK" "valid_id ID_REFERENCE_BLOCK" "valid_id ID_TIMESTAMP_SCALE"
  "valid_id ID_TRACK_ENTRY" "valid_id ID_TRACK_NUMBER" "valid_id ID_TRACK_UID"
  "valid_id ID_TRACK_TYPE" "valid_id ID_CODEC_ID" "valid_id ID_VIDEO" "valid_id ID_TRACK_NAME"
  "valid_id ID_MUXING_APP" "valid_id ID_WRITING_APP"
  by (simp_all add: valid_id_def element_ids)

section \<open>Elements\<close>

definition encode_element :: "nat \<times> bytes \<Rightarrow> bytes" where
  "encode_element e = (case element (fst e) (snd e) of Inl _ \<Rightarrow> [] | Inr b \<Rightarrow> b)"

definition element_ok :: "nat \<times> bytes \<Rightarrow> bool" where
  "element_ok e \<longleftrightarrow> valid_id (fst e) \<and> length (snd e) < 2 ^ 56 - 1"

lemma element_reads:
  assumes "element_ok (i, body)"
  obtains s where "element i body = Inr (enc_id i @ s @ body)"
    and "encode_element (i, body) = enc_id i @ s @ body" and "s \<noteq> []"
    and "\<And>pre post. read_size (pre @ s @ post) (length pre) = Inr (Some (length s, Some (length body)))"
proof -
  from assms obtain s where "enc_size (length body) 1 = Inr s" "s \<noteq> []"
    "\<And>pre post. read_size (pre @ s @ post) (length pre) = Inr (Some (length s, Some (length body)))"
    using enc_size_reads [of "length body" 1] by (auto simp: element_ok_def)
  then show thesis by (intro that [of s]) (simp_all add: element_def encode_element_def)
qed

lemma children_step_element:
  assumes "element_ok e"
  shows "children_step (pre @ encode_element e @ post) (length pre) =
    Inr ([(fst e, snd e, encode_element e)], length pre + length (encode_element e))"
proof -
  obtain i body where e: "e = (i, body)" by (cases e)
  with assms obtain s where s: "encode_element e = enc_id i @ s @ body"
    "\<And>pre post. read_size (pre @ s @ post) (length pre) = Inr (Some (length s, Some (length body)))"
    by (metis element_reads)
  have id: "read_id (pre @ encode_element e @ post) (length pre) = Inr (Some (length (enc_id i), i))"
    using read_id_enc(1) [of i pre "s @ body @ post"] assms by (simp add: e s(1)[unfolded e] element_ok_def)
  have size: "read_size (pre @ encode_element e @ post) (length pre + length (enc_id i)) =
      Inr (Some (length s, Some (length body)))"
    using s(2) [of "pre @ enc_id i" "body @ post"] by (simp add: s(1))
  have body: "pyslice (pre @ encode_element e @ post) (length pre + length (enc_id i) + length s)
      (length pre + length (enc_id i) + length s + length body) = body"
    using slice_at [of _ "pre @ enc_id i @ s" _ body post] by (simp add: s(1) add.assoc)
  have raw: "pyslice (pre @ encode_element e @ post) (length pre)
      (length pre + length (enc_id i) + length s + length body) = encode_element e"
    by (rule slice_at) (simp_all add: s(1))
  show ?thesis
    using id size body raw by (simp add: children_step_def Let_def e) (simp add: s(1)[unfolded e])
qed

interpretation master: framed_loop children_loop children_step encode_element
    "\<lambda>e. [(fst e, snd e, encode_element e)]" element_ok
proof unfold_locales
  show "children_loop data at =
      (if at < length data
       then bindE (children_step data at)
              (\<lambda>(us, at'). bindE (children_loop data at') (\<lambda>r. Inr (us @ r)))
       else Inr [])" for data at
    by (rule children_loop.simps)
  show "encode_element e \<noteq> []" if "element_ok e" for e
  proof -
    obtain i body where e: "e = (i, body)" by (cases e)
    with that obtain s where "encode_element e = enc_id i @ s @ body" "s \<noteq> []"
      by (metis element_reads)
    then show ?thesis by simp
  qed
qed (rule children_step_element)

lemma children_encoded:
  assumes "list_all element_ok es"
  shows "children (concat (map encode_element es)) = Inr (map (\<lambda>e. (fst e, snd e, encode_element e)) es)"
  using master.loop_concat [OF assms] by (simp add: children_def)

end
