(* ===== verification/MkvCut.thy ===== *)
theory MkvCut
  imports MkvReader Interfaces
begin

text \<open>
  How the pipe cut the Matroska stream never changes what the demuxer of \<open>stream/mkv.py\<close> reports:
  a step that completes on a buffer completes in the same way on every longer buffer, so
  \<open>Demuxer.feed\<close> is an \<open>incremental_reader\<close>.
\<close>

section \<open>Steps on a longer buffer\<close>

lemma read_id_more: "read_id buf at \<noteq> Inr None \<Longrightarrow> read_id (buf @ zs) at = read_id buf at"
  by (auto simp: read_id_def Let_def nth_append slice_prefix split: if_splits)

lemma read_size_more: "read_size buf at \<noteq> Inr None \<Longrightarrow> read_size (buf @ zs) at = read_size buf at"
  by (auto simp: read_size_def Let_def nth_append slice_prefix split: if_splits)

lemma read_id_shift: "read_id (pre @ buf) (length pre + at) = read_id buf at"
  using slice_append_right [of pre buf at]
  by (simp add: read_id_def Let_def nth_append add.assoc)

lemma read_size_shift: "read_size (pre @ buf) (length pre + at) = read_size buf at"
  using slice_append_right [of pre buf] slice_append_right [of pre buf "Suc at"]
  by (simp add: read_size_def Let_def nth_append add.assoc)

text \<open>The part of \<open>_step\<close> after the id and the size were read.\<close>

definition sized_step ::
  "demuxer \<Rightarrow> bytes \<Rightarrow> nat \<Rightarrow> nat \<Rightarrow> nat \<Rightarrow> nat option \<Rightarrow> (demuxer \<times> event list \<times> nat) option result" where
  "sized_step d buf at body_at element_id sz =
     (if element_id = ID_SEGMENT then Inr (Some (d\<lparr>dx_seen_segment := True\<rparr>, [], body_at))
      else if element_id = ID_CLUSTER then
        bindE (begin_cluster d) (\<lambda>(d', es). Inr (Some (d', es, body_at)))
      else
        (case sz of
           None \<Rightarrow> Inl (MkvError ''unknown size on an element which cannot be streamed'')
         | Some n \<Rightarrow>
             if MAX_ELEMENT < n then Inl (MkvError ''an element claims too many bytes'')
             else if length buf < body_at + n then Inr None
             else bindE (whole_element d element_id (pyslice buf body_at (body_at + n))
                           (pyslice buf at (body_at + n)))
                    (\<lambda>(d', es). Inr (Some (d', es, body_at + n)))))"

lemma demux_step_cases:
  obtains (err) e where "read_id buf at = Inl e" "demux_step d buf at = Inl e"
  | (short) "demux_step d buf at = Inr None" "read_id buf at = Inr None"
  | (err2) n i e where "read_id buf at = Inr (Some (n, i))" "read_size buf (at + n) = Inl e"
      "demux_step d buf at = Inl e"
  | (short2) n i where "read_id buf at = Inr (Some (n, i))" "read_size buf (at + n) = Inr None"
      "demux_step d buf at = Inr None"
  | (sized) n i m sz where "read_id buf at = Inr (Some (n, i))"
      "read_size buf (at + n) = Inr (Some (m, sz))"
      "demux_step d buf at = sized_step d buf at (at + n + m) i sz"
proof (cases "read_id buf at")
  case (Inl e)
  then show thesis by (intro err) (simp_all add: demux_step_def)
next
  case ident: (Inr r)
  show thesis
  proof (cases r)
    case None
    with ident show thesis by (intro short) (simp_all add: demux_step_def)
  next
    case (Some p)
    then obtain n i where id: "read_id buf at = Inr (Some (n, i))" using ident by (cases p) simp
    consider e where "read_size buf (at + n) = Inl e" | "read_size buf (at + n) = Inr None"
      | m sz where "read_size buf (at + n) = Inr (Some (m, sz))"
      by (cases "read_size buf (at + n)") (auto, metis not_None_eq surj_pair)
    then show thesis
    proof cases
      case 1
      with id show thesis by (intro err2) (simp_all add: demux_step_def)
    next
      case 2
      with id show thesis by (intro short2) (simp_all add: demux_step_def)
    next
      case 3
      with id show thesis by (intro sized) (simp_all add: demux_step_def sized_step_def Let_def)
    qed
  qed
qed

lemma demux_step_sized:
  "read_id buf at = Inr (Some (n, i)) \<Longrightarrow> read_size buf (at + n) = Inr (Some (m, sz)) \<Longrightarrow>
    demux_step d buf at = sized_step d buf at (at + n + m) i sz"
  by (simp add: demux_step_def sized_step_def Let_def)

lemma sized_step_more:
  "sized_step d buf at k i sz \<noteq> Inr None \<Longrightarrow> sized_step d (buf @ zs) at k i sz = sized_step d buf at k i sz"
  by (cases sz) (auto simp: sized_step_def slice_prefix split: if_splits)

lemma demux_step_more:
  assumes "demux_step d buf at \<noteq> Inr None"
  shows "demux_step d (buf @ zs) at = demux_step d buf at"
proof (cases rule: demux_step_cases [of buf at d])
  case (sized n i m sz)
  with assms have "read_id (buf @ zs) at = Inr (Some (n, i))"
    "read_size (buf @ zs) (at + n) = Inr (Some (m, sz))"
    by (simp_all add: read_id_more read_size_more)
  with sized assms show ?thesis by (simp add: demux_step_sized sized_step_more)
next
  case (err e)
  then show ?thesis by (simp add: demux_step_def read_id_more)
next
  case (err2 n i e)
  then have "read_id (buf @ zs) at = Inr (Some (n, i))" "read_size (buf @ zs) (at + n) = Inl e"
    by (simp_all add: read_id_more read_size_more)
  with err2 show ?thesis by (simp add: demux_step_def)
qed (use assms in simp_all)

definition shift_step ::
  "nat \<Rightarrow> (demuxer \<times> event list \<times> nat) option result \<Rightarrow> (demuxer \<times> event list \<times> nat) option result" where
  "shift_step n r = bindE r (\<lambda>s. Inr (map_option (\<lambda>(d, es, at). (d, es, n + at)) s))"

lemma shift_step_simps [simp]:
  "shift_step n (Inl e) = Inl e"
  "shift_step n (Inr None) = Inr None"
  "shift_step n (Inr (Some (d, es, at))) = Inr (Some (d, es, n + at))"
  by (simp_all add: shift_step_def)

lemma shift_step_bind:
  "shift_step n (bindE m (\<lambda>(d', es). Inr (Some (d', es, k)))) = bindE m (\<lambda>(d', es). Inr (Some (d', es, n + k)))"
  by (cases m) (auto simp: shift_step_def)

lemma sized_step_shift:
  "sized_step d (pre @ buf) (length pre + at) (length pre + k) i sz =
    shift_step (length pre) (sized_step d buf at k i sz)"
proof (cases sz)
  case (Some n)
  have slices: "pyslice (pre @ buf) (length pre + k) (length pre + k + n) = pyslice buf k (k + n)"
    "pyslice (pre @ buf) (length pre + at) (length pre + k + n) = pyslice buf at (k + n)"
    using slice_append_right [of pre buf k "k + n"] slice_append_right [of pre buf at "k + n"]
    by (simp_all add: add.assoc)
  show ?thesis by (simp add: sized_step_def Some slices [unfolded add.assoc] shift_step_bind add.assoc)
qed (simp add: sized_step_def shift_step_bind)

lemma demux_step_shift:
  "demux_step d (pre @ buf) (length pre + at) = shift_step (length pre) (demux_step d buf at)"
proof (cases rule: demux_step_cases [of buf at d])
  case (sized n i m sz)
  have "demux_step d (pre @ buf) (length pre + at) =
      sized_step d (pre @ buf) (length pre + at) (length pre + at + n + m) i sz"
    using sized read_size_shift [of pre buf "at + n"]
    by (intro demux_step_sized) (simp_all add: read_id_shift add.assoc)
  with sized show ?thesis using sized_step_shift [of d pre buf at "at + n + m" i sz] by (simp add: add.assoc)
next
  case (err2 n i e)
  then show ?thesis using read_size_shift [of pre buf "at + n"]
    by (simp add: demux_step_def read_id_shift add.assoc)
next
  case (short2 n i)
  then show ?thesis using read_size_shift [of pre buf "at + n"]
    by (simp add: demux_step_def read_id_shift add.assoc)
qed (simp_all add: demux_step_def read_id_shift)

section \<open>The loop on a longer buffer\<close>

definition then_events ::
  "event list \<Rightarrow> (demuxer \<times> event list \<times> nat) result \<Rightarrow> (demuxer \<times> event list \<times> nat) result" where
  "then_events es r = bindE r (\<lambda>(d, es', at). Inr (d, es @ es', at))"

lemma then_events_simps [simp]:
  "then_events es (Inl e) = Inl e"
  "then_events es (Inr (d, es', at)) = Inr (d, es @ es', at)"
  "then_events [] r = r"
  by (cases r; simp add: then_events_def case_prod_beta)+

lemma then_events_append: "then_events es (then_events es' r) = then_events (es @ es') r"
  by (cases r) (auto simp: then_events_def)

lemma demux_loop_step:
  "demux_step d buf at = Inl e \<Longrightarrow> demux_loop d buf at = Inl e"
  "demux_step d buf at = Inr None \<Longrightarrow> demux_loop d buf at = Inr (d, [], at)"
  "demux_step d buf at = Inr (Some (d', es, at')) \<Longrightarrow>
    demux_loop d buf at = then_events es (demux_loop d' buf at')"
  by (simp_all add: demux_loop.simps [of d buf at] then_events_def)

lemma demux_loop_stops:
  "demux_loop d buf at = Inr (d', es, at') \<Longrightarrow>
    demux_step d' buf at' = Inr None \<and> at \<le> at' \<and> (at \<le> length buf \<longrightarrow> at' \<le> length buf)"
proof (induction d buf at arbitrary: es rule: demux_loop.induct)
  case (1 d buf at)
  show ?case
  proof (cases "demux_step d buf at")
    case (Inr r)
    show ?thesis
    proof (cases r)
      case None
      with Inr 1 show ?thesis by (simp add: demux_loop_step)
    next
      case (Some s)
      obtain d1 es1 at1 where s: "s = (d1, es1, at1)" by (cases s)
      with Inr Some have step: "demux_step d buf at = Inr (Some (d1, es1, at1))" by simp
      with 1(2) obtain es2 where "demux_loop d1 buf at1 = Inr (d', es2, at')"
        by (auto simp: demux_loop_step then_events_def)
      then show ?thesis
        using 1(1) [OF step refl refl refl] demux_step_progress [OF step] by fastforce
    qed
  qed (use 1 in \<open>simp add: demux_loop_step\<close>)
qed

lemma demux_loop_more:
  "demux_loop d (buf @ zs) at =
    bindE (demux_loop d buf at) (\<lambda>(d', es, at'). then_events es (demux_loop d' (buf @ zs) at'))"
proof (induction d buf at rule: demux_loop.induct)
  case (1 d buf at)
  show ?case
  proof (cases "demux_step d buf at")
    case (Inl e)
    then show ?thesis using demux_step_more [of d buf at zs] by (simp add: demux_loop_step)
  next
    case (Inr r)
    show ?thesis
    proof (cases r)
      case None
      with Inr show ?thesis by (simp add: demux_loop_step)
    next
      case (Some s)
      obtain d1 es1 at1 where s: "s = (d1, es1, at1)" by (cases s)
      with Inr Some have step: "demux_step d buf at = Inr (Some (d1, es1, at1))" by simp
      then have step': "demux_step d (buf @ zs) at = Inr (Some (d1, es1, at1))"
        using demux_step_more [of d buf at zs] by simp
      show ?thesis
        using 1 [OF step refl refl refl]
        by (cases "demux_loop d1 buf at1")
           (auto simp: demux_loop_step(3) [OF step] demux_loop_step(3) [OF step'] then_events_append)
    qed
  qed
qed

definition shift_loop :: "nat \<Rightarrow> (demuxer \<times> event list \<times> nat) result \<Rightarrow> (demuxer \<times> event list \<times> nat) result" where
  "shift_loop n r = bindE r (\<lambda>(d, es, at). Inr (d, es, n + at))"

lemma demux_loop_shift:
  "demux_loop d (pre @ buf) (length pre + at) = shift_loop (length pre) (demux_loop d buf at)"
proof (induction d buf at rule: demux_loop.induct)
  case (1 d buf at)
  note shift = demux_step_shift [of d pre buf at]
  show ?case
  proof (cases "demux_step d buf at")
    case (Inl e)
    then show ?thesis using shift by (simp add: demux_loop_step shift_loop_def)
  next
    case (Inr r)
    show ?thesis
    proof (cases r)
      case None
      with Inr show ?thesis using shift by (simp add: demux_loop_step shift_loop_def)
    next
      case (Some s)
      obtain d1 es1 at1 where s: "s = (d1, es1, at1)" by (cases s)
      with Inr Some have step: "demux_step d buf at = Inr (Some (d1, es1, at1))" by simp
      then show ?thesis
        using shift 1 [OF step refl refl refl]
        by (cases "demux_loop d1 buf at1") (auto simp: demux_loop_step(3) shift_loop_def)
    qed
  qed
qed

section \<open>The buffer field plays no part in a step\<close>

definition set_buf :: "bytes \<Rightarrow> demuxer \<Rightarrow> demuxer" where
  "set_buf b d = d\<lparr>dx_buf := b\<rparr>"

definition buffered :: "bytes \<Rightarrow> (demuxer \<times> 'x) result \<Rightarrow> (demuxer \<times> 'x) result" where
  "buffered b r = bindE r (\<lambda>(d, x). Inr (set_buf b d, x))"

lemma buffered_simps [simp]:
  "buffered b (Inl e) = Inl e"
  "buffered b (Inr (d, x)) = Inr (set_buf b d, x)"
  by (simp_all add: buffered_def)

lemma set_buf_fields [simp]:
  "dx_ebml (set_buf b d) = dx_ebml d" "dx_tracks (set_buf b d) = dx_tracks d"
  "dx_timescale (set_buf b d) = dx_timescale d" "dx_header_sent (set_buf b d) = dx_header_sent d"
  "dx_cluster_ts (set_buf b d) = dx_cluster_ts d" "dx_in_cluster (set_buf b d) = dx_in_cluster d"
  "dx_blocks (set_buf b d) = dx_blocks d" "dx_buf (set_buf b d) = b"
  "set_buf b (set_buf c d) = set_buf b d"
  by (simp_all add: set_buf_def)

lemma set_buf_updates [simp]:
  "(set_buf b d)\<lparr>dx_seen_segment := s\<rparr> = set_buf b (d\<lparr>dx_seen_segment := s\<rparr>)"
  "(set_buf b d)\<lparr>dx_blocks := n\<rparr> = set_buf b (d\<lparr>dx_blocks := n\<rparr>)"
  "(set_buf b d)\<lparr>dx_header_sent := h\<rparr> = set_buf b (d\<lparr>dx_header_sent := h\<rparr>)"
  "(set_buf b d)\<lparr>dx_in_cluster := h\<rparr> = set_buf b (d\<lparr>dx_in_cluster := h\<rparr>)"
  "(set_buf b d)\<lparr>dx_cluster_ts := t\<rparr> = set_buf b (d\<lparr>dx_cluster_ts := t\<rparr>)"
  "(set_buf b d)\<lparr>dx_ebml := e\<rparr> = set_buf b (d\<lparr>dx_ebml := e\<rparr>)"
  "(set_buf b d)\<lparr>dx_timescale := n\<rparr> = set_buf b (d\<lparr>dx_timescale := n\<rparr>)"
  "(set_buf b d)\<lparr>dx_tracks := ts\<rparr> = set_buf b (d\<lparr>dx_tracks := ts\<rparr>)"
  by (simp_all add: set_buf_def)

lemma demux_block_buf: "demux_block (set_buf b d) body extra simple = buffered b (demux_block d body extra simple)"
  by (cases "read_size body 0")
     (auto simp: demux_block_def Let_def split: option.splits)

lemma cluster_child_buf: "cluster_child (set_buf b d) i body = buffered b (cluster_child d i body)"
proof -
  have block: "bindE (buffered b m) (\<lambda>(d', x). Inr (d', f x)) = buffered b (bindE m (\<lambda>(d', x). Inr (d', f x)))"
    for m :: "(demuxer \<times> block) result" and f :: "block \<Rightarrow> event list"
    by (cases m) auto
  show ?thesis
    by (cases "children body") (auto simp: cluster_child_def demux_block_buf block split: option.splits prod.splits)
qed

lemma begin_cluster_buf: "begin_cluster (set_buf b d) = buffered b (begin_cluster d)"
  by (auto simp: begin_cluster_def)

lemma whole_element_buf: "whole_element (set_buf b d) i body raw = buffered b (whole_element d i body raw)"
proof -
  have "bindE (children body) (\<lambda>cs. Inr (set_buf b (f cs), es)) =
      buffered b (bindE (children body) (\<lambda>cs. Inr (f cs, es)))" for f and es :: "event list"
    by (simp add: buffered_def bindE_assoc)
  moreover have "bindE (children body) (\<lambda>cs. bindE (track_entries cs) (\<lambda>ts. Inr (set_buf b (d\<lparr>dx_tracks := ts\<rparr>), es))) =
      buffered b (bindE (children body) (\<lambda>cs. bindE (track_entries cs) (\<lambda>ts. Inr (d\<lparr>dx_tracks := ts\<rparr>, es))))"
    for es :: "event list"
    by (simp add: buffered_def bindE_assoc)
  ultimately show ?thesis by (simp add: whole_element_def cluster_child_buf)
qed

definition buffered_step ::
  "bytes \<Rightarrow> (demuxer \<times> event list \<times> nat) option result \<Rightarrow> (demuxer \<times> event list \<times> nat) option result" where
  "buffered_step b r = bindE r (\<lambda>s. Inr (map_option (\<lambda>(d, x). (set_buf b d, x)) s))"

lemma buffered_step_simps [simp]:
  "buffered_step b (Inl e) = Inl e"
  "buffered_step b (Inr None) = Inr None"
  "buffered_step b (Inr (Some (d, es, at))) = Inr (Some (set_buf b d, es, at))"
  by (simp_all add: buffered_step_def)

lemma demux_step_buf: "demux_step (set_buf b d) buf at = buffered_step b (demux_step d buf at)"
proof -
  have "bindE (buffered b m) (\<lambda>(d', es). Inr (Some (d', es, k))) =
      buffered_step b (bindE m (\<lambda>(d', es). Inr (Some (d', es, k))))"
    for m :: "(demuxer \<times> event list) result" and k :: nat
    by (cases m) auto
  then have sized: "sized_step (set_buf b d) buf at k i sz = buffered_step b (sized_step d buf at k i sz)"
    for k i sz
    by (auto simp: sized_step_def begin_cluster_buf whole_element_buf split: option.splits)
  show ?thesis
    by (cases rule: demux_step_cases [of buf at d])
       (simp_all add: demux_step_sized sized, simp_all add: demux_step_def)
qed

lemma demux_loop_buf: "demux_loop (set_buf b d) buf at = buffered b (demux_loop d buf at)"
proof (induction d buf at rule: demux_loop.induct)
  case (1 d buf at)
  note step_buf = demux_step_buf [of b d buf at]
  show ?case
  proof (cases "demux_step d buf at")
    case (Inl e)
    then show ?thesis using step_buf by (simp add: demux_loop_step)
  next
    case (Inr r)
    show ?thesis
    proof (cases r)
      case None
      with Inr show ?thesis using step_buf by (simp add: demux_loop_step)
    next
      case (Some s)
      obtain d1 es1 at1 where s: "s = (d1, es1, at1)" by (cases s)
      with Inr Some have step: "demux_step d buf at = Inr (Some (d1, es1, at1))" by simp
      then show ?thesis
        using step_buf 1 [OF step refl refl refl]
        by (cases "demux_loop d1 buf at1") (auto simp: demux_loop_step(3))
    qed
  qed
qed

section \<open>The demuxer as an incremental reader\<close>

text \<open>Between two deliveries the buffer holds the start of an element that did not complete.\<close>

definition demuxer_idle :: "demuxer \<Rightarrow> bool" where
  "demuxer_idle d \<longleftrightarrow> length (dx_buf d) \<le> MAX_BUFFER \<and> demux_step d (dx_buf d) 0 = Inr None"

text \<open>A delivery that does not overflow the input buffer.\<close>

definition delivery_fits :: "demuxer \<Rightarrow> bytes \<Rightarrow> bool" where
  "delivery_fits d data \<longleftrightarrow> length (dx_buf d) + length data \<le> MAX_BUFFER"

lemma feed_fits:
  "length (dx_buf d) + length data \<le> MAX_BUFFER \<Longrightarrow>
    feed d data = bindE (demux_loop d (dx_buf d @ data) 0)
      (\<lambda>(d', es, at). Inr (set_buf (drop at (dx_buf d @ data)) d', es))"
  by (simp add: feed_def set_buf_def Let_def)

lemma feed_overflows:
  "MAX_BUFFER < length (dx_buf d) + length data \<Longrightarrow>
    feed d data = Inl (MkvError ''input buffer overflow: the stream stopped making sense'')"
  by (simp add: feed_def)

lemma feed_Inr:
  assumes "feed d data = Inr (d', es)"
  obtains d1 at where "length (dx_buf d) + length data \<le> MAX_BUFFER"
    and "demux_loop d (dx_buf d @ data) 0 = Inr (d1, es, at)"
    and "d' = set_buf (drop at (dx_buf d @ data)) d1"
    and "demux_step d1 (dx_buf d @ data) at = Inr None" and "at \<le> length (dx_buf d @ data)"
proof -
  have fits: "length (dx_buf d) + length data \<le> MAX_BUFFER"
    using assms feed_overflows [of d data] by (cases "MAX_BUFFER < length (dx_buf d) + length data") auto
  with assms obtain d1 at where "demux_loop d (dx_buf d @ data) 0 = Inr (d1, es, at)"
    and "d' = set_buf (drop at (dx_buf d @ data)) d1"
    by (auto simp: feed_fits)
  with fits show thesis using demux_loop_stops that by blast
qed

text \<open>After a delivery the buffer holds no complete step.\<close>

lemma feed_idle:
  assumes "feed d data = Inr (d', es)"
  shows "demuxer_idle d'"
proof -
  obtain d1 at where fits: "length (dx_buf d) + length data \<le> MAX_BUFFER"
    and d': "d' = set_buf (drop at (dx_buf d @ data)) d1"
    and stop: "demux_step d1 (dx_buf d @ data) at = Inr None" and at: "at \<le> length (dx_buf d @ data)"
    using assms by (rule feed_Inr)
  define buf where "buf = dx_buf d @ data"
  have "demux_step d1 (take at buf @ drop at buf) (length (take at buf) + 0) = Inr None"
    using stop at by (simp add: buf_def [symmetric])
  then have "shift_step (length (take at buf)) (demux_step d1 (drop at buf) 0) = Inr None"
    by (simp only: demux_step_shift)
  then have "demux_step d1 (drop at buf) 0 = Inr None"
    by (cases "demux_step d1 (drop at buf) 0") (auto simp: shift_step_def)
  with fits show ?thesis by (simp add: demuxer_idle_def d' demux_step_buf buf_def)
qed

text \<open>The general law, errors included: a delivery may be cut anywhere.\<close>

lemma feed_cut:
  assumes fits: "length (dx_buf d) + length (x @ y) \<le> MAX_BUFFER"
  shows "feed d (x @ y) =
    bindE (feed d x) (\<lambda>(d1, es1). bindE (feed d1 y) (\<lambda>(d2, es2). Inr (d2, es1 @ es2)))"
proof (cases "demux_loop d (dx_buf d @ x) 0")
  case (Inl e)
  then show ?thesis using fits demux_loop_more [of d "dx_buf d @ x" y 0]
    by (simp add: feed_fits)
next
  case (Inr r)
  obtain d1 es1 at where r: "r = (d1, es1, at)" by (cases r)
  define buf where "buf = dx_buf d @ x"
  define pre rest where "pre = take at buf" and "rest = drop at buf"
  have loop: "demux_loop d buf 0 = Inr (d1, es1, at)" using Inr r by (simp add: buf_def)
  then have at: "at \<le> length buf" using demux_loop_stops by blast
  then have parts: "buf = pre @ rest" "length pre = at" by (simp_all add: pre_def rest_def)
  have first: "feed d x = Inr (set_buf rest d1, es1)"
    using fits loop by (simp add: feed_fits buf_def rest_def)
  have fits2: "length rest + length y \<le> MAX_BUFFER" using fits by (simp add: rest_def buf_def)
  have "demux_loop d (buf @ y) 0 = then_events es1 (demux_loop d1 (buf @ y) at)"
    using loop by (subst demux_loop_more) simp
  also have "demux_loop d1 (buf @ y) at = shift_loop at (demux_loop d1 (rest @ y) 0)"
    using demux_loop_shift [of d1 pre "rest @ y" 0] by (simp add: parts)
  finally have whole: "demux_loop d (dx_buf d @ x @ y) 0 =
      then_events es1 (shift_loop at (demux_loop d1 (rest @ y) 0))"
    by (simp add: buf_def)
  have drops: "drop (at + k) (dx_buf d @ x @ y) = drop k (rest @ y)" for k
  proof -
    have "drop (at + k) (dx_buf d @ x @ y) = drop k (drop at (buf @ y))"
      by (simp add: buf_def add.commute del: drop_append)
    also have "drop at (buf @ y) = rest @ y" using at by (simp add: rest_def)
    finally show ?thesis .
  qed
  have total: "feed d (x @ y) = bindE (then_events es1 (shift_loop at (demux_loop d1 (rest @ y) 0)))
      (\<lambda>(d', es, at). Inr (set_buf (drop at (dx_buf d @ x @ y)) d', es))"
    using fits whole by (simp add: feed_fits)
  have second: "feed (set_buf rest d1) y = bindE (demux_loop d1 (rest @ y) 0)
      (\<lambda>(d', es, at). Inr (set_buf (drop at (rest @ y)) d', es))"
    using fits2 by (cases "demux_loop d1 (rest @ y) 0") (auto simp: feed_fits demux_loop_buf)
  show ?thesis
    unfolding total first bindE_simps prod.case second
    by (cases "demux_loop d1 (rest @ y) 0") (auto simp: shift_loop_def drops simp del: drop_append)
qed

interpretation demuxing: incremental_reader feed delivery_fits demuxer_idle
proof
  fix d assume "demuxer_idle d"
  then show "feed d [] = Inr (d, [])"
    by (simp add: feed_fits demuxer_idle_def demux_loop_step set_buf_def)
next
  fix d x d' es assume "feed d x = Inr (d', es)"
  then show "demuxer_idle d'" by (rule feed_idle)
next
  fix d x y assume fits: "delivery_fits d (x @ y)"
  have "delivery_fits d' y" if "feed d x = Inr (d', es)" for d' es
    using that fits by (auto simp: delivery_fits_def elim!: feed_Inr)
  with fits show "delivery_fits d x \<and> (\<forall>d' es. feed d x = Inr (d', es) \<longrightarrow> delivery_fits d' y)"
    by (simp add: delivery_fits_def)
next
  fix d x y assume "delivery_fits d (x @ y)"
  then show "feed d (x @ y) =
      bindE (feed d x) (\<lambda>(d1, es1). bindE (feed d1 y) (\<lambda>(d2, es2). Inr (d2, es1 @ es2)))"
    by (intro feed_cut) (simp add: delivery_fits_def)
qed

text \<open>
  C3. However the pipe cuts a stream into deliveries, a demuxer whose buffer holds no complete element
  ends in the same state, with the same events, as if the whole stream had arrived in one call, and
  raises the error the one call raises; the only assumption is that the stream as a whole fits the
  input buffer.
\<close>

theorem demux_any_cut:
  "demuxer_idle d \<Longrightarrow> delivery_fits d (concat xs) \<Longrightarrow> feed_all feed d xs = feed d (concat xs)"
  by (rule demuxing.feed_concat)

lemma demux_any_cut_witness:
  "feed_all feed new_demuxer
     [[0x1A, 0x45], [0xDF, 0xA3, 0x80, 0x16], [0x54, 0xAE, 0x6B], [0x80], [], [0x18, 0x53]] =
   feed new_demuxer [0x1A, 0x45, 0xDF, 0xA3, 0x80, 0x16, 0x54, 0xAE, 0x6B, 0x80, 0x18, 0x53]"
proof -
  have "demuxer_idle new_demuxer"
    by (simp add: demuxer_idle_def new_demuxer_def MAX_BUFFER_def demux_step_def read_id_def)
  moreover have "delivery_fits new_demuxer
      (concat [[0x1A, 0x45], [0xDF, 0xA3, 0x80, 0x16], [0x54, 0xAE, 0x6B], [0x80], [], [0x18, 0x53]])"
    by (simp add: delivery_fits_def new_demuxer_def MAX_BUFFER_def)
  ultimately show ?thesis
    using demux_any_cut [of new_demuxer
        "[[0x1A, 0x45], [0xDF, 0xA3, 0x80, 0x16], [0x54, 0xAE, 0x6B], [0x80], [], [0x18, 0x53]]"]
    by simp
qed

end
