(* ===== verification/MkvWriter.thy ===== *)
theory MkvWriter
  imports MkvCut
begin

text \<open>
  The writer of \<open>stream/mkv.py\<close>: \<open>stream_header\<close> and \<open>encode_cluster\<close>, with the proof that the
  demuxer gives back exactly the blocks a cluster was written from, renumbered.
\<close>

section \<open>The writer\<close>

definition TRACK_VIDEO :: nat where "TRACK_VIDEO = 1"
definition TRACK_AUDIO :: nat where "TRACK_AUDIO = 2"
definition TRACK_RAW :: nat where "TRACK_RAW = 3"

text \<open>\<open>b"".join\<close> of elements, each of which may raise.\<close>

definition joinE :: "bytes result list \<Rightarrow> bytes result" where
  "joinE rs = bindE (mapE (\<lambda>r. r) rs) (\<lambda>bs. Inr (concat bs))"

definition ascii :: "string \<Rightarrow> bytes" where
  "ascii s = map of_char s"

definition track_entry_for :: "track option \<Rightarrow> nat \<Rightarrow> (nat \<Rightarrow> bytes) \<Rightarrow> bytes result" where
  "track_entry_for t number names =
     (case t of None \<Rightarrow> Inr [] | Some tr \<Rightarrow> renumber_track tr number (names number))"

text \<open>
  \<open>app\<close> and \<open>names\<close> are the UTF-8 encodings of the code's strings, \<open>names n = []\<close> where the
  code's dictionary has no entry.
\<close>

definition stream_header ::
  "track option \<Rightarrow> track option \<Rightarrow> bytes \<Rightarrow> track option \<Rightarrow> (nat \<Rightarrow> bytes) \<Rightarrow> bytes result" where
  "stream_header video audio app raw names =
     bindE (joinE [uint_element 0x4286 1, uint_element 0x42F7 1, uint_element 0x42F2 4,
                   uint_element 0x42F3 8, element 0x4282 (ascii ''matroska''),
                   uint_element 0x4287 4, uint_element 0x4285 2]) (\<lambda>ebml_body.
     bindE (element ID_EBML ebml_body) (\<lambda>ebml.
     bindE (joinE [uint_element ID_TIMESTAMP_SCALE 1000000, element ID_MUXING_APP app,
                   element ID_WRITING_APP app]) (\<lambda>info_body.
     bindE (element ID_INFO info_body) (\<lambda>info.
     bindE (joinE [track_entry_for video TRACK_VIDEO names, track_entry_for audio TRACK_AUDIO names,
                   track_entry_for raw TRACK_RAW names]) (\<lambda>entries.
     bindE (element ID_TRACKS entries) (\<lambda>tracks.
       Inr (ebml @ enc_id ID_SEGMENT @ [0x01, 0xFF, 0xFF, 0xFF, 0xFF, 0xFF, 0xFF, 0xFF] @ info @ tracks)))))))"

text \<open>\<open>bytes([n])\<close>, \<open>rel.to_bytes(2, "big", signed=True)\<close> for an offset that fits, and
  \<open>uint_element\<close> of an integer that may be negative.\<close>

definition single_byte :: "nat \<Rightarrow> bytes result" where
  "single_byte n = (if n < 256 then Inr [byte_of n] else Inl ValueError)"

definition signed_pair :: "int \<Rightarrow> bytes" where
  "signed_pair rel = be_digits 2 (nat (rel mod 65536))"

definition int_element :: "nat \<Rightarrow> int \<Rightarrow> bytes result" where
  "int_element element_id v = (if v < 0 then Inl OverflowError else uint_element element_id (nat v))"

definition encode_block :: "int \<Rightarrow> (nat \<rightharpoonup> nat) \<Rightarrow> block \<Rightarrow> bytes result" where
  "encode_block base track_map b =
     (let rel = bl_ts_ms b - base
      in if \<not> (- 32768 \<le> rel \<and> rel \<le> 32767)
         then Inl (MkvError ''a block does not fit its cluster'')
         else case track_map (bl_track b) of
           None \<Rightarrow> Inl KeyError
         | Some number \<Rightarrow>
             bindE (enc_size number 1) (\<lambda>s.
               let head = s @ signed_pair rel
               in if bl_grouped b
                  then bindE (single_byte (push_bit 1 (bl_lacing b))) (\<lambda>fl.
                       bindE (element ID_BLOCK (head @ fl @ bl_data b)) (\<lambda>blk.
                         element ID_BLOCKGROUP (blk @ bl_extra b)))
                  else bindE (single_byte ((if bl_keyframe b then 0x80 else 0) OR push_bit 1 (bl_lacing b))) (\<lambda>fl.
                         element ID_SIMPLEBLOCK (head @ fl @ bl_data b))))"

fun encode_blocks :: "int \<Rightarrow> (nat \<rightharpoonup> nat) \<Rightarrow> block list \<Rightarrow> bytes result" where
  "encode_blocks base track_map [] = Inr []"
| "encode_blocks base track_map (b # bs) =
     bindE (encode_block base track_map b) (\<lambda>e.
     bindE (encode_blocks base track_map bs) (\<lambda>es. Inr (e @ es)))"

definition encode_cluster :: "block list \<Rightarrow> (nat \<rightharpoonup> nat) \<Rightarrow> bytes result" where
  "encode_cluster blocks track_map =
     (case blocks of
        [] \<Rightarrow> Inr []
      | b # _ \<Rightarrow>
          bindE (int_element ID_TIMESTAMP (bl_ts_ms b)) (\<lambda>stamp.
          bindE (encode_blocks (bl_ts_ms b) track_map blocks) (\<lambda>body.
          bindE (enc_size (length (stamp @ body)) 4) (\<lambda>s.
            Inr (enc_id ID_CLUSTER @ s @ stamp @ body)))))"

section \<open>Children of a concatenation\<close>

lemma children_step_more:
  assumes "children_step x at = Inr (cs, at')"
  shows "children_step (x @ y) at = Inr (cs, at')"
proof -
  obtain n i m sz where c: "read_id x at = Inr (Some (n, i))"
    "read_size x (at + n) = Inr (Some (m, Some sz))" "at' = at + n + m + sz" "at' \<le> length x"
    "cs = [(i, pyslice x (at + n + m) at', pyslice x at at')]"
    using assms by (rule children_stepE)
  then have "read_id (x @ y) at = Inr (Some (n, i))" "read_size (x @ y) (at + n) = Inr (Some (m, Some sz))"
    by (simp_all add: read_id_more read_size_more)
  then show ?thesis using c(3-5) by (simp add: children_step_def slice_prefix Let_def)
qed

definition shift_child :: "nat \<Rightarrow> (child list \<times> nat) result \<Rightarrow> (child list \<times> nat) result" where
  "shift_child n r = bindE r (\<lambda>(cs, at). Inr (cs, n + at))"

lemma children_step_shift:
  "children_step (pre @ y) (length pre + at) = shift_child (length pre) (children_step y at)"
proof -
  have slices: "pyslice (pre @ y) (length pre + a) (length pre + b) = pyslice y a b" for a b
    by (rule slice_append_right)
  have ident: "read_id (pre @ y) (length pre + at) = read_id y at" by (rule read_id_shift)
  have sized: "read_size (pre @ y) (length pre + at + n) = read_size y (at + n)" for n
    using read_size_shift [of pre y "at + n"] by (simp add: add.assoc)
  show ?thesis
    unfolding children_step_def ident sized
    by (cases "read_id y at"; cases "read_size y (at + fst (the (projr (read_id y at))))")
       (auto simp: shift_child_def Let_def slices add.assoc split: option.splits)
qed

lemma children_loop_shift: "children_loop (pre @ y) (length pre + at) = children_loop y at"
proof (induction y at rule: children_loop.induct)
  case (1 y at)
  show ?case
  proof (cases "at < length y")
    case True
    show ?thesis
    proof (cases "children_step y at")
      case (Inl e)
      then show ?thesis
        using True children_step_shift [of pre y at]
        by (simp add: children_loop.simps [of y at] children_loop.simps [of "pre @ y" "length pre + at"]
            shift_child_def)
    next
      case (Inr r)
      obtain cs at' where r: "r = (cs, at')" by (cases r)
      then show ?thesis
        using True Inr children_step_shift [of pre y at] "1" [OF True Inr r [symmetric]]
        by (simp add: children_loop.simps [of y at] children_loop.simps [of "pre @ y" "length pre + at"]
            shift_child_def)
    qed
  qed (simp add: children_loop.simps)
qed

lemma children_loop_more:
  "children_loop x at = Inr cs \<Longrightarrow> at \<le> length x \<Longrightarrow>
    children_loop (x @ y) at = bindE (children_loop (x @ y) (length x)) (\<lambda>ds. Inr (cs @ ds))"
proof (induction x at arbitrary: cs rule: children_loop.induct)
  case (1 x at)
  show ?case
  proof (cases "at < length x")
    case True
    obtain r where step: "children_step x at = Inr r"
      using "1.prems"(1) True by (cases "children_step x at") (auto simp: children_loop.simps [of x at])
    obtain us at' where r: "r = (us, at')" by (cases r)
    then obtain rest where rest: "children_loop x at' = Inr rest" "cs = us @ rest"
      using "1.prems"(1) True step by (auto simp: children_loop.simps [of x at])
    have "at' \<le> length x" using children_step_progress step r by blast
    then have "children_loop (x @ y) at' = bindE (children_loop (x @ y) (length x)) (\<lambda>ds. Inr (rest @ ds))"
      using "1.IH" [OF True step r [symmetric] rest(1)] by simp
    moreover have "children_step (x @ y) at = Inr (us, at')"
      using children_step_more step r by blast
    ultimately show ?thesis
      using True rest(2) by (simp add: children_loop.simps [of "x @ y" at] bindE_assoc)
  next
    case False
    with "1.prems" have "at = length x" "cs = []" by (auto simp: children_loop.simps [of x at])
    then show ?thesis by (cases "children_loop (x @ y) (length x)") simp_all
  qed
qed

lemma children_append:
  "children x = Inr cs \<Longrightarrow> children (x @ y) = bindE (children y) (\<lambda>ds. Inr (cs @ ds))"
  using children_loop_more [of x 0 cs y] children_loop_shift [of x y 0] by (simp add: children_def)

lemma children_loop_raw:
  "children_loop x at = Inr cs \<Longrightarrow> at \<le> length x \<Longrightarrow> concat (map (snd \<circ> snd) cs) = drop at x"
proof (induction x at arbitrary: cs rule: children_loop.induct)
  case (1 x at)
  show ?case
  proof (cases "at < length x")
    case True
    obtain r where step: "children_step x at = Inr r"
      using "1.prems"(1) True by (cases "children_step x at") (auto simp: children_loop.simps [of x at])
    obtain us at' where r: "r = (us, at')" by (cases r)
    then obtain rest where rest: "children_loop x at' = Inr rest" "cs = us @ rest"
      using "1.prems"(1) True step by (auto simp: children_loop.simps [of x at])
    have at': "at < at'" "at' \<le> length x" using children_step_progress step r by blast+
    have "us = [(fst (hd us), fst (snd (hd us)), pyslice x at at')]"
      using step r by (auto elim: children_stepE)
    moreover have "concat (map (snd \<circ> snd) rest) = drop at' x"
      using "1.IH" [OF True step r [symmetric] rest(1)] at' by (simp add: comp_def)
    moreover have "pyslice x at at' @ drop at' x = drop at x"
      using at' by (simp add: pyslice_def) (metis add_diff_inverse_nat append_take_drop_id drop_drop
          less_imp_le_nat linorder_not_less add.commute)
    ultimately show ?thesis by (cases us) (auto simp: rest(2) comp_def)
  next
    case False
    with "1.prems" show ?thesis by (auto simp: children_loop.simps [of x at])
  qed
qed

lemma children_raw: "children x = Inr cs \<Longrightarrow> concat (map (snd \<circ> snd) cs) = x"
  using children_loop_raw [of x 0 cs] by (simp add: children_def)

section \<open>A block is read back\<close>

lemma signed_pair_reads:
  assumes "- 32768 \<le> rel" and "rel \<le> 32767"
  shows "signed16 (from_be (signed_pair rel)) = rel"
proof -
  have "nat (rel mod 65536) < 256 ^ 2" by (simp add: nat_less_iff)
  then have decoded: "from_be (signed_pair rel) = nat (rel mod 65536)"
    unfolding signed_pair_def by (rule from_be_digits_small)
  show ?thesis
  proof (cases "rel < 0")
    case True
    have "rel mod 65536 = (rel + 65536) mod 65536" by (rule mod_add_self2 [symmetric])
    also have "\<dots> = rel + 65536" using True assms by (intro mod_pos_pos_trivial) linarith+
    finally have "rel mod 65536 = rel + 65536" .
    with True assms decoded show ?thesis by (simp add: signed16_def)
  next
    case False
    then have "rel mod 65536 = rel" using assms by (intro mod_pos_pos_trivial) linarith+
    with False assms decoded show ?thesis by (simp add: signed16_def)
  qed
qed

lemma length_signed_pair [simp]: "length (signed_pair rel) = 2"
  by (simp add: signed_pair_def)

text \<open>The track number of a block is the value of its variable-length integer.\<close>

lemma read_size_number:
  "read_size body 0 = Inr (Some (n, Some v)) \<Longrightarrow>
    foldl (\<lambda>v b. push_bit 8 v OR unat b) (unat (body ! 0) AND (drop_bit (n - 1) 0x80 - 1)) (pyslice body 1 n) = v"
  by (auto simp: read_size_def Let_def split: if_splits)

lemma demux_block_reads:
  assumes ts: "dx_cluster_ts d = Some t"
    and sz: "enc_size number 1 = Inr s" "read_size (s @ rest) 0 = Inr (Some (length s, Some number))"
    and rest: "rest = signed_pair rel @ [byte_of fl] @ payload"
    and rel: "- 32768 \<le> rel" "rel \<le> 32767" and fl: "fl < 256"
  shows "demux_block d (s @ rest) extra simple =
    Inr (d\<lparr>dx_blocks := dx_blocks d + 1\<rparr>,
      \<lparr>bl_track = number, bl_ts_ms = int t + rel, bl_keyframe = (if simple then fl AND 0x80 \<noteq> 0 else False),
       bl_data = payload, bl_extra = extra, bl_grouped = \<not> simple, bl_lacing = drop_bit 1 fl AND 3\<rparr>)"
proof -
  have pair: "pyslice (s @ rest) (length s) (length s + 2) = signed_pair rel"
    using slice_at [of "length s" s "length s + 2" "signed_pair rel" "[byte_of fl] @ payload"] by (simp add: rest)
  have flags: "unat ((s @ rest) ! (length s + 2)) = fl"
    using fl by (simp add: rest nth_append)
  have data: "drop (length s + 3) (s @ rest) = payload" by (simp add: rest)
  have len: "\<not> length (s @ rest) < length s + 3" by (simp add: rest)
  show ?thesis
    unfolding demux_block_def ts option.case sz(2) bindE_simps prod.case Let_def
      read_size_number [OF sz(2)] pair flags data signed_pair_reads [OF rel] if_not_P [OF len] ..
qed

text \<open>A block that fits its cluster, with everything the reader keeps of it.\<close>

definition extra_ok :: "bytes \<Rightarrow> bool \<Rightarrow> bool" where
  "extra_ok extra keyframe =
     (case children extra of
        Inl _ \<Rightarrow> False
      | Inr cs \<Rightarrow> list_all (\<lambda>(i, _, _). i \<noteq> ID_BLOCK) cs \<and>
                  keyframe = list_all (\<lambda>(i, _, _). i \<noteq> ID_REFERENCE_BLOCK) cs)"

definition block_ok :: "int \<Rightarrow> (nat \<rightharpoonup> nat) \<Rightarrow> block \<Rightarrow> bool" where
  "block_ok base track_map b \<longleftrightarrow>
     - 32768 \<le> bl_ts_ms b - base \<and> bl_ts_ms b - base \<le> 32767 \<and>
     (case track_map (bl_track b) of None \<Rightarrow> False | Some number \<Rightarrow> number < 2 ^ 56 - 1) \<and>
     bl_lacing b < 4 \<and>
     length (bl_data b) + length (bl_extra b) + 64 \<le> MAX_ELEMENT \<and>
     (if bl_grouped b then extra_ok (bl_extra b) (bl_keyframe b) else bl_extra b = [])"

definition renumber_block :: "(nat \<rightharpoonup> nat) \<Rightarrow> block \<Rightarrow> block" where
  "renumber_block track_map b = b\<lparr>bl_track := the (track_map (bl_track b))\<rparr>"

lemma group_parts_others:
  "list_all (\<lambda>(i, _, _). i \<noteq> ID_BLOCK) cs \<Longrightarrow>
    group_parts cs blk extra referenced =
      (blk, extra @ concat (map (snd \<circ> snd) cs),
       referenced \<or> \<not> list_all (\<lambda>(i, _, _). i \<noteq> ID_REFERENCE_BLOCK) cs)"
  by (induction cs arbitrary: extra referenced) (auto simp: comp_def)

section \<open>An element is read back\<close>

lemma read_id_le: "read_id buf at = Inr (Some (n, v)) \<Longrightarrow> n \<le> 4"
  by (auto simp: read_id_def Let_def split: if_splits)

lemma read_size_le: "read_size buf at = Inr (Some (n, v)) \<Longrightarrow> n \<le> 8"
  by (auto simp: read_size_def Let_def split: if_splits)

lemma length_enc_id: "valid_id i \<Longrightarrow> length (enc_id i) \<le> 4"
  using read_id_enc(1) [of i "[]" "[]"] read_id_le by fastforce

lemma element_length:
  assumes "element_ok e"
  shows "length (encode_element e) \<le> length (snd e) + 12" and "encode_element e \<noteq> []"
    and "element (fst e) (snd e) = Inr (encode_element e)"
proof -
  obtain i body where e: "e = (i, body)" by (cases e)
  with assms obtain s where s: "element i body = Inr (enc_id i @ s @ body)"
    "encode_element (i, body) = enc_id i @ s @ body" "s \<noteq> []"
    "\<And>pre post. read_size (pre @ s @ post) (length pre) = Inr (Some (length s, Some (length body)))"
    using element_reads by blast
  have "length s \<le> 8" using s(4) [of "[]" "[]"] read_size_le by fastforce
  moreover have "length (enc_id i) \<le> 4" using assms length_enc_id by (simp add: e element_ok_def)
  ultimately show "length (encode_element e) \<le> length (snd e) + 12" by (simp add: e s(2))
  show "encode_element e \<noteq> []" "element (fst e) (snd e) = Inr (encode_element e)"
    using s by (simp_all add: e)
qed

lemma demux_step_element:
  assumes ok: "element_ok (i, body)" and "i \<noteq> ID_SEGMENT" "i \<noteq> ID_CLUSTER"
    and short: "length body \<le> MAX_ELEMENT"
  shows "demux_step d (encode_element (i, body) @ post) 0 =
    bindE (whole_element d i body (encode_element (i, body)))
      (\<lambda>(d', es). Inr (Some (d', es, length (encode_element (i, body)))))"
proof -
  obtain s where s: "encode_element (i, body) = enc_id i @ s @ body"
    "\<And>pre post. read_size (pre @ s @ post) (length pre) = Inr (Some (length s, Some (length body)))"
    using ok element_reads by blast
  have "read_id (encode_element (i, body) @ post) 0 = Inr (Some (length (enc_id i), i))"
    using read_id_enc(1) [of i "[]" "s @ body @ post"] ok by (simp add: s(1) element_ok_def)
  moreover have "read_size (encode_element (i, body) @ post) (0 + length (enc_id i)) =
      Inr (Some (length s, Some (length body)))"
    using s(2) [of "enc_id i" "body @ post"] by (simp add: s(1))
  moreover have "pyslice (encode_element (i, body) @ post) (length (enc_id i) + length s)
      (length (enc_id i) + length s + length body) = body"
    using slice_at [of _ "enc_id i @ s" _ body post] by (simp add: s(1))
  moreover have "pyslice (encode_element (i, body) @ post) 0
      (length (enc_id i) + length s + length body) = encode_element (i, body)"
    by (simp add: s(1) pyslice_def)
  ultimately show ?thesis
    using assms(2,3) short by (simp add: demux_step_sized sized_step_def) (simp add: s(1) add.assoc)
qed

lemma demux_loop_first:
  assumes "demux_step d (e @ post) 0 = Inr (Some (d', es, length e))"
  shows "demux_loop d (e @ post) 0 = then_events es (shift_loop (length e) (demux_loop d' post 0))"
  using demux_loop_step(3) [OF assms] demux_loop_shift [of d' e post 0] by simp

lemma demux_loop_empty: "demux_loop d [] 0 = Inr (d, [], 0)"
  by (simp add: demux_loop_step(2) demux_step_def read_id_def)

section \<open>A cluster is read back\<close>

text \<open>What writing one block gives: an element the demuxer turns back into the block.\<close>

lemma encode_block_reads:
  assumes ok: "block_ok base tm b" and base: "0 \<le> base"
  obtains i body where "encode_block base tm b = Inr (encode_element (i, body))"
    and "element_ok (i, body)" and "i \<noteq> ID_SEGMENT" and "i \<noteq> ID_CLUSTER" and "length body \<le> MAX_ELEMENT"
    and "length body \<le> length (bl_data b) + length (bl_extra b) + 52"
    and "\<And>d raw. dx_cluster_ts d = Some (nat base) \<Longrightarrow> dx_in_cluster d \<Longrightarrow>
      whole_element d i body raw = Inr (d\<lparr>dx_blocks := dx_blocks d + 1\<rparr>, [BlockEvent (renumber_block tm b)])"
proof -
  let ?rel = "bl_ts_ms b - base"
  from ok have rel: "- 32768 \<le> ?rel" "?rel \<le> 32767" and lacing: "bl_lacing b < 4"
    and len: "length (bl_data b) + length (bl_extra b) + 64 \<le> MAX_ELEMENT"
    by (simp_all add: block_ok_def)
  from ok obtain number where number: "tm (bl_track b) = Some number" "number < 2 ^ 56 - 1"
    by (auto simp: block_ok_def split: option.splits)
  obtain s where s: "enc_size number 1 = Inr s"
    "\<And>pre post. read_size (pre @ s @ post) (length pre) = Inr (Some (length s, Some number))"
    using enc_size_reads [OF number(2), of 1] by (metis one_le_numeral)
  have s0: "read_size (s @ rest) 0 = Inr (Some (length s, Some number))" for rest
    using s(2) [of "[]" rest] by simp
  have "length s \<le> 8" using s0 read_size_le by blast
  show thesis
  proof (cases "bl_grouped b")
    case False
    define fl where "fl = (if bl_keyframe b then 0x80 else 0) OR push_bit 1 (bl_lacing b)"
    define body where "body = s @ signed_pair ?rel @ [byte_of fl] @ bl_data b"
    have cases: "bl_lacing b = 0 \<or> bl_lacing b = 1 \<or> bl_lacing b = 2 \<or> bl_lacing b = 3" using lacing by auto
    have fl: "fl < 256" "(fl AND 0x80 \<noteq> 0) = bl_keyframe b" "drop_bit 1 fl AND 3 = bl_lacing b"
      using cases by (auto simp: fl_def)
    have short: "length body \<le> MAX_ELEMENT" using \<open>length s \<le> 8\<close> len by (simp add: body_def)
    then have eok: "element_ok (ID_SIMPLEBLOCK, body)" by (simp add: element_ok_def MAX_ELEMENT_def)
    have "encode_block base tm b = Inr (encode_element (ID_SIMPLEBLOCK, body))"
    proof -
      have "single_byte ((if bl_keyframe b then 0x80 else 0) OR push_bit 1 (bl_lacing b)) = Inr [byte_of fl]"
        unfolding single_byte_def fl_def [symmetric] using fl(1) by simp
      then show ?thesis
        using rel number(1) s(1) False element_length(3) [OF eok, unfolded fst_conv snd_conv body_def]
        unfolding encode_block_def body_def by (simp only: Let_def option.case bindE_simps append_assoc) simp
    qed
    moreover have "whole_element d ID_SIMPLEBLOCK body raw =
        Inr (d\<lparr>dx_blocks := dx_blocks d + 1\<rparr>, [BlockEvent (renumber_block tm b)])"
      if "dx_cluster_ts d = Some (nat base)" "dx_in_cluster d" for d raw
    proof -
      have "demux_block d body [] True = Inr (d\<lparr>dx_blocks := dx_blocks d + 1\<rparr>, renumber_block tm b)"
        unfolding body_def
        using that(1) s(1) s0 rel fl base number(1) False ok
        by (subst demux_block_reads) (auto simp: renumber_block_def block_ok_def)
      then show ?thesis using that(2) by (simp add: whole_element_def cluster_child_def element_ids)
    qed
    moreover have "length body \<le> length (bl_data b) + length (bl_extra b) + 52"
      using \<open>length s \<le> 8\<close> by (simp add: body_def)
    ultimately show thesis using eok short by (intro that) (auto simp: element_ids)
  next
    case True
    define fl where "fl = push_bit 1 (bl_lacing b)"
    define blk where "blk = s @ signed_pair ?rel @ [byte_of fl] @ bl_data b"
    define body where "body = encode_element (ID_BLOCK, blk) @ bl_extra b"
    have cases: "bl_lacing b = 0 \<or> bl_lacing b = 1 \<or> bl_lacing b = 2 \<or> bl_lacing b = 3" using lacing by auto
    have fl: "fl < 256" "drop_bit 1 fl AND 3 = bl_lacing b"
      using cases by (auto simp: fl_def)
    have "length blk + length (bl_extra b) + 40 \<le> MAX_ELEMENT"
      using \<open>length s \<le> 8\<close> len by (simp add: blk_def)
    then have bok: "element_ok (ID_BLOCK, blk)" by (simp add: element_ok_def MAX_ELEMENT_def)
    have short: "length body \<le> MAX_ELEMENT"
      using \<open>length blk + length (bl_extra b) + 40 \<le> MAX_ELEMENT\<close> element_length(1) [OF bok]
      by (simp add: body_def)
    then have eok: "element_ok (ID_BLOCKGROUP, body)" by (simp add: element_ok_def MAX_ELEMENT_def)
    have "encode_block base tm b = Inr (encode_element (ID_BLOCKGROUP, body))"
    proof -
      have "single_byte (push_bit 1 (bl_lacing b)) = Inr [byte_of fl]"
        unfolding single_byte_def fl_def [symmetric] using fl(1) by simp
      then show ?thesis
        using rel number(1) s(1) True element_length(3) [OF bok, unfolded fst_conv snd_conv blk_def]
          element_length(3) [OF eok, unfolded fst_conv snd_conv body_def blk_def]
        unfolding encode_block_def body_def blk_def by (simp only: Let_def option.case bindE_simps append_assoc) simp
    qed
    moreover have "whole_element d ID_BLOCKGROUP body raw =
        Inr (d\<lparr>dx_blocks := dx_blocks d + 1\<rparr>, [BlockEvent (renumber_block tm b)])"
      if "dx_cluster_ts d = Some (nat base)" "dx_in_cluster d" for d raw
    proof -
      from ok True obtain cs where cs: "children (bl_extra b) = Inr cs"
        "list_all (\<lambda>(i, _, _). i \<noteq> ID_BLOCK) cs"
        "bl_keyframe b = list_all (\<lambda>(i, _, _). i \<noteq> ID_REFERENCE_BLOCK) cs"
        by (auto simp: block_ok_def extra_ok_def split: sum.splits)
      have "children (encode_element (ID_BLOCK, blk)) = Inr [(ID_BLOCK, blk, encode_element (ID_BLOCK, blk))]"
        using children_encoded [of "[(ID_BLOCK, blk)]"] bok by simp
      then have "children body = Inr ((ID_BLOCK, blk, encode_element (ID_BLOCK, blk)) # cs)"
        using cs(1) by (simp add: body_def children_append)
      moreover have "group_parts ((ID_BLOCK, blk, encode_element (ID_BLOCK, blk)) # cs) None [] False =
          (Some blk, bl_extra b, \<not> bl_keyframe b)"
        using cs(2,3) children_raw [OF cs(1)] by (simp add: group_parts_others)
      moreover have "demux_block d blk (bl_extra b) False =
          Inr (d\<lparr>dx_blocks := dx_blocks d + 1\<rparr>, (renumber_block tm b)\<lparr>bl_keyframe := False\<rparr>)"
        unfolding blk_def
        using that(1) s(1) s0 rel fl base number(1) True
        by (subst demux_block_reads) (auto simp: renumber_block_def)
      moreover have "(renumber_block tm b)\<lparr>bl_keyframe := bl_keyframe b, bl_grouped := True\<rparr> = renumber_block tm b"
        using True by (simp add: renumber_block_def)
      ultimately show ?thesis using that(2) by (simp add: whole_element_def cluster_child_def element_ids)
    qed
    moreover have "length body \<le> length (bl_data b) + length (bl_extra b) + 52"
      using \<open>length s \<le> 8\<close> element_length(1) [OF bok] by (simp add: body_def blk_def)
    ultimately show thesis using eok short by (intro that) (auto simp: element_ids)
  qed
qed

definition block_size :: "block \<Rightarrow> nat" where
  "block_size b = length (bl_data b) + length (bl_extra b) + 64"

lemma encode_blocks_reads:
  assumes "list_all (block_ok base tm) bs" and "0 \<le> base"
  shows "\<exists>data. encode_blocks base tm bs = Inr data \<and> length data \<le> sum_list (map block_size bs) \<and>
    (\<forall>d. dx_cluster_ts d = Some (nat base) \<longrightarrow> dx_in_cluster d \<longrightarrow>
      demux_loop d data 0 = Inr (d\<lparr>dx_blocks := dx_blocks d + length bs\<rparr>,
        map (\<lambda>b. BlockEvent (renumber_block tm b)) bs, length data))"
  using assms(1)
proof (induction bs)
  case Nil
  then show ?case by (simp add: demux_loop_empty)
next
  case (Cons b bs)
  then obtain rest where rest: "encode_blocks base tm bs = Inr rest" "length rest \<le> sum_list (map block_size bs)"
    "\<And>d. dx_cluster_ts d = Some (nat base) \<Longrightarrow> dx_in_cluster d \<Longrightarrow>
      demux_loop d rest 0 = Inr (d\<lparr>dx_blocks := dx_blocks d + length bs\<rparr>,
        map (\<lambda>b. BlockEvent (renumber_block tm b)) bs, length rest)"
    by auto
  have "block_ok base tm b" using Cons.prems by simp
  then obtain i body where e: "encode_block base tm b = Inr (encode_element (i, body))"
    "element_ok (i, body)" "i \<noteq> ID_SEGMENT" "i \<noteq> ID_CLUSTER" "length body \<le> MAX_ELEMENT"
    "length body \<le> length (bl_data b) + length (bl_extra b) + 52"
    "\<And>d raw. dx_cluster_ts d = Some (nat base) \<Longrightarrow> dx_in_cluster d \<Longrightarrow>
      whole_element d i body raw = Inr (d\<lparr>dx_blocks := dx_blocks d + 1\<rparr>, [BlockEvent (renumber_block tm b)])"
    using assms(2) by (rule encode_block_reads) (rule that, assumption+)
  let ?e = "encode_element (i, body)"
  have "demux_loop d (?e @ rest) 0 = Inr (d\<lparr>dx_blocks := dx_blocks d + length (b # bs)\<rparr>,
      map (\<lambda>b. BlockEvent (renumber_block tm b)) (b # bs), length (?e @ rest))"
    if d: "dx_cluster_ts d = Some (nat base)" "dx_in_cluster d" for d
  proof -
    have "demux_step d (?e @ rest) 0 =
        Inr (Some (d\<lparr>dx_blocks := dx_blocks d + 1\<rparr>, [BlockEvent (renumber_block tm b)], length ?e))"
      using demux_step_element [OF e(2-5), of d rest] e(7) [OF d] by simp
    then show ?thesis
      using rest(3) [of "d\<lparr>dx_blocks := dx_blocks d + 1\<rparr>"] d by (simp add: demux_loop_first shift_loop_def)
  qed
  moreover have "length (?e @ rest) \<le> sum_list (map block_size (b # bs))"
    using rest(2) element_length(1) [OF e(2)] e(6) by (simp add: block_size_def)
  ultimately show ?case using e(1) rest(1) by auto
qed

lemma bit_length_bound: "n < 2 ^ bit_length n"
proof (induction n rule: bit_length.induct)
  case (1 n)
  show ?case
  proof (cases "n = 0")
    case False
    then have "n div 2 < 2 ^ bit_length (n div 2)" by (rule 1)
    then have "n < 2 * 2 ^ bit_length (n div 2)" by linarith
    then show ?thesis using False by (subst bit_length.simps) simp
  qed (simp add: bit_length.simps)
qed

lemma bit_length_le: "n < 2 ^ k \<Longrightarrow> bit_length n \<le> k"
proof (induction n arbitrary: k rule: bit_length.induct)
  case (1 n)
  show ?case
  proof (cases "n = 0")
    case False
    with "1.prems" have "k \<noteq> 0" by (cases k) auto
    then obtain j where k: "k = Suc j" by (cases k) auto
    then have "n div 2 < 2 ^ j" using "1.prems" by (simp add: div_less_iff_less_mult mult.commute)
    with False have "bit_length (n div 2) \<le> j" by (intro 1)
    then show ?thesis using False k by (subst bit_length.simps) simp
  qed (simp add: bit_length.simps)
qed

lemma uint_body:
  assumes "v < 2 ^ 64"
  shows "read_uint (be_digits (max 1 ((bit_length v + 7) div 8)) v) = v"
    and "length (be_digits (max 1 ((bit_length v + 7) div 8)) v) \<le> 8"
proof -
  let ?k = "max 1 ((bit_length v + 7) div 8)"
  have "bit_length v \<le> 8 * ?k" by simp
  then have "(2 :: nat) ^ bit_length v \<le> 2 ^ (8 * ?k)" by (intro power_increasing) auto
  then have "v < 256 ^ ?k" using bit_length_bound [of v] by (simp add: power_mult)
  then show "read_uint (be_digits ?k v) = v" by (simp add: read_uint_def)
  have "bit_length v \<le> 64" using assms by (rule bit_length_le)
  then show "length (be_digits ?k v) \<le> 8" by simp
qed

lemma uint_element_written:
  assumes "v < 2 ^ 64" and "valid_id i"
  obtains body where "uint_element i v = Inr (encode_element (i, body))" and "element_ok (i, body)"
    and "read_uint body = v" and "length body \<le> 8"
proof -
  let ?body = "be_digits (max 1 ((bit_length v + 7) div 8)) v"
  have "element_ok (i, ?body)"
    using uint_body(2) [OF assms(1)] assms(2) by (simp add: element_ok_def)
  moreover from this have "uint_element i v = Inr (encode_element (i, ?body))"
    using element_length(3) [of "(i, ?body)"] by (simp add: uint_element_def)
  ultimately show thesis using uint_body [OF assms(1)] by (intro that)
qed

text \<open>The head of a cluster: the demuxer enters it and waits for the timestamp.\<close>

lemma demux_step_cluster:
  assumes "enc_size n 4 = Inr s" and "read_size (enc_id ID_CLUSTER @ s @ rest) (length (enc_id ID_CLUSTER)) = Inr (Some (length s, Some n))"
    and "dx_header_sent d"
  shows "demux_step d ((enc_id ID_CLUSTER @ s) @ rest) 0 =
    Inr (Some (d\<lparr>dx_in_cluster := True, dx_cluster_ts := None\<rparr>, [], length (enc_id ID_CLUSTER @ s)))"
proof -
  have "read_id ((enc_id ID_CLUSTER @ s) @ rest) 0 = Inr (Some (length (enc_id ID_CLUSTER), ID_CLUSTER))"
    using read_id_enc(1) [of ID_CLUSTER "[]" "s @ rest"] by simp
  moreover have "ID_CLUSTER \<noteq> ID_SEGMENT" by (simp add: element_ids)
  ultimately show ?thesis
    using assms by (simp add: demux_step_sized sized_step_def begin_cluster_def)
qed

lemma cluster_reads:
  assumes "blocks \<noteq> []" and "0 \<le> bl_ts_ms (hd blocks)" and "bl_ts_ms (hd blocks) < 2 ^ 64"
    and "list_all (block_ok (bl_ts_ms (hd blocks)) tm) blocks"
    and "sum_list (map block_size blocks) + 64 \<le> MAX_BUFFER"
    and "dx_buf d = []" and "dx_header_sent d"
  shows "\<exists>data. encode_cluster blocks tm = Inr data \<and> length data \<le> sum_list (map block_size blocks) + 64 \<and>
    feed d data = Inr
      (d\<lparr>dx_in_cluster := True, dx_cluster_ts := Some (nat (bl_ts_ms (hd blocks))),
         dx_blocks := dx_blocks d + length blocks\<rparr>,
       map (\<lambda>b. BlockEvent (renumber_block tm b)) blocks)"
proof -
  define base where "base = bl_ts_ms (hd blocks)"
  have v: "nat base < 2 ^ 64" using assms(3) by (simp add: base_def)
  obtain body where body: "uint_element ID_TIMESTAMP (nat base) = Inr (encode_element (ID_TIMESTAMP, body))"
    "element_ok (ID_TIMESTAMP, body)" "read_uint body = nat base" "length body \<le> 8"
    using uint_element_written [OF v, of ID_TIMESTAMP] by auto
  obtain data where data: "encode_blocks base tm blocks = Inr data" "length data \<le> sum_list (map block_size blocks)"
    "\<And>d. dx_cluster_ts d = Some (nat base) \<Longrightarrow> dx_in_cluster d \<Longrightarrow>
      demux_loop d data 0 = Inr (d\<lparr>dx_blocks := dx_blocks d + length blocks\<rparr>,
        map (\<lambda>b. BlockEvent (renumber_block tm b)) blocks, length data)"
    using encode_blocks_reads [OF assms(4,2)] by (auto simp: base_def)
  define stamp where "stamp = encode_element (ID_TIMESTAMP, body)"
  have stamp: "length stamp \<le> 20" using element_length(1) [OF body(2)] body(4) by (simp add: stamp_def)
  have "length (stamp @ data) < 2 ^ 56 - 1"
    using stamp data(2) assms(5) by (simp add: MAX_BUFFER_def)
  then obtain s where s: "enc_size (length (stamp @ data)) 4 = Inr s"
    "\<And>pre post. read_size (pre @ s @ post) (length pre) = Inr (Some (length s, Some (length (stamp @ data))))"
    using enc_size_reads [of "length (stamp @ data)" 4] by (metis numeral_le_iff semiring_norm(68) semiring_norm(71))
  define head where "head = enc_id ID_CLUSTER @ s"
  have lens: "length head \<le> 12"
    using s(2) [of "[]" "[]"] read_size_le length_enc_id [of ID_CLUSTER] by (fastforce simp: head_def)
  obtain b bs where blocks: "blocks = b # bs" using assms(1) by (cases blocks) auto
  then have written: "encode_cluster blocks tm = Inr (head @ stamp @ data)"
    using body(1) data(1) s(1) assms(2)
    by (simp add: encode_cluster_def int_element_def base_def stamp_def head_def del: encode_blocks.simps)
  define d1 where "d1 = d\<lparr>dx_in_cluster := True, dx_cluster_ts := None\<rparr>"
  define d2 where "d2 = d1\<lparr>dx_cluster_ts := Some (nat base)\<rparr>"
  have "demux_step d (head @ stamp @ data) 0 = Inr (Some (d1, [], length head))"
    unfolding head_def d1_def using s assms(7) by (intro demux_step_cluster) simp_all
  then have "demux_loop d (head @ stamp @ data) 0 =
      shift_loop (length head) (demux_loop d1 (stamp @ data) 0)"
    by (simp add: demux_loop_first)
  also have "demux_loop d1 (stamp @ data) 0 = shift_loop (length stamp) (demux_loop d2 data 0)"
  proof -
    have "demux_step d1 (stamp @ data) 0 = Inr (Some (d2, [], length stamp))"
      using demux_step_element [OF body(2), of d1 data] body(3,4)
      by (simp add: stamp_def whole_element_def cluster_child_def d1_def d2_def element_ids MAX_ELEMENT_def)
    then show ?thesis by (simp add: demux_loop_first)
  qed
  also have "demux_loop d2 data 0 = Inr (d2\<lparr>dx_blocks := dx_blocks d2 + length blocks\<rparr>,
      map (\<lambda>b. BlockEvent (renumber_block tm b)) blocks, length data)"
    by (intro data(3)) (simp_all add: d1_def d2_def)
  finally have loop: "demux_loop d (head @ stamp @ data) 0 =
      Inr (d2\<lparr>dx_blocks := dx_blocks d2 + length blocks\<rparr>,
        map (\<lambda>b. BlockEvent (renumber_block tm b)) blocks, length (head @ stamp @ data))"
    by (simp add: shift_loop_def)
  have "length (dx_buf d) + length (head @ stamp @ data) \<le> MAX_BUFFER"
    using lens stamp data(2) assms(5,6) by simp
  then have "feed d (head @ stamp @ data) = Inr (set_buf [] (d2\<lparr>dx_blocks := dx_blocks d2 + length blocks\<rparr>),
      map (\<lambda>b. BlockEvent (renumber_block tm b)) blocks)"
    using loop assms(6) by (simp add: feed_fits)
  moreover have "set_buf [] (d2\<lparr>dx_blocks := dx_blocks d2 + length blocks\<rparr>) =
      d\<lparr>dx_in_cluster := True, dx_cluster_ts := Some (nat (bl_ts_ms (hd blocks))),
         dx_blocks := dx_blocks d + length blocks\<rparr>"
    using assms(6) by (simp add: set_buf_def d1_def d2_def base_def)
  moreover have "length (head @ stamp @ data) \<le> sum_list (map block_size blocks) + 64"
    using lens stamp data(2) by simp
  ultimately show ?thesis using written by auto
qed

text \<open>
  A cluster written from blocks is read back as those blocks: when every block lies within the
  16 bit offset of the first one's timestamp, has a track in the map and is no larger than an element
  may be, \<open>encode_cluster\<close> succeeds, and a demuxer that has seen the tracks and holds no unread bytes
  gives exactly these blocks, in order, with their absolute timestamps, keyframe flags, lacing, data
  and block group siblings, and only the track number mapped.
\<close>

theorem cluster_read_back:
  assumes "blocks \<noteq> []" and "0 \<le> bl_ts_ms (hd blocks)" and "bl_ts_ms (hd blocks) < 2 ^ 64"
    and "list_all (block_ok (bl_ts_ms (hd blocks)) tm) blocks"
    and "sum_list (map block_size blocks) + 64 \<le> MAX_BUFFER"
    and "dx_buf d = []" and "dx_header_sent d"
  shows "\<exists>data. encode_cluster blocks tm = Inr data \<and>
    feed d data = Inr
      (d\<lparr>dx_in_cluster := True, dx_cluster_ts := Some (nat (bl_ts_ms (hd blocks))),
         dx_blocks := dx_blocks d + length blocks\<rparr>,
       map (\<lambda>b. BlockEvent (renumber_block tm b)) blocks)"
  using cluster_reads [OF assms] by blast

lemma cluster_read_back_witness:
  "let video = \<lparr>bl_track = 7, bl_ts_ms = 1000, bl_keyframe = True, bl_data = [0xAA, 0xBB], bl_extra = [],
                bl_grouped = False, bl_lacing = 0\<rparr>;
       audio = \<lparr>bl_track = 9, bl_ts_ms = 980, bl_keyframe = True, bl_data = [0x01], bl_extra = [0x9B, 0x81, 20],
                bl_grouped = True, bl_lacing = 0\<rparr>;
       d = new_demuxer\<lparr>dx_header_sent := True\<rparr>
   in \<exists>data. encode_cluster [video, audio] [7 \<mapsto> 1, 9 \<mapsto> 2] = Inr data \<and>
        feed d data = Inr (d\<lparr>dx_in_cluster := True, dx_cluster_ts := Some 1000, dx_blocks := 2\<rparr>,
          [BlockEvent (video\<lparr>bl_track := 1\<rparr>), BlockEvent (audio\<lparr>bl_track := 2\<rparr>)])"
proof -
  define video where "video = \<lparr>bl_track = 7, bl_ts_ms = 1000, bl_keyframe = True, bl_data = [0xAA, 0xBB],
    bl_extra = [], bl_grouped = False, bl_lacing = 0\<rparr>"
  define audio where "audio = \<lparr>bl_track = 9, bl_ts_ms = 980, bl_keyframe = True, bl_data = [0x01],
    bl_extra = [0x9B, 0x81, 20], bl_grouped = True, bl_lacing = 0\<rparr>"
  define d where "d = new_demuxer\<lparr>dx_header_sent := True\<rparr>"
  define tm :: "nat \<rightharpoonup> nat" where "tm = [7 \<mapsto> 1, 9 \<mapsto> 2]"
  have "children [0x9B, 0x81, 20] = Inr [(0x9B, [20], [0x9B, 0x81, 20])]"
    by code_simp
  then have "extra_ok [0x9B, 0x81, 20] True"
    by (simp add: extra_ok_def element_ids)
  then have "list_all (block_ok (bl_ts_ms (hd [video, audio])) tm) [video, audio]"
    by (simp add: block_ok_def video_def audio_def tm_def MAX_ELEMENT_def)
  then have "\<exists>data. encode_cluster [video, audio] tm = Inr data \<and>
      feed d data = Inr
        (d\<lparr>dx_in_cluster := True, dx_cluster_ts := Some (nat (bl_ts_ms (hd [video, audio]))),
           dx_blocks := dx_blocks d + length [video, audio]\<rparr>,
         map (\<lambda>b. BlockEvent (renumber_block tm b)) [video, audio])"
    by (intro cluster_read_back)
       (simp_all add: video_def audio_def d_def new_demuxer_def block_size_def MAX_BUFFER_def)
  then show ?thesis
    by (simp add: video_def audio_def d_def tm_def new_demuxer_def renumber_block_def Let_def flip: numeral_2_eq_2)
qed

end
