(* ===== verification/WhipMedia.thy ===== *)
theory WhipMedia
  imports CodecRecords RtpHevc MkvReader
begin

text \<open>
  \<open>stream/whip/media.py\<close>: from Matroska blocks to RTP payloads. The codec configuration of a track,
  the shared time origin, the video packetizer and the Opus packetizer with its sample clock. The SDP
  codec descriptions are those of \<open>stream/whip/sdp.py\<close>.
\<close>

section \<open>SDP codec descriptions\<close>

record codec_spec =
  cs_kind :: string
  cs_name :: string
  cs_clock_rate :: nat
  cs_payload_type :: nat
  cs_channels :: nat
  cs_fmtp :: string
  cs_feedback :: "string list"

definition VIDEO_FEEDBACK :: "string list" where
  "VIDEO_FEEDBACK = [''nack'', ''nack pli'', ''ccm fir'']"

definition OPUS_SPEC :: codec_spec where
  "OPUS_SPEC = \<lparr>cs_kind = ''audio'', cs_name = ''opus'', cs_clock_rate = 48000, cs_payload_type = 111,
     cs_channels = 2, cs_fmtp = ''minptime=10;useinbandfec=1;stereo=1;sprop-stereo=1'', cs_feedback = []\<rparr>"

definition video_spec :: "string \<Rightarrow> string \<Rightarrow> codec_spec" where
  "video_spec name fmtp = \<lparr>cs_kind = ''video'', cs_name = name, cs_clock_rate = 90000, cs_payload_type = 96,
     cs_channels = 0, cs_fmtp = fmtp, cs_feedback = VIDEO_FEEDBACK\<rparr>"

definition h264_spec :: "string \<Rightarrow> codec_spec" where
  "h264_spec profile_level_id = video_spec ''H264''
     (''level-asymmetry-allowed=1;packetization-mode=1;profile-level-id='' @ profile_level_id)"

definition hevc_spec :: "nat \<Rightarrow> nat \<Rightarrow> nat \<Rightarrow> codec_spec" where
  "hevc_spec profile_id tier_flag level_id = video_spec ''H265''
     (''profile-id='' @ decimal profile_id @ '';tier-flag='' @ decimal tier_flag @
      '';level-id='' @ decimal level_id @ '';tx-mode=SRST'')"

definition av1_spec :: "nat \<Rightarrow> nat \<Rightarrow> nat \<Rightarrow> codec_spec" where
  "av1_spec profile level_idx tier = video_spec ''AV1''
     (''profile='' @ decimal profile @ '';level-idx='' @ decimal level_idx @ '';tier='' @ decimal tier)"

section \<open>The codec of a track\<close>

datatype codec = H264 | HEVC | AV1 | OPUS

definition codepoints :: "string \<Rightarrow> pytext" where
  "codepoints s = map of_char s"

definition matroska_codec :: "pytext \<Rightarrow> codec option" where
  "matroska_codec c =
     (if c = codepoints ''V_MPEG4/ISO/AVC'' then Some H264
      else if c = codepoints ''V_MPEGH/ISO/HEVC'' then Some HEVC
      else if c = codepoints ''V_AV1'' then Some AV1
      else if c = codepoints ''A_OPUS'' then Some OPUS
      else None)"

definition codec_private :: "track \<Rightarrow> bytes result" where
  "codec_private t =
     bindE (entry_body (MediaError ''the track entry is not a complete element'') (tr_raw t)) (\<lambda>body.
     bindE (children body) (\<lambda>cs.
       case find (\<lambda>(i, _, _). i = 0x63A2) cs of
         Some (_, data, _) \<Rightarrow> Inr data
       | None \<Rightarrow> Inr []))"

record video_config =
  vc_kind :: codec
  vc_spec :: codec_spec
  vc_length_size :: nat
  vc_parameter_sets :: "bytes list"
  vc_sequence_header :: bytes

text \<open>\<open>except payload.PayloadError: raise MediaError\<close>; other exceptions pass.\<close>

definition unusable :: "'a result \<Rightarrow> 'a result" where
  "unusable r =
     (case r of
        Inl (PayloadError _) \<Rightarrow> Inl (MediaError ''the codec configuration is unusable'')
      | _ \<Rightarrow> r)"

definition video_config_of :: "track \<Rightarrow> video_config result" where
  "video_config_of t =
     (case matroska_codec (tr_codec t) of
        None \<Rightarrow> Inl (MediaError ''WHIP cannot send this codec'')
      | Some OPUS \<Rightarrow> Inl (MediaError ''WHIP cannot send this codec'')
      | Some kind \<Rightarrow>
          bindE (codec_private t) (\<lambda>rec.
            if rec = [] then Inl (MediaError ''the track has no codec configuration'')
            else unusable
              (if kind = H264 then
                 bindE (parse_avcc rec) (\<lambda>avc.
                   Inr \<lparr>vc_kind = kind, vc_spec = h264_spec (avc_profile_level_id avc),
                        vc_length_size = avc_length_size avc, vc_parameter_sets = avc_parameter_sets avc,
                        vc_sequence_header = []\<rparr>)
               else if kind = HEVC then
                 bindE (parse_hvcc rec) (\<lambda>hevc.
                   Inr \<lparr>vc_kind = kind,
                        vc_spec = hevc_spec (hevc_profile_id hevc) (hevc_tier_flag hevc) (hevc_level_id hevc),
                        vc_length_size = hevc_length_size hevc, vc_parameter_sets = hevc_parameter_sets hevc,
                        vc_sequence_header = []\<rparr>)
               else
                 bindE (parse_av1c rec) (\<lambda>av1.
                   Inr \<lparr>vc_kind = kind, vc_spec = av1_spec (av1_profile av1) (av1_level_idx av1) (av1_tier av1),
                        vc_length_size = 0, vc_parameter_sets = [],
                        vc_sequence_header = av1_sequence_header av1\<rparr>))))"

definition audio_config :: "track \<Rightarrow> codec_spec result" where
  "audio_config t =
     (if matroska_codec (tr_codec t) \<noteq> Some OPUS then Inl (MediaError ''WHIP sends Opus audio'')
      else Inr OPUS_SPEC)"

section \<open>Time\<close>

text \<open>\<open>Origin\<close>: the block time that is RTP time zero, shared by both packetizers.\<close>

type_synonym origin = "int option"

definition origin_at :: "origin \<Rightarrow> int \<Rightarrow> origin \<times> nat" where
  "origin_at o' ts_ms =
     (case o' of None \<Rightarrow> (Some ts_ms, 0) | Some ms \<Rightarrow> (Some ms, nat (max 0 (ts_ms - ms))))"

definition VIDEO_CLOCK :: nat where "VIDEO_CLOCK = 90000"
definition AUDIO_CLOCK :: nat where "AUDIO_CLOCK = 48000"
definition GAP_MS :: nat where "GAP_MS = 60"

record frame =
  fr_payloads :: "bytes list"
  fr_timestamp :: nat
  fr_keyframe :: bool
  fr_size :: nat

section \<open>Video\<close>

record video_packetizer =
  vp_config :: video_config
  vp_corrupt :: nat

definition reconfigure :: "video_packetizer \<Rightarrow> video_config \<Rightarrow> video_packetizer" where
  "reconfigure p config = p\<lparr>vp_config := config\<rparr>"

definition with_parameter_sets :: "bytes list \<Rightarrow> bytes list \<Rightarrow> (bytes \<Rightarrow> bool) \<Rightarrow> bytes list" where
  "with_parameter_sets nals sets is_set =
     (if sets = [] \<or> list_ex is_set (filter (\<lambda>n. n \<noteq> []) nals) then nals else sets @ nals)"

definition h264_set :: "bytes \<Rightarrow> bool" where
  "h264_set n = (unat (n ! 0) AND 0x1F \<in> {7, 8})"

definition hevc_set :: "bytes \<Rightarrow> bool" where
  "hevc_set n = (drop_bit 1 (unat (n ! 0)) AND 0x3F \<in> {32, 33, 34})"

text \<open>
  The packets of a sample. The inner option is the AV1 packetizer's: its loop has no fuel in the
  code, and \<open>None\<close> would be a call that never returns.
\<close>

definition sample_packets :: "video_config \<Rightarrow> block \<Rightarrow> bytes list option result" where
  "sample_packets config b =
     (if vc_kind config = H264 then
        bindE (length_prefixed (bl_data b) (vc_length_size config)) (\<lambda>nals.
        bindE (packetize_h264
                 (if bl_keyframe b then with_parameter_sets nals (vc_parameter_sets config) h264_set else nals)
                 MAX_PAYLOAD) (\<lambda>ps. Inr (Some ps)))
      else if vc_kind config = HEVC then
        bindE (length_prefixed (bl_data b) (vc_length_size config)) (\<lambda>nals.
        bindE (packetize_hevc
                 (if bl_keyframe b then with_parameter_sets nals (vc_parameter_sets config) hevc_set else nals)
                 MAX_PAYLOAD) (\<lambda>ps. Inr (Some ps)))
      else
        bindE (split_obus (bl_data b)) (\<lambda>obus.
        bindE (if bl_keyframe b \<and> \<not> list_ex (\<lambda>o'. obu_kind o' = OBU_SEQUENCE_HEADER) obus
                    \<and> vc_sequence_header config \<noteq> []
               then bindE (split_obus (vc_sequence_header config)) (\<lambda>hs. Inr (hs @ obus))
               else Inr obus) (\<lambda>all.
          Inr (packetize_av1 all (bl_keyframe b) MAX_PAYLOAD))))"

text \<open>
  \<open>packetize\<close>: the new origin, the new packetizer and the frame (or none). \<open>None\<close> around the
  result is a call that never returns; an exception other than \<open>PayloadError\<close> passes.
\<close>

definition video_packetize ::
  "origin \<Rightarrow> video_packetizer \<Rightarrow> block \<Rightarrow> (origin \<times> video_packetizer \<times> frame option) option result" where
  "video_packetize o' p b =
     (if bl_lacing b \<noteq> 0 then Inl (MediaError ''laced video blocks are not valid Matroska video'')
      else let (o1, ms) = origin_at o' (bl_ts_ms b); ts = ms * VIDEO_CLOCK div 1000
           in case sample_packets (vp_config p) b of
                Inl (PayloadError _) \<Rightarrow> Inr (Some (o1, p\<lparr>vp_corrupt := vp_corrupt p + 1\<rparr>, None))
              | Inl e \<Rightarrow> Inl e
              | Inr None \<Rightarrow> Inr None
              | Inr (Some packets) \<Rightarrow>
                  Inr (Some (o1, p,
                    if packets = [] then None
                    else Some \<lparr>fr_payloads = packets, fr_timestamp = ts, fr_keyframe = bl_keyframe b,
                               fr_size = sum_list (map length packets)\<rparr>)))"

section \<open>Audio\<close>

record audio_packetizer =
  ap_next :: nat
  ap_corrupt :: nat

definition new_audio_packetizer :: audio_packetizer where
  "new_audio_packetizer = \<lparr>ap_next = 0, ap_corrupt = 0\<rparr>"

definition audio_packetize ::
  "origin \<Rightarrow> audio_packetizer \<Rightarrow> block \<Rightarrow> (origin \<times> audio_packetizer \<times> frame option) result" where
  "audio_packetize o' p b =
     (if bl_lacing b \<noteq> 0 then Inl (MediaError ''laced audio blocks are not supported'')
      else if bl_data b = [] then Inr (o', p, None)
      else case opus_samples (bl_data b) of
             Inl (PayloadError _) \<Rightarrow> Inr (o', p\<lparr>ap_corrupt := ap_corrupt p + 1\<rparr>, None)
           | Inl e \<Rightarrow> Inl e
           | Inr samples \<Rightarrow>
               let (o1, ms) = origin_at o' (bl_ts_ms b);
                   anchored = ms * AUDIO_CLOCK div 1000;
                   ts = (if int (GAP_MS * AUDIO_CLOCK div 1000) < \<bar>int anchored - int (ap_next p)\<bar>
                         then anchored else ap_next p)
               in Inr (o1, p\<lparr>ap_next := ts + samples\<rparr>,
                       Some \<lparr>fr_payloads = [bl_data b], fr_timestamp = ts, fr_keyframe = False,
                             fr_size = length (bl_data b)\<rparr>))"

section \<open>What a receiver of the video gets\<close>

definition nal_sample :: "nat \<Rightarrow> bytes list \<Rightarrow> bytes" where
  "nal_sample length_size us = concat (map (prefix_unit length_size) us)"

lemma depacketize_nothing: "depacketize_h264 [] = []"
  by (simp add: depacketize_h264_def)

text \<open>
  A keyframe of an H.264 stream reaches the receiver decodable: for a sample of NAL units the
  packetizer gives one frame whose payloads all fit an RTP packet and from which an RFC 6184 receiver
  rebuilds the stored parameter sets followed by the sample's units, in order, or the units alone when
  the encoder put an SPS or PPS into the sample itself. The frame's timestamp is the block's distance
  from the shared origin (zero for the first block) on the 90 kHz clock.
\<close>

theorem h264_keyframe_received:
  assumes kind: "vc_kind (vp_config p) = H264" and key: "bl_keyframe b" "bl_lacing b = 0"
    and ls: "vc_length_size (vp_config p) = ls" "ls \<in> {1, 2, 3, 4}"
    and sample: "bl_data b = nal_sample ls us" "\<forall>u \<in> set us. length u < 256 ^ ls"
    and plain: "us \<noteq> []" "\<forall>u \<in> set us. plain_nal u" "\<forall>u \<in> set (vc_parameter_sets (vp_config p)). plain_nal u"
  shows "\<exists>f. video_packetize o' p b = Inr (Some (Some (case o' of None \<Rightarrow> bl_ts_ms b | Some t \<Rightarrow> t), p, Some f)) \<and>
    (\<forall>x \<in> set (fr_payloads f). x \<noteq> [] \<and> length x \<le> MAX_PAYLOAD) \<and>
    depacketize_h264 (fr_payloads f) =
      (if list_ex h264_set us then us else vc_parameter_sets (vp_config p) @ us) \<and>
    fr_timestamp f = (case o' of None \<Rightarrow> 0 | Some t \<Rightarrow> 90 * nat (bl_ts_ms b - t)) \<and> fr_keyframe f"
proof -
  define sets where "sets = vc_parameter_sets (vp_config p)"
  define nals where "nals = with_parameter_sets us sets h264_set"
  have whole: "filter (\<lambda>u. u \<noteq> []) us = us"
    using plain(2) by (auto simp: plain_nal_def intro!: filter_True)
  have units: "length_prefixed (bl_data b) ls = Inr us"
    using length_prefixed_concat [OF ls(2) sample(2)] whole by (simp add: sample(1) nal_sample_def)
  have nals: "nals = (if list_ex h264_set us then us else sets @ us)"
    by (auto simp: nals_def with_parameter_sets_def whole)
  then have "\<forall>n \<in> set nals. n = [] \<or> plain_nal n" "filter (\<lambda>n. n \<noteq> []) nals = nals"
    using plain(2,3) by (auto simp: sets_def plain_nal_def intro!: filter_True)
  then obtain ps where ps: "packetize_h264 nals MAX_PAYLOAD = Inr ps"
    "\<forall>x \<in> set ps. x \<noteq> [] \<and> length x \<le> MAX_PAYLOAD" "depacketize_h264 ps = nals"
    using h264_rebuild [of MAX_PAYLOAD nals] by (auto simp: MAX_PAYLOAD_def)
  have "nals \<noteq> []" using plain(1) by (simp add: nals)
  then have "ps \<noteq> []" using ps(3) depacketize_nothing by auto
  have "sample_packets (vp_config p) b = Inr (Some ps)"
    using units ps(1) kind key(1) ls(1) by (simp add: sample_packets_def nals_def sets_def)
  then have "video_packetize o' p b = Inr (Some (Some (case o' of None \<Rightarrow> bl_ts_ms b | Some t \<Rightarrow> t), p,
      Some \<lparr>fr_payloads = ps, fr_timestamp = (case o' of None \<Rightarrow> 0 | Some t \<Rightarrow> 90 * nat (bl_ts_ms b - t)),
            fr_keyframe = True, fr_size = sum_list (map length ps)\<rparr>))"
    using \<open>ps \<noteq> []\<close> key
    by (cases o') (simp_all add: video_packetize_def origin_at_def VIDEO_CLOCK_def max_def)
  then show ?thesis using ps(2,3) nals unfolding sets_def by simp
qed

lemma h264_keyframe_received_witness:
  "let config = \<lparr>vc_kind = H264, vc_spec = h264_spec ''640028'', vc_length_size = 4,
                 vc_parameter_sets = [[0x67, 1], [0x68]], vc_sequence_header = []\<rparr>;
       p = \<lparr>vp_config = config, vp_corrupt = 0\<rparr>;
       b = \<lparr>bl_track = 1, bl_ts_ms = 1040, bl_keyframe = True, bl_data = [0, 0, 0, 2, 0x65, 7], bl_extra = [],
            bl_grouped = False, bl_lacing = 0\<rparr>
   in \<exists>f. video_packetize (Some 1000) p b = Inr (Some (Some 1000, p, Some f)) \<and>
        depacketize_h264 (fr_payloads f) = [[0x67, 1], [0x68], [0x65, 7]] \<and> fr_timestamp f = 3600"
proof -
  define config where "config = \<lparr>vc_kind = H264, vc_spec = h264_spec ''640028'', vc_length_size = 4,
    vc_parameter_sets = [[0x67, 1], [0x68 :: byte]], vc_sequence_header = []\<rparr>"
  define p where "p = \<lparr>vp_config = config, vp_corrupt = 0\<rparr>"
  define b where "b = \<lparr>bl_track = 1, bl_ts_ms = 1040, bl_keyframe = True, bl_data = [0, 0, 0, 2, 0x65, 7],
    bl_extra = [], bl_grouped = False, bl_lacing = 0\<rparr>"
  have sample: "nal_sample 4 [[0x65, 7]] = [0, 0, 0, 2, 0x65, 7]" by code_simp
  have "\<exists>f. video_packetize (Some 1000) p b =
      Inr (Some (Some (case Some 1000 of None \<Rightarrow> bl_ts_ms b | Some t \<Rightarrow> t), p, Some f)) \<and>
    (\<forall>x \<in> set (fr_payloads f). x \<noteq> [] \<and> length x \<le> MAX_PAYLOAD) \<and>
    depacketize_h264 (fr_payloads f) =
      (if list_ex h264_set [[0x65, 7]] then [[0x65, 7]] else vc_parameter_sets (vp_config p) @ [[0x65, 7]]) \<and>
    fr_timestamp f = (case Some 1000 of None \<Rightarrow> 0 | Some t \<Rightarrow> 90 * nat (bl_ts_ms b - t)) \<and> fr_keyframe f"
    by (rule h264_keyframe_received [where ls = 4])
       (simp_all add: p_def config_def b_def sample plain_nal_def nal_type_def)
  moreover have "\<not> h264_set [0x65, 7]" by (simp add: h264_set_def)
  ultimately show ?thesis
    by (auto simp: p_def config_def b_def Let_def)
qed

section \<open>The audio clock\<close>

text \<open>A run of the packetizer over blocks, the frames in order.\<close>

fun audio_run :: "origin \<Rightarrow> audio_packetizer \<Rightarrow> block list \<Rightarrow> (origin \<times> audio_packetizer \<times> frame list) result" where
  "audio_run o' p [] = Inr (o', p, [])"
| "audio_run o' p (b # bs) =
     bindE (audio_packetize o' p b) (\<lambda>(o1, p1, f).
     bindE (audio_run o1 p1 bs) (\<lambda>(o2, p2, fs).
       Inr (o2, p2, (case f of None \<Rightarrow> [] | Some x \<Rightarrow> [x]) @ fs)))"

definition samples_of :: "block \<Rightarrow> nat" where
  "samples_of b = (case opus_samples (bl_data b) of Inl _ \<Rightarrow> 0 | Inr n \<Rightarrow> n)"

text \<open>A block the packetizer sends, and one whose time is within the gap of a sample count.\<close>

definition audio_ok :: "block \<Rightarrow> bool" where
  "audio_ok b \<longleftrightarrow> bl_lacing b = 0 \<and> bl_data b \<noteq> [] \<and> opus_samples (bl_data b) = Inr (samples_of b)"

fun on_pace :: "int \<Rightarrow> nat \<Rightarrow> block list \<Rightarrow> bool" where
  "on_pace t0 n [] = True"
| "on_pace t0 n (b # bs) =
     (\<bar>48 * max 0 (bl_ts_ms b - t0) - int n\<bar> \<le> 2880 \<and> on_pace t0 (n + samples_of b) bs)"

fun sample_clock :: "nat \<Rightarrow> block list \<Rightarrow> nat list" where
  "sample_clock n [] = []"
| "sample_clock n (b # bs) = n # sample_clock (n + samples_of b) bs"

text \<open>The distance of a block from the origin, which the first block sets.\<close>

definition block_distance :: "origin \<Rightarrow> block \<Rightarrow> nat" where
  "block_distance o' b = (case o' of None \<Rightarrow> 0 | Some t \<Rightarrow> nat (max 0 (bl_ts_ms b - t)))"

lemma audio_packetize_frame:
  assumes "audio_ok b"
  shows "audio_packetize o' p b =
    (let anchored = 48 * block_distance o' b;
         ts = (if 2880 < \<bar>int anchored - int (ap_next p)\<bar> then anchored else ap_next p)
     in Inr (Some (case o' of None \<Rightarrow> bl_ts_ms b | Some t \<Rightarrow> t), p\<lparr>ap_next := ts + samples_of b\<rparr>,
             Some \<lparr>fr_payloads = [bl_data b], fr_timestamp = ts, fr_keyframe = False,
                   fr_size = length (bl_data b)\<rparr>))"
  using assms
  by (cases o') (simp_all add: audio_packetize_def audio_ok_def origin_at_def block_distance_def AUDIO_CLOCK_def
      GAP_MS_def Let_def mult.commute)

lemma audio_run_on_pace:
  "list_all audio_ok bs \<Longrightarrow> on_pace t0 (ap_next p) bs \<Longrightarrow>
    \<exists>p' fs. audio_run (Some t0) p bs = Inr (Some t0, p', fs) \<and> ap_corrupt p' = ap_corrupt p \<and>
      map fr_timestamp fs = sample_clock (ap_next p) bs \<and> map fr_payloads fs = map (\<lambda>b. [bl_data b]) bs"
proof (induction bs arbitrary: p)
  case (Cons b bs)
  let ?p = "p\<lparr>ap_next := ap_next p + samples_of b\<rparr>"
  have "\<not> 2880 < \<bar>int (48 * block_distance (Some t0) b) - int (ap_next p)\<bar>"
    using Cons.prems(2) by (simp add: block_distance_def)
  then have first: "audio_packetize (Some t0) p b = Inr (Some t0, ?p,
      Some \<lparr>fr_payloads = [bl_data b], fr_timestamp = ap_next p, fr_keyframe = False, fr_size = length (bl_data b)\<rparr>)"
    using Cons.prems(1) audio_packetize_frame [of b "Some t0" p] by (simp add: Let_def)
  from Cons.prems obtain p' fs where "audio_run (Some t0) ?p bs = Inr (Some t0, p', fs)"
    "ap_corrupt p' = ap_corrupt p" "map fr_timestamp fs = sample_clock (ap_next p + samples_of b) bs"
    "map fr_payloads fs = map (\<lambda>b. [bl_data b]) bs"
    using Cons.IH [of ?p] by auto
  then show ?case using first by simp
qed simp

text \<open>
  Audio that keeps pace is sent on an exact sample clock: as long as no block's time is more than
  60 ms away from the samples sent so far, every block becomes one frame, in order, whose timestamp is
  the number of samples before it, so there is never a gap or an overlap between two packets, however
  the millisecond block times jitter.
\<close>

theorem audio_gapless:
  assumes "list_all audio_ok bs" and "on_pace t0 (ap_next p) bs"
  shows "\<exists>p' fs. audio_run (Some t0) p bs = Inr (Some t0, p', fs) \<and>
    map fr_timestamp fs = sample_clock (ap_next p) bs \<and> map fr_payloads fs = map (\<lambda>b. [bl_data b]) bs"
  using audio_run_on_pace [OF assms] by blast

lemma audio_gapless_witness:
  "\<exists>p' fs. audio_run (Some 5000) new_audio_packetizer
      (map (\<lambda>t. \<lparr>bl_track = 2, bl_ts_ms = t, bl_keyframe = True, bl_data = [0x78, 1], bl_extra = [],
                 bl_grouped = False, bl_lacing = 0\<rparr>) [5000, 5021, 5039]) = Inr (Some 5000, p', fs) \<and>
    map fr_timestamp fs = [0, 960, 1920]"
proof -
  let ?bs = "map (\<lambda>t. \<lparr>bl_track = 2, bl_ts_ms = t, bl_keyframe = True, bl_data = [0x78, 1], bl_extra = [],
                 bl_grouped = False, bl_lacing = 0\<rparr>) [5000, 5021, 5039]"
  have "opus_samples [0x78, 1] = Inr 960"
    by (simp add: opus_samples_def opus_tenth_ms_def Let_def)
  then have "list_all audio_ok ?bs" "on_pace 5000 (ap_next new_audio_packetizer) ?bs"
    "sample_clock 0 ?bs = [0, 960, 1920]"
    by (simp_all add: audio_ok_def samples_of_def new_audio_packetizer_def)
  then show ?thesis
    using audio_gapless [of ?bs 5000 new_audio_packetizer] by (auto simp: new_audio_packetizer_def)
qed

text \<open>
  The audio clock never drifts from the block times: whatever state the packetizer is in, the
  timestamp of a frame is at most 60 ms (2880 samples) away from the block's distance to the origin, it
  continues the sample count unless the block lies beyond that gap, and the next frame starts where this
  one's samples end.
\<close>

theorem audio_clock_bound:
  assumes "audio_packetize o' p b = Inr (o1, p1, Some f)"
  shows "\<bar>int (fr_timestamp f) - 48 * int (block_distance o' b)\<bar> \<le> 2880 \<and>
    fr_timestamp f \<in> {ap_next p, 48 * block_distance o' b} \<and>
    (fr_timestamp f \<noteq> ap_next p \<longrightarrow> 2880 < \<bar>48 * int (block_distance o' b) - int (ap_next p)\<bar>) \<and>
    ap_next p1 = fr_timestamp f + samples_of b"
proof -
  have "audio_ok b"
    using assms by (auto simp: audio_packetize_def audio_ok_def samples_of_def Let_def
        split: if_splits sum.splits exn.splits prod.splits)
  from audio_packetize_frame [OF this, of o' p] assms show ?thesis
    by (auto simp: Let_def split: if_splits)
qed

lemma audio_clock_bound_witness:
  "let p = \<lparr>ap_next = 960, ap_corrupt = 0\<rparr>;
       b = \<lparr>bl_track = 2, bl_ts_ms = 5200, bl_keyframe = True, bl_data = [0x78, 1], bl_extra = [],
            bl_grouped = False, bl_lacing = 0\<rparr>
   in \<exists>o1 p1 f. audio_packetize (Some 5000) p b = Inr (o1, p1, Some f) \<and> ap_next p1 = 10560 \<and>
        \<bar>int (fr_timestamp f) - 9600\<bar> \<le> 2880"
proof -
  define p where "p = \<lparr>ap_next = 960, ap_corrupt = 0\<rparr>"
  define b where "b = \<lparr>bl_track = 2, bl_ts_ms = 5200, bl_keyframe = True, bl_data = [0x78, 1], bl_extra = [],
            bl_grouped = False, bl_lacing = 0\<rparr>"
  have samples: "opus_samples [0x78, 1] = Inr 960"
    by (simp add: opus_samples_def opus_tenth_ms_def Let_def)
  then have "audio_ok b" by (simp add: audio_ok_def samples_of_def b_def)
  then obtain p1 f where run: "audio_packetize (Some 5000) p b = Inr (Some 5000, p1, Some f)" "ap_next p1 = 10560"
    using audio_packetize_frame [of b "Some 5000" p] samples
    by (simp add: b_def p_def block_distance_def samples_of_def Let_def)
  moreover have "\<bar>int (fr_timestamp f) - 9600\<bar> \<le> 2880"
    using audio_clock_bound [OF run(1)] by (simp add: b_def block_distance_def)
  ultimately show ?thesis by (auto simp: Let_def p_def b_def)
qed

end
