(* ===== verification/LatestWriter.thy ===== *)
theory LatestWriter
  imports Prelude
begin

text \<open>
  \<open>saving.py\<close>: the newest value of one file, written one write at a time. The operations of
  \<open>LatestWriter\<close> between two lock operations are functions; their interleavings by any number of
  threads are the step relation \<open>lw_step\<close>, over which the promises of the module are proved.
\<close>

section \<open>The operations under the gate\<close>

text \<open>\<open>_value\<close> is \<open>None\<close> where the code has \<open>NOTHING\<close>.\<close>

record 'v writer =
  lw_value :: "'v option"
  lw_version :: nat

definition new_writer :: "'v writer" where
  "new_writer = \<lparr>lw_value = None, lw_version = 0\<rparr>"

definition publish :: "'v \<Rightarrow> 'v writer \<Rightarrow> 'v writer" where
  "publish v w = w\<lparr>lw_value := Some v, lw_version := lw_version w + 1\<rparr>"

definition pending :: "'v writer \<Rightarrow> 'v option" where
  "pending w = lw_value w"

definition dirty :: "'v writer \<Rightarrow> bool" where
  "dirty w \<longleftrightarrow> lw_value w \<noteq> None"

text \<open>The two critical sections of \<open>flush\<close>: the read before the write and the \<open>finally\<close> after it.\<close>

definition flush_read :: "'v writer \<Rightarrow> ('v \<times> nat) option" where
  "flush_read w = map_option (\<lambda>v. (v, lw_version w)) (lw_value w)"

definition flush_finish :: "nat \<Rightarrow> 'v writer \<Rightarrow> 'v writer" where
  "flush_finish version w = (if lw_version w = version then w\<lparr>lw_value := None\<rparr> else w)"

text \<open>
  \<open>flush\<close> when nothing else runs: \<open>write\<close> maps the file to the new file and says whether it raised.
\<close>

definition flush :: "('v \<Rightarrow> 'f \<Rightarrow> 'f \<times> bool) \<Rightarrow> 'v writer \<Rightarrow> 'f \<Rightarrow> 'v writer \<times> 'f \<times> bool" where
  "flush write w f =
     (case flush_read w of
        None \<Rightarrow> (w, f, False)
      | Some (v, version) \<Rightarrow>
          let (f', raised) = write v f in (flush_finish version w, f', raised))"

section \<open>Interleavings\<close>

text \<open>
  Where the holder of the save lock is; \<open>Free\<close> when no thread holds it. A reader never takes it, and
  \<open>publish\<close> takes the gate alone, so it may happen at every point.
\<close>

datatype 'v phase = Free | Locked | Writing 'v nat | Ending nat

text \<open>
  \<open>sy_log\<close> records the published values, \<open>sy_saved\<close> the number of the one in the file (0: the file
  as it was at the start) and \<open>sy_given_up\<close> the number of the last one whose save raised; the code
  keeps none of the three.
\<close>

record 'v system =
  sy_writer :: "'v writer"
  sy_phase :: "'v phase"
  sy_file :: "'v option"
  sy_log :: "'v list"
  sy_saved :: nat
  sy_given_up :: nat

definition start :: "'v option \<Rightarrow> 'v system" where
  "start f = \<lparr>sy_writer = new_writer, sy_phase = Free, sy_file = f, sy_log = [], sy_saved = 0, sy_given_up = 0\<rparr>"

inductive lw_step :: "'v system \<Rightarrow> 'v system \<Rightarrow> bool" where
  publishes: "lw_step s (s\<lparr>sy_writer := publish v (sy_writer s), sy_log := sy_log s @ [v]\<rparr>)"
| locks: "sy_phase s = Free \<Longrightarrow> lw_step s (s\<lparr>sy_phase := Locked\<rparr>)"
| nothing: "sy_phase s = Locked \<Longrightarrow> flush_read (sy_writer s) = None \<Longrightarrow> lw_step s (s\<lparr>sy_phase := Free\<rparr>)"
| reads: "sy_phase s = Locked \<Longrightarrow> flush_read (sy_writer s) = Some (v, n) \<Longrightarrow>
    lw_step s (s\<lparr>sy_phase := Writing v n\<rparr>)"
| writes: "sy_phase s = Writing v n \<Longrightarrow>
    lw_step s (s\<lparr>sy_phase := Ending n, sy_file := Some v, sy_saved := n\<rparr>)"
| fails: "sy_phase s = Writing v n \<Longrightarrow> lw_step s (s\<lparr>sy_phase := Ending n, sy_given_up := n\<rparr>)"
| fails_late: "sy_phase s = Writing v n \<Longrightarrow>
    lw_step s (s\<lparr>sy_phase := Ending n, sy_file := Some v, sy_saved := n, sy_given_up := n\<rparr>)"
| finishes: "sy_phase s = Ending n \<Longrightarrow>
    lw_step s (s\<lparr>sy_phase := Free, sy_writer := flush_finish n (sy_writer s)\<rparr>)"

inductive_cases lw_stepE: "lw_step s s'"

inductive lw_runs :: "'v system \<Rightarrow> 'v system \<Rightarrow> bool" where
  refl: "lw_runs s s"
| snoc: "lw_runs s s1 \<Longrightarrow> lw_step s1 s2 \<Longrightarrow> lw_runs s s2"

section \<open>Invariant\<close>

definition writer_inv :: "'v system \<Rightarrow> bool" where
  "writer_inv s \<longleftrightarrow>
     lw_version (sy_writer s) = length (sy_log s) \<and>
     (\<forall>v. lw_value (sy_writer s) = Some v \<longrightarrow> sy_log s \<noteq> [] \<and> v = last (sy_log s)) \<and>
     (lw_value (sy_writer s) = None \<longrightarrow> length (sy_log s) \<in> {sy_saved s, sy_given_up s}) \<and>
     sy_saved s \<le> length (sy_log s) \<and>
     (0 < sy_saved s \<longrightarrow> sy_file s = Some (sy_log s ! (sy_saved s - 1))) \<and>
     (case sy_phase s of
        Free \<Rightarrow> lw_value (sy_writer s) \<noteq> None \<longrightarrow> sy_saved s < length (sy_log s)
      | Locked \<Rightarrow> lw_value (sy_writer s) \<noteq> None \<longrightarrow> sy_saved s < length (sy_log s)
      | Writing v n \<Rightarrow> lw_value (sy_writer s) \<noteq> None \<and> sy_saved s < n \<and> n \<le> length (sy_log s) \<and>
          v = sy_log s ! (n - 1)
      | Ending n \<Rightarrow> lw_value (sy_writer s) \<noteq> None \<and> sy_saved s \<le> n \<and> n \<le> length (sy_log s) \<and>
          n \<in> {sy_saved s, sy_given_up s})"

lemmas writer_ops = publish_def flush_read_def flush_finish_def new_writer_def

lemma start_inv: "writer_inv (start f)"
  by (simp add: start_def writer_inv_def writer_ops)

lemma step_inv:
  assumes "lw_step s s'" and inv: "writer_inv s"
  shows "writer_inv s'"
  using assms(1)
proof (cases rule: lw_step.cases)
  case (publishes v)
  show ?thesis
    using inv unfolding publishes
    by (cases "sy_phase s") (auto simp: writer_inv_def writer_ops nth_append)
next
  case locks
  then show ?thesis using inv by (simp add: writer_inv_def)
next
  case nothing
  then show ?thesis using inv by (simp add: writer_inv_def writer_ops)
next
  case (reads v n)
  then show ?thesis using inv by (auto simp: writer_inv_def writer_ops last_conv_nth)
next
  case (writes v n)
  then show ?thesis using inv by (auto simp: writer_inv_def)
next
  case (fails v n)
  then show ?thesis using inv by (auto simp: writer_inv_def)
next
  case (fails_late v n)
  then show ?thesis using inv by (auto simp: writer_inv_def)
next
  case (finishes n)
  then show ?thesis using inv by (auto simp: writer_inv_def writer_ops)
qed

lemma runs_inv: "lw_runs s s' \<Longrightarrow> writer_inv s \<Longrightarrow> writer_inv s'"
  by (induction rule: lw_runs.induct) (auto intro: step_inv)

lemma step_saved: "lw_step s s' \<Longrightarrow> writer_inv s \<Longrightarrow> sy_saved s \<le> sy_saved s'"
  by (erule lw_stepE) (auto simp: writer_inv_def)

lemma step_file:
  assumes "lw_step s s'" and inv: "writer_inv s" and "sy_saved s' = 0"
  shows "sy_saved s = 0 \<and> sy_file s' = sy_file s"
  using assms(1)
  by (cases rule: lw_step.cases) (use inv assms(3) in \<open>simp_all add: writer_inv_def\<close>)

lemma runs_saved: "lw_runs s s' \<Longrightarrow> writer_inv s \<Longrightarrow> sy_saved s \<le> sy_saved s'"
proof (induction rule: lw_runs.induct)
  case (snoc s s1 s2)
  then have "writer_inv s1" using runs_inv by blast
  with snoc show ?case using step_saved by fastforce
qed simp

lemma runs_file: "lw_runs s s' \<Longrightarrow> writer_inv s \<Longrightarrow> sy_saved s' = 0 \<Longrightarrow> sy_file s' = sy_file s"
proof (induction rule: lw_runs.induct)
  case (snoc s s1 s2)
  then have "writer_inv s1" using runs_inv by blast
  with snoc show ?case using step_file by fastforce
qed simp

lemma runs_trans: "lw_runs s1 s2 \<Longrightarrow> lw_runs s0 s1 \<Longrightarrow> lw_runs s0 s2"
  by (induction rule: lw_runs.induct) (auto intro: lw_runs.snoc)

section \<open>Promises\<close>

text \<open>
  C8. However publishes and flushes of any number of threads interleave, and whether writes succeed,
  fail or fail after replacing the file, an older value never replaces a newer one: along every run the
  number of the value in the file only grows, and the file holds the value published under it.
\<close>

theorem never_older_over_newer:
  assumes "lw_runs (start f) s" and "lw_runs s s'"
  shows "sy_saved s \<le> sy_saved s' \<and> sy_saved s' \<le> length (sy_log s') \<and>
    sy_file s' = (if sy_saved s' = 0 then f else Some (sy_log s' ! (sy_saved s' - 1)))"
proof -
  have "writer_inv s" "writer_inv s'"
    using runs_inv [OF assms(1) start_inv] assms(2) runs_inv by blast+
  moreover have "sy_saved s' = 0 \<Longrightarrow> sy_file s' = f"
    using runs_file [OF runs_trans [OF assms(2,1)] start_inv] by (simp add: start_def)
  ultimately show ?thesis
    using runs_saved [OF assms(2)] by (auto simp: writer_inv_def)
qed

text \<open>
  C35. Nothing is lost silently: whenever \<open>pending()\<close> has nothing to show, the file holds the last
  published value or the save of exactly that value raised; and whenever it shows a value, it is the
  last published one.
\<close>

theorem pending_tells_the_truth:
  assumes "lw_runs (start f) s"
  shows "case pending (sy_writer s) of
      None \<Rightarrow> sy_log s = [] \<or> sy_file s = Some (last (sy_log s)) \<or> sy_given_up s = length (sy_log s)
    | Some v \<Rightarrow> sy_log s \<noteq> [] \<and> v = last (sy_log s)"
proof -
  have "writer_inv s" using assms start_inv by (rule runs_inv)
  then show ?thesis
    by (auto simp: writer_inv_def pending_def last_conv_nth split: option.split)
qed

text \<open>
  A run for the witnesses: a second value is published while the first is being written, so the first
  flush saves the first value and leaves the second one pending.
\<close>

definition overtaken :: "nat system" where
  "overtaken = \<lparr>sy_writer = \<lparr>lw_value = Some 9, lw_version = 2\<rparr>, sy_phase = Free, sy_file = Some 7,
     sy_log = [7, 9], sy_saved = 1, sy_given_up = 0\<rparr>"

lemma overtaken_runs: "lw_runs (start None) overtaken"
proof -
  let ?w1 = "\<lparr>lw_value = Some 7, lw_version = 1\<rparr> :: nat writer"
  let ?w2 = "\<lparr>lw_value = Some 9, lw_version = 2\<rparr> :: nat writer"
  let ?s1 = "\<lparr>sy_writer = ?w1, sy_phase = Free, sy_file = None, sy_log = [7], sy_saved = 0, sy_given_up = 0\<rparr>"
  let ?s4 = "\<lparr>sy_writer = ?w2, sy_phase = Writing 7 1, sy_file = None, sy_log = [7, 9], sy_saved = 0, sy_given_up = 0\<rparr>"
  have "lw_step (start None) ?s1"
    using publishes [of "start None" 7] by (simp add: start_def writer_ops)
  moreover have "lw_step ?s1 (?s1\<lparr>sy_phase := Locked\<rparr>)"
    by (rule locks) simp
  moreover have "lw_step (?s1\<lparr>sy_phase := Locked\<rparr>) (?s1\<lparr>sy_phase := Writing 7 1\<rparr>)"
    using reads [of "?s1\<lparr>sy_phase := Locked\<rparr>" 7 1] by (simp add: writer_ops)
  moreover have "lw_step (?s1\<lparr>sy_phase := Writing 7 1\<rparr>) ?s4"
    using publishes [of "?s1\<lparr>sy_phase := Writing 7 1\<rparr>" 9] by (simp add: writer_ops numeral_2_eq_2)
  moreover have "lw_step ?s4 (?s4\<lparr>sy_phase := Ending 1, sy_file := Some 7, sy_saved := 1\<rparr>)"
    by (rule writes) simp
  moreover have "lw_step (?s4\<lparr>sy_phase := Ending 1, sy_file := Some 7, sy_saved := 1\<rparr>) overtaken"
    using finishes [of "?s4\<lparr>sy_phase := Ending 1, sy_file := Some 7, sy_saved := 1\<rparr>" 1]
    by (simp add: writer_ops overtaken_def)
  ultimately show ?thesis by (meson lw_runs.intros)
qed

lemma never_older_over_newer_witness:
  "sy_saved overtaken \<le> sy_saved overtaken \<and> sy_saved overtaken \<le> length (sy_log overtaken) \<and>
   sy_file overtaken = (if sy_saved overtaken = 0 then None else Some (sy_log overtaken ! (sy_saved overtaken - 1)))"
  using never_older_over_newer [OF overtaken_runs lw_runs.refl] .

lemma pending_tells_the_truth_witness:
  "pending (sy_writer overtaken) = Some 9 \<and> sy_log overtaken \<noteq> [] \<and> 9 = last (sy_log overtaken)"
  using pending_tells_the_truth [OF overtaken_runs] by (simp add: pending_def overtaken_def)

end
