(* ===== verification/Adapt.thy ===== *)
theory Adapt
  imports Complex_Main Prelude
begin

text \<open>
  \<open>stream/adapt.py\<close>: the verdict on one destination (\<open>Judge\<close>) and the controller that steps the
  picture down and up (\<open>AdaptController\<close>). The code's floats are rationals here, so a comparison is
  exact; the texts of reasons are constructors with the numbers the code prints.
\<close>

section \<open>Configuration and samples\<close>

datatype level = OK | WARN | CONGESTED | SEVERE

fun rank :: "level \<Rightarrow> nat" where
  "rank OK = 0"
| "rank WARN = 1"
| "rank CONGESTED = 2"
| "rank SEVERE = 3"

definition HISTORY :: nat where "HISTORY = 12"

record adapt_config =
  cf_eval_interval_s :: rat
  cf_down_after :: nat
  cf_cooldown_s :: rat
  cf_min_gap_s :: rat
  cf_up_hold_s :: rat
  cf_flap_window_s :: rat
  cf_max_hold_factor :: rat
  cf_reset_calm_s :: rat
  cf_loss_warn :: rat
  cf_loss_congested :: rat
  cf_loss_severe :: rat
  cf_queue_warn_ms :: rat
  cf_queue_congested_ms :: rat
  cf_queue_severe_ms :: rat
  cf_rtt_factor :: rat
  cf_rtt_excess_ms :: rat
  cf_dropped_congested :: int
  cf_dropped_severe :: int
  cf_speed_congested :: rat
  cf_speed_severe :: rat
  cf_settle_s :: rat

definition default_config :: adapt_config where
  "default_config = \<lparr>cf_eval_interval_s = 2, cf_down_after = 2, cf_cooldown_s = 15, cf_min_gap_s = 5,
     cf_up_hold_s = 30, cf_flap_window_s = 90, cf_max_hold_factor = 8, cf_reset_calm_s = 300,
     cf_loss_warn = 1, cf_loss_congested = 3, cf_loss_severe = 8,
     cf_queue_warn_ms = 400, cf_queue_congested_ms = 1200, cf_queue_severe_ms = 4000,
     cf_rtt_factor = 3, cf_rtt_excess_ms = 150, cf_dropped_congested = 5, cf_dropped_severe = 60,
     cf_speed_congested = 9 / 10, cf_speed_severe = 6 / 10, cf_settle_s = 10\<rparr>"

record link_sample =
  ls_dest :: string
  ls_state :: string
  ls_loss_percent :: "rat option"
  ls_rtt_ms :: "rat option"
  ls_queued_ms :: rat
  ls_dropped :: int
  ls_restarts :: int
  ls_speed :: "rat option"
  ls_connected_s :: rat
  ls_name :: string

section \<open>The judge\<close>

text \<open>What a reason says after the name of the destination.\<close>

datatype why =
    PacketLoss rat
  | Waiting rat
  | RoundTrip rat rat
  | FramesDropped int
  | KeepsDropping
  | ConnectionDropped
  | SendingAt rat

text \<open>\<open>vd_reason\<close> is \<open>None\<close> where the code has the empty text.\<close>

record verdict =
  vd_level :: level
  vd_reason :: "(string \<times> why) option"
  vd_dest :: string

definition worse_than :: "verdict \<Rightarrow> verdict \<Rightarrow> bool" where
  "worse_than v w \<longleftrightarrow> rank (vd_level w) < rank (vd_level v)"

text \<open>\<open>max(verdicts, key=rank, default=d)\<close>: the first of the worst.\<close>

fun worst_of :: "verdict \<Rightarrow> verdict list \<Rightarrow> verdict" where
  "worst_of d [] = d"
| "worst_of d [v] = v"
| "worst_of d (v # w # vs) = worst_of d ((if worse_than w v then w else v) # vs)"

definition worst :: "verdict list \<Rightarrow> verdict" where
  "worst vs = worst_of \<lparr>vd_level = OK, vd_reason = None, vd_dest = ''''\<rparr> vs"

record judge_state =
  jd_config :: adapt_config
  jd_last :: "string \<rightharpoonup> link_sample"
  jd_best_rtt :: "string \<rightharpoonup> rat"

definition new_judge :: "adapt_config \<Rightarrow> judge_state" where
  "new_judge cfg = \<lparr>jd_config = cfg, jd_last = Map.empty, jd_best_rtt = Map.empty\<rparr>"

definition forget :: "judge_state \<Rightarrow> judge_state" where
  "forget j = j\<lparr>jd_last := Map.empty, jd_best_rtt := Map.empty\<rparr>"

text \<open>The findings of one measure, in the order the code flags them.\<close>

definition loss_found :: "adapt_config \<Rightarrow> rat option \<Rightarrow> (level \<times> why) list" where
  "loss_found cfg loss =
     (case loss of
        None \<Rightarrow> []
      | Some p \<Rightarrow>
          if cf_loss_severe cfg \<le> p then [(SEVERE, PacketLoss p)]
          else if cf_loss_congested cfg \<le> p then [(CONGESTED, PacketLoss p)]
          else if cf_loss_warn cfg \<le> p then [(WARN, PacketLoss p)] else [])"

definition queue_found :: "adapt_config \<Rightarrow> rat \<Rightarrow> (level \<times> why) list" where
  "queue_found cfg q =
     (if cf_queue_severe_ms cfg \<le> q then [(SEVERE, Waiting q)]
      else if cf_queue_congested_ms cfg \<le> q then [(CONGESTED, Waiting q)]
      else if cf_queue_warn_ms cfg \<le> q then [(WARN, Waiting q)] else [])"

definition rtt_found :: "adapt_config \<Rightarrow> rat \<Rightarrow> rat \<Rightarrow> (level \<times> why) list" where
  "rtt_found cfg rtt best =
     (if best * cf_rtt_factor cfg < rtt \<and> cf_rtt_excess_ms cfg \<le> rtt - best
      then [(CONGESTED, RoundTrip rtt best)] else [])"

definition drops_found :: "adapt_config \<Rightarrow> int \<Rightarrow> (level \<times> why) list" where
  "drops_found cfg dropped =
     (if cf_dropped_severe cfg \<le> dropped then [(SEVERE, FramesDropped dropped)]
      else if cf_dropped_congested cfg \<le> dropped then [(CONGESTED, FramesDropped dropped)] else [])"

definition reconnects_found :: "int \<Rightarrow> (level \<times> why) list" where
  "reconnects_found reconnects =
     (if 2 \<le> reconnects then [(SEVERE, KeepsDropping)]
      else if reconnects = 1 then [(CONGESTED, ConnectionDropped)] else [])"

definition speed_found :: "adapt_config \<Rightarrow> rat option \<Rightarrow> rat \<Rightarrow> (level \<times> why) list" where
  "speed_found cfg speed conn =
     (case speed of
        None \<Rightarrow> []
      | Some v \<Rightarrow>
          if cf_settle_s cfg \<le> conn then
            (if v < cf_speed_severe cfg then [(SEVERE, SendingAt v)]
             else if v < cf_speed_congested cfg then [(CONGESTED, SendingAt v)] else [])
          else [])"

definition judge :: "judge_state \<Rightarrow> link_sample \<Rightarrow> judge_state \<times> verdict" where
  "judge j s =
     (let cfg = jd_config j; dest = ls_dest s; previous = jd_last j dest;
          j1 = j\<lparr>jd_last := (jd_last j)(dest \<mapsto> s)\<rparr>
      in if ls_state s \<noteq> ''live'' then
           (j1\<lparr>jd_best_rtt := (jd_best_rtt j1)(dest := None)\<rparr>,
            \<lparr>vd_level = OK, vd_reason = None, vd_dest = dest\<rparr>)
         else
           let who = (if ls_name s = '''' then dest else ls_name s);
               (j2, rtts) = (case ls_rtt_ms s of
                   None \<Rightarrow> (j1, [])
                 | Some rtt \<Rightarrow>
                     let best = min (case jd_best_rtt j1 dest of None \<Rightarrow> rtt | Some b \<Rightarrow> b) rtt
                     in (j1\<lparr>jd_best_rtt := (jd_best_rtt j1)(dest \<mapsto> best)\<rparr>, rtt_found cfg rtt best));
               deltas = (case previous of
                   None \<Rightarrow> []
                 | Some p \<Rightarrow> if ls_state p = ''live''
                     then drops_found cfg (ls_dropped s - ls_dropped p) @
                          reconnects_found (ls_restarts s - ls_restarts p)
                     else []);
               found = loss_found cfg (ls_loss_percent s) @ queue_found cfg (ls_queued_ms s) @ rtts @ deltas @
                       speed_found cfg (ls_speed s) (ls_connected_s s)
           in (j2, worst_of \<lparr>vd_level = OK, vd_reason = None, vd_dest = dest\<rparr>
                 (map (\<lambda>(l, y). \<lparr>vd_level = l, vd_reason = Some (who, y), vd_dest = dest\<rparr>) found)))"

section \<open>The controller\<close>

record rung =
  st_label :: string
  st_width :: nat
  st_height :: nat
  st_fps :: nat
  st_bitrate_kbps :: "nat option"

datatype direction = Down | Up

datatype shift_reason = Because "string \<times> why" | Congestion | SteadyFor rat

record shift =
  sh_direction :: direction
  sh_to :: nat
  sh_reason :: shift_reason

record change =
  ch_time :: rat
  ch_direction :: direction
  ch_from :: nat
  ch_to :: nat
  ch_reason :: shift_reason

text \<open>\<open>_next_move\<close> is written by \<open>reset\<close> alone and read nowhere; it is left out.\<close>

record controller =
  ac_steps :: "rung list"
  ac_config :: adapt_config
  ac_index :: nat
  ac_bad :: nat
  ac_calm_since :: "rat option"
  ac_last_change :: "rat option"
  ac_last_up :: "rat option"
  ac_hold_factor :: rat
  ac_history :: "change list"

definition new_controller :: "rung list \<Rightarrow> adapt_config \<Rightarrow> controller" where
  "new_controller steps cfg = \<lparr>ac_steps = steps, ac_config = cfg, ac_index = 0, ac_bad = 0,
     ac_calm_since = None, ac_last_change = None, ac_last_up = None, ac_hold_factor = 1, ac_history = []\<rparr>"

definition last_index :: "controller \<Rightarrow> int" where
  "last_index c = int (length (ac_steps c)) - 1"

definition hold_s :: "controller \<Rightarrow> rat" where
  "hold_s c = cf_up_hold_s (ac_config c) * ac_hold_factor c"

definition reset :: "controller \<Rightarrow> controller" where
  "reset c = c\<lparr>ac_index := 0, ac_bad := 0, ac_calm_since := None, ac_last_change := None,
     ac_last_up := None, ac_hold_factor := 1\<rparr>"

definition replace_steps :: "controller \<Rightarrow> rung list \<Rightarrow> controller" where
  "replace_steps c steps = reset (c\<lparr>ac_steps := steps\<rparr>)"

text \<open>The level a round counts with: a distrusted uplink turns a fine round into a warning.\<close>

definition round_level :: "verdict \<Rightarrow> string option \<Rightarrow> level" where
  "round_level v uplink =
     (if vd_level v = OK \<and> uplink \<in> {Some ''poor'', Some ''offline''} then WARN else vd_level v)"

text \<open>The counters \<open>evaluate\<close> keeps: congested rounds in a row, the start of the calm, the doubling.\<close>

definition note_round :: "controller \<Rightarrow> rat \<Rightarrow> level \<Rightarrow> controller" where
  "note_round c now level =
     (let c1 = (if level \<in> {CONGESTED, SEVERE} then c\<lparr>ac_bad := ac_bad c + 1, ac_calm_since := None\<rparr>
                else if level = OK then
                  c\<lparr>ac_bad := 0, ac_calm_since := Some (case ac_calm_since c of None \<Rightarrow> now | Some t \<Rightarrow> t)\<rparr>
                else c\<lparr>ac_bad := 0, ac_calm_since := None\<rparr>)
      in if ac_index c1 = 0 \<and>
            (case ac_calm_since c1 of None \<Rightarrow> False | Some t \<Rightarrow> cf_reset_calm_s (ac_config c) \<le> now - t)
         then c1\<lparr>ac_hold_factor := 1\<rparr> else c1)"

definition evaluate :: "controller \<Rightarrow> rat \<Rightarrow> verdict \<Rightarrow> string option \<Rightarrow> controller \<times> shift option" where
  "evaluate c now v uplink =
     (let cfg = ac_config c; level = round_level v uplink; c1 = note_round c now level;
          severe = (level = SEVERE);
          gap = (if severe then cf_min_gap_s cfg else cf_cooldown_s cfg);
          quiet = (\<lambda>g. case ac_last_change c1 of None \<Rightarrow> True | Some t \<Rightarrow> g \<le> now - t);
          wants_down = (level \<in> {CONGESTED, SEVERE} \<and> int (ac_index c1) < last_index c1)
      in if wants_down \<and> (if severe then 1 else cf_down_after cfg) \<le> ac_bad c1 \<and> quiet gap
         then (c1, Some \<lparr>sh_direction = Down,
                 sh_to = nat (min (last_index c1) (int (ac_index c1) + (if severe \<and> 2 \<le> ac_bad c1 then 2 else 1))),
                 sh_reason = (case vd_reason v of None \<Rightarrow> Congestion | Some r \<Rightarrow> Because r)\<rparr>)
         else case ac_calm_since c1 of
             None \<Rightarrow> (c1, None)
           | Some t \<Rightarrow>
               if level = OK \<and> 0 < ac_index c1 \<and> hold_s c1 \<le> now - t \<and> quiet (cf_cooldown_s cfg)
               then (c1, Some \<lparr>sh_direction = Up, sh_to = ac_index c1 - 1, sh_reason = SteadyFor (now - t)\<rparr>)
               else (c1, None))"

text \<open>\<open>deque(maxlen=HISTORY)\<close>: appending drops the oldest entry.\<close>

definition remember :: "change list \<Rightarrow> change \<Rightarrow> change list" where
  "remember h x = (let h' = h @ [x] in drop (length h' - HISTORY) h')"

definition commit :: "controller \<Rightarrow> rat \<Rightarrow> shift \<Rightarrow> controller" where
  "commit c now sh =
     (let cfg = ac_config c;
          flapped = (sh_direction sh = Down \<and>
                     (case ac_last_up c of None \<Rightarrow> False | Some t \<Rightarrow> now - t < cf_flap_window_s cfg));
          factor = (if flapped then min (cf_max_hold_factor cfg) (ac_hold_factor c * 2) else ac_hold_factor c)
      in c\<lparr>ac_hold_factor := factor,
           ac_last_up := (if sh_direction sh = Up then Some now else ac_last_up c),
           ac_history := remember (ac_history c)
             \<lparr>ch_time = now, ch_direction = sh_direction sh, ch_from = ac_index c, ch_to = sh_to sh,
              ch_reason = sh_reason sh\<rparr>,
           ac_index := sh_to sh, ac_bad := 0,
           ac_calm_since := (if sh_direction sh = Up then Some now else None),
           ac_last_change := Some now\<rparr>)"

section \<open>Rounds\<close>

text \<open>
  One turn of \<open>StreamService._adapt_tick\<close> after the samples were judged: evaluate, and commit the
  shift when it could be applied (a swap still in flight or a refusing encoder leaves it).
\<close>

record round =
  rd_now :: rat
  rd_verdict :: verdict
  rd_uplink :: "string option"
  rd_applied :: bool

definition play_round :: "controller \<Rightarrow> round \<Rightarrow> controller" where
  "play_round c r =
     (case evaluate c (rd_now r) (rd_verdict r) (rd_uplink r) of
        (c1, None) \<Rightarrow> c1
      | (c1, Some sh) \<Rightarrow> if rd_applied r then commit c1 (rd_now r) sh else c1)"

definition play :: "controller \<Rightarrow> round list \<Rightarrow> controller" where
  "play c rs = foldl play_round c rs"

lemma play_simps [simp]:
  "play c [] = c"
  "play c (rs @ [r]) = play_round (play c rs) r"
  by (simp_all add: play_def)

definition level_of :: "round \<Rightarrow> level" where
  "level_of r = round_level (rd_verdict r) (rd_uplink r)"

lemma note_round_simps [simp]:
  "ac_steps (note_round c now l) = ac_steps c"
  "ac_config (note_round c now l) = ac_config c"
  "ac_index (note_round c now l) = ac_index c"
  "ac_last_change (note_round c now l) = ac_last_change c"
  "ac_last_up (note_round c now l) = ac_last_up c"
  "ac_history (note_round c now l) = ac_history c"
  "ac_bad (note_round c now l) = (if l \<in> {CONGESTED, SEVERE} then ac_bad c + 1 else 0)"
  "ac_calm_since (note_round c now l) =
    (if l = OK then Some (case ac_calm_since c of None \<Rightarrow> now | Some t \<Rightarrow> t) else None)"
  "ac_hold_factor (note_round c now l) \<in> {1, ac_hold_factor c}"
  by (cases l; auto simp: note_round_def Let_def split: option.splits)+

text \<open>What a proposal means: every guard it passed.\<close>

lemma evaluate_fst: "fst (evaluate c now v u) = note_round c now (round_level v u)"
  by (auto simp: evaluate_def Let_def split: option.splits if_splits)

lemma evaluate_down:
  assumes "evaluate c now v u = (c1, Some sh)" and "sh_direction sh = Down"
  shows "round_level v u \<in> {CONGESTED, SEVERE}"
    and "int (ac_index c) < last_index c"
    and "round_level v u = CONGESTED \<Longrightarrow> cf_down_after (ac_config c) \<le> ac_bad c + 1"
    and "\<And>t. ac_last_change c = Some t \<Longrightarrow>
      (if round_level v u = SEVERE then cf_min_gap_s (ac_config c) else cf_cooldown_s (ac_config c)) \<le> now - t"
    and "ac_index c < sh_to sh" and "int (sh_to sh) \<le> last_index c"
  using assms
  by (auto simp: evaluate_def Let_def last_index_def split: option.splits if_splits)

lemma evaluate_up:
  assumes "evaluate c now v u = (c1, Some sh)" and "sh_direction sh = Up"
  obtains t where "round_level v u = OK" and "0 < ac_index c" and "sh_to sh = ac_index c - 1"
    and "ac_calm_since c1 = Some t" and "hold_s c1 \<le> now - t"
    and "\<And>t'. ac_last_change c = Some t' \<Longrightarrow> cf_cooldown_s (ac_config c) \<le> now - t'"
  using assms
  by (auto simp: evaluate_def Let_def split: option.splits if_splits)

text \<open>A round in its three outcomes.\<close>

lemma play_round_cases:
  obtains (none) "evaluate c (rd_now r) (rd_verdict r) (rd_uplink r) = (play_round c r, None)"
      "play_round c r = note_round c (rd_now r) (level_of r)"
  | (waits) sh where "play_round c r = note_round c (rd_now r) (level_of r)"
      "evaluate c (rd_now r) (rd_verdict r) (rd_uplink r) = (note_round c (rd_now r) (level_of r), Some sh)"
  | (moves) sh where "play_round c r = commit (note_round c (rd_now r) (level_of r)) (rd_now r) sh"
      "evaluate c (rd_now r) (rd_verdict r) (rd_uplink r) = (note_round c (rd_now r) (level_of r), Some sh)"
proof -
  obtain c1 o' where e: "evaluate c (rd_now r) (rd_verdict r) (rd_uplink r) = (c1, o')" by fastforce
  then have c1: "c1 = note_round c (rd_now r) (level_of r)"
    using evaluate_fst [of c "rd_now r" "rd_verdict r" "rd_uplink r"] by (simp add: level_of_def)
  show thesis
  proof (cases o')
    case None
    then show thesis using e c1 by (intro none) (simp_all add: play_round_def)
  next
    case (Some sh)
    show thesis
    proof (cases "rd_applied r")
      case True
      with Some e c1 show thesis by (intro moves) (simp_all add: play_round_def)
    next
      case False
      with Some e c1 show thesis by (intro waits) (simp_all add: play_round_def)
    qed
  qed
qed

section \<open>The controller's state stays in range\<close>

inductive reachable :: "controller \<Rightarrow> bool" where
  fresh: "reachable (new_controller steps cfg)"
| rounds: "reachable c \<Longrightarrow> reachable (play_round c r)"
| resets: "reachable c \<Longrightarrow> reachable (reset c)"
| replaces: "reachable c \<Longrightarrow> reachable (replace_steps c steps)"

definition in_range :: "controller \<Rightarrow> bool" where
  "in_range c \<longleftrightarrow> ac_index c < max 1 (length (ac_steps c)) \<and>
     1 \<le> ac_hold_factor c \<and> ac_hold_factor c \<le> max 1 (cf_max_hold_factor (ac_config c)) \<and>
     length (ac_history c) \<le> HISTORY"

lemma note_round_range: "in_range c \<Longrightarrow> in_range (note_round c now l)"
  using note_round_simps(9) [of c now l] by (auto simp: in_range_def)

lemma commit_range:
  assumes "in_range c" and "1 \<le> cf_max_hold_factor (ac_config c)" and "sh_to sh < max 1 (length (ac_steps c))"
  shows "in_range (commit c now sh)"
  using assms by (auto simp: in_range_def commit_def remember_def Let_def min_def)

lemma shift_in_range:
  assumes "evaluate c now v u = (c1, Some sh)" and "in_range c"
  shows "sh_to sh < max 1 (length (ac_steps c))"
proof (cases "sh_direction sh")
  case Down
  then show ?thesis using evaluate_down(6) [OF assms(1)] by (simp add: last_index_def)
next
  case Up
  obtain t where "sh_to sh = ac_index c - 1" using assms(1) Up by (rule evaluate_up)
  then show ?thesis using assms(2) unfolding in_range_def by linarith
qed

lemma play_round_range:
  assumes "in_range c" and "1 \<le> cf_max_hold_factor (ac_config c)"
  shows "in_range (play_round c r)"
proof (cases rule: play_round_cases [of c r])
  case (moves sh)
  have "sh_to sh < max 1 (length (ac_steps c))" using moves(2) assms(1) by (rule shift_in_range)
  then show ?thesis
    unfolding moves(1) using note_round_range [OF assms(1)] assms(2) by (intro commit_range) simp_all
qed (use note_round_range [OF assms(1)] in simp_all)

lemma play_round_config [simp]:
  "ac_config (play_round c r) = ac_config c"
  "ac_steps (play_round c r) = ac_steps c"
  by (cases rule: play_round_cases [of c r]; simp add: commit_def Let_def)+

text \<open>
  Whatever verdicts arrive, whichever proposed shifts can be applied, and whenever the stream is
  restarted or the ladder replaced, the controller's step is a rung of the ladder it has (step 0 when
  the ladder is empty), its hold factor stays between 1 and the configured maximum, and it remembers at
  most twelve changes.
\<close>

theorem controller_in_range:
  assumes "reachable c" and "1 \<le> cf_max_hold_factor (ac_config c)"
  shows "ac_index c < max 1 (length (ac_steps c)) \<and>
    1 \<le> ac_hold_factor c \<and> ac_hold_factor c \<le> cf_max_hold_factor (ac_config c) \<and>
    length (ac_history c) \<le> 12"
proof -
  have "in_range c"
    using assms
  proof (induction rule: reachable.induct)
    case (fresh steps cfg)
    then show ?case by (simp add: in_range_def new_controller_def)
  next
    case (rounds c r)
    then show ?case using play_round_range by simp
  next
    case (resets c)
    then show ?case by (simp add: in_range_def reset_def)
  next
    case (replaces c steps)
    then show ?case by (simp add: in_range_def replace_steps_def reset_def)
  qed
  then show ?thesis using assms(2) by (simp add: in_range_def HISTORY_def)
qed

text \<open>Rounds for the witnesses: two bad ones, then calm.\<close>

definition bad_verdict :: verdict where
  "bad_verdict = \<lparr>vd_level = CONGESTED, vd_reason = Some (''YouTube'', PacketLoss 4), vd_dest = ''yt''\<rparr>"

definition fine_verdict :: verdict where
  "fine_verdict = \<lparr>vd_level = OK, vd_reason = None, vd_dest = ''yt''\<rparr>"

definition two_rungs :: "rung list" where
  "two_rungs =
     [\<lparr>st_label = ''1080p60'', st_width = 1920, st_height = 1080, st_fps = 60, st_bitrate_kbps = Some 6000\<rparr>,
      \<lparr>st_label = ''720p30'', st_width = 1280, st_height = 720, st_fps = 30, st_bitrate_kbps = Some 3000\<rparr>]"

definition bad_round :: "rat \<Rightarrow> round" where
  "bad_round t = \<lparr>rd_now = t, rd_verdict = bad_verdict, rd_uplink = None, rd_applied = True\<rparr>"

definition fine_round :: "rat \<Rightarrow> round" where
  "fine_round t = \<lparr>rd_now = t, rd_verdict = fine_verdict, rd_uplink = Some ''good'', rd_applied = True\<rparr>"

lemmas demo_rounds = bad_verdict_def fine_verdict_def bad_round_def fine_round_def

lemma controller_in_range_witness:
  "reachable (play_round (play_round (new_controller two_rungs default_config) (bad_round 10)) (bad_round 12)) \<and>
   ac_index (play_round (play_round (new_controller two_rungs default_config) (bad_round 10)) (bad_round 12)) < 2"
proof -
  let ?c = "play_round (play_round (new_controller two_rungs default_config) (bad_round 10)) (bad_round 12)"
  have reach: "reachable ?c" by (intro reachable.intros)
  have "ac_index ?c < max 1 (length (ac_steps ?c))"
    using controller_in_range [OF reach] by (simp add: new_controller_def default_config_def)
  with reach show ?thesis by (simp add: new_controller_def two_rungs_def)
qed

section \<open>The distance between changes\<close>

text \<open>Consecutive changes of a history keep their distance; a recovery keeps the whole cooldown.\<close>

definition change_gap :: "adapt_config \<Rightarrow> direction \<Rightarrow> rat" where
  "change_gap cfg d = (if d = Up then cf_cooldown_s cfg else min (cf_min_gap_s cfg) (cf_cooldown_s cfg))"

fun spaced :: "adapt_config \<Rightarrow> change list \<Rightarrow> bool" where
  "spaced cfg (a # b # h) \<longleftrightarrow>
     change_gap cfg (ch_direction b) \<le> ch_time b - ch_time a \<and> spaced cfg (b # h)"
| "spaced cfg h \<longleftrightarrow> True"

lemma spaced_snoc:
  "spaced cfg h \<Longrightarrow> (h \<noteq> [] \<Longrightarrow> change_gap cfg (ch_direction x) \<le> ch_time x - ch_time (last h)) \<Longrightarrow>
    spaced cfg (h @ [x])"
  by (induction cfg h rule: spaced.induct) auto

lemma spaced_drop: "spaced cfg h \<Longrightarrow> spaced cfg (drop n h)"
proof (induction n arbitrary: h)
  case (Suc n)
  have "spaced cfg (tl h)" using Suc.prems by (cases "(cfg, h)" rule: spaced.cases) auto
  then show ?case using Suc.IH by (simp add: drop_Suc)
qed simp

lemma spaced_remember: "spaced cfg (h @ [x]) \<Longrightarrow> spaced cfg (remember h x)"
  unfolding remember_def Let_def by (rule spaced_drop)

definition history_ok :: "controller \<Rightarrow> bool" where
  "history_ok c \<longleftrightarrow> spaced (ac_config c) (ac_history c) \<and>
     (ac_history c \<noteq> [] \<longrightarrow> ac_last_change c = Some (ch_time (last (ac_history c))))"

lemma last_remember: "last (remember h x) = x" "remember h x \<noteq> []"
  by (simp_all add: remember_def Let_def HISTORY_def)

lemma play_round_history:
  assumes "history_ok c"
  shows "history_ok (play_round c r)"
proof (cases rule: play_round_cases [of c r])
  case (moves sh)
  have gap: "change_gap (ac_config c) (sh_direction sh) \<le> rd_now r - ch_time (last (ac_history c))"
    if "ac_history c \<noteq> []"
  proof -
    have change: "ac_last_change c = Some (ch_time (last (ac_history c)))"
      using assms that by (simp add: history_ok_def)
    show ?thesis
    proof (cases "sh_direction sh")
      case Down
      then show ?thesis
        using evaluate_down(4) [OF moves(2) Down change] by (auto simp: change_gap_def split: if_splits)
    next
      case Up
      show ?thesis
        using evaluate_up [OF moves(2) Up] change Up by (metis change_gap_def)
    qed
  qed
  have "spaced (ac_config c) (ac_history c @ [\<lparr>ch_time = rd_now r, ch_direction = sh_direction sh,
      ch_from = ac_index c, ch_to = sh_to sh, ch_reason = sh_reason sh\<rparr>])"
    using assms gap by (intro spaced_snoc) (simp_all add: history_ok_def)
  then show ?thesis
    unfolding moves(1)
    by (auto simp: history_ok_def commit_def Let_def last_remember spaced_remember)
qed (use assms in \<open>simp_all add: history_ok_def\<close>)

lemma play_config [simp]: "ac_config (play c rs) = ac_config c" "ac_steps (play c rs) = ac_steps c"
  by (induction rs rule: rev_induct) simp_all

text \<open>
  The picture never flickers: in any run of rounds from a fresh controller, each change comes at
  least the minimum gap after the one before it, and each recovery at least the whole cooldown after it.
\<close>

theorem changes_keep_their_distance:
  "spaced cfg (ac_history (play (new_controller steps cfg) rs))"
proof -
  have "history_ok (play (new_controller steps cfg) rs)"
    by (induction rs rule: rev_induct)
       (simp_all add: play_round_history, simp add: history_ok_def new_controller_def)
  then show ?thesis by (simp add: history_ok_def) (simp add: new_controller_def)
qed

section \<open>What a recovery and a step down need\<close>

fun in_time_order :: "round list \<Rightarrow> bool" where
  "in_time_order (a # b # rs) \<longleftrightarrow> rd_now a \<le> rd_now b \<and> in_time_order (b # rs)"
| "in_time_order rs \<longleftrightarrow> True"

lemma in_time_order_snoc:
  "in_time_order (rs @ [r]) \<Longrightarrow> in_time_order rs \<and> (\<forall>x \<in> set rs. rd_now x \<le> rd_now r)"
  by (induction rs rule: in_time_order.induct) auto

definition calm_ok :: "controller \<Rightarrow> round list \<Rightarrow> bool" where
  "calm_ok c rs \<longleftrightarrow> (\<forall>t. ac_calm_since c = Some t \<longrightarrow> (\<forall>x \<in> set rs. t < rd_now x \<longrightarrow> level_of x = OK))"

lemma note_round_calm:
  assumes "calm_ok c rs" and "\<forall>x \<in> set rs. rd_now x \<le> rd_now r"
  shows "calm_ok (note_round c (rd_now r) (level_of r)) (rs @ [r])"
  using assms by (fastforce simp: calm_ok_def split: option.splits)

lemma play_calm: "in_time_order rs \<Longrightarrow> calm_ok (play (new_controller steps cfg) rs) rs"
proof (induction rs rule: rev_induct)
  case (snoc r rs)
  let ?c = "play (new_controller steps cfg) rs"
  have order: "in_time_order rs" "\<forall>x \<in> set rs. rd_now x \<le> rd_now r"
    using in_time_order_snoc [OF snoc.prems] by simp_all
  have noted: "calm_ok (note_round ?c (rd_now r) (level_of r)) (rs @ [r])"
    using snoc.IH [OF order(1)] order(2) by (rule note_round_calm)
  show ?case
  proof (cases rule: play_round_cases [of ?c r])
    case (moves sh)
    have "calm_ok (commit (note_round ?c (rd_now r) (level_of r)) (rd_now r) sh) (rs @ [r])"
      using order(2) by (auto simp: calm_ok_def commit_def Let_def)
    then show ?thesis by (simp add: moves(1))
  qed (use noted in simp_all)
qed (simp add: calm_ok_def)

lemma play_range: "1 \<le> cf_max_hold_factor cfg \<Longrightarrow> in_range (play (new_controller steps cfg) rs)"
proof (induction rs rule: rev_induct)
  case (snoc r rs)
  then show ?case using play_round_range by (simp add: new_controller_def)
qed (simp add: in_range_def new_controller_def)

text \<open>
  A recovery is proposed only after a calm spell: when, after any rounds in time order, a round
  proposes a step up, it goes up exactly one rung, and every round of the last \<open>up_hold_s\<close> seconds at
  least (times the hold factor, which is at least 1) was fine, with no distrusted uplink.
\<close>

theorem recovery_needs_calm:
  assumes "in_time_order (rs @ [r])" and "0 \<le> cf_up_hold_s cfg" and "1 \<le> cf_max_hold_factor cfg"
    and "evaluate (play (new_controller steps cfg) rs) (rd_now r) (rd_verdict r) (rd_uplink r) = (c, Some sh)"
    and "sh_direction sh = Up"
  shows "sh_to sh + 1 = ac_index (play (new_controller steps cfg) rs) \<and>
    (\<forall>x \<in> set (rs @ [r]). rd_now r - cf_up_hold_s cfg < rd_now x \<longrightarrow>
       vd_level (rd_verdict x) = OK \<and> rd_uplink x \<notin> {Some ''poor'', Some ''offline''})"
proof -
  let ?c = "play (new_controller steps cfg) rs"
  have cfg: "ac_config ?c = cfg" by (simp add: new_controller_def)
  obtain t where up: "0 < ac_index ?c" "sh_to sh = ac_index ?c - 1" "ac_calm_since c = Some t"
    "hold_s c \<le> rd_now r - t"
    using assms(4,5) by (rule evaluate_up)
  have c: "c = note_round ?c (rd_now r) (level_of r)"
    using evaluate_fst [of ?c "rd_now r" "rd_verdict r" "rd_uplink r"] assms(4) by (simp add: level_of_def)
  have "calm_ok c (rs @ [r])"
    unfolding c using in_time_order_snoc [OF assms(1)] play_calm by (intro note_round_calm) auto
  moreover have "in_range ?c" using assms(3) by (rule play_range)
  then have "in_range c" unfolding c by (rule note_round_range)
  then have "cf_up_hold_s cfg * 1 \<le> hold_s c"
    using assms(2) cfg c unfolding hold_s_def in_range_def by (intro mult_mono) auto
  ultimately have "\<forall>x \<in> set (rs @ [r]). rd_now r - cf_up_hold_s cfg < rd_now x \<longrightarrow> level_of x = OK"
    using up(3,4) by (fastforce simp: calm_ok_def)
  then show ?thesis
    using up(1,2) by (auto simp: level_of_def round_level_def split: if_splits)
qed

lemmas demo_controller = play_def play_round_def evaluate_def note_round_def commit_def new_controller_def
  default_config_def two_rungs_def demo_rounds round_level_def last_index_def hold_s_def remember_def HISTORY_def

lemma recovery_needs_calm_witness:
  "\<exists>c sh. evaluate (play (new_controller two_rungs default_config) [bad_round 10, bad_round 12, fine_round 20])
       60 fine_verdict (Some ''good'') = (c, Some sh) \<and> sh_direction sh = Up \<and> sh_to sh = 0 \<and>
     (\<forall>x \<in> set [bad_round 10, bad_round 12, fine_round 20, fine_round 60]. 30 < rd_now x \<longrightarrow>
        vd_level (rd_verdict x) = OK)"
proof -
  let ?rs = "[bad_round 10, bad_round 12, fine_round 20]"
  let ?c = "play (new_controller two_rungs default_config) ?rs"
  have state: "?c = (new_controller two_rungs default_config)\<lparr>ac_index := 1, ac_calm_since := Some 20,
      ac_last_change := Some 12, ac_history := [\<lparr>ch_time = 12, ch_direction = Down, ch_from = 0, ch_to = 1,
        ch_reason = Because (''YouTube'', PacketLoss 4)\<rparr>]\<rparr>"
    by (simp add: demo_controller Let_def)
  have up: "\<exists>c. evaluate ?c 60 fine_verdict (Some ''good'') =
      (c, Some \<lparr>sh_direction = Up, sh_to = 0, sh_reason = SteadyFor 40\<rparr>)"
    unfolding state by (simp add: demo_controller Let_def)
  then obtain c where c: "evaluate ?c (rd_now (fine_round 60)) (rd_verdict (fine_round 60))
      (rd_uplink (fine_round 60)) = (c, Some \<lparr>sh_direction = Up, sh_to = 0, sh_reason = SteadyFor 40\<rparr>)"
    by (auto simp: fine_round_def)
  have "in_time_order (?rs @ [fine_round 60])" "0 \<le> cf_up_hold_s default_config"
    "1 \<le> cf_max_hold_factor default_config" "cf_up_hold_s default_config = 30"
    by (simp_all add: demo_rounds default_config_def)
  with recovery_needs_calm [OF this(1,2,3) c] show ?thesis
    using up by (auto simp: fine_round_def)
qed

definition streak_ok :: "controller \<Rightarrow> round list \<Rightarrow> bool" where
  "streak_ok c rs \<longleftrightarrow> ac_bad c \<le> length rs \<and>
     (\<forall>x \<in> set (drop (length rs - ac_bad c) rs). level_of x \<in> {CONGESTED, SEVERE})"

lemma note_round_streak: "streak_ok c rs \<Longrightarrow> streak_ok (note_round c (rd_now r) (level_of r)) (rs @ [r])"
  by (auto simp: streak_ok_def)

lemma play_streak: "streak_ok (play (new_controller steps cfg) rs) rs"
proof (induction rs rule: rev_induct)
  case (snoc r rs)
  let ?c = "play (new_controller steps cfg) rs"
  have noted: "streak_ok (note_round ?c (rd_now r) (level_of r)) (rs @ [r])"
    using snoc by (rule note_round_streak)
  show ?case
  proof (cases rule: play_round_cases [of ?c r])
    case (moves sh)
    then show ?thesis by (simp add: streak_ok_def commit_def Let_def)
  qed (use noted in simp_all)
qed (simp add: streak_ok_def new_controller_def)

text \<open>
  C28. One congested reading never costs picture: a round proposes a step down only when it is severe
  itself or the last \<open>down_after\<close> rounds, this one included, were all congested or severe; the step
  leads further down the ladder but not below its floor, one rung, or two when severe rounds follow each
  other.
\<close>

theorem downshift_needs_congestion:
  assumes "evaluate (play (new_controller steps cfg) rs) (rd_now r) (rd_verdict r) (rd_uplink r) = (c, Some sh)"
    and "sh_direction sh = Down"
  shows "(vd_level (rd_verdict r) = SEVERE \<or>
      cf_down_after cfg \<le> length (rs @ [r]) \<and>
      (\<forall>x \<in> set (drop (length (rs @ [r]) - cf_down_after cfg) (rs @ [r])). vd_level (rd_verdict x) \<in> {CONGESTED, SEVERE})) \<and>
    ac_index (play (new_controller steps cfg) rs) < sh_to sh \<and> sh_to sh < length steps \<and>
    sh_to sh \<le> ac_index (play (new_controller steps cfg) rs) +
      (if vd_level (rd_verdict r) = SEVERE then 2 else 1)"
proof -
  let ?c = "play (new_controller steps cfg) rs"
  have cfg: "ac_config ?c = cfg" "ac_steps ?c = steps" by (simp_all add: new_controller_def)
  note down = evaluate_down [OF assms]
  have levels: "level_of x \<in> {CONGESTED, SEVERE} \<Longrightarrow> vd_level (rd_verdict x) = level_of x" for x
    by (auto simp: level_of_def round_level_def split: if_splits)
  have lev: "level_of r \<in> {CONGESTED, SEVERE}" using down(1) by (simp add: level_of_def)
  have streak: "streak_ok (note_round ?c (rd_now r) (level_of r)) (rs @ [r])"
    using play_streak by (rule note_round_streak)
  have bad: "ac_bad (note_round ?c (rd_now r) (level_of r)) = ac_bad ?c + 1" using lev by auto
  have many: "cf_down_after cfg \<le> length (rs @ [r]) \<and>
      (\<forall>x \<in> set (drop (length (rs @ [r]) - cf_down_after cfg) (rs @ [r])). level_of x \<in> {CONGESTED, SEVERE})"
    if "level_of r = CONGESTED"
  proof -
    have n: "cf_down_after cfg \<le> ac_bad ?c + 1" using down(3) that cfg by (simp add: level_of_def)
    then have "length (rs @ [r]) - (ac_bad ?c + 1) \<le> length (rs @ [r]) - cf_down_after cfg" by simp
    then have "set (drop (length (rs @ [r]) - cf_down_after cfg) (rs @ [r])) \<subseteq>
        set (drop (length (rs @ [r]) - (ac_bad ?c + 1)) (rs @ [r]))"
      by (rule set_drop_subset_set_drop)
    moreover have "ac_bad ?c + 1 \<le> length (rs @ [r])"
      "\<forall>x \<in> set (drop (length (rs @ [r]) - (ac_bad ?c + 1)) (rs @ [r])). level_of x \<in> {CONGESTED, SEVERE}"
      using streak unfolding streak_ok_def bad by blast+
    ultimately show ?thesis using n by (meson le_trans subsetD)
  qed
  have step: "sh_to sh \<le> ac_index ?c + (if level_of r = SEVERE then 2 else 1)"
    using assms by (auto simp: evaluate_def level_of_def Let_def split: option.splits if_splits)
  have sev: "vd_level (rd_verdict r) = SEVERE \<longleftrightarrow> level_of r = SEVERE"
    using levels [OF lev] lev by auto
  have first: "vd_level (rd_verdict r) = SEVERE \<or>
      cf_down_after cfg \<le> length (rs @ [r]) \<and>
      (\<forall>x \<in> set (drop (length (rs @ [r]) - cf_down_after cfg) (rs @ [r])). vd_level (rd_verdict x) \<in> {CONGESTED, SEVERE})"
  proof (cases "level_of r = SEVERE")
    case False
    then have "level_of r = CONGESTED" using lev by blast
    note all = many [OF this]
    have "vd_level (rd_verdict x) \<in> {CONGESTED, SEVERE}"
      if "x \<in> set (drop (length (rs @ [r]) - cf_down_after cfg) (rs @ [r]))" for x
      using conjunct2 [OF all] that levels by metis
    then show ?thesis using all by blast
  qed (simp only: sev simp_thms)
  show ?thesis
    unfolding sev using first [unfolded sev] down(5,6) cfg step by (simp add: last_index_def del: drop_append)
qed

lemma downshift_needs_congestion_witness:
  "\<exists>c sh. evaluate (play (new_controller two_rungs default_config) [bad_round 10]) 12 bad_verdict None = (c, Some sh) \<and>
     0 < sh_to sh \<and> sh_to sh < 2 \<and> 2 \<le> length [bad_round 10, bad_round 12]"
proof -
  let ?c = "play (new_controller two_rungs default_config) [bad_round 10]"
  have down: "\<exists>c. evaluate ?c 12 bad_verdict None =
      (c, Some \<lparr>sh_direction = Down, sh_to = 1, sh_reason = Because (''YouTube'', PacketLoss 4)\<rparr>)"
    by (simp add: demo_controller Let_def)
  then obtain c where c: "evaluate ?c (rd_now (bad_round 12)) (rd_verdict (bad_round 12)) (rd_uplink (bad_round 12)) =
      (c, Some \<lparr>sh_direction = Down, sh_to = 1, sh_reason = Because (''YouTube'', PacketLoss 4)\<rparr>)"
    by (auto simp: bad_round_def)
  show ?thesis
    using downshift_needs_congestion [OF c] down by (auto simp: two_rungs_def)
qed

section \<open>Verdicts\<close>

lemma worst_of_split:
  "vs \<noteq> [] \<Longrightarrow> \<exists>pre post. vs = pre @ worst_of d vs # post \<and>
    (\<forall>w \<in> set pre. worse_than (worst_of d vs) w) \<and> (\<forall>w \<in> set post. \<not> worse_than w (worst_of d vs))"
proof (induction d vs rule: worst_of.induct)
  case (2 d v)
  then show ?case by (intro exI [of _ "[]"]) simp
next
  case (3 d v w vs)
  let ?m = "if worse_than w v then w else v"
  from 3 obtain pre post where split: "?m # vs = pre @ worst_of d (?m # vs) # post"
    "\<forall>x \<in> set pre. worse_than (worst_of d (?m # vs)) x"
    "\<forall>x \<in> set post. \<not> worse_than x (worst_of d (?m # vs))"
    by blast
  show ?case
  proof (cases pre)
    case Nil
    then have m: "worst_of d (?m # vs) = ?m" "post = vs" using split(1) by auto
    show ?thesis
    proof (cases "worse_than w v")
      case True
      with m split(3) show ?thesis by (intro exI [of _ "[v]"] exI [of _ vs]) simp
    next
      case False
      with m split(3) show ?thesis by (intro exI [of _ "[]"] exI [of _ "w # vs"]) simp
    qed
  next
    case (Cons p pre')
    then have "p = ?m" "vs = pre' @ worst_of d (?m # vs) # post" using split(1) by auto
    moreover from this Cons split(2) have "worse_than (worst_of d (?m # vs)) v \<and> worse_than (worst_of d (?m # vs)) w"
      by (auto simp: worse_than_def split: if_splits)
    ultimately show ?thesis
      using split(2,3) Cons by (intro exI [of _ "v # w # pre'"] exI [of _ post]) auto
  qed
qed simp

lemma worst_of_level:
  "vd_level (worst_of d (map f found)) = l \<Longrightarrow> found \<noteq> [] \<Longrightarrow> \<exists>x \<in> set found. vd_level (f x) = l"
proof -
  assume l: "vd_level (worst_of d (map f found)) = l" and "found \<noteq> []"
  then obtain pre post where "map f found = pre @ worst_of d (map f found) # post"
    using worst_of_split [of "map f found" d] by auto
  then have "worst_of d (map f found) \<in> set (map f found)" by (metis in_set_conv_decomp)
  with l show ?thesis by auto
qed

lemma rank_le_severe: "rank l \<le> 3" "rank l = 3 \<longleftrightarrow> l = SEVERE"
  by (cases l; simp)+

lemma worst_of_severe:
  "vd_level (worst_of \<lparr>vd_level = OK, vd_reason = None, vd_dest = dest\<rparr> (map f found)) = SEVERE \<longleftrightarrow>
    (\<exists>x \<in> set found. vd_level (f x) = SEVERE)"
proof (cases "found = []")
  case False
  let ?w = "worst_of \<lparr>vd_level = OK, vd_reason = None, vd_dest = dest\<rparr> (map f found)"
  obtain pre post where split: "map f found = pre @ ?w # post" "\<forall>w \<in> set pre. worse_than ?w w"
    "\<forall>w \<in> set post. \<not> worse_than w ?w"
    using worst_of_split [of "map f found"] False by (metis list.map_disc_iff)
  have "vd_level ?w = SEVERE" if "x \<in> set found" "vd_level (f x) = SEVERE" for x
  proof -
    have "f x \<in> set (map f found)" using that(1) by simp
    then consider "f x \<in> set pre" | "f x = ?w" | "f x \<in> set post"
      by (subst (asm) split(1)) auto
    then show ?thesis
    proof cases
      case 1
      with split(2) that(2) rank_le_severe(1) [of "vd_level ?w"] show ?thesis by (fastforce simp: worse_than_def)
    next
      case 3
      with split(3) that(2) rank_le_severe(1) [of "vd_level ?w"] rank_le_severe(2) [of "vd_level ?w"]
      show ?thesis by (fastforce simp: worse_than_def)
    qed (use that(2) in simp)
  qed
  then show ?thesis using worst_of_level [of _ f found SEVERE] False by blast
qed simp

text \<open>
  A destination's verdict is severe exactly when one of its measures is: severe packet loss, four
  seconds (as configured) of video waiting, a burst of dropped frames or two reconnects since the last
  live sample, or a settled connection that cannot send at the configured share of real time. A measure
  the transport does not report never counts, and a destination that is not live is never severe.
\<close>

theorem judge_severe_iff:
  "vd_level (snd (judge j s)) = SEVERE \<longleftrightarrow>
    ls_state s = ''live'' \<and>
    ((\<exists>p. ls_loss_percent s = Some p \<and> cf_loss_severe (jd_config j) \<le> p) \<or>
     cf_queue_severe_ms (jd_config j) \<le> ls_queued_ms s \<or>
     (\<exists>p. jd_last j (ls_dest s) = Some p \<and> ls_state p = ''live'' \<and>
        (cf_dropped_severe (jd_config j) \<le> ls_dropped s - ls_dropped p \<or> 2 \<le> ls_restarts s - ls_restarts p)) \<or>
     (\<exists>v. ls_speed s = Some v \<and> cf_settle_s (jd_config j) \<le> ls_connected_s s \<and> v < cf_speed_severe (jd_config j)))"
proof (cases "ls_state s = ''live''")
  case True
  have loss: "(\<exists>x \<in> set (loss_found cfg l). fst x = SEVERE) \<longleftrightarrow> (\<exists>p. l = Some p \<and> cf_loss_severe cfg \<le> p)" for cfg l
    by (auto simp: loss_found_def split: option.splits)
  have queue: "(\<exists>x \<in> set (queue_found cfg q). fst x = SEVERE) \<longleftrightarrow> cf_queue_severe_ms cfg \<le> q" for cfg q
    by (auto simp: queue_found_def)
  have rtt: "\<not> (\<exists>x \<in> set (rtt_found cfg a b). fst x = SEVERE)" for cfg a b
    by (auto simp: rtt_found_def)
  have drops: "(SEVERE, y) \<in> set (drops_found cfg n) \<longleftrightarrow> cf_dropped_severe cfg \<le> n \<and> y = FramesDropped n" for cfg n y
    by (auto simp: drops_found_def)
  have recon: "(SEVERE, y) \<in> set (reconnects_found n) \<longleftrightarrow> 2 \<le> n \<and> y = KeepsDropping" for n y
    by (auto simp: reconnects_found_def)
  have speed: "(\<exists>x \<in> set (speed_found cfg v t). fst x = SEVERE) \<longleftrightarrow>
      (\<exists>x. v = Some x \<and> cf_settle_s cfg \<le> t \<and> x < cf_speed_severe cfg)" for cfg v t
    by (auto simp: speed_found_def split: option.splits)
  have lev: "vd_level (case x of (l, y) \<Rightarrow> \<lparr>vd_level = l, vd_reason = Some (who, y), vd_dest = dest\<rparr>) = fst x"
    for x :: "level \<times> why" and who dest by (cases x) simp
  show ?thesis
    using True
    by (cases "ls_rtt_ms s"; cases "jd_last j (ls_dest s)")
       (simp_all add: judge_def Let_def worst_of_severe lev bex_Un loss queue rtt drops recon speed ex_disj_distrib del: map_append)
qed (simp add: judge_def Let_def)

text \<open>
  Of several destinations the controller follows the first of the worst, so the reason shown is
  stable: every destination before the chosen one is strictly better and none after it is worse.
\<close>

theorem worst_is_first_of_the_worst:
  "vs = [] \<and> vd_level (worst vs) = OK \<or>
   (\<exists>pre post. vs = pre @ worst vs # post \<and> (\<forall>w \<in> set pre. worse_than (worst vs) w) \<and>
      (\<forall>w \<in> set post. \<not> worse_than w (worst vs)))"
  using worst_of_split [of vs] unfolding worst_def by (cases "vs = []") simp_all

lemma worst_is_first_of_the_worst_witness:
  "\<exists>pre post. [fine_verdict, bad_verdict, bad_verdict\<lparr>vd_dest := ''twitch''\<rparr>] = pre @ bad_verdict # post \<and>
     (\<forall>w \<in> set pre. worse_than bad_verdict w) \<and> (\<forall>w \<in> set post. \<not> worse_than w bad_verdict)"
proof -
  have "worst [fine_verdict, bad_verdict, bad_verdict\<lparr>vd_dest := ''twitch''\<rparr>] = bad_verdict"
    by (simp add: worst_def worse_than_def demo_rounds)
  then show ?thesis
    using worst_is_first_of_the_worst [of "[fine_verdict, bad_verdict, bad_verdict\<lparr>vd_dest := ''twitch''\<rparr>]"]
    by (simp only: list.distinct simp_thms)
qed

end
