(* ===== verification/PyText.thy ===== *)
theory PyText
  imports Complex_Main Prelude "HOL-Library.List_Lexorder" "HOL-Library.Char_ord"
begin

text \<open>
  The string operations and the JSON values the components share. A \<open>string\<close> is a Python string of
  code points below 256, for which the operations are exactly Python's; characters above are not
  represented.
\<close>

section \<open>Strings\<close>

definition code :: "char \<Rightarrow> nat" where
  "code c = of_char c"

text \<open>\<open>str.isspace\<close> of one character, \<open>str.strip()\<close>, \<open>str.lower()\<close>.\<close>

definition is_space :: "char \<Rightarrow> bool" where
  "is_space c \<longleftrightarrow> code c \<in> {9..13} \<union> {28..32} \<union> {0x85, 0xA0}"

definition strip :: "string \<Rightarrow> string" where
  "strip s = rev (dropWhile is_space (rev (dropWhile is_space s)))"

definition lower_char :: "char \<Rightarrow> char" where
  "lower_char c = (if code c \<in> {65..90} \<union> ({192..222} - {215}) then char_of (code c + 32) else c)"

definition lower :: "string \<Rightarrow> string" where
  "lower s = map lower_char s"

text \<open>\<open>str.split(sep)\<close> and \<open>sep.join\<close> for a separator of one character.\<close>

fun split_on :: "char \<Rightarrow> string \<Rightarrow> string list" where
  "split_on sep [] = [[]]"
| "split_on sep (c # s) =
     (if c = sep then [] # split_on sep s
      else case split_on sep s of [] \<Rightarrow> [[c]] | p # ps \<Rightarrow> (c # p) # ps)"

fun join_with :: "string \<Rightarrow> string list \<Rightarrow> string" where
  "join_with sep [] = []"
| "join_with sep [p] = p"
| "join_with sep (p # q # ps) = p @ sep @ join_with sep (q # ps)"

definition is_lower :: "char \<Rightarrow> bool" where "is_lower c \<longleftrightarrow> code c \<in> {97..122}"
definition is_digit :: "char \<Rightarrow> bool" where "is_digit c \<longleftrightarrow> code c \<in> {48..57}"

text \<open>The line boundaries of \<open>str.splitlines()\<close>.\<close>

definition is_line_end :: "char \<Rightarrow> bool" where
  "is_line_end c \<longleftrightarrow> code c \<in> {10..13} \<union> {28..30} \<union> {0x85}"

lemma split_on_nonempty [simp]: "split_on sep s \<noteq> []"
  by (induction s) (auto split: list.splits)

lemma split_on_plain: "sep \<notin> set p \<Longrightarrow> split_on sep p = [p]"
  by (induction p) auto

lemma split_on_append: "sep \<notin> set p \<Longrightarrow> split_on sep (p @ sep # s) = p # split_on sep s"
  by (induction p) auto

lemma split_join: "ps \<noteq> [] \<Longrightarrow> \<forall>p \<in> set ps. sep \<notin> set p \<Longrightarrow> split_on sep (join_with [sep] ps) = ps"
  by (induction "[sep]" ps rule: join_with.induct) (auto simp: split_on_plain split_on_append)

lemma strip_noop: "s \<noteq> [] \<Longrightarrow> \<not> is_space (hd s) \<Longrightarrow> \<not> is_space (last s) \<Longrightarrow> strip s = s"
proof -
  assume s: "s \<noteq> []" "\<not> is_space (hd s)" "\<not> is_space (last s)"
  have "dropWhile is_space s = s" using s(1,2) by (cases s) auto
  moreover have "dropWhile is_space (rev s) = rev s"
    using s(1,3) by (cases s rule: rev_cases) auto
  ultimately show ?thesis by (simp add: strip_def)
qed

lemma strip_ends:
  assumes "strip s \<noteq> []"
  shows "\<not> is_space (hd (strip s))" and "\<not> is_space (last (strip s))"
proof -
  let ?t = "dropWhile is_space s"
  have r: "rev (strip s) = dropWhile is_space (rev ?t)" by (simp add: strip_def)
  have "rev (strip s) \<noteq> []" using assms by simp
  then show "\<not> is_space (last (strip s))"
    using hd_dropWhile [of is_space "rev ?t"] unfolding r [symmetric] by (simp add: hd_rev)
  have "takeWhile is_space (rev ?t) @ rev (strip s) = rev ?t" unfolding r by (rule takeWhile_dropWhile_id)
  then have "?t = strip s @ rev (takeWhile is_space (rev ?t))"
    by (metis rev_append rev_rev_ident)
  then have "hd ?t = hd (strip s)" "?t \<noteq> []" using assms by (metis hd_append2, force)
  then show "\<not> is_space (hd (strip s))" using hd_dropWhile [of is_space s] by simp
qed

lemma strip_idem [simp]: "strip (strip s) = strip s"
proof (cases "strip s = []")
  case True
  then show ?thesis unfolding True by (simp add: strip_def)
next
  case False
  then show ?thesis using strip_ends strip_noop by blast
qed

lemma length_strip: "length (strip s) \<le> length s"
  unfolding strip_def by (metis length_dropWhile_le length_rev le_trans)

section \<open>JSON\<close>

text \<open>
  A float carries its exact value and the text Python prints for it; an object's keys are in the
  order the document has them.
\<close>

datatype json =
    JNull
  | JBool bool
  | JInt int
  | JFloat rat string
  | JStr string
  | JList "json list"
  | JObj "(string \<times> json) list"

text \<open>\<open>obj.get(key)\<close>; \<open>JNull\<close> is Python's \<open>None\<close>, which a missing key also gives.\<close>

definition jget :: "(string \<times> json) list \<Rightarrow> string \<Rightarrow> json" where
  "jget kvs k = (case map_of kvs k of None \<Rightarrow> JNull | Some v \<Rightarrow> v)"

definition escape_char :: "char \<Rightarrow> string" where
  "escape_char c =
     (if c = CHR ''\"'' then [CHR 0x5C, CHR ''\"'']
      else if c = CHR 0x5C then [CHR 0x5C, CHR 0x5C]
      else if code c = 10 then [CHR 0x5C, CHR ''n'']
      else if code c = 13 then [CHR 0x5C, CHR ''r'']
      else if code c = 9 then [CHR 0x5C, CHR ''t'']
      else if code c = 12 then [CHR 0x5C, CHR ''f'']
      else if code c = 8 then [CHR 0x5C, CHR ''b'']
      else if code c < 32 \<or> 126 < code c
      then [CHR 0x5C, CHR ''u'', CHR ''0'', CHR ''0'',
            ''0123456789abcdef'' ! (code c div 16), ''0123456789abcdef'' ! (code c mod 16)]
      else [c])"

definition dump_string :: "string \<Rightarrow> string" where
  "dump_string s = [CHR ''\"''] @ concat (map escape_char s) @ [CHR ''\"'']"

definition dump_int :: "int \<Rightarrow> string" where
  "dump_int n = (if n < 0 then ''-'' @ decimal (nat (- n)) else decimal (nat n))"

text \<open>\<open>json.dumps(value, sort_keys=True)\<close>.\<close>

fun dumps :: "json \<Rightarrow> string" where
  "dumps JNull = ''null''"
| "dumps (JBool b) = (if b then ''true'' else ''false'')"
| "dumps (JInt n) = dump_int n"
| "dumps (JFloat _ s) = s"
| "dumps (JStr s) = dump_string s"
| "dumps (JList xs) = ''['' @ join_with '', '' (map dumps xs) @ '']''"
| "dumps (JObj kvs) =
     ''{'' @ join_with '', '' (map snd (sort_key fst
       (map (\<lambda>(k, v). (k, dump_string k @ '': '' @ dumps v)) kvs))) @ ''}''"

section \<open>Searching and splitting\<close>

definition starts_with :: "string \<Rightarrow> string \<Rightarrow> bool" where
  "starts_with p s \<longleftrightarrow> take (length p) s = p"

text \<open>\<open>p in s\<close>.\<close>

fun contains :: "string \<Rightarrow> string \<Rightarrow> bool" where
  "contains p [] = (p = [])"
| "contains p (c # s) = (starts_with p (c # s) \<or> contains p s)"

lemma contains_iff: "contains p s \<longleftrightarrow> (\<exists>pre post. s = pre @ p @ post)"
proof (induction s)
  case (Cons c s)
  have "starts_with p (c # s) \<longleftrightarrow> (\<exists>post. c # s = p @ post)"
    by (metis append_eq_conv_conj append_take_drop_id starts_with_def)
  with Cons show ?case by (auto simp: Cons_eq_append_conv)
qed simp

text \<open>\<open>str.split()\<close>: the parts between runs of spaces.\<close>

fun split_where :: "(char \<Rightarrow> bool) \<Rightarrow> string \<Rightarrow> string list" where
  "split_where sep [] = [[]]"
| "split_where sep (c # s) =
     (if sep c then [] # split_where sep s
      else case split_where sep s of [] \<Rightarrow> [[c]] | p # ps \<Rightarrow> (c # p) # ps)"

definition words :: "string \<Rightarrow> string list" where
  "words s = filter (\<lambda>p. p \<noteq> []) (split_where is_space s)"

text \<open>\<open>text.split(None, n)\<close>.\<close>

fun split_max :: "nat \<Rightarrow> string \<Rightarrow> string list" where
  "split_max n s =
     (let t = dropWhile is_space s
      in if t = [] then []
         else case n of
                0 \<Rightarrow> [t]
              | Suc m \<Rightarrow> takeWhile (\<lambda>c. \<not> is_space c) t # split_max m (dropWhile (\<lambda>c. \<not> is_space c) t))"

text \<open>\<open>int(text)\<close> for a text without spaces around it; \<open>None\<close> is its \<open>ValueError\<close>.\<close>

fun digits_value :: "nat \<Rightarrow> string \<Rightarrow> nat" where
  "digits_value n [] = n"
| "digits_value n (c # s) = digits_value (10 * n + (code c - 48)) s"

definition unsigned_int :: "string \<Rightarrow> nat option" where
  "unsigned_int s =
     (let parts = split_on (CHR ''_'') s
      in if list_all (\<lambda>p. p \<noteq> [] \<and> list_all is_digit p) parts then Some (digits_value 0 (concat parts)) else None)"

definition int_of_text :: "string \<Rightarrow> int option" where
  "int_of_text s =
     (case s of
        [] \<Rightarrow> None
      | c # t \<Rightarrow>
          if c = CHR ''+'' then map_option int (unsigned_int t)
          else if c = CHR ''-'' then map_option (\<lambda>n. - int n) (unsigned_int t)
          else map_option int (unsigned_int s))"

section \<open>Values as text\<close>

text \<open>\<open>bool(value)\<close> of a value read from JSON.\<close>

fun truthy :: "json \<Rightarrow> bool" where
  "truthy JNull = False"
| "truthy (JBool b) = b"
| "truthy (JInt n) = (n \<noteq> 0)"
| "truthy (JFloat x _) = (x \<noteq> 0)"
| "truthy (JStr s) = (s \<noteq> [])"
| "truthy (JList xs) = (xs \<noteq> [])"
| "truthy (JObj kvs) = (kvs \<noteq> [])"

text \<open>\<open>repr(text)\<close> and \<open>repr(value)\<close> of a value read from JSON.\<close>

definition repr_char :: "char \<Rightarrow> char \<Rightarrow> string" where
  "repr_char quote c =
     (if c = quote \<or> c = CHR 0x5C then [CHR 0x5C, c]
      else if code c = 10 then [CHR 0x5C, CHR ''n'']
      else if code c = 13 then [CHR 0x5C, CHR ''r'']
      else if code c = 9 then [CHR 0x5C, CHR ''t'']
      else if code c < 32 \<or> code c \<in> {127..160} \<or> code c = 173
      then [CHR 0x5C, CHR ''x'', ''0123456789abcdef'' ! (code c div 16), ''0123456789abcdef'' ! (code c mod 16)]
      else [c])"

definition repr_string :: "string \<Rightarrow> string" where
  "repr_string s =
     (let quote = (if CHR 0x27 \<in> set s \<and> CHR 0x22 \<notin> set s then CHR 0x22 else CHR 0x27)
      in [quote] @ concat (map (repr_char quote) s) @ [quote])"

fun repr_json :: "json \<Rightarrow> string" where
  "repr_json JNull = ''None''"
| "repr_json (JBool b) = (if b then ''True'' else ''False'')"
| "repr_json (JInt n) = dump_int n"
| "repr_json (JFloat _ s) = s"
| "repr_json (JStr s) = repr_string s"
| "repr_json (JList xs) = ''['' @ join_with '', '' (map repr_json xs) @ '']''"
| "repr_json (JObj kvs) =
     ''{'' @ join_with '', '' (map (\<lambda>(k, v). repr_string k @ '': '' @ repr_json v) kvs) @ ''}''"

text \<open>\<open>str(value)\<close>.\<close>

definition str_json :: "json \<Rightarrow> string" where
  "str_json v = (case v of JStr s \<Rightarrow> s | _ \<Rightarrow> repr_json v)"

section \<open>Numbered names\<close>

lemma decimal_value: "foldl (\<lambda>v c. v * 10 + (of_char c - 48)) 0 (decimal n) = (n :: nat)"
proof (induction n rule: decimal.induct)
  case (1 n)
  show ?case
  proof (cases "n < 10")
    case True
    then show ?thesis by (subst decimal.simps) (simp add: digit_char_def)
  next
    case False
    then have "foldl (\<lambda>v c. v * 10 + (of_char c - 48)) 0 (decimal (n div 10)) = n div 10" by (rule 1)
    then show ?thesis using False by (subst decimal.simps) (simp add: digit_char_def)
  qed
qed

lemma decimal_inj: "decimal m = decimal n \<Longrightarrow> m = n"
  by (metis decimal_value)

text \<open>A loop that counts up until the numbered name is not taken ends: fewer taken names are left to try.\<close>

lemma untried_fewer:
  fixes f :: "nat \<Rightarrow> string"
  assumes "inj f" and "f n \<in> set taken"
  shows "card {m. n + 1 \<le> m \<and> f m \<in> set taken} < card {m. n \<le> m \<and> f m \<in> set taken}"
proof (rule psubset_card_mono)
  have "inj_on f {m. n \<le> m \<and> f m \<in> set taken}" using assms(1) inj_on_subset by blast
  moreover have "f ` {m. n \<le> m \<and> f m \<in> set taken} \<subseteq> set taken" by auto
  ultimately show "finite {m. n \<le> m \<and> f m \<in> set taken}" by (meson finite_set inj_on_finite)
  have "n \<in> {m. n \<le> m \<and> f m \<in> set taken} - {m. n + 1 \<le> m \<and> f m \<in> set taken}" using assms(2) by simp
  moreover have "{m. n + 1 \<le> m \<and> f m \<in> set taken} \<subseteq> {m. n \<le> m \<and> f m \<in> set taken}" by auto
  ultimately show "{m. n + 1 \<le> m \<and> f m \<in> set taken} \<subset> {m. n \<le> m \<and> f m \<in> set taken}" by blast
qed

end
