(* ===== verification/KeyCombo.thy ===== *)
theory KeyCombo
  imports PyText
begin

text \<open>
  Key combos of \<open>hotkeys.py\<close>: the names of keys, the canonical form of a combo and its readings for
  the XDG portal and for a person.
\<close>

section \<open>Key names\<close>

definition MODIFIERS :: "string list" where
  "MODIFIERS = [''ctrl'', ''alt'', ''shift'', ''super'']"

definition NAMED :: "(string \<times> string) list" where
  "NAMED =
     [(''space'', ''space''), (''return'', ''Return''), (''escape'', ''Escape''), (''tab'', ''Tab''),
      (''backspace'', ''BackSpace''), (''insert'', ''Insert''), (''delete'', ''Delete''), (''home'', ''Home''),
      (''end'', ''End''), (''pageup'', ''Prior''), (''pagedown'', ''Next''), (''up'', ''Up''), (''down'', ''Down''),
      (''left'', ''Left''), (''right'', ''Right''), (''pause'', ''Pause''), (''print'', ''Print''),
      (''scrolllock'', ''Scroll_Lock''), (''minus'', ''minus''), (''equal'', ''equal''), (''comma'', ''comma''),
      (''period'', ''period''), (''slash'', ''slash''), (''semicolon'', ''semicolon''),
      (''apostrophe'', ''apostrophe''), (''bracketleft'', ''bracketleft''), (''bracketright'', ''bracketright''),
      (''backslash'', ''backslash''), (''grave'', ''grave'')]"

definition MEDIA :: "(string \<times> string) list" where
  "MEDIA =
     [(''xf86audiomute'', ''XF86AudioMute''), (''xf86audiomicmute'', ''XF86AudioMicMute''),
      (''xf86audioraisevolume'', ''XF86AudioRaiseVolume''), (''xf86audiolowervolume'', ''XF86AudioLowerVolume''),
      (''xf86audioplay'', ''XF86AudioPlay''), (''xf86audiopause'', ''XF86AudioPause''),
      (''xf86audionext'', ''XF86AudioNext''), (''xf86audioprev'', ''XF86AudioPrev''),
      (''xf86audiostop'', ''XF86AudioStop''), (''xf86audiorecord'', ''XF86AudioRecord'')]"

definition STANDALONE_NAMED :: "string list" where
  "STANDALONE_NAMED = [''insert'', ''delete'', ''home'', ''end'', ''pageup'', ''pagedown'', ''pause'', ''print'',
     ''scrolllock'']"

text \<open>The regular expressions \<open>[a-z0-9]\<close>, \<open>f([1-9]|1[0-9]|2[0-4])\<close> and \<open>kp_[0-9]\<close>.\<close>

definition is_plain_key :: "string \<Rightarrow> bool" where
  "is_plain_key k = (case k of [c] \<Rightarrow> is_lower c \<or> is_digit c | _ \<Rightarrow> False)"

definition is_function_key :: "string \<Rightarrow> bool" where
  "is_function_key k =
     (case k of
        [c, d] \<Rightarrow> c = CHR ''f'' \<and> is_digit d \<and> d \<noteq> CHR ''0''
      | [c, d, e] \<Rightarrow> c = CHR ''f'' \<and>
          (d = CHR ''1'' \<and> is_digit e \<or> d = CHR ''2'' \<and> e \<in> set ''01234'')
      | _ \<Rightarrow> False)"

definition is_keypad :: "string \<Rightarrow> bool" where
  "is_keypad k = (take 3 k = ''kp_'' \<and> length k = 4 \<and> is_digit (k ! 3))"

definition keysym :: "string \<Rightarrow> string result" where
  "keysym name =
     (if is_plain_key name then Inr name
      else if is_function_key name then Inr (CHR ''F'' # drop 1 name)
      else if is_keypad name then Inr (''KP_'' @ drop 3 name)
      else case map_of NAMED name of
        Some ks \<Rightarrow> Inr ks
      | None \<Rightarrow>
          (case map_of MEDIA name of
             Some ks \<Rightarrow> Inr ks
           | None \<Rightarrow> Inl (HotkeyError ''this is not a key StreamStack can listen for'')))"

definition standalone :: "string \<Rightarrow> bool" where
  "standalone key \<longleftrightarrow> is_function_key key \<or> key \<in> fst ` set MEDIA \<or> key \<in> set STANDALONE_NAMED \<or> is_keypad key"

definition ALIASES :: "(string \<times> string) list" where
  "ALIASES =
     [(''control'', ''ctrl''), (''ctl'', ''ctrl''), (''option'', ''alt''), (''meta'', ''alt''), (''win'', ''super''),
      (''windows'', ''super''), (''logo'', ''super''), (''cmd'', ''super''), (''command'', ''super''),
      (''esc'', ''escape''), (''enter'', ''return''), (''del'', ''delete''), (''ins'', ''insert''),
      (''pgup'', ''pageup''), (''prior'', ''pageup''), (''pgdn'', ''pagedown''), (''next'', ''pagedown''),
      (''page_up'', ''pageup''), (''page_down'', ''pagedown''), (''plus'', ''equal''), (''-'', ''minus''),
      (''='', ''equal''), ('','', ''comma''), (''.'', ''period''), (''/'', ''slash''), ('';'', ''semicolon''),
      ([CHR 0x27], ''apostrophe''), (''['', ''bracketleft''), ('']'', ''bracketright''),
      ([CHR 0x5C], ''backslash''), ([CHR 0x60], ''grave''), ('' '', ''space''), (''arrowup'', ''up''),
      (''arrowdown'', ''down''), (''arrowleft'', ''left''), (''arrowright'', ''right''),
      (''scroll_lock'', ''scrolllock''), (''printscreen'', ''print''), (''print_screen'', ''print'')]"

definition unalias :: "string \<Rightarrow> string" where
  "unalias p = (case map_of ALIASES p of None \<Rightarrow> p | Some q \<Rightarrow> q)"

section \<open>Combos\<close>

definition PLUS :: char where "PLUS = CHR ''+''"

text \<open>\<open>text.endswith("++")\<close>: a browser reports the plus key as "ctrl++".\<close>

definition spell_plus :: "string \<Rightarrow> string" where
  "spell_plus t =
     (if 2 \<le> length t \<and> drop (length t - 2) t = ''++'' then take (length t - 2) t @ ''+plus'' else t)"

definition combo_parts :: "string \<Rightarrow> string list" where
  "combo_parts raw = map (\<lambda>p. unalias (strip p)) (split_on PLUS (spell_plus (lower (strip raw))))"

definition clean_combo :: "json \<Rightarrow> string result" where
  "clean_combo value =
     (case value of
        JStr raw \<Rightarrow>
          if strip raw = [] \<or> 60 < length raw then Inl (HotkeyError ''A hotkey is a combo such as ctrl+alt+m.'')
          else
            let parts = combo_parts raw; key = last parts; mods = butlast parts;
                ordered = filter (\<lambda>m. m \<in> set mods) MODIFIERS
            in if [] \<in> set parts then Inl (HotkeyError ''A hotkey is a combo such as ctrl+alt+m.'')
               else if \<not> set mods \<subseteq> set MODIFIERS
               then Inl (HotkeyError ''this is not a modifier; use ctrl, alt, shift or super.'')
               else if key \<in> set MODIFIERS then Inl (HotkeyError ''Add a key after the modifiers.'')
               else bindE (keysym key) (\<lambda>_.
                 if \<not> distinct mods then Inl (HotkeyError ''A modifier appears twice.'')
                 else if ordered = [] \<and> \<not> standalone key
                 then Inl (HotkeyError ''Add ctrl, alt or super.'')
                 else if ordered = [''shift''] \<and> \<not> standalone key
                 then Inl (HotkeyError ''Shift alone is typing; combine it with ctrl, alt or super.'')
                 else Inr (join_with [PLUS] (ordered @ [key])))
      | _ \<Rightarrow> Inl (HotkeyError ''A hotkey is a combo such as ctrl+alt+m.''))"

definition split_combo :: "string \<Rightarrow> (string list \<times> string) result" where
  "split_combo combo =
     bindE (clean_combo (JStr combo)) (\<lambda>c. let parts = split_on PLUS c in Inr (butlast parts, last parts))"

definition xdg_modifier :: "string \<Rightarrow> string" where
  "xdg_modifier m = (if m = ''ctrl'' then ''CTRL'' else if m = ''alt'' then ''ALT''
     else if m = ''shift'' then ''SHIFT'' else ''LOGO'')"

definition xdg_trigger :: "string \<Rightarrow> string result" where
  "xdg_trigger combo =
     bindE (split_combo combo) (\<lambda>(mods, key).
     bindE (keysym key) (\<lambda>ks. Inr (join_with [PLUS] (map xdg_modifier mods @ [ks]))))"

definition shown_modifier :: "string \<Rightarrow> string" where
  "shown_modifier m = (if m = ''ctrl'' then ''Ctrl'' else if m = ''alt'' then ''Alt''
     else if m = ''shift'' then ''Shift'' else ''Super'')"

text \<open>\<open>key.upper()\<close> of a one-character key: a letter or a digit.\<close>

definition upper_key :: "string \<Rightarrow> string" where
  "upper_key k = map (\<lambda>c. if is_lower c then char_of (code c - 32) else c) k"

definition describe_combo :: "string \<Rightarrow> string result" where
  "describe_combo combo =
     bindE (split_combo combo) (\<lambda>(mods, key).
     bindE (if length key = 1 then Inr (upper_key key) else keysym key) (\<lambda>shown.
       Inr (join_with [PLUS] (map shown_modifier mods @ [shown]))))"

section \<open>The canonical form\<close>

text \<open>What the names have in common: lower case, no space, no plus, not an alias, short.\<close>

definition name_ok :: "string \<Rightarrow> bool" where
  "name_ok p \<longleftrightarrow> p \<noteq> [] \<and> list_all (\<lambda>c. \<not> is_space c \<and> lower_char c = c \<and> c \<noteq> PLUS) p \<and>
     map_of ALIASES p = None \<and> length p \<le> 20"

lemma lower_keys:
  "is_lower c \<or> is_digit c \<Longrightarrow> \<not> is_space c \<and> lower_char c = c \<and> c \<noteq> PLUS"
  by (auto simp: is_lower_def is_digit_def is_space_def lower_char_def PLUS_def code_def)

lemma code_char: "code c = n \<Longrightarrow> n \<in> {97..122} \<union> {48..57} \<Longrightarrow> is_lower c \<or> is_digit c"
  by (auto simp: is_lower_def is_digit_def)

definition KEYCHARS :: string where
  "KEYCHARS = ''abcdefghijklmnopqrstuvwxyz0123456789''"

lemma letters:
  "list_all (\<lambda>c. is_lower c \<or> is_digit c) KEYCHARS"
  by (simp add: KEYCHARS_def is_lower_def is_digit_def code_def)

lemma letters_set: "c \<in> set KEYCHARS \<Longrightarrow> is_lower c \<or> is_digit c"
  using letters unfolding list_all_iff by blast

lemma named_chars:
  "list_all (\<lambda>p. p \<noteq> [] \<and> length p \<le> 20 \<and> list_all (\<lambda>c. c \<in> set KEYCHARS) p)
     (MODIFIERS @ map fst NAMED @ map fst MEDIA)"
  by (simp add: MODIFIERS_def NAMED_def MEDIA_def KEYCHARS_def)

lemma named_unaliased: "list_all (\<lambda>p. map_of ALIASES p = None) (MODIFIERS @ map fst NAMED @ map fst MEDIA)"
  by (simp add: MODIFIERS_def NAMED_def MEDIA_def ALIASES_def)

lemma alias_heads:
  "list_all (\<lambda>(a, _). hd a \<noteq> CHR ''f'' \<and> hd a \<noteq> CHR ''k'' \<and>
     (length a = 1 \<longrightarrow> hd a \<notin> set KEYCHARS)) ALIASES"
  by (simp add: ALIASES_def KEYCHARS_def)

lemma single_not_alias: "c \<in> set KEYCHARS \<Longrightarrow> map_of ALIASES [c] = None"
proof -
  assume c: "c \<in> set KEYCHARS"
  have "([c], q) \<notin> set ALIASES" for q
  proof
    assume "([c], q) \<in> set ALIASES"
    with alias_heads have "hd [c] \<notin> set KEYCHARS" unfolding list_all_iff by fastforce
    with c show False by simp
  qed
  then show ?thesis by (auto simp: map_of_eq_None_iff)
qed

lemma not_alias:
  "hd p = CHR ''f'' \<or> hd p = CHR ''k'' \<Longrightarrow> map_of ALIASES p = None"
  using alias_heads by (auto simp: map_of_eq_None_iff list_all_iff)

lemma letter_iff: "is_lower c \<or> is_digit c \<longleftrightarrow> c \<in> set KEYCHARS"
proof
  assume "is_lower c \<or> is_digit c"
  then have "code c \<in> set (map code KEYCHARS)"
    by (simp add: KEYCHARS_def is_lower_def is_digit_def code_def) presburger
  then show "c \<in> set KEYCHARS"
    unfolding set_map code_def by (auto simp only: image_iff of_char_eq_iff)
qed (rule letters_set)

lemma name_ok_named: "p \<in> set (MODIFIERS @ map fst NAMED @ map fst MEDIA) \<Longrightarrow> name_ok p"
  using named_chars named_unaliased lower_keys letters_set
  unfolding list_all_iff name_ok_def by blast

lemma keysym_name_ok:
  assumes "keysym k = Inr x"
  shows "name_ok k"
proof -
  consider (plain) "is_plain_key k" | (fkey) "is_function_key k" | (keypad) "is_keypad k"
    | (named) "map_of NAMED k \<noteq> None" | (media) "map_of MEDIA k \<noteq> None"
    using assms by (auto simp: keysym_def split: if_splits option.splits)
  then show ?thesis
  proof cases
    case plain
    then obtain c where c: "k = [c]" "is_lower c \<or> is_digit c"
      by (auto simp: is_plain_key_def split: list.splits)
    then have "map_of ALIASES k = None" using single_not_alias letter_iff by simp
    with c lower_keys show ?thesis by (simp add: name_ok_def)
  next
    case fkey
    have f: "\<not> is_space CHR ''f'' \<and> lower_char CHR ''f'' = CHR ''f'' \<and> CHR ''f'' \<noteq> PLUS"
      by (intro lower_keys letters_set) (simp add: KEYCHARS_def)
    have digits: "d \<in> set ''01234'' \<or> d = CHR ''1'' \<or> d = CHR ''2'' \<Longrightarrow> is_digit d" for d
      by (auto simp: is_digit_def code_def)
    have "map_of ALIASES k = None" "length k \<le> 20" "k \<noteq> []"
      using fkey by (auto simp: is_function_key_def split: list.splits intro: not_alias)
    moreover have "list_all (\<lambda>c. \<not> is_space c \<and> lower_char c = c \<and> c \<noteq> PLUS) k"
      using fkey f digits lower_keys
      by (auto simp: is_function_key_def split: list.splits simp del: set_simps)
    ultimately show ?thesis by (simp add: name_ok_def)
  next
    case keypad
    then obtain d where k: "k = ''kp_'' @ [d]" "is_digit d"
      by (auto simp: is_keypad_def numeral_eq_Suc take_Suc_conv_app_nth length_Suc_conv)
    have "\<not> is_space CHR ''_'' \<and> lower_char CHR ''_'' = CHR ''_'' \<and> CHR ''_'' \<noteq> PLUS"
      by (simp add: is_space_def lower_char_def PLUS_def code_def)
    moreover have "c \<in> {CHR ''k'', CHR ''p''} \<Longrightarrow> \<not> is_space c \<and> lower_char c = c \<and> c \<noteq> PLUS" for c
      by (intro lower_keys letters_set) (auto simp: KEYCHARS_def)
    ultimately show ?thesis
      using k lower_keys not_alias [of k] by (simp add: name_ok_def)
  next
    case named
    then have "k \<in> set (map fst NAMED)" by (auto simp: map_of_eq_None_iff)
    then show ?thesis by (intro name_ok_named) simp
  next
    case media
    then have "k \<in> set (map fst MEDIA)" by (auto simp: map_of_eq_None_iff)
    then show ?thesis by (intro name_ok_named) simp
  qed
qed

lemma plus_char: "\<not> is_space PLUS" "lower_char PLUS = PLUS"
  by (simp_all add: is_space_def lower_char_def PLUS_def code_def)

lemma join_shape:
  "ps \<noteq> [] \<Longrightarrow> list_all name_ok ps \<Longrightarrow>
    join_with [PLUS] ps \<noteq> [] \<and> hd (join_with [PLUS] ps) = hd (hd ps) \<and>
    last (join_with [PLUS] ps) = last (last ps) \<and>
    list_all (\<lambda>c. \<not> is_space c \<and> lower_char c = c) (join_with [PLUS] ps)"
proof (induction ps rule: list_nonempty_induct)
  case (single p)
  then show ?case by (simp add: name_ok_def list_all_iff)
next
  case (cons p ps)
  then have join: "join_with [PLUS] (p # ps) = p @ PLUS # join_with [PLUS] ps" by (cases ps) simp_all
  have p: "p \<noteq> []" "list_all (\<lambda>c. \<not> is_space c \<and> lower_char c = c) p"
    using cons.prems by (auto simp: name_ok_def list_all_iff)
  have rest: "list_all name_ok ps" using cons.prems by simp
  show ?case
    using cons.IH [OF rest] p plus_char cons.hyps unfolding join by (simp del: join_with.simps)
qed

lemma name_okD:
  assumes "name_ok p"
  shows "p \<noteq> []" "strip p = p" "unalias p = p" "PLUS \<notin> set p" "last p \<noteq> PLUS"
proof -
  show "p \<noteq> []" "PLUS \<notin> set p" "unalias p = p"
    using assms by (auto simp: name_ok_def list_all_iff unalias_def)
  then show "last p \<noteq> PLUS" using last_in_set by metis
  have "\<not> is_space (hd p)" "\<not> is_space (last p)"
    using assms \<open>p \<noteq> []\<close> by (simp_all add: name_ok_def list_all_iff)
  with \<open>p \<noteq> []\<close> show "strip p = p" by (rule strip_noop)
qed

lemma combo_parts_join:
  assumes "ps \<noteq> []" and ok: "list_all name_ok ps"
  shows "combo_parts (join_with [PLUS] ps) = ps" and "strip (join_with [PLUS] ps) \<noteq> []"
proof -
  let ?c = "join_with [PLUS] ps"
  note shape = join_shape [OF assms]
  have ends: "\<not> is_space (hd ?c)" "\<not> is_space (last ?c)"
    using shape unfolding list_all_iff by (metis hd_in_set, metis last_in_set)
  with shape have strip: "strip ?c = ?c" by (intro strip_noop) auto
  then show "strip ?c \<noteq> []" using shape by simp
  have low: "lower ?c = ?c" using shape by (simp add: lower_def list_all_iff map_idI)
  have "name_ok (last ps)" using assms by (simp add: list_all_iff)
  then have "last ?c \<noteq> PLUS" using shape name_okD(5) by simp
  then have "drop (length ?c - 2) ?c \<noteq> ''++'' \<or> length ?c < 2"
    by (metis last_drop last.simps PLUS_def diff_less list.distinct(1) not_less zero_less_numeral
        length_greater_0_conv shape)
  then have spelled: "spell_plus ?c = ?c" by (auto simp: spell_plus_def)
  have "split_on PLUS ?c = ps"
    using assms name_okD(4) by (intro split_join) (auto simp: list_all_iff)
  moreover have "map (\<lambda>p. unalias (strip p)) ps = ps"
    using ok name_okD(2,3) by (intro map_idI) (auto simp: list_all_iff)
  ultimately show "combo_parts ?c = ps" by (simp add: combo_parts_def strip low spelled)
qed

text \<open>What an accepted combo is: modifiers in their fixed order, then a key.\<close>

lemma clean_combo_cases:
  assumes "clean_combo v = Inr c"
  obtains raw mods key ks where "v = JStr raw" and "c = join_with [PLUS] (mods @ [key])"
    and "mods = filter (\<lambda>m. m \<in> set mods) MODIFIERS" and "keysym key = Inr ks"
    and "key \<notin> set MODIFIERS" and "mods = [] \<or> mods = [''shift''] \<longrightarrow> standalone key"
proof -
  obtain raw where raw: "v = JStr raw" using assms by (cases v) (auto simp: clean_combo_def)
  let ?mods = "butlast (combo_parts raw)" and ?key = "last (combo_parts raw)"
  let ?ordered = "filter (\<lambda>m. m \<in> set ?mods) MODIFIERS"
  from assms raw obtain ks where "c = join_with [PLUS] (?ordered @ [?key])" "keysym ?key = Inr ks"
    "?key \<notin> set MODIFIERS" "?ordered = [] \<or> ?ordered = [''shift''] \<longrightarrow> standalone ?key"
    by (auto simp: clean_combo_def Let_def split: if_splits)
  moreover have "?ordered = filter (\<lambda>m. m \<in> set ?ordered) MODIFIERS"
    by (rule filter_cong) auto
  ultimately show thesis using raw by (intro that)
qed

lemma modifiers_ok: "set ms \<subseteq> set MODIFIERS \<Longrightarrow> list_all name_ok ms"
  using name_ok_named by (auto simp: list_all_iff)

lemma modifiers_length: "length (concat (map (\<lambda>m. m @ [PLUS]) (filter P MODIFIERS))) \<le> 21"
  by (simp add: MODIFIERS_def)

lemma join_length: "length (join_with [PLUS] (ms @ [k])) = length (concat (map (\<lambda>m. m @ [PLUS]) ms)) + length k"
proof (induction ms)
  case (Cons m ms)
  then show ?case by (cases ms) simp_all
qed simp

lemma clean_combo_reads:
  assumes "clean_combo v = Inr c"
  shows "clean_combo (JStr c) = Inr c \<and>
    (\<exists>mods key ks. split_combo c = Inr (mods, key) \<and> keysym key = Inr ks \<and>
       mods = filter (\<lambda>m. m \<in> set mods) MODIFIERS \<and> c = join_with [PLUS] (mods @ [key]) \<and>
       (mods = [] \<or> mods = [''shift''] \<longrightarrow> standalone key))"
proof -
  obtain raw mods key ks where c: "c = join_with [PLUS] (mods @ [key])"
    and mods: "mods = filter (\<lambda>m. m \<in> set mods) MODIFIERS" and key: "keysym key = Inr ks"
    "key \<notin> set MODIFIERS" "mods = [] \<or> mods = [''shift''] \<longrightarrow> standalone key"
    using assms by (rule clean_combo_cases)
  have sub: "set mods \<subseteq> set MODIFIERS" using mods by (metis filter_is_subset)
  have dist: "distinct mods" by (subst mods) (simp add: MODIFIERS_def)
  have ok: "list_all name_ok (mods @ [key])"
    using modifiers_ok [OF sub] keysym_name_ok [OF key(1)] by simp
  have parts: "combo_parts c = mods @ [key]" "strip c \<noteq> []"
    unfolding c using ok by (intro combo_parts_join; simp)+
  have "length (concat (map (\<lambda>m. m @ [PLUS]) mods)) \<le> 21"
    by (subst mods) (rule modifiers_length)
  moreover have "length key \<le> 20" using keysym_name_ok [OF key(1)] by (simp add: name_ok_def)
  ultimately have len: "\<not> 60 < length c" unfolding c join_length by linarith
  have nonempty: "[] \<notin> set (mods @ [key])" using ok name_okD(1) by (auto simp: list_all_iff)
  have again: "clean_combo (JStr c) = Inr c"
    using parts len nonempty sub dist key mods c by (simp add: clean_combo_def Let_def)
  have "split_on PLUS c = mods @ [key]"
    unfolding c using ok name_okD(4) by (intro split_join) (auto simp: list_all_iff)
  then have "split_combo c = Inr (mods, key)" using again by (simp add: split_combo_def Let_def)
  then show ?thesis using again key mods c by blast
qed

lemma clean_combo_again: "clean_combo v = Inr c \<Longrightarrow> clean_combo (JStr c) = Inr c"
  using clean_combo_reads by blast

text \<open>
  The canonical form of a combo is canonical: whatever was typed, an accepted combo is accepted
  again unchanged, so a combo from the saved file, from the browser and from the portal compare as
  plain texts; its reading as modifiers and a key gives back the modifiers in the fixed order ctrl, alt,
  shift, super, and a key the backends can name.
\<close>

theorem clean_combo_canonical:
  assumes "clean_combo v = Inr c"
  shows "clean_combo (JStr c) = Inr c \<and>
    (\<exists>mods key ks. split_combo c = Inr (mods, key) \<and> keysym key = Inr ks \<and>
       mods = filter (\<lambda>m. m \<in> set mods) MODIFIERS \<and> c = join_with [PLUS] (mods @ [key]) \<and>
       (mods = [] \<or> mods = [''shift''] \<longrightarrow> standalone key))"
  using assms by (rule clean_combo_reads)

lemma clean_combo_typed: "clean_combo (JStr ''Shift + Ctrl+M'') = Inr ''ctrl+shift+m''"
proof -
  have "strip ''Shift + Ctrl+M'' = ''Shift + Ctrl+M''" "strip ''shift '' = ''shift''" "strip '' ctrl'' = ''ctrl''"
    "strip ''m'' = ''m''"
    by (simp_all add: strip_def is_space_def code_def)
  moreover have "lower ''Shift + Ctrl+M'' = ''shift + ctrl+m''"
    by (simp add: lower_def lower_char_def code_def char_of_def bit_0)
  moreover have "is_plain_key ''m''" by (simp add: is_plain_key_def is_lower_def code_def)
  ultimately show ?thesis
    by (simp add: clean_combo_def combo_parts_def spell_plus_def PLUS_def unalias_def ALIASES_def
        MODIFIERS_def keysym_def Let_def)
qed

lemma clean_combo_canonical_witness:
  "clean_combo (JStr ''Shift + Ctrl+M'') = Inr ''ctrl+shift+m'' \<and>
   clean_combo (JStr ''ctrl+shift+m'') = Inr ''ctrl+shift+m''"
  using clean_combo_canonical [OF clean_combo_typed] clean_combo_typed by simp

end
