(* ===== verification/Midi.thy ===== *)
theory Midi
  imports Interfaces
begin

text \<open>
  The MIDI byte parser of \<open>hotkeys.py\<close>: running status, system exclusive messages and realtime bytes.
\<close>

section \<open>The parser\<close>

datatype midi_kind = Note | Cc | Program

record midi_event =
  me_kind :: midi_kind
  me_channel :: nat
  me_number :: nat
  me_value :: nat

text \<open>\<open>_DATA_BYTES\<close>: how many data bytes follow a status byte of this kind.\<close>

definition data_bytes :: "nat \<Rightarrow> nat" where
  "data_bytes kind = (if kind \<in> {0xC0, 0xD0} then 1 else 2)"

record midi_parser =
  mp_status :: nat
  mp_data :: "nat list"
  mp_in_sysex :: bool

definition new_parser :: midi_parser where
  "new_parser = \<lparr>mp_status = 0, mp_data = [], mp_in_sysex = False\<rparr>"

definition midi_event_of :: "nat \<Rightarrow> nat list \<Rightarrow> midi_event option" where
  "midi_event_of status data =
     (let kind = status AND 0xF0; channel = (status AND 0x0F) + 1
      in if kind = 0x90 \<and> 0 < data ! 1
         then Some \<lparr>me_kind = Note, me_channel = channel, me_number = data ! 0, me_value = data ! 1\<rparr>
         else if kind = 0xB0
         then Some \<lparr>me_kind = Cc, me_channel = channel, me_number = data ! 0, me_value = data ! 1\<rparr>
         else if kind = 0xC0
         then Some \<lparr>me_kind = Program, me_channel = channel, me_number = data ! 0, me_value = 127\<rparr>
         else None)"

text \<open>One turn of the loop over the bytes.\<close>

definition midi_byte :: "midi_parser \<Rightarrow> byte \<Rightarrow> midi_parser \<times> midi_event list" where
  "midi_byte p b =
     (let byte = unat b
      in if 0xF8 \<le> byte then (p, [])
         else if 0x80 \<le> byte then
           (if byte = 0xF0 then (p\<lparr>mp_data := [], mp_in_sysex := True, mp_status := 0\<rparr>, [])
            else if byte = 0xF7 \<or> 0xF0 \<le> byte
            then (p\<lparr>mp_data := [], mp_in_sysex := False, mp_status := 0\<rparr>, [])
            else (p\<lparr>mp_data := [], mp_in_sysex := False, mp_status := byte\<rparr>, []))
         else if mp_in_sysex p \<or> mp_status p = 0 then (p, [])
         else let data = mp_data p @ [byte]
              in if length data < data_bytes (mp_status p AND 0xF0) then (p\<lparr>mp_data := data\<rparr>, [])
                 else (p\<lparr>mp_data := []\<rparr>,
                       case midi_event_of (mp_status p) data of None \<Rightarrow> [] | Some e \<Rightarrow> [e]))"

fun midi_feed :: "midi_parser \<Rightarrow> bytes \<Rightarrow> midi_parser \<times> midi_event list" where
  "midi_feed p [] = (p, [])"
| "midi_feed p (b # bs) =
     (let (p1, es1) = midi_byte p b; (p2, es2) = midi_feed p1 bs in (p2, es1 @ es2))"

lemma midi_feed_append:
  "midi_feed p (xs @ ys) =
    (fst (midi_feed (fst (midi_feed p xs)) ys),
     snd (midi_feed p xs) @ snd (midi_feed (fst (midi_feed p xs)) ys))"
  by (induction xs arbitrary: p) (simp_all add: case_prod_beta Let_def)

interpretation midi: incremental_reader "\<lambda>p x. Inr (midi_feed p x)" "\<lambda>_ _. True" "\<lambda>_. True"
  by unfold_locales (auto simp: midi_feed_append case_prod_beta)

section \<open>State and events stay in range\<close>

text \<open>The status is none or a channel message; fewer data bytes are held than the message needs.\<close>

definition parser_inv :: "midi_parser \<Rightarrow> bool" where
  "parser_inv p \<longleftrightarrow>
     (mp_status p = 0 \<or> 0x80 \<le> mp_status p \<and> mp_status p < 0xF0) \<and>
     (mp_in_sysex p \<longrightarrow> mp_status p = 0) \<and> (mp_status p = 0 \<longrightarrow> mp_data p = []) \<and>
     length (mp_data p) < data_bytes (mp_status p AND 0xF0) \<and> (\<forall>d \<in> set (mp_data p). d < 128)"

definition event_ok :: "midi_event \<Rightarrow> bool" where
  "event_ok e \<longleftrightarrow> me_channel e \<in> {1..16} \<and> me_number e < 128 \<and> me_value e < 128 \<and>
     (me_kind e = Note \<longrightarrow> 0 < me_value e)"

lemma data_bytes_range: "1 \<le> data_bytes k \<and> data_bytes k \<le> 2"
  by (simp add: data_bytes_def)

lemma event_of_ok:
  assumes "length data = data_bytes (status AND 0xF0)" and "\<forall>d \<in> set data. d < 128"
    and "midi_event_of status data = Some e"
  shows "event_ok e"
proof -
  have first: "data ! 0 < 128" using assms(1,2) data_bytes_range [of "status AND 0xF0"] by (cases data) auto
  have second: "data ! 1 < 128" if "status AND 0xF0 \<noteq> 0xC0" "status AND 0xF0 \<noteq> 0xD0"
    using assms(1,2) that by (simp add: data_bytes_def)
  have "(status AND 0x0F) + 1 \<le> 16" by (simp add: nat_masks)
  then show ?thesis
    using assms(3) first second
    by (auto simp: midi_event_of_def event_ok_def Let_def split: if_splits)
qed

lemma midi_byte_ok:
  assumes "parser_inv p"
  shows "parser_inv (fst (midi_byte p b)) \<and> list_all event_ok (snd (midi_byte p b))"
proof (cases "unat b < 0x80 \<and> \<not> mp_in_sysex p \<and> mp_status p \<noteq> 0")
  case False
  then show ?thesis
    using assms data_bytes_range by (auto simp: midi_byte_def parser_inv_def Let_def not_less less_eq_Suc_le)
next
  case data_byte: True
  let ?data = "mp_data p @ [unat b]" and ?n = "data_bytes (mp_status p AND 0xF0)"
  have data: "\<forall>d \<in> set ?data. d < 128" "length ?data \<le> ?n" using assms data_byte by (auto simp: parser_inv_def)
  have step: "midi_byte p b = (if length ?data < ?n then (p\<lparr>mp_data := ?data\<rparr>, [])
      else (p\<lparr>mp_data := []\<rparr>, case midi_event_of (mp_status p) ?data of None \<Rightarrow> [] | Some e \<Rightarrow> [e]))"
    using data_byte by (simp add: midi_byte_def Let_def)
  show ?thesis
  proof (cases "length ?data < ?n")
    case True
    then show ?thesis using assms data step by (auto simp: parser_inv_def data_byte)
  next
    case False
    then have "length ?data = ?n" using data(2) by simp
    then have "\<forall>e. midi_event_of (mp_status p) ?data = Some e \<longrightarrow> event_ok e"
      using data(1) event_of_ok by blast
    moreover have "parser_inv (p\<lparr>mp_data := []\<rparr>)"
      using assms data_bytes_range [of "mp_status p AND 0xF0"] by (auto simp: parser_inv_def)
    ultimately show ?thesis using False step by (auto split: option.split)
  qed
qed

lemma midi_feed_ok:
  "parser_inv p \<Longrightarrow> parser_inv (fst (midi_feed p bs)) \<and> list_all event_ok (snd (midi_feed p bs))"
proof (induction bs arbitrary: p)
  case (Cons b bs)
  then show ?case using midi_byte_ok [OF Cons.prems, of b] by (auto simp: case_prod_beta Let_def)
qed simp

lemma new_parser_inv: "parser_inv new_parser"
  by (simp add: parser_inv_def new_parser_def data_bytes_def)

section \<open>What a device sends is what the bindings see\<close>

















text \<open>
  Whatever bytes a port delivers, every event names a channel from 1 to 16, a number and a value
  below 128, and a note has a velocity above 0; the parser never holds more data bytes than the message
  it is in the middle of still needs.
\<close>

theorem midi_events_in_range:
  "case feed_all (\<lambda>p x. Inr (midi_feed p x)) new_parser reads of
     Inl _ \<Rightarrow> False
   | Inr (p, es) \<Rightarrow> parser_inv p \<and> list_all event_ok es"
  using midi.feed_concat [of new_parser reads] midi_feed_ok [OF new_parser_inv, of "concat reads"]
  by (cases "midi_feed new_parser (concat reads)") simp

end
