(* ===== verification/PyNum.thy ===== *)
theory PyNum
  imports Complex_Main Prelude
begin

text \<open>Rounding as Python's \<open>round\<close> does it, on exact numbers.\<close>

definition py_round :: "rat \<Rightarrow> int" where
  "py_round x =
     (let f = floor x; d = x - of_int f
      in if d < 1 / 2 then f else if 1 / 2 < d then f + 1 else if even f then f else f + 1)"

lemma py_round_bounds:
  assumes "of_int a \<le> x" and "x \<le> of_int b"
  shows "a \<le> py_round x" and "py_round x \<le> b"
proof -
  have f: "a \<le> \<lfloor>x\<rfloor>" "\<lfloor>x\<rfloor> \<le> b" "of_int \<lfloor>x\<rfloor> \<le> x"
    using assms by (simp_all add: le_floor_iff) linarith
  then show "a \<le> py_round x" by (auto simp: py_round_def Let_def)
  have "\<lfloor>x\<rfloor> + 1 \<le> b" if "1 / 2 \<le> x - of_int \<lfloor>x\<rfloor>"
  proof -
    have "of_int \<lfloor>x\<rfloor> < x" using that by linarith
    then show ?thesis using assms(2) by (metis add1_zle_eq less_le_trans of_int_less_iff)
  qed
  then show "py_round x \<le> b" using f(2) by (auto simp: py_round_def Let_def not_less)
qed

lemma py_round_int [simp]: "py_round (of_int n) = n"
  by (simp add: py_round_def)

text \<open>\<open>round(x, 1)\<close>.\<close>

definition py_round1 :: "rat \<Rightarrow> rat" where
  "py_round1 x = of_int (py_round (x * 10)) / 10"

end
