(* ===== verification/Hotkeys.thy ===== *)
theory Hotkeys
  imports KeyCombo Midi PyNum
begin

text \<open>
  Bindings of \<open>hotkeys.py\<close>: validation of triggers, scales, bindings and lists of bindings, the saved
  and the exported document, and the \<open>Matcher\<close> that finds what a MIDI event fires.
\<close>

section \<open>Patterns of names\<close>

definition is_word :: "char \<Rightarrow> bool" where
  "is_word c \<longleftrightarrow> is_lower c \<or> is_digit c \<or> c = CHR ''_''"

text \<open>\<open>[a-z0-9][a-z0-9_-]{0,23}\<close>, \<open>[a-z][a-z0-9_]{0,31}\<close>, \<open>[a-z][a-z0-9_]*(\.[a-z][a-z0-9_]*)+\<close>.\<close>

definition binding_id :: "string \<Rightarrow> bool" where
  "binding_id s = (case s of [] \<Rightarrow> False
     | c # cs \<Rightarrow> (is_lower c \<or> is_digit c) \<and> list_all (\<lambda>x. is_word x \<or> x = CHR ''-'') cs \<and> length cs \<le> 23)"

definition param_name :: "string \<Rightarrow> bool" where
  "param_name s = (case s of [] \<Rightarrow> False | c # cs \<Rightarrow> is_lower c \<and> list_all is_word cs \<and> length cs \<le> 31)"

definition action_part :: "string \<Rightarrow> bool" where
  "action_part s = (case s of [] \<Rightarrow> False | c # cs \<Rightarrow> is_lower c \<and> list_all is_word cs)"

definition action_name :: "string \<Rightarrow> bool" where
  "action_name s \<longleftrightarrow> (let parts = split_on (CHR ''.'') s in 2 \<le> length parts \<and> list_all action_part parts)"

section \<open>Triggers\<close>

datatype trigger = KeyTrigger string | MidiTrigger midi_kind nat nat

definition midi_kind_of :: "json \<Rightarrow> midi_kind option" where
  "midi_kind_of t =
     (if t = JStr ''note'' then Some Note else if t = JStr ''cc'' then Some Cc
      else if t = JStr ''program'' then Some Program else None)"

definition kind_name :: "midi_kind \<Rightarrow> string" where
  "kind_name k = (case k of Note \<Rightarrow> ''note'' | Cc \<Rightarrow> ''cc'' | Program \<Rightarrow> ''program'')"

text \<open>An integer (not a boolean) from 0 to a limit.\<close>

definition small_int :: "json \<Rightarrow> nat \<Rightarrow> nat option" where
  "small_int v limit =
     (case v of JInt n \<Rightarrow> if 0 \<le> n \<and> n \<le> int limit then Some (nat n) else None | _ \<Rightarrow> None)"

definition clean_trigger :: "json \<Rightarrow> trigger result" where
  "clean_trigger raw =
     (case raw of
        JObj kvs \<Rightarrow>
          if jget kvs ''kind'' = JStr ''key'' then
            bindE (clean_combo (jget kvs ''combo'')) (\<lambda>c. Inr (KeyTrigger c))
          else if jget kvs ''kind'' = JStr ''midi'' then
            (case midi_kind_of (jget kvs ''type'') of
               None \<Rightarrow> Inl (HotkeyError ''A MIDI trigger is a note, cc or program.'')
             | Some k \<Rightarrow>
                 (case small_int (case map_of kvs ''channel'' of None \<Rightarrow> JInt 0 | Some v \<Rightarrow> v) 16 of
                    None \<Rightarrow> Inl (HotkeyError ''The MIDI channel is 1 to 16, or 0 for any channel.'')
                  | Some channel \<Rightarrow>
                      (case small_int (jget kvs ''number'') 127 of
                         None \<Rightarrow> Inl (HotkeyError ''The MIDI number is 0 to 127.'')
                       | Some number \<Rightarrow> Inr (MidiTrigger k channel number))))
          else Inl (HotkeyError ''A trigger is a key or a MIDI message.'')
      | _ \<Rightarrow> Inl (HotkeyError ''A trigger must be an object.''))"

definition trigger_json :: "trigger \<Rightarrow> json" where
  "trigger_json t =
     (case t of
        KeyTrigger c \<Rightarrow> JObj [(''kind'', JStr ''key''), (''combo'', JStr c)]
      | MidiTrigger k channel number \<Rightarrow>
          JObj [(''kind'', JStr ''midi''), (''type'', JStr (kind_name k)), (''channel'', JInt (int channel)),
                (''number'', JInt (int number))])"

definition trigger_key :: "trigger \<Rightarrow> string" where
  "trigger_key t =
     (case t of
        KeyTrigger c \<Rightarrow> ''key:'' @ c
      | MidiTrigger k channel number \<Rightarrow>
          ''midi:'' @ kind_name k @ '':'' @ decimal channel @ '':'' @ decimal number)"

definition trigger_text :: "trigger \<Rightarrow> string result" where
  "trigger_text t =
     (case t of
        KeyTrigger c \<Rightarrow> describe_combo c
      | MidiTrigger k channel number \<Rightarrow>
          Inr ((case k of Note \<Rightarrow> ''Note'' | Cc \<Rightarrow> ''CC'' | Program \<Rightarrow> ''Program'') @ '' '' @ decimal number @ '' ('' @
               (if channel = 0 then ''any channel'' else ''channel '' @ decimal channel) @ '')''))"

section \<open>Scales\<close>

text \<open>A number of a document: whole or not matters, because \<open>scaled\<close> asks.\<close>

datatype number = Whole int | Fraction rat string

definition num_value :: "number \<Rightarrow> rat" where
  "num_value n = (case n of Whole i \<Rightarrow> of_int i | Fraction r _ \<Rightarrow> r)"

definition num_json :: "number \<Rightarrow> json" where
  "num_json n = (case n of Whole i \<Rightarrow> JInt i | Fraction r s \<Rightarrow> JFloat r s)"

definition number_of :: "json \<Rightarrow> number option" where
  "number_of v =
     (let n = (case v of JInt i \<Rightarrow> Some (Whole i) | JFloat r s \<Rightarrow> Some (Fraction r s) | _ \<Rightarrow> None)
      in case n of None \<Rightarrow> None
         | Some x \<Rightarrow> if - 1000000 \<le> num_value x \<and> num_value x \<le> 1000000 then Some x else None)"

record scale =
  sc_param :: string
  sc_min :: number
  sc_max :: number

definition clean_scale :: "json \<Rightarrow> trigger \<Rightarrow> scale option result" where
  "clean_scale raw t =
     (if raw = JNull then Inr None
      else if \<not> (case t of MidiTrigger k _ _ \<Rightarrow> k = Cc | _ \<Rightarrow> False)
      then Inl (HotkeyError ''Only a MIDI control change (a fader or knob) can set a value.'')
      else case raw of
          JObj kvs \<Rightarrow>
            (case jget kvs ''param'' of
               JStr p \<Rightarrow>
                 if \<not> param_name p then Inl (HotkeyError ''scale.param must be the action's parameter name'')
                 else case number_of (jget kvs ''min'') of
                   None \<Rightarrow> Inl (HotkeyError ''scale.min must be a number.'')
                 | Some low \<Rightarrow>
                     (case number_of (jget kvs ''max'') of
                        None \<Rightarrow> Inl (HotkeyError ''scale.max must be a number.'')
                      | Some high \<Rightarrow>
                          if num_value low = num_value high
                          then Inl (HotkeyError ''scale.min and scale.max must differ.'')
                          else Inr (Some \<lparr>sc_param = p, sc_min = low, sc_max = high\<rparr>))
             | _ \<Rightarrow> Inl (HotkeyError ''scale.param must be the action's parameter name''))
        | _ \<Rightarrow> Inl (HotkeyError ''scale must be an object with param, min and max.''))"

definition scale_json :: "scale \<Rightarrow> json" where
  "scale_json s = JObj [(''param'', JStr (sc_param s)), (''min'', num_json (sc_min s)), (''max'', num_json (sc_max s))]"

section \<open>Bindings\<close>

record binding =
  bd_id :: string
  bd_trigger :: trigger
  bd_action :: string
  bd_params :: "(string \<times> json) list"
  bd_label :: "string option"
  bd_scale :: "scale option"

definition MAX_PARAMS_BYTES :: nat where "MAX_PARAMS_BYTES = 2048"
definition MAX_BINDINGS :: nat where "MAX_BINDINGS = 128"

definition clean_params :: "json \<Rightarrow> (string \<times> json) list result" where
  "clean_params raw =
     (case raw of
        JNull \<Rightarrow> Inr []
      | JObj kvs \<Rightarrow>
          if MAX_PARAMS_BYTES < length (dumps (JObj kvs)) then Inl (HotkeyError ''params are too large.'')
          else Inr kvs
      | _ \<Rightarrow> Inl (HotkeyError ''params must be an object.''))"

definition clean_label :: "json \<Rightarrow> string option result" where
  "clean_label raw =
     (case raw of
        JNull \<Rightarrow> Inr None
      | JStr l \<Rightarrow>
          if 60 < length l then Inl (HotkeyError ''The label is text of up to 60 characters.'')
          else Inr (if strip l = [] then None else Some (strip l))
      | _ \<Rightarrow> Inl (HotkeyError ''The label is text of up to 60 characters.''))"

definition clean_binding :: "json \<Rightarrow> binding result" where
  "clean_binding raw =
     (case raw of
        JObj kvs \<Rightarrow>
          (case jget kvs ''id'' of
             JStr ident \<Rightarrow>
               if \<not> binding_id ident
               then Inl (HotkeyError ''A binding needs an id of lower-case letters, digits, - and _.'')
               else bindE (clean_trigger (jget kvs ''trigger'')) (\<lambda>t.
                 case jget kvs ''action'' of
                   JStr action \<Rightarrow>
                     if \<not> action_name action \<or> 40 < length action
                     then Inl (HotkeyError ''The action must look like video.scene'')
                     else bindE (clean_params (jget kvs ''params'')) (\<lambda>params.
                          bindE (clean_label (jget kvs ''label'')) (\<lambda>label.
                          bindE (clean_scale (jget kvs ''scale'') t) (\<lambda>scale.
                            Inr \<lparr>bd_id = ident, bd_trigger = t, bd_action = action, bd_params = params,
                                 bd_label = label, bd_scale = scale\<rparr>)))
                 | _ \<Rightarrow> Inl (HotkeyError ''The action must look like video.scene''))
           | _ \<Rightarrow> Inl (HotkeyError ''A binding needs an id of lower-case letters, digits, - and _.''))
      | _ \<Rightarrow> Inl (HotkeyError ''A binding must be an object.''))"

definition binding_json :: "binding \<Rightarrow> json" where
  "binding_json b = JObj
     ([(''id'', JStr (bd_id b)), (''trigger'', trigger_json (bd_trigger b)), (''action'', JStr (bd_action b)),
       (''params'', JObj (bd_params b))] @
      (case bd_label b of None \<Rightarrow> [] | Some l \<Rightarrow> [(''label'', JStr l)]) @
      (case bd_scale b of None \<Rightarrow> [] | Some s \<Rightarrow> [(''scale'', scale_json s)]))"

text \<open>The loop of \<open>clean_bindings\<close>, over the ids and inputs seen so far.\<close>

fun clean_items :: "json list \<Rightarrow> string list \<Rightarrow> string list \<Rightarrow> binding list result" where
  "clean_items [] ids inputs = Inr []"
| "clean_items (item # items) ids inputs =
     bindE (clean_binding item) (\<lambda>b.
       if bd_id b \<in> set ids then Inl (HotkeyError ''Two bindings share the id'')
       else if trigger_key (bd_trigger b) \<in> set inputs then
         bindE (trigger_text (bd_trigger b)) (\<lambda>_. Inl (HotkeyError ''this input is already used''))
       else bindE (clean_items items (bd_id b # ids) (trigger_key (bd_trigger b) # inputs)) (\<lambda>bs. Inr (b # bs)))"

definition clean_bindings :: "json \<Rightarrow> binding list result" where
  "clean_bindings raw =
     (case raw of
        JList items \<Rightarrow>
          if MAX_BINDINGS < length items then Inl (HotkeyError ''At most 128 bindings.'')
          else clean_items items [] []
      | _ \<Rightarrow> Inl (HotkeyError ''bindings must be a list.''))"

section \<open>Documents\<close>

text \<open>\<open>Store.load\<close> on the object it read (\<open>{}\<close> for a missing or damaged file): a bad binding drops only itself.\<close>

fun load_items :: "json list \<Rightarrow> string list \<Rightarrow> string list \<Rightarrow> binding list" where
  "load_items [] ids inputs = []"
| "load_items (item # items) ids inputs =
     (case clean_binding item of
        Inl _ \<Rightarrow> load_items items ids inputs
      | Inr b \<Rightarrow>
          if bd_id b \<in> set ids \<or> trigger_key (bd_trigger b) \<in> set inputs then load_items items ids inputs
          else b # load_items items (bd_id b # ids) (trigger_key (bd_trigger b) # inputs))"

definition load_document :: "(string \<times> json) list \<Rightarrow> bool \<times> binding list" where
  "load_document raw =
     (jget raw ''enabled'' \<noteq> JBool False,
      take MAX_BINDINGS (load_items (case jget raw ''bindings'' of JList items \<Rightarrow> items | _ \<Rightarrow> []) [] []))"

definition save_document :: "bool \<Rightarrow> json \<Rightarrow> (string \<times> json) list result" where
  "save_document enabled bindings =
     bindE (clean_bindings bindings) (\<lambda>bs.
       Inr [(''version'', JInt 1), (''enabled'', JBool enabled), (''bindings'', JList (map binding_json bs))])"

definition DOCUMENT :: string where
  "DOCUMENT = ''streamstack.hotkeys/1''"

definition export_document :: "bool \<Rightarrow> binding list \<Rightarrow> json" where
  "export_document enabled bs =
     JObj [(''document'', JStr DOCUMENT), (''enabled'', JBool enabled), (''bindings'', JList (map binding_json bs))]"

definition import_document :: "json \<Rightarrow> (bool \<times> binding list) result" where
  "import_document raw =
     (case raw of
        JList _ \<Rightarrow> bindE (clean_bindings raw) (\<lambda>bs. Inr (True, bs))
      | JObj kvs \<Rightarrow>
          if jget kvs ''document'' \<noteq> JStr DOCUMENT
          then Inl (HotkeyError ''That is not a StreamStack hotkeys file'')
          else bindE (clean_bindings (jget kvs ''bindings'')) (\<lambda>bs. Inr (jget kvs ''enabled'' \<noteq> JBool False, bs))
      | _ \<Rightarrow> Inl (HotkeyError ''That is not a StreamStack hotkeys file''))"

section \<open>Matching\<close>

datatype reading = WholeReading int | FractionReading rat

definition scaled :: "scale \<Rightarrow> int \<Rightarrow> reading" where
  "scaled s v =
     (let low = num_value (sc_min s); high = num_value (sc_max s);
          r = low + (high - low) * (of_int (max 0 (min 127 v)) / 127)
      in case (sc_min s, sc_max s) of
           (Whole _, Whole _) \<Rightarrow> WholeReading (py_round r)
         | _ \<Rightarrow> FractionReading (of_int (py_round (r * 1000)) / 1000))"

type_synonym matcher = "nat \<times> nat \<rightharpoonup> nat"

definition CC_THRESHOLD :: nat where "CC_THRESHOLD = 64"

text \<open>The entry of \<open>fire\<close>'s result for one binding, if any: the extra parameters.\<close>

definition fires :: "nat \<Rightarrow> midi_event \<Rightarrow> binding \<Rightarrow> (string \<times> reading) option option" where
  "fires previous e b =
     (case bd_trigger b of
        KeyTrigger _ \<Rightarrow> None
      | MidiTrigger k channel number \<Rightarrow>
          if k \<noteq> me_kind e \<or> number \<noteq> me_number e then None
          else if channel \<notin> {0, me_channel e} then None
          else case bd_scale b of
              Some s \<Rightarrow> Some (Some (sc_param s, scaled s (int (me_value e))))
            | None \<Rightarrow>
                if me_kind e = Cc then
                  (if previous < CC_THRESHOLD \<and> CC_THRESHOLD \<le> me_value e then Some None else None)
                else Some None)"

definition fire :: "matcher \<Rightarrow> binding list \<Rightarrow> midi_event \<Rightarrow> matcher \<times> (binding \<times> (string \<times> reading) option) list" where
  "fire m bs e =
     (let key = (me_channel e, me_number e);
          previous = (if me_kind e = Cc then (case m key of None \<Rightarrow> 0 | Some v \<Rightarrow> v) else 0);
          m' = (if me_kind e = Cc then m(key \<mapsto> me_value e) else m)
      in (m', List.map_filter (\<lambda>b. map_option (\<lambda>x. (b, x)) (fires previous e b)) bs))"

section \<open>New ids\<close>

function new_id_from :: "nat \<Rightarrow> string list \<Rightarrow> string" where
  "new_id_from n existing =
     (if ''b'' @ decimal n \<in> set existing then new_id_from (n + 1) existing else ''b'' @ decimal n)"
  by pat_completeness auto
termination
proof (relation "measure (\<lambda>(n, existing). card {m. n \<le> m \<and> ''b'' @ decimal m \<in> set existing})")
  fix n and existing :: "string list"
  assume "''b'' @ decimal n \<in> set existing"
  moreover have "inj (\<lambda>m. ''b'' @ decimal m)" using decimal_inj by (intro injI) simp
  ultimately show "((n + 1, existing), n, existing) \<in>
      measure (\<lambda>(n, existing). card {m. n \<le> m \<and> ''b'' @ decimal m \<in> set existing})"
    using untried_fewer [of "\<lambda>m. ''b'' @ decimal m" n existing] by simp
qed simp

declare new_id_from.simps [simp del]

definition new_id :: "string list \<Rightarrow> string" where
  "new_id existing = new_id_from 1 existing"

section \<open>What is accepted once is accepted again\<close>

lemma clean_trigger_again:
  assumes "clean_trigger raw = Inr t"
  shows "clean_trigger (trigger_json t) = Inr t"
proof (cases t)
  case (KeyTrigger c)
  then obtain v where "clean_combo v = Inr c"
    using assms by (auto simp: clean_trigger_def split: json.splits if_splits option.splits)
  then show ?thesis
    using clean_combo_again KeyTrigger by (simp add: clean_trigger_def trigger_json_def jget_def)
next
  case (MidiTrigger k channel number)
  then have "channel \<le> 16" "number \<le> 127"
    using assms by (auto simp: clean_trigger_def small_int_def split: json.splits if_splits option.splits)
  moreover have "midi_kind_of (JStr (kind_name k)) = Some k"
    by (cases k) (simp_all add: midi_kind_of_def kind_name_def)
  ultimately show ?thesis
    using MidiTrigger by (simp add: clean_trigger_def trigger_json_def jget_def small_int_def)
qed

lemma number_of_again: "number_of v = Some x \<Longrightarrow> number_of (num_json x) = Some x"
  by (auto simp: number_of_def num_json_def num_value_def Let_def split: json.splits if_splits)

lemma clean_scale_again:
  assumes "clean_scale raw t = Inr (Some s)"
  shows "clean_scale (scale_json s) t = Inr (Some s)"
  using assms number_of_again
  by (auto simp: clean_scale_def scale_json_def jget_def
      split: if_splits json.splits option.splits trigger.splits)

lemma clean_label_again: "clean_label raw = Inr (Some l) \<Longrightarrow> clean_label (JStr l) = Inr (Some l)"
proof -
  assume "clean_label raw = Inr (Some l)"
  then obtain r where r: "length r \<le> 60" "strip r \<noteq> []" "l = strip r"
    by (cases raw) (auto simp: clean_label_def not_less split: if_splits)
  then have "length l \<le> 60" using length_strip [of r] by simp
  with r show ?thesis by (simp add: clean_label_def)
qed

lemma clean_binding_again:
  assumes "clean_binding raw = Inr b"
  shows "clean_binding (binding_json b) = Inr b"
proof -
  obtain kvs ident where raw: "raw = JObj kvs" "jget kvs ''id'' = JStr ident"
    using assms by (auto simp: clean_binding_def split: json.splits)
  obtain action where act: "jget kvs ''action'' = JStr action"
    using assms raw by (cases "jget kvs ''action''") (auto simp: clean_binding_def split: if_splits)
  obtain t params label scale where
    parts: "binding_id ident" "clean_trigger (jget kvs ''trigger'') = Inr t"
      "action_name action" "length action \<le> 40"
      "clean_params (jget kvs ''params'') = Inr params" "clean_label (jget kvs ''label'') = Inr label"
      "clean_scale (jget kvs ''scale'') t = Inr scale"
    and b: "b = \<lparr>bd_id = ident, bd_trigger = t, bd_action = action, bd_params = params,
                  bd_label = label, bd_scale = scale\<rparr>"
    using assms raw act by (auto simp: clean_binding_def split: if_splits)
  have params: "clean_params (JObj params) = Inr params"
    using parts(5) by (auto simp: clean_params_def MAX_PARAMS_BYTES_def split: json.splits if_splits)
  have label: "clean_label (jget (case label of None \<Rightarrow> [] | Some l \<Rightarrow> [(''label'', JStr l)]) ''label'') = Inr label"
    using parts(6) clean_label_again
    by (cases label) (simp_all add: jget_def, simp add: clean_label_def)
  have scale: "clean_scale (case scale of None \<Rightarrow> JNull | Some s \<Rightarrow> scale_json s) t = Inr scale"
    using parts(7) clean_scale_again by (cases scale) (simp_all, simp add: clean_scale_def)
  show ?thesis
    using parts params label scale clean_trigger_again [OF parts(2)]
    by (cases label; cases scale)
       (simp_all add: clean_binding_def binding_json_def b jget_def)
qed

lemma clean_items_accepts:
  assumes "list_all (\<lambda>b. clean_binding (f b) = Inr b) bs"
    and "distinct (rev ids @ map bd_id bs)"
    and "distinct (rev inputs @ map (trigger_key \<circ> bd_trigger) bs)"
  shows "clean_items (map f bs) ids inputs = Inr bs"
  using assms
proof (induction bs arbitrary: ids inputs)
  case (Cons b bs)
  from Cons.prems have "clean_items (map f bs) (bd_id b # ids) (trigger_key (bd_trigger b) # inputs) = Inr bs"
    by (intro Cons.IH) simp_all
  with Cons.prems show ?case by simp
qed simp

lemma clean_items_distinct:
  "clean_items items ids inputs = Inr bs \<Longrightarrow> distinct ids \<Longrightarrow> distinct inputs \<Longrightarrow>
    distinct (rev ids @ map bd_id bs) \<and> distinct (rev inputs @ map (trigger_key \<circ> bd_trigger) bs) \<and>
    list_all (\<lambda>b. clean_binding (binding_json b) = Inr b) bs \<and> length bs = length items"
proof (induction items ids inputs arbitrary: bs rule: clean_items.induct)
  case (2 item items ids inputs)
  then obtain b rest where b: "clean_binding item = Inr b" "bd_id b \<notin> set ids"
    "trigger_key (bd_trigger b) \<notin> set inputs" "bs = b # rest"
    "clean_items items (bd_id b # ids) (trigger_key (bd_trigger b) # inputs) = Inr rest"
    by (auto split: if_splits)
  have "distinct (rev (bd_id b # ids) @ map bd_id rest) \<and>
      distinct (rev (trigger_key (bd_trigger b) # inputs) @ map (trigger_key \<circ> bd_trigger) rest) \<and>
      list_all (\<lambda>b. clean_binding (binding_json b) = Inr b) rest \<and> length rest = length items"
    using "2.IH" [OF b(1-3) b(5)] b "2.prems"(2,3) by (simp add: comp_def)
  then show ?case using b clean_binding_again [OF b(1)] by (simp add: comp_def)
qed simp

lemma clean_bindings_ok:
  assumes "clean_bindings raw = Inr bs"
  shows "distinct (map bd_id bs)" and "distinct (map (trigger_key \<circ> bd_trigger) bs)"
    and "list_all (\<lambda>b. clean_binding (binding_json b) = Inr b) bs" and "length bs \<le> MAX_BINDINGS"
proof -
  obtain items where items: "raw = JList items" "length items \<le> MAX_BINDINGS" "clean_items items [] [] = Inr bs"
    using assms by (cases raw) (auto simp: clean_bindings_def split: if_splits)
  show "distinct (map bd_id bs)" "distinct (map (trigger_key \<circ> bd_trigger) bs)"
    "list_all (\<lambda>b. clean_binding (binding_json b) = Inr b) bs" "length bs \<le> MAX_BINDINGS"
    using clean_items_distinct [OF items(3)] items(2) by simp_all
qed

lemma clean_bindings_again:
  assumes "clean_bindings raw = Inr bs"
  shows "clean_bindings (JList (map binding_json bs)) = Inr bs"
  using clean_bindings_ok [OF assms] by (simp add: clean_bindings_def clean_items_accepts)

lemma load_items_accepts:
  assumes "list_all (\<lambda>b. clean_binding (f b) = Inr b) bs"
    and "distinct (rev ids @ map bd_id bs)"
    and "distinct (rev inputs @ map (trigger_key \<circ> bd_trigger) bs)"
  shows "load_items (map f bs) ids inputs = bs"
  using assms
proof (induction bs arbitrary: ids inputs)
  case (Cons b bs)
  from Cons.prems have "load_items (map f bs) (bd_id b # ids) (trigger_key (bd_trigger b) # inputs) = bs"
    by (intro Cons.IH) simp_all
  with Cons.prems show ?case by simp
qed simp

text \<open>
  Saving and exporting lose nothing: bindings the Console accepted come back the same, with the
  switch, from the saved file and from an exported document, and at most 128 of them with distinct ids
  and distinct inputs are ever accepted.
\<close>

theorem bindings_survive_documents:
  assumes "clean_bindings raw = Inr bs"
  shows "(\<exists>file. save_document enabled (JList (map binding_json bs)) = Inr file \<and>
      load_document file = (enabled, bs)) \<and>
    import_document (export_document enabled bs) = Inr (enabled, bs) \<and>
    length bs \<le> 128 \<and> distinct (map bd_id bs) \<and> distinct (map (trigger_key \<circ> bd_trigger) bs)"
proof -
  note ok = clean_bindings_ok [OF assms]
  have "load_items (map binding_json bs) [] [] = bs"
    using ok by (intro load_items_accepts) simp_all
  then show ?thesis
    using ok clean_bindings_again [OF assms]
    by (simp add: save_document_def load_document_def export_document_def import_document_def jget_def
        MAX_BINDINGS_def)
qed

definition fader_json :: json where
  "fader_json = JObj [(''id'', JStr ''k2''),
     (''trigger'', JObj [(''kind'', JStr ''midi''), (''type'', JStr ''cc''), (''channel'', JInt 1), (''number'', JInt 7)]),
     (''action'', JStr ''audio.level''), (''scale'', JObj [(''param'', JStr ''level''), (''min'', JInt 0), (''max'', JInt 100)])]"

definition fader :: binding where
  "fader = \<lparr>bd_id = ''k2'', bd_trigger = MidiTrigger Cc 1 7, bd_action = ''audio.level'', bd_params = [],
     bd_label = None, bd_scale = Some \<lparr>sc_param = ''level'', sc_min = Whole 0, sc_max = Whole 100\<rparr>\<rparr>"

lemma clean_fader: "clean_bindings (JList [fader_json]) = Inr [fader]"
proof -
  have letters: "list_all (\<lambda>c. is_lower c) ''kaudiolevel''" "is_digit CHR ''2''"
    by (simp_all add: is_lower_def is_digit_def code_def)
  then show ?thesis
    by (simp add: clean_bindings_def MAX_BINDINGS_def fader_json_def fader_def clean_binding_def jget_def
        binding_id_def action_name_def action_part_def param_name_def is_word_def clean_trigger_def
        midi_kind_of_def small_int_def clean_params_def clean_label_def clean_scale_def number_of_def
        num_value_def Let_def)
qed

lemma bindings_survive_documents_witness:
  "import_document (export_document False [fader]) = Inr (False, [fader])"
  using bindings_survive_documents [OF clean_fader, of False] by blast

end
