(* ===== verification/HotkeyMatch.thy ===== *)
theory HotkeyMatch
  imports Hotkeys
begin

text \<open>
  What the \<open>Matcher\<close> of \<open>hotkeys.py\<close> fires over a run of events, the values a fader sends, and the
  inputs two bindings can share although the list was accepted.
\<close>

section \<open>Runs of the matcher\<close>

fun fire_all :: "matcher \<Rightarrow> binding list \<Rightarrow> midi_event list \<Rightarrow> matcher" where
  "fire_all m bs [] = m"
| "fire_all m bs (e # es) = fire_all (fst (fire m bs e)) bs es"

text \<open>The value a controller was last at, 0 before it moved.\<close>

definition last_value :: "midi_event list \<Rightarrow> nat \<Rightarrow> nat \<Rightarrow> nat" where
  "last_value es channel number =
     (case filter (\<lambda>e. me_kind e = Cc \<and> me_channel e = channel \<and> me_number e = number) (rev es) of
        [] \<Rightarrow> 0 | e # _ \<Rightarrow> me_value e)"

lemma fire_all_snoc: "fire_all m bs (es @ [e]) = fst (fire (fire_all m bs es) bs e)"
  by (induction es arbitrary: m) simp_all

lemma fire_all_last:
  "(case fire_all Map.empty bs es (c, n) of None \<Rightarrow> 0 | Some v \<Rightarrow> v) = last_value es c n"
proof (induction es rule: rev_induct)
  case (snoc e es)
  then show ?case
    by (cases "me_kind e = Cc"; cases "(me_channel e, me_number e) = (c, n)")
       (auto simp: fire_all_snoc fire_def last_value_def Let_def)
qed (simp add: last_value_def)

text \<open>The events a trigger answers.\<close>

definition answers :: "binding \<Rightarrow> midi_event \<Rightarrow> bool" where
  "answers b e =
     (case bd_trigger b of
        KeyTrigger _ \<Rightarrow> False
      | MidiTrigger k channel number \<Rightarrow>
          k = me_kind e \<and> number = me_number e \<and> (channel = 0 \<or> channel = me_channel e))"

lemma fires_iff:
  "fires previous e b \<noteq> None \<longleftrightarrow>
    answers b e \<and> (bd_scale b = None \<and> me_kind e = Cc \<longrightarrow> previous < 64 \<and> 64 \<le> me_value e)"
  by (auto simp: fires_def answers_def CC_THRESHOLD_def split: trigger.splits option.splits)

text \<open>
  C40. A binding fires exactly when it should, whatever came before: after any events, an event fires the
  bindings (in their order) whose trigger names its kind, its number and its channel or any channel, and
  of those a button on a controller (no scale) only when this very controller crosses 64 upward from the
  value it was last at, so holding, wiggling above 64 or coming back down never fires it twice.
\<close>

theorem matcher_fires_exactly:
  "map fst (snd (fire (fire_all Map.empty bs es) bs e)) =
    filter (\<lambda>b. answers b e \<and>
      \<not> (bd_scale b = None \<and> me_kind e = Cc \<and>
         \<not> (last_value es (me_channel e) (me_number e) < 64 \<and> 64 \<le> me_value e))) bs"
proof -
  define previous where "previous = (if me_kind e = Cc then last_value es (me_channel e) (me_number e) else 0)"
  have out: "snd (fire (fire_all Map.empty bs es) bs e) =
      List.map_filter (\<lambda>b. map_option (\<lambda>x. (b, x)) (fires previous e b)) bs"
    using fire_all_last [of bs es "me_channel e" "me_number e"]
    by (simp add: fire_def previous_def Let_def)
  have "map fst (List.map_filter (\<lambda>b. map_option (\<lambda>x. (b, x)) (fires previous e b)) xs) =
      filter (\<lambda>b. fires previous e b \<noteq> None) xs" for xs
    by (induction xs) (auto simp: List.map_filter_def split: option.splits)
  then show ?thesis
    unfolding out fires_iff by (auto simp: previous_def intro!: filter_cong)
qed

section \<open>Faders\<close>

text \<open>
  A fader with whole limits stays inside them: its bottom (0 or less) sends exactly the first limit,
  its top (127 or more) exactly the second, and every reading between sends a whole number between the
  two, also when the fader is turned around (the first limit the larger one).
\<close>

theorem scaled_within_limits:
  assumes "sc_min s = Whole low" and "sc_max s = Whole high"
  shows "(\<exists>n. scaled s v = WholeReading n \<and> min low high \<le> n \<and> n \<le> max low high) \<and>
    (v \<le> 0 \<longrightarrow> scaled s v = WholeReading low) \<and> (127 \<le> v \<longrightarrow> scaled s v = WholeReading high)"
proof -
  define t :: rat where "t = of_int (max 0 (min 127 v)) / 127"
  define r where "r = of_int low + (of_int high - of_int low) * t"
  have scaled: "scaled s v = WholeReading (py_round r)"
    using assms by (simp add: scaled_def num_value_def Let_def r_def t_def)
  have t: "0 \<le> t" "t \<le> 1" by (simp_all add: t_def)
  define d :: rat where "d = of_int high - of_int low"
  have "of_int (min low high) \<le> r \<and> r \<le> of_int (max low high)"
  proof (cases "low \<le> high")
    case True
    then have "0 \<le> d" by (simp add: d_def)
    then have "0 \<le> d * t" "d * t \<le> d" using t mult_left_mono [of t 1 d] by simp_all
    then show ?thesis using True unfolding r_def d_def by (simp add: min_def max_def)
  next
    case False
    then have "d \<le> 0" by (simp add: d_def)
    then have "d * t \<le> 0" "d \<le> d * t"
      using t mult_left_mono_neg [of t 1 d] by (simp_all add: mult_nonpos_nonneg)
    then have "r \<le> of_int low" "of_int high \<le> r" unfolding r_def d_def by linarith+
    then show ?thesis using False by (simp add: min_def max_def)
  qed
  then have "min low high \<le> py_round r" "py_round r \<le> max low high" by (auto intro: py_round_bounds)
  moreover have "r = of_int low" if "v \<le> 0" using that by (simp add: r_def t_def)
  moreover have "r = of_int high" if "127 \<le> v" using that by (simp add: r_def t_def)
  ultimately show ?thesis using scaled by auto
qed

lemma scaled_within_limits_witness:
  "scaled \<lparr>sc_param = ''level'', sc_min = Whole 100, sc_max = Whole 20\<rparr> 127 = WholeReading 20"
  using scaled_within_limits [of "\<lparr>sc_param = ''level'', sc_min = Whole 100, sc_max = Whole 20\<rparr>" 100 20 127] by simp

section \<open>Inputs two accepted bindings share\<close>

definition note_binding :: "string \<Rightarrow> nat \<Rightarrow> binding" where
  "note_binding ident channel = \<lparr>bd_id = ident, bd_trigger = MidiTrigger Note channel 60, bd_action = ''video.scene'',
     bd_params = [], bd_label = None, bd_scale = None\<rparr>"

text \<open>
  A list of bindings is accepted although two of them answer the same input: a note on any channel
  and the same note on one channel have different \<open>trigger_key\<close>s, both are kept, and one note-on fires
  both, so the key is not equal for every two triggers that fire on the same input, and it is not true
  that the second could never fire.
\<close>

theorem overlapping_triggers_accepted:
  "\<exists>a b e. clean_bindings (JList [binding_json a, binding_json b]) = Inr [a, b] \<and> event_ok e \<and>
    trigger_key (bd_trigger a) \<noteq> trigger_key (bd_trigger b) \<and>
    snd (fire Map.empty [a, b] e) = [(a, None), (b, None)]"
proof -
  let ?a = "note_binding ''a'' 0" and ?b = "note_binding ''b'' 1"
  let ?e = "\<lparr>me_kind = Note, me_channel = 1, me_number = 60, me_value = 100\<rparr>"
  have letters: "list_all is_lower ''abvideoscene''"
    by (simp add: is_lower_def code_def)
  have again: "clean_binding (binding_json (note_binding i c)) = Inr (note_binding i c)"
    if "i \<in> {''a'', ''b''}" "c \<le> 16" for i c
    using letters that
    by (auto simp: note_binding_def binding_json_def trigger_json_def kind_name_def clean_binding_def jget_def
        binding_id_def action_name_def action_part_def is_word_def clean_trigger_def midi_kind_of_def
        small_int_def clean_params_def MAX_PARAMS_BYTES_def clean_label_def clean_scale_def Let_def)
  have keys: "trigger_key (bd_trigger ?a) \<noteq> trigger_key (bd_trigger ?b)"
    using decimal_inj [of 0 1] by (auto simp: note_binding_def trigger_key_def)
  have "bd_id ?a \<noteq> bd_id ?b" by (simp add: note_binding_def)
  with keys have "clean_bindings (JList [binding_json ?a, binding_json ?b]) = Inr [?a, ?b]"
    by (simp add: clean_bindings_def MAX_BINDINGS_def again)
  moreover have "snd (fire Map.empty [?a, ?b] ?e) = [(?a, None), (?b, None)]"
    by (simp add: fire_def fires_def note_binding_def List.map_filter_def Let_def)
  moreover have "event_ok ?e" by (simp add: event_ok_def)
  ultimately show ?thesis using keys by blast
qed

section \<open>New ids\<close>

text \<open>
  A new binding gets an id that no binding has: the search for the first free one always ends.
\<close>

theorem new_id_fresh: "new_id existing \<notin> set existing"
proof -
  have "new_id_from n existing \<notin> set existing" for n
    by (induction n existing rule: new_id_from.induct) (simp add: new_id_from.simps)
  then show ?thesis by (simp add: new_id_def)
qed

end
