(* ===== verification/TrackSwitch.thy ===== *)
theory TrackSwitch
  imports PyNum MkvReader
begin

text \<open>
  \<open>TrackSwitch\<close> of \<open>stream/relay.py\<close>: the cut-over from one encoder generation to the next at a
  keyframe. Its callbacks are a list of effects, in the order the code calls them; times are exact
  rationals, block timestamps integers.
\<close>

section \<open>State\<close>

record swap_result =
  sr_ok :: bool
  sr_reason :: string
  sr_cut_ms :: "int option"
  sr_held_ms :: int
  sr_gap_ms :: int

record track_switch =
  tw_frame_ms :: rat
  tw_active :: "nat option"
  tw_pending :: "nat option"
  tw_cut_ms :: "int option"
  tw_last_ts :: "int option"
  tw_started :: bool
  tw_held :: "block list"
  tw_staged :: "block list"
  tw_swap_started :: rat
  tw_synced_at :: "rat option"
  tw_active_head :: "int option"
  tw_last_swap :: "swap_result option"
  tw_swaps :: nat

datatype switch_effect = Emit block | Retire nat

definition SWITCH_TIMEOUT_MS :: rat where "SWITCH_TIMEOUT_MS = 4000"
definition HOLD_LIMIT_MS :: int where "HOLD_LIMIT_MS = 1500"

definition new_switch :: "rat \<Rightarrow> track_switch" where
  "new_switch frame_ms = \<lparr>tw_frame_ms = frame_ms, tw_active = None, tw_pending = None, tw_cut_ms = None,
     tw_last_ts = None, tw_started = False, tw_held = [], tw_staged = [], tw_swap_started = 0,
     tw_synced_at = None, tw_active_head = None, tw_last_swap = None, tw_swaps = 0\<rparr>"

section \<open>Output\<close>

definition forward :: "track_switch \<Rightarrow> block \<Rightarrow> track_switch \<times> switch_effect list" where
  "forward s b =
     (if \<not> tw_started s \<and> \<not> bl_keyframe b then (s, [])
      else let s1 = s\<lparr>tw_started := True\<rparr>
           in if (case tw_last_ts s1 of None \<Rightarrow> False | Some t \<Rightarrow> bl_ts_ms b < t) then (s1, [])
              else (s1\<lparr>tw_last_ts := Some (bl_ts_ms b)\<rparr>, [Emit b]))"

fun forward_all :: "track_switch \<Rightarrow> block list \<Rightarrow> track_switch \<times> switch_effect list" where
  "forward_all s [] = (s, [])"
| "forward_all s (b # bs) =
     (let (s1, e1) = forward s b; (s2, e2) = forward_all s1 bs in (s2, e1 @ e2))"

section \<open>Control\<close>

definition activate :: "track_switch \<Rightarrow> nat \<Rightarrow> track_switch" where
  "activate s gen = s\<lparr>tw_active := Some gen, tw_started := False, tw_active_head := None\<rparr>"

definition begin_swap :: "track_switch \<Rightarrow> nat \<Rightarrow> int \<Rightarrow> rat \<Rightarrow> track_switch result" where
  "begin_swap s gen cut_ms now =
     (if tw_active s = None then Inr (activate s gen)
      else if tw_pending s \<noteq> None then Inl (RuntimeError ''a swap is already in progress'')
      else Inr (s\<lparr>tw_pending := Some gen, tw_cut_ms := Some cut_ms, tw_held := [], tw_staged := [],
                  tw_synced_at := None, tw_swap_started := now\<rparr>))"

text \<open>\<open>held[-1].ts_ms - held[0].ts_ms if held else 0\<close>.\<close>

definition held_span :: "block list \<Rightarrow> int" where
  "held_span held = (if held = [] then 0 else bl_ts_ms (last held) - bl_ts_ms (hd held))"

definition abort_swap :: "track_switch \<Rightarrow> string \<Rightarrow> track_switch \<times> switch_effect list" where
  "abort_swap s reason =
     (case tw_pending s of
        None \<Rightarrow> (s, [])
      | Some gen \<Rightarrow>
          let held = tw_held s;
              s1 = s\<lparr>tw_pending := None, tw_cut_ms := None, tw_synced_at := None, tw_held := [], tw_staged := []\<rparr>;
              (s2, es) = forward_all s1 held
          in (s2\<lparr>tw_last_swap := Some \<lparr>sr_ok = False, sr_reason = reason, sr_cut_ms = None,
                                       sr_held_ms = held_span held, sr_gap_ms = 0\<rparr>\<rparr>,
              es @ [Retire gen]))"

text \<open>\<open>self.last_ts or keyframe.ts_ms\<close>: a last timestamp of 0 reads as none.\<close>

definition last_or :: "int option \<Rightarrow> int \<Rightarrow> int" where
  "last_or t d = (case t of None \<Rightarrow> d | Some x \<Rightarrow> if x = 0 then d else x)"

definition finish :: "track_switch \<Rightarrow> block \<Rightarrow> track_switch \<times> switch_effect list" where
  "finish s keyframe =
     (let old = tw_active s; held = tw_held s;
          before = filter (\<lambda>b. of_int (bl_ts_ms b) < of_int (bl_ts_ms keyframe) - tw_frame_ms s / 2) held;
          gap = bl_ts_ms keyframe -
                (if before = [] then last_or (tw_last_ts s) (bl_ts_ms keyframe) else bl_ts_ms (last before));
          (s1, es1) = forward_all s before;
          staged = tw_staged s1; cut = tw_cut_ms s1;
          s2 = s1\<lparr>tw_active := tw_pending s1, tw_pending := None, tw_cut_ms := None, tw_held := [],
                  tw_staged := [], tw_synced_at := None, tw_active_head := Some (bl_ts_ms (last staged)),
                  tw_started := True\<rparr>;
          (s3, es2) = forward_all s2 staged
      in (s3\<lparr>tw_swaps := tw_swaps s3 + 1,
             tw_last_swap := Some \<lparr>sr_ok = True, sr_reason = ''cut at a keyframe'', sr_cut_ms = cut,
               sr_held_ms = held_span held, sr_gap_ms = max 0 (py_round (of_int gap - tw_frame_ms s))\<rparr>\<rparr>,
          es1 @ es2 @ (case old of None \<Rightarrow> [] | Some g \<Rightarrow> [Retire g])))"

definition maybe_finish :: "track_switch \<Rightarrow> track_switch \<times> switch_effect list" where
  "maybe_finish s =
     (if tw_pending s = None \<or> tw_staged s = [] then (s, [])
      else let keyframe = hd (tw_staged s)
           in if tw_active s \<noteq> None \<and>
                 (case tw_active_head s of None \<Rightarrow> False
                  | Some h \<Rightarrow> of_int h < of_int (bl_ts_ms keyframe) - tw_frame_ms s)
              then (s, []) else finish s keyframe)"

section \<open>Input\<close>

definition on_pending :: "track_switch \<Rightarrow> block \<Rightarrow> rat \<Rightarrow> track_switch \<times> switch_effect list" where
  "on_pending s b now =
     (if tw_staged s \<noteq> [] then maybe_finish (s\<lparr>tw_staged := tw_staged s @ [b]\<rparr>)
      else let cut = (case tw_cut_ms s of None \<Rightarrow> 0 | Some c \<Rightarrow> c)
           in if bl_keyframe b \<and> cut \<le> bl_ts_ms b \<and>
                 (case tw_last_ts s of None \<Rightarrow> True | Some t \<Rightarrow> t < bl_ts_ms b)
              then maybe_finish (s\<lparr>tw_staged := [b], tw_synced_at := Some now\<rparr>) else (s, []))"

definition on_block :: "track_switch \<Rightarrow> nat \<Rightarrow> block \<Rightarrow> rat \<Rightarrow> track_switch \<times> switch_effect list" where
  "on_block s gen b now =
     (if Some gen = tw_active s then
        let s0 = s\<lparr>tw_active_head := Some (bl_ts_ms b)\<rparr>; half = tw_frame_ms s / 2; ts = of_int (bl_ts_ms b)
        in if tw_pending s0 \<noteq> None \<and> (case tw_cut_ms s0 of None \<Rightarrow> False | Some c \<Rightarrow> of_int c - half \<le> ts) then
             (if tw_staged s0 \<noteq> [] \<and> of_int (bl_ts_ms (hd (tw_staged s0))) - half \<le> ts then maybe_finish s0
              else let s1 = s0\<lparr>tw_held := tw_held s0 @ [b]\<rparr>
                   in if HOLD_LIMIT_MS < held_span (tw_held s1)
                      then abort_swap s1
                             ''the replacement encoder was too late (the old one's output was held too long)''
                      else (s1, []))
           else let (s1, es1) = forward s0 b
                in if tw_pending s1 \<noteq> None
                   then let (s2, es2) = maybe_finish s1 in (s2, es1 @ es2)
                   else (s1, es1)
      else if Some gen = tw_pending s then on_pending s b now
      else (s, []))"

definition switch_tick :: "track_switch \<Rightarrow> rat \<Rightarrow> track_switch \<times> switch_effect list" where
  "switch_tick s now =
     (if tw_pending s = None then (s, [])
      else if tw_staged s \<noteq> [] \<and> (case tw_synced_at s of None \<Rightarrow> False | Some t \<Rightarrow> 250 < now - t)
      then finish s (hd (tw_staged s))
      else if SWITCH_TIMEOUT_MS < now - tw_swap_started s
      then abort_swap s ''the replacement encoder did not produce a keyframe in time''
      else (s, []))"

definition generation_ended :: "track_switch \<Rightarrow> nat \<Rightarrow> track_switch \<times> switch_effect list" where
  "generation_ended s gen =
     (if Some gen = tw_pending s then abort_swap s ''the replacement encoder exited''
      else if Some gen = tw_active s \<and> tw_pending s \<noteq> None \<and> tw_staged s \<noteq> [] then finish s (hd (tw_staged s))
      else if Some gen = tw_active s \<and> tw_pending s = None then (s\<lparr>tw_active := None\<rparr>, [])
      else (s, []))"

section \<open>Runs\<close>

text \<open>The calls a chain makes; a \<open>begin_swap\<close> that raises changes nothing.\<close>

datatype switch_input =
    Activate nat
  | BeginSwap nat int rat
  | AbortSwap string
  | OnBlock nat block rat
  | Tick rat
  | Ended nat

fun switch_step :: "track_switch \<Rightarrow> switch_input \<Rightarrow> track_switch \<times> switch_effect list" where
  "switch_step s (Activate g) = (activate s g, [])"
| "switch_step s (BeginSwap g c now) = (case begin_swap s g c now of Inl _ \<Rightarrow> (s, []) | Inr s' \<Rightarrow> (s', []))"
| "switch_step s (AbortSwap r) = abort_swap s r"
| "switch_step s (OnBlock g b now) = on_block s g b now"
| "switch_step s (Tick now) = switch_tick s now"
| "switch_step s (Ended g) = generation_ended s g"

fun switch_run :: "track_switch \<Rightarrow> switch_input list \<Rightarrow> track_switch \<times> switch_effect list" where
  "switch_run s [] = (s, [])"
| "switch_run s (i # is) =
     (let (s1, e1) = switch_step s i; (s2, e2) = switch_run s1 is in (s2, e1 @ e2))"

fun emitted :: "switch_effect list \<Rightarrow> block list" where
  "emitted [] = []"
| "emitted (Emit b # es) = b # emitted es"
| "emitted (Retire _ # es) = emitted es"

lemma emitted_append [simp]: "emitted (es @ es') = emitted es @ emitted es'"
  by (induction es rule: emitted.induct) auto

section \<open>The gate\<close>

text \<open>
  All of the output passes \<open>forward\<close>, which reads and writes two fields only. The gate is that
  part of the state, and \<open>gate_run\<close> the function of it that \<open>forward_all\<close> implements.
\<close>

type_synonym gate = "bool \<times> int option"

definition gate_of :: "track_switch \<Rightarrow> gate" where
  "gate_of s = (tw_started s, tw_last_ts s)"

definition with_gate :: "gate \<Rightarrow> track_switch \<Rightarrow> track_switch" where
  "with_gate g s = s\<lparr>tw_started := fst g, tw_last_ts := snd g\<rparr>"

fun gate_step :: "gate \<Rightarrow> block \<Rightarrow> gate \<times> block list" where
  "gate_step (started, last_ts) b =
     (if \<not> started \<and> \<not> bl_keyframe b then ((started, last_ts), [])
      else if (case last_ts of None \<Rightarrow> False | Some t \<Rightarrow> bl_ts_ms b < t) then ((True, last_ts), [])
      else ((True, Some (bl_ts_ms b)), [b]))"

fun gate_run :: "gate \<Rightarrow> block list \<Rightarrow> gate \<times> block list" where
  "gate_run g [] = (g, [])"
| "gate_run g (b # bs) =
     (let (g1, out1) = gate_step g b; (g2, out2) = gate_run g1 bs in (g2, out1 @ out2))"

lemma with_gate_simps [simp]:
  "gate_of (with_gate g s) = g"
  "with_gate g (with_gate h s) = with_gate g s"
  "tw_frame_ms (with_gate g s) = tw_frame_ms s"
  "tw_active (with_gate g s) = tw_active s"
  "tw_pending (with_gate g s) = tw_pending s"
  "tw_cut_ms (with_gate g s) = tw_cut_ms s"
  "tw_held (with_gate g s) = tw_held s"
  "tw_staged (with_gate g s) = tw_staged s"
  by (simp_all add: gate_of_def with_gate_def)

lemma with_gate_same: "with_gate (gate_of s) s = s"
  by (simp add: gate_of_def with_gate_def)

lemma forward_gate:
  "forward s b = (case gate_step (gate_of s) b of (g, out) \<Rightarrow> (with_gate g s, map Emit out))"
  by (cases s) (auto simp: forward_def gate_of_def with_gate_def Let_def split: option.splits)

lemma forward_all_gate:
  "forward_all s bs = (case gate_run (gate_of s) bs of (g, out) \<Rightarrow> (with_gate g s, map Emit out))"
  by (induction bs arbitrary: s) (simp_all add: forward_gate with_gate_same case_prod_beta Let_def)

lemma gate_run_append:
  "gate_run g (bs @ cs) =
     (let (g1, out1) = gate_run g bs; (g2, out2) = gate_run g1 cs in (g2, out1 @ out2))"
  by (induction bs arbitrary: g) (simp_all add: case_prod_beta Let_def)

lemma emitted_map_Emit [simp]: "emitted (map Emit out) = out"
  by (induction out) auto

section \<open>What leaves the switch is in order and starts at a keyframe\<close>

definition ordered_from_keyframe :: "block list \<Rightarrow> bool" where
  "ordered_from_keyframe out \<longleftrightarrow>
     sorted_wrt (\<le>) (map bl_ts_ms out) \<and> (out \<noteq> [] \<longrightarrow> bl_keyframe (hd out))"

text \<open>The gate after an output: its last timestamp is the output's, and it opened with it.\<close>

definition gate_inv :: "block list \<Rightarrow> gate \<Rightarrow> bool" where
  "gate_inv out g \<longleftrightarrow>
     ordered_from_keyframe out \<and> (fst g \<longrightarrow> out \<noteq> []) \<and>
     snd g = (if out = [] then None else Some (bl_ts_ms (last out)))"

definition staged_inv :: "track_switch \<Rightarrow> bool" where
  "staged_inv s \<longleftrightarrow> (tw_staged s \<noteq> [] \<longrightarrow> bl_keyframe (hd (tw_staged s)))"

definition switch_inv :: "block list \<Rightarrow> track_switch \<Rightarrow> bool" where
  "switch_inv out s \<longleftrightarrow> gate_inv out (gate_of s) \<and> staged_inv s"

lemma ordered_snoc:
  assumes "ordered_from_keyframe out" and "out = [] \<Longrightarrow> bl_keyframe b"
    and "out \<noteq> [] \<Longrightarrow> bl_ts_ms (last out) \<le> bl_ts_ms b"
  shows "ordered_from_keyframe (out @ [b])"
proof (cases "out = []")
  case False
  then obtain xs x where out: "out = xs @ [x]" by (metis rev_exhaust)
  with assms have "\<forall>y\<in>set out. bl_ts_ms y \<le> bl_ts_ms b"
    by (auto simp: ordered_from_keyframe_def sorted_wrt_append)
  with assms False show ?thesis by (auto simp: ordered_from_keyframe_def sorted_wrt_append)
qed (use assms in \<open>simp add: ordered_from_keyframe_def\<close>)

text \<open>
  A block that may pass: the gate is open, or the block is a keyframe. \<open>finish\<close> forces the gate
  open, so the case of a keyframe through a gate forced open with nothing sent yet is needed too.
\<close>

lemma gate_step_inv:
  assumes "gate_inv out (fst g \<and> out \<noteq> [], snd g)" and "out = [] \<Longrightarrow> fst g \<Longrightarrow> bl_keyframe b"
  shows "gate_inv (out @ snd (gate_step g b)) (fst (gate_step g b))"
proof (cases g)
  case (Pair started last_ts)
  show ?thesis
    using assms ordered_snoc [of out b] unfolding Pair
    by (auto simp: gate_inv_def split: option.splits if_splits)
qed

lemma gate_run_inv: "gate_inv out g \<Longrightarrow> gate_inv (out @ snd (gate_run g bs)) (fst (gate_run g bs))"
proof (induction bs arbitrary: out g)
  case (Cons b bs)
  obtain g1 out1 where step: "gate_step g b = (g1, out1)" by (rule prod.exhaust)
  have "(fst g \<and> out \<noteq> [], snd g) = g" using Cons.prems by (cases g) (auto simp: gate_inv_def)
  with Cons.prems have "gate_inv (out @ out1) g1"
    using gate_step_inv [of out g b] step by (auto simp: gate_inv_def)
  from Cons.IH [OF this] step show ?case by (simp add: case_prod_beta)
qed simp

lemma gate_run_forced:
  assumes "gate_inv out g" and "bs \<noteq> []" and "bl_keyframe (hd bs)"
  shows "gate_inv (out @ snd (gate_run (True, snd g) bs)) (fst (gate_run (True, snd g) bs))"
proof -
  obtain b cs where bs: "bs = b # cs" using assms(2) by (cases bs) auto
  obtain g1 out1 where step: "gate_step (True, snd g) b = (g1, out1)" by (rule prod.exhaust)
  have "gate_inv out (out \<noteq> [], snd g)" using assms(1) by (auto simp: gate_inv_def)
  then have "gate_inv (out @ out1) g1"
    using gate_step_inv [of out "(True, snd g)" b] step assms(3) bs by simp
  from gate_run_inv [OF this, of cs] step bs show ?thesis by (simp add: case_prod_beta)
qed

text \<open>One preservation lemma per operation.\<close>

lemma forward_inv:
  "switch_inv out s \<Longrightarrow> switch_inv (out @ emitted (snd (forward s b))) (fst (forward s b))"
  using gate_run_inv [of out "gate_of s" "[b]"]
  by (auto simp: switch_inv_def staged_inv_def forward_gate case_prod_beta)

lemma abort_swap_inv:
  "switch_inv out s \<Longrightarrow> switch_inv (out @ emitted (snd (abort_swap s r))) (fst (abort_swap s r))"
  using gate_run_inv [of out "gate_of s" "tw_held s"]
  by (auto simp: switch_inv_def staged_inv_def abort_swap_def forward_all_gate gate_of_def with_gate_def
      case_prod_beta Let_def split: option.splits)

lemma finish_inv:
  assumes "switch_inv out s" and "tw_staged s \<noteq> []"
  shows "switch_inv (out @ emitted (snd (finish s k))) (fst (finish s k))"
proof -
  let ?before = "filter (\<lambda>b. rat_of_int (bl_ts_ms b) < rat_of_int (bl_ts_ms k) - tw_frame_ms s / 2) (tw_held s)"
  obtain g1 out1 where run1: "gate_run (gate_of s) ?before = (g1, out1)" by (rule prod.exhaust)
  have inv1: "gate_inv (out @ out1) g1"
    using gate_run_inv [of out "gate_of s" ?before] assms(1) run1 by (simp add: switch_inv_def)
  obtain g2 out2 where run2: "gate_run (True, snd g1) (tw_staged s) = (g2, out2)" by (rule prod.exhaust)
  have inv2: "gate_inv (out @ out1 @ out2) g2"
    using gate_run_forced [OF inv1 assms(2)] assms run2 by (simp add: switch_inv_def staged_inv_def)
  have em: "emitted (snd (finish s k)) = out1 @ out2" and "gate_of (fst (finish s k)) = g2"
      and "tw_staged (fst (finish s k)) = []"
    using run1 run2
    by (simp_all add: finish_def Let_def forward_all_gate gate_of_def with_gate_def
        split: option.splits)
  with inv2 show ?thesis by (simp add: switch_inv_def staged_inv_def)
qed

lemma maybe_finish_inv:
  "switch_inv out s \<Longrightarrow> switch_inv (out @ emitted (snd (maybe_finish s))) (fst (maybe_finish s))"
  using finish_inv [of out s] by (auto simp: maybe_finish_def Let_def)

lemma on_block_inv:
  assumes "switch_inv out s"
  shows "switch_inv (out @ emitted (snd (on_block s gen b now))) (fst (on_block s gen b now))"
proof -
  have head: "switch_inv out (s\<lparr>tw_active_head := h\<rparr>)" for h
    using assms by (simp add: switch_inv_def gate_of_def staged_inv_def)
  have held: "switch_inv out (s\<lparr>tw_active_head := h, tw_held := bs\<rparr>)" for h bs
    using assms by (simp add: switch_inv_def gate_of_def staged_inv_def)
  have staged: "switch_inv out (s\<lparr>tw_staged := tw_staged s @ [b]\<rparr>)" if "tw_staged s \<noteq> []"
    using assms that by (simp add: switch_inv_def gate_of_def staged_inv_def)
  have first: "switch_inv out (s\<lparr>tw_staged := [b], tw_synced_at := t\<rparr>)" if "bl_keyframe b" for t
    using assms that by (simp add: switch_inv_def gate_of_def staged_inv_def)
  have pending: "switch_inv (out @ emitted (snd (on_pending s b now))) (fst (on_pending s b now))"
    using maybe_finish_inv [OF staged] maybe_finish_inv [OF first] assms
    by (simp add: on_pending_def Let_def)
  obtain s1 es1 where fwd: "forward (s\<lparr>tw_active_head := Some (bl_ts_ms b)\<rparr>) b = (s1, es1)"
    by (rule prod.exhaust)
  have active: "switch_inv (out @ emitted es1) s1" using forward_inv [OF head] fwd by (metis fst_conv snd_conv)
  then show ?thesis
    using pending maybe_finish_inv [OF head] abort_swap_inv [OF held] maybe_finish_inv [OF active] held assms
    by (auto simp: on_block_def Let_def fwd case_prod_beta)
qed

lemma switch_step_inv:
  assumes "switch_inv out s"
  shows "switch_inv (out @ emitted (snd (switch_step s i))) (fst (switch_step s i))"
proof (cases i)
  case (Activate g)
  with assms show ?thesis by (simp add: activate_def switch_inv_def gate_of_def staged_inv_def gate_inv_def)
next
  case (BeginSwap g c now)
  with assms show ?thesis
    by (auto simp: begin_swap_def activate_def switch_inv_def gate_of_def staged_inv_def gate_inv_def)
next
  case (AbortSwap r)
  with assms show ?thesis using abort_swap_inv by simp
next
  case (OnBlock g b now)
  with assms show ?thesis using on_block_inv by simp
next
  case (Tick now)
  with assms show ?thesis using finish_inv abort_swap_inv by (simp add: switch_tick_def)
next
  case (Ended g)
  with assms finish_inv abort_swap_inv show ?thesis
    by (auto simp: generation_ended_def switch_inv_def gate_of_def staged_inv_def)
qed

lemma switch_run_inv:
  "switch_inv out s \<Longrightarrow> switch_inv (out @ emitted (snd (switch_run s is))) (fst (switch_run s is))"
proof (induction "is" arbitrary: out s)
  case (Cons i "is")
  from Cons.IH [OF switch_step_inv [OF Cons.prems, of i]] show ?case
    by (simp add: case_prod_beta Let_def)
qed simp

text \<open>
  C30. Whatever generations a switch is fed, whatever swaps are begun, finished, aborted or timed
  out and in whatever order, the blocks it emits have timestamps that never go back, and the first
  of them is a keyframe.
\<close>

theorem switch_output_ordered:
  "ordered_from_keyframe (emitted (snd (switch_run (new_switch frame_ms) is)))"
  using switch_run_inv [of "[]" "new_switch frame_ms" "is"]
  by (simp add: switch_inv_def gate_inv_def staged_inv_def gate_of_def new_switch_def ordered_from_keyframe_def)

section \<open>A swap that fails loses nothing\<close>

text \<open>
  Inputs between the begin of a swap and its end that leave the replacement without a usable
  keyframe: blocks of the active encoder, blocks of the replacement that are no keyframe or come
  before the cut, blocks of other encoders, ticks, aborts, and encoders other than the active one
  exiting.
\<close>

fun failing_input :: "nat \<Rightarrow> nat \<Rightarrow> int \<Rightarrow> switch_input \<Rightarrow> bool" where
  "failing_input g g' cut_ms (OnBlock h b _) = (h = g' \<longrightarrow> \<not> bl_keyframe b \<or> bl_ts_ms b < cut_ms)"
| "failing_input g g' cut_ms (Tick _) = True"
| "failing_input g g' cut_ms (AbortSwap _) = True"
| "failing_input g g' cut_ms (Ended h) = (h \<noteq> g)"
| "failing_input g g' cut_ms (Activate _) = False"
| "failing_input g g' cut_ms (BeginSwap _ _ _) = False"

fun blocks_of :: "nat \<Rightarrow> switch_input list \<Rightarrow> block list" where
  "blocks_of g [] = []"
| "blocks_of g (OnBlock h b _ # is) = (if h = g then b # blocks_of g is else blocks_of g is)"
| "blocks_of g (_ # is) = blocks_of g is"

fun retired :: "switch_effect list \<Rightarrow> nat list" where
  "retired [] = []"
| "retired (Retire g # es) = g # retired es"
| "retired (Emit _ # es) = retired es"

lemma retired_append [simp]: "retired (es @ es') = retired es @ retired es'"
  by (induction es rule: retired.induct) auto

lemma retired_map_Emit [simp]: "retired (map Emit out) = []"
  by (induction out) auto

text \<open>
  The state while the swap fails: what is held and what was sent make up the output the gate would
  have given for all of the active encoder's blocks; a swap that has ended holds nothing and has
  retired the replacement.
\<close>

definition failing_inv ::
    "gate \<Rightarrow> nat \<Rightarrow> nat \<Rightarrow> int \<Rightarrow> block list \<Rightarrow> switch_effect list \<Rightarrow> track_switch \<Rightarrow> bool" where
  "failing_inv g0 g g' cut_ms bs es s \<longleftrightarrow>
     tw_active s = Some g \<and> tw_staged s = [] \<and>
     (case tw_pending s of
        None \<Rightarrow> tw_held s = [] \<and> retired es = [g']
      | Some p \<Rightarrow> p = g' \<and> tw_cut_ms s = Some cut_ms \<and> set (tw_held s) \<subseteq> set bs \<and> retired es = [] \<and>
                  (\<forall>b\<in>set (tw_held s). of_int cut_ms - tw_frame_ms s / 2 \<le> of_int (bl_ts_ms b))) \<and>
     (case gate_run (gate_of s) (tw_held s) of (g1, out) \<Rightarrow> gate_run g0 bs = (g1, emitted es @ out))"

lemma failing_abort:
  assumes "failing_inv g0 g g' cut_ms bs es s" and "abort_swap s r = (s', es')"
  shows "failing_inv g0 g g' cut_ms bs (es @ es') s'" and "tw_pending s' = None"
  using assms
  by (auto simp: failing_inv_def abort_swap_def Let_def forward_all_gate gate_of_def with_gate_def
      split: option.splits prod.splits)

lemma failing_pending_block:
  assumes "failing_inv g0 g g' cut_ms bs es s" and "h \<noteq> g" and "failing_input g g' cut_ms (OnBlock h b now)"
  shows "on_block s h b now = (s, [])"
  using assms by (auto simp: failing_inv_def on_block_def on_pending_def Let_def split: option.splits)

lemma failing_active_block:
  assumes inv: "failing_inv g0 g g' cut_ms bs es s" and "sorted_wrt (\<le>) (map bl_ts_ms (bs @ [b]))"
    and step: "on_block s g b now = (s', es')"
  shows "failing_inv g0 g g' cut_ms (bs @ [b]) (es @ es') s'"
proof -
  let ?half = "tw_frame_ms s / 2"
  have act: "tw_active s = Some g" and st: "tw_staged s = []" using inv by (auto simp: failing_inv_def)
  have out: "gate_run g0 bs = (fst (gate_run (gate_of s) (tw_held s)),
      emitted es @ snd (gate_run (gate_of s) (tw_held s)))"
    using inv by (simp add: failing_inv_def case_prod_beta)
  define s0 where "s0 = s\<lparr>tw_active_head := Some (bl_ts_ms b)\<rparr>"
  show ?thesis
  proof (cases "tw_pending s \<noteq> None \<and> of_int cut_ms - ?half \<le> of_int (bl_ts_ms b)")
    case True
    then have pend: "tw_pending s = Some g'" and cutoff: "tw_cut_ms s = Some cut_ms"
      using inv by (auto simp: failing_inv_def split: option.splits)
    define s1 where "s1 = s0\<lparr>tw_held := tw_held s @ [b]\<rparr>"
    have inv1: "failing_inv g0 g g' cut_ms (bs @ [b]) es s1"
      using inv True out pend cutoff
      by (auto simp: failing_inv_def s1_def s0_def gate_run_append gate_of_def case_prod_beta Let_def
          split: option.splits)
    show ?thesis
      using step act st True cutoff inv1 failing_abort(1) [OF inv1]
      by (auto simp: on_block_def Let_def s1_def s0_def split: if_splits)
  next
    case False
    have held: "tw_held s = []"
    proof (rule ccontr)
      assume "tw_held s \<noteq> []"
      then obtain c where c: "c \<in> set (tw_held s)" by (cases "tw_held s") auto
      with inv have pend: "tw_pending s \<noteq> None" and "c \<in> set bs"
          and late: "of_int cut_ms - ?half \<le> of_int (bl_ts_ms c)"
        by (auto simp: failing_inv_def split: option.splits)
      then have "bl_ts_ms c \<le> bl_ts_ms b" using assms(2) by (simp add: sorted_wrt_append)
      then have "rat_of_int (bl_ts_ms c) \<le> of_int (bl_ts_ms b)" by simp
      with late False pend show False by linarith
    qed
    obtain g1 out1 where gs: "gate_step (gate_of s) b = (g1, out1)" by (rule prod.exhaust)
    have fwd: "forward s0 b = (with_gate g1 s0, map Emit out1)"
      using gs by (simp add: forward_gate s0_def gate_of_def)
    have idle: "maybe_finish (with_gate g1 s0) = (with_gate g1 s0, [])"
      using st by (simp add: maybe_finish_def s0_def)
    have cond: "\<not> (tw_pending s \<noteq> None \<and> (case tw_cut_ms s of None \<Rightarrow> False | Some c \<Rightarrow> of_int c - ?half \<le> of_int (bl_ts_ms b)))"
      using False inv by (auto simp: failing_inv_def split: option.splits)
    then have step': "s' = with_gate g1 s0 \<and> es' = map Emit out1"
      using step act fwd idle by (auto simp: on_block_def Let_def s0_def split: if_splits)
    show ?thesis
      using inv out gs held unfolding step' [THEN conjunct1] step' [THEN conjunct2]
      by (auto simp: failing_inv_def s0_def gate_run_append case_prod_beta Let_def split: option.splits)
  qed
qed

lemma failing_step:
  assumes inv: "failing_inv g0 g g' cut_ms bs es s" and ok: "failing_input g g' cut_ms i"
    and "sorted_wrt (\<le>) (map bl_ts_ms (bs @ blocks_of g [i]))"
    and step: "switch_step s i = (s', es')"
  shows "failing_inv g0 g g' cut_ms (bs @ blocks_of g [i]) (es @ es') s'"
proof (cases i)
  case (OnBlock h b now)
  show ?thesis
  proof (cases "h = g")
    case True
    with OnBlock assms failing_active_block [OF inv] show ?thesis by simp
  next
    case False
    with OnBlock assms failing_pending_block [OF inv False, of b now] show ?thesis by simp
  qed
next
  case (Tick now)
  have "tw_staged s = []" using inv by (simp add: failing_inv_def)
  with Tick step inv failing_abort(1) [OF inv] show ?thesis
    by (auto simp: switch_tick_def split: if_splits)
next
  case (AbortSwap r)
  with step failing_abort(1) [OF inv] show ?thesis by simp
next
  case (Ended h)
  have "tw_active s = Some g" using inv by (simp add: failing_inv_def)
  with Ended step inv ok failing_abort(1) [OF inv] show ?thesis
    by (auto simp: generation_ended_def split: if_splits)
qed (use ok in auto)

lemma blocks_of_Cons: "blocks_of g (i # is) = blocks_of g [i] @ blocks_of g is"
  by (cases i) auto

lemma failing_run:
  assumes "failing_inv g0 g g' cut_ms bs es s" and "list_all (failing_input g g' cut_ms) is"
    and "sorted_wrt (\<le>) (map bl_ts_ms (bs @ blocks_of g is))" and "switch_run s is = (s', es')"
  shows "failing_inv g0 g g' cut_ms (bs @ blocks_of g is) (es @ es') s'"
  using assms
proof (induction "is" arbitrary: bs es s es')
  case (Cons i "is")
  obtain s1 e1 where step: "switch_step s i = (s1, e1)" by (rule prod.exhaust)
  obtain e2 where run: "switch_run s1 is = (s', e2)" and es': "es' = e1 @ e2"
    using Cons.prems(4) step by (auto split: prod.splits)
  have so: "sorted_wrt (\<le>) (map bl_ts_ms ((bs @ blocks_of g [i]) @ blocks_of g is))"
    using Cons.prems(3) by (simp add: blocks_of_Cons [of g i "is"])
  then have so1: "sorted_wrt (\<le>) (map bl_ts_ms (bs @ blocks_of g [i]))"
    by (simp add: sorted_wrt_append)
  have "failing_inv g0 g g' cut_ms (bs @ blocks_of g [i]) (es @ e1) s1"
    using failing_step [OF Cons.prems(1) _ so1 step] Cons.prems(2) by simp
  from Cons.IH [OF this _ so run] Cons.prems(2) show ?case
    by (simp add: es' blocks_of_Cons [of g i "is"])
qed simp

text \<open>
  C2. A swap whose replacement never delivers a usable keyframe is invisible: whatever happens
  between its begin and its abort, ticks that time it out, a hold that grows too long or the
  replacement exiting included, the blocks sent are those the active encoder alone would have had
  sent, in that order, nothing missing and nothing twice, and the replacement is retired once.
\<close>

theorem failed_swap_is_lossless:
  assumes "tw_active s = Some g" and "tw_pending s = None" and "g' \<noteq> g"
    and "list_all (failing_input g g' cut_ms) is" and "sorted_wrt (\<le>) (map bl_ts_ms (blocks_of g is))"
    and "switch_run s (BeginSwap g' cut_ms now # is @ [AbortSwap reason]) = (s', es)"
  shows "emitted es = emitted (snd (forward_all s (blocks_of g is))) \<and> retired es = [g'] \<and>
    tw_active s' = Some g \<and> tw_pending s' = None"
proof -
  define s1 where "s1 = s\<lparr>tw_pending := Some g', tw_cut_ms := Some cut_ms, tw_held := [], tw_staged := [],
    tw_synced_at := None, tw_swap_started := now\<rparr>"
  have begun: "switch_step s (BeginSwap g' cut_ms now) = (s1, [])"
    using assms(1,2) by (simp add: begin_swap_def s1_def)
  have inv1: "failing_inv (gate_of s) g g' cut_ms [] [] s1"
    using assms(1) by (simp add: failing_inv_def s1_def gate_of_def)
  obtain s2 e2 where run: "switch_run s1 is = (s2, e2)" by (rule prod.exhaust)
  have inv2: "failing_inv (gate_of s) g g' cut_ms (blocks_of g is) e2 s2"
    using failing_run [OF inv1 assms(4) _ run] assms(5) by simp
  have app: "switch_run t (xs @ ys) = (let (t1, f1) = switch_run t xs; (t2, f2) = switch_run t1 ys in (t2, f1 @ f2))"
    for t xs ys by (induction xs arbitrary: t) (simp_all add: case_prod_beta Let_def)
  obtain s3 e3 where ab: "abort_swap s2 reason = (s3, e3)" by (rule prod.exhaust)
  have "switch_run s (BeginSwap g' cut_ms now # is @ [AbortSwap reason]) = (s3, e2 @ e3)"
    unfolding switch_run.simps(2) [of s] begun by (simp add: app run ab)
  then have res: "s' = s3" "es = e2 @ e3" using assms(6) by auto
  have inv3: "failing_inv (gate_of s) g g' cut_ms (blocks_of g is) es s'" and pend: "tw_pending s' = None"
    using failing_abort [OF inv2 ab] by (simp_all add: res)
  then have "retired es = [g']" "tw_active s' = Some g"
    by (simp_all add: failing_inv_def)
  moreover have "emitted es = emitted (snd (forward_all s (blocks_of g is)))"
    using inv3 pend by (simp add: failing_inv_def forward_all_gate case_prod_beta)
  ultimately show ?thesis using pend by simp
qed

theorem failed_swap_is_lossless_witness:
  "let s = activate (new_switch 40) 1;
       is = [OnBlock 1 (plain_block 1 60 True) 0, OnBlock 2 (plain_block 1 90 False) 0,
             OnBlock 1 (plain_block 1 100 False) 0, Tick 5000, OnBlock 1 (plain_block 1 140 False) 0]
   in emitted (snd (switch_run s (BeginSwap 2 100 0 # is @ [AbortSwap ''stop'']))) =
        [plain_block 1 60 True, plain_block 1 100 False, plain_block 1 140 False] \<and>
      retired (snd (switch_run s (BeginSwap 2 100 0 # is @ [AbortSwap ''stop'']))) = [2]"
proof -
  define s where "s = activate (new_switch 40) 1"
  define "is" where "is = [OnBlock 1 (plain_block 1 60 True) 0, OnBlock 2 (plain_block 1 90 False) 0,
    OnBlock 1 (plain_block 1 100 False) 0, Tick 5000, OnBlock 1 (plain_block 1 140 False) 0]"
  have blocks: "blocks_of 1 is = [plain_block 1 60 True, plain_block 1 100 False, plain_block 1 140 False]"
    and quiet: "list_all (failing_input 1 2 100) is"
    and act: "tw_active s = Some 1" "tw_pending s = None" and gate: "gate_of s = (False, None)"
    by (simp_all add: is_def s_def plain_block_def activate_def new_switch_def gate_of_def)
  have "sorted_wrt (\<le>) (map bl_ts_ms (blocks_of 1 is))"
    unfolding blocks by (simp add: plain_block_def)
  from failed_swap_is_lossless [OF act _ quiet this prod.collapse [symmetric]]
  have "emitted (snd (switch_run s (BeginSwap 2 100 0 # is @ [AbortSwap ''stop'']))) =
      emitted (snd (forward_all s (blocks_of 1 is)))"
    and "retired (snd (switch_run s (BeginSwap 2 100 0 # is @ [AbortSwap ''stop'']))) = [2]"
    by simp_all
  moreover have "emitted (snd (forward_all s (blocks_of 1 is))) = blocks_of 1 is"
    unfolding blocks by (simp add: forward_all_gate gate plain_block_def)
  ultimately show ?thesis
    unfolding Let_def s_def [symmetric] is_def [symmetric] blocks
    by (intro conjI) (rule trans)
qed

end
