(* ===== verification/Merger.thy ===== *)
theory Merger
  imports MkvWriter PyNum "HOL-Library.Multiset" "HOL-Library.AList" "HOL-Library.Product_Lexorder"
begin

text \<open>
  \<open>Merger\<close> and \<open>Window\<close> of \<open>stream/relay.py\<close>: the interleaving of video and audio by timestamp and
  the rolling byte counter. The binary heap of \<open>heapq\<close> is the list of its entries in ascending
  order, which is what the pops of a heap with distinct keys observe; times are exact rationals.
\<close>

section \<open>The merger\<close>

record merge_entry =
  me_ts :: int
  me_seq :: nat
  me_arrived :: rat
  me_block :: block

definition MERGE_WAIT_MS :: rat where "MERGE_WAIT_MS = 150"

record merger =
  mg_wait :: rat
  mg_heap :: "merge_entry list"
  mg_seq :: nat
  mg_marks :: "(nat \<times> int) list"

definition new_merger :: "rat \<Rightarrow> merger" where
  "new_merger max_wait = \<lparr>mg_wait = max_wait, mg_heap = [], mg_seq = 0,
     mg_marks = [(TRACK_VIDEO, -1), (TRACK_AUDIO, -1)]\<rparr>"

text \<open>The order of the heap's tuples: the sequence numbers differ, so nothing beyond them is compared.\<close>

definition entry_key :: "merge_entry \<Rightarrow> int \<times> nat" where
  "entry_key e = (me_ts e, me_seq e)"

definition heappush :: "merge_entry list \<Rightarrow> merge_entry \<Rightarrow> merge_entry list" where
  "heappush heap e = insort_key entry_key e heap"

definition merger_push :: "merger \<Rightarrow> block \<Rightarrow> rat \<Rightarrow> merger" where
  "merger_push m b now =
     (let m1 = m\<lparr>mg_seq := mg_seq m + 1\<rparr>;
          m2 = m1\<lparr>mg_heap := heappush (mg_heap m1)
                    \<lparr>me_ts = bl_ts_ms b, me_seq = mg_seq m1, me_arrived = now, me_block = b\<rparr>\<rparr>
      in case map_of (mg_marks m2) (bl_track b) of
           None \<Rightarrow> m2
         | Some w \<Rightarrow> m2\<lparr>mg_marks := AList.update (bl_track b) (max w (bl_ts_ms b)) (mg_marks m2)\<rparr>)"

text \<open>\<open>min(self._watermark.values())\<close>; the dictionary is never empty.\<close>

definition watermark_floor :: "merger \<Rightarrow> int" where
  "watermark_floor m = Min (snd ` set (mg_marks m))"

definition releasable :: "merger \<Rightarrow> rat \<Rightarrow> merge_entry \<Rightarrow> bool" where
  "releasable m now e \<longleftrightarrow> me_ts e \<le> watermark_floor m \<or> mg_wait m \<le> now - me_arrived e"

fun poll_loop :: "(merge_entry \<Rightarrow> bool) \<Rightarrow> merge_entry list \<Rightarrow> block list \<times> merge_entry list" where
  "poll_loop ready [] = ([], [])"
| "poll_loop ready (e # heap) =
     (if ready e then (let (out, rest) = poll_loop ready heap in (me_block e # out, rest))
      else ([], e # heap))"

definition merger_poll :: "merger \<Rightarrow> rat \<Rightarrow> merger \<times> block list" where
  "merger_poll m now =
     (let (out, rest) = poll_loop (releasable m now) (mg_heap m) in (m\<lparr>mg_heap := rest\<rparr>, out))"

definition merger_ignore :: "merger \<Rightarrow> nat \<Rightarrow> merger" where
  "merger_ignore m number = m\<lparr>mg_marks := AList.update number (2 ^ 62) (mg_marks m)\<rparr>"

definition merger_drain :: "merger \<Rightarrow> merger \<times> block list" where
  "merger_drain m = (m\<lparr>mg_heap := []\<rparr>, map me_block (sort_key entry_key (mg_heap m)))"

definition merger_pending :: "merger \<Rightarrow> nat" where
  "merger_pending m = length (mg_heap m)"

section \<open>Runs\<close>

datatype merge_input = Push block rat | Poll rat | Ignore nat | Drain

fun merge_step :: "merger \<Rightarrow> merge_input \<Rightarrow> merger \<times> block list" where
  "merge_step m (Push b now) = (merger_push m b now, [])"
| "merge_step m (Poll now) = merger_poll m now"
| "merge_step m (Ignore number) = (merger_ignore m number, [])"
| "merge_step m Drain = merger_drain m"

fun merge_run :: "merger \<Rightarrow> merge_input list \<Rightarrow> merger \<times> block list" where
  "merge_run m [] = (m, [])"
| "merge_run m (i # is) =
     (let (m1, o1) = merge_step m i; (m2, o2) = merge_run m1 is in (m2, o1 @ o2))"

fun pushed :: "merge_input list \<Rightarrow> block list" where
  "pushed [] = []"
| "pushed (Push b _ # is) = b # pushed is"
| "pushed (_ # is) = pushed is"

section \<open>Nothing is lost\<close>

definition held_blocks :: "merger \<Rightarrow> block multiset" where
  "held_blocks m = image_mset me_block (mset (mg_heap m))"

lemma heap_push_mset [simp]: "mset (heappush heap e) = add_mset e (mset heap)"
  by (simp add: heappush_def)

lemma poll_loop_eq:
  "poll_loop ready heap = (map me_block (takeWhile ready heap), dropWhile ready heap)"
  by (induction heap) auto

lemma poll_loop_mset:
  "poll_loop ready heap = (out, rest) \<Longrightarrow>
    mset out + image_mset me_block (mset rest) = image_mset me_block (mset heap)"
  by (induction ready heap arbitrary: out rule: poll_loop.induct) (auto split: prod.splits if_splits)

lemma push_fields:
  "mg_heap (merger_push m b now) = heappush (mg_heap m)
     \<lparr>me_ts = bl_ts_ms b, me_seq = mg_seq m + 1, me_arrived = now, me_block = b\<rparr>"
  "mg_seq (merger_push m b now) = mg_seq m + 1"
  "mg_wait (merger_push m b now) = mg_wait m"
  "mg_marks (merger_push m b now) =
     (case map_of (mg_marks m) (bl_track b) of None \<Rightarrow> mg_marks m
      | Some w \<Rightarrow> AList.update (bl_track b) (max w (bl_ts_ms b)) (mg_marks m))"
  by (simp_all add: merger_push_def Let_def split: option.splits)

lemma merge_step_mset:
  "merge_step m i = (m', out) \<Longrightarrow> mset out + held_blocks m' = held_blocks m + mset (pushed [i])"
  by (cases i) (auto simp: held_blocks_def push_fields merger_poll_def merger_ignore_def merger_drain_def
      split: prod.splits dest: poll_loop_mset)

lemma pushed_Cons: "pushed (i # is) = pushed [i] @ pushed is"
  by (cases i) auto

lemma merge_run_mset:
  "merge_run m is = (m', out) \<Longrightarrow> mset out + held_blocks m' = held_blocks m + mset (pushed is)"
proof (induction "is" arbitrary: m out)
  case (Cons i "is")
  obtain m1 o1 where step: "merge_step m i = (m1, o1)" by (rule prod.exhaust)
  obtain o2 where run: "merge_run m1 is = (m', o2)" and out: "out = o1 @ o2"
    using Cons.prems step by (auto split: prod.splits)
  show ?case
    using Cons.IH [OF run] merge_step_mset [OF step]
    by (simp add: out pushed_Cons [of i "is"]) (metis union_assoc union_commute)
qed simp

text \<open>
  Every block pushed into the merger comes out exactly once: whatever pushes, polls, ignores and
  drains happen in whatever order, what came out and what is still held are together the blocks
  pushed, as multisets, and after a drain nothing is held.
\<close>

theorem merger_conserves_blocks:
  "(case merge_run (new_merger w) is of (m, out) \<Rightarrow>
      mset out + held_blocks m = mset (pushed is) \<and>
      (case merger_drain m of (m', rest) \<Rightarrow>
         mset out + mset rest = mset (pushed is) \<and> merger_pending m' = 0))"
  using merge_run_mset [of "new_merger w" "is"]
  by (auto simp: new_merger_def held_blocks_def merger_drain_def merger_pending_def split: prod.splits)

section \<open>Encoders that keep their order\<close>

text \<open>
  Inputs as the encoders give them: the clock does not go back, each of the two tracks has its
  blocks in order of time, and only a track's watermark below \<open>2 ** 62\<close> is ever ignored.
\<close>

fun in_order :: "rat \<Rightarrow> int \<Rightarrow> int \<Rightarrow> merge_input list \<Rightarrow> bool" where
  "in_order t v a [] = True"
| "in_order t v a (Push b now # is) =
     (t \<le> now \<and>
      (if bl_track b = TRACK_VIDEO then v \<le> bl_ts_ms b \<and> in_order now (bl_ts_ms b) a is
       else bl_track b = TRACK_AUDIO \<and> a \<le> bl_ts_ms b \<and> in_order now v (bl_ts_ms b) is))"
| "in_order t v a (Poll now # is) = (t \<le> now \<and> in_order now v a is)"
| "in_order t v a (Ignore number # is) =
     (if number = TRACK_VIDEO then v \<le> 2 ^ 62 \<and> in_order t (2 ^ 62) a is
      else number = TRACK_AUDIO \<and> a \<le> 2 ^ 62 \<and> in_order t v (2 ^ 62) is)"
| "in_order t v a (Drain # is) = in_order t v a is"

lemma tracks_differ [simp]: "TRACK_VIDEO \<noteq> TRACK_AUDIO" "TRACK_AUDIO \<noteq> TRACK_VIDEO"
  by (simp_all add: TRACK_VIDEO_def TRACK_AUDIO_def)

definition mark_of :: "int \<Rightarrow> int \<Rightarrow> nat \<Rightarrow> int" where
  "mark_of v a number = (if number = TRACK_VIDEO then v else a)"

abbreviation entry_track :: "merge_entry \<Rightarrow> nat" where
  "entry_track e \<equiv> bl_track (me_block e)"

text \<open>Heap order, and within a track the order of arrival.\<close>

definition entry_before :: "merge_entry \<Rightarrow> merge_entry \<Rightarrow> bool" where
  "entry_before e e' \<longleftrightarrow> entry_key e \<le> entry_key e' \<and>
     (entry_track e = entry_track e' \<longrightarrow> me_arrived e \<le> me_arrived e')"

definition entry_inv :: "rat \<Rightarrow> int \<Rightarrow> int \<Rightarrow> nat \<Rightarrow> merge_entry \<Rightarrow> bool" where
  "entry_inv t v a seq e \<longleftrightarrow>
     me_seq e \<le> seq \<and> me_arrived e \<le> t \<and> me_ts e = bl_ts_ms (me_block e) \<and>
     entry_track e \<in> {TRACK_VIDEO, TRACK_AUDIO} \<and> me_ts e \<le> mark_of v a (entry_track e)"

definition merge_inv :: "rat \<Rightarrow> int \<Rightarrow> int \<Rightarrow> merger \<Rightarrow> bool" where
  "merge_inv t v a m \<longleftrightarrow>
     mg_marks m = [(TRACK_VIDEO, v), (TRACK_AUDIO, a)] \<and> sorted_wrt entry_before (mg_heap m) \<and>
     (\<forall>e\<in>set (mg_heap m). entry_inv t v a (mg_seq m) e)"


lemma entry_inv_mono:
  "entry_inv t v a seq e \<Longrightarrow> t \<le> t' \<Longrightarrow> v \<le> v' \<Longrightarrow> a \<le> a' \<Longrightarrow> seq \<le> seq' \<Longrightarrow> entry_inv t' v' a' seq' e"
  by (auto simp: entry_inv_def mark_of_def)

lemma floor_marks: "mg_marks m = [(TRACK_VIDEO, v), (TRACK_AUDIO, a)] \<Longrightarrow> watermark_floor m = min v a"
  by (simp add: watermark_floor_def)

lemma set_heappush [simp]: "set (heappush heap e) = insert e (set heap)"
  by (simp add: heappush_def set_insort_key)

lemma sorted_heappush:
  assumes "sorted_wrt R heap" and "\<And>x y. R x y \<Longrightarrow> entry_key x \<le> entry_key y"
    and "\<And>x. x \<in> set heap \<Longrightarrow> entry_key e \<le> entry_key x \<Longrightarrow> R e x"
    and "\<And>x. x \<in> set heap \<Longrightarrow> entry_key x < entry_key e \<Longrightarrow> R x e"
  shows "sorted_wrt R (heappush heap e)"
  using assms(1,3,4)
proof (induction heap)
  case (Cons x heap)
  show ?case
  proof (cases "entry_key e \<le> entry_key x")
    case True
    with Cons.prems assms(2) have "\<forall>y\<in>set (x # heap). entry_key e \<le> entry_key y"
      by (auto intro: order_trans)
    with Cons.prems True show ?thesis by (auto simp: heappush_def)
  next
    case False
    with Cons show ?thesis
      by (auto simp: heappush_def set_insort_key not_le)
  qed
qed (simp add: heappush_def)

lemma push_inv:
  assumes inv: "merge_inv t v a m" and "t \<le> now"
    and track: "bl_track b \<in> {TRACK_VIDEO, TRACK_AUDIO}" and ts: "mark_of v a (bl_track b) \<le> bl_ts_ms b"
  shows "merge_inv now (if bl_track b = TRACK_VIDEO then bl_ts_ms b else v)
    (if bl_track b = TRACK_VIDEO then a else bl_ts_ms b) (merger_push m b now)"
    (is "merge_inv now ?v ?a ?m")
proof -
  define x where "x = \<lparr>me_ts = bl_ts_ms b, me_seq = mg_seq m + 1, me_arrived = now, me_block = b\<rparr>"
  have heap: "mg_heap ?m = heappush (mg_heap m) x" by (simp add: push_fields x_def)
  have bounds: "v \<le> ?v" "a \<le> ?a" using ts track by (auto simp: mark_of_def)
  have old: "entry_inv t v a (mg_seq m) e" if "e \<in> set (mg_heap m)" for e
    using inv that by (simp add: merge_inv_def)
  have "entry_before x e" if e: "e \<in> set (mg_heap m)" and le: "entry_key x \<le> entry_key e" for e
  proof -
    have "me_seq e < me_seq x" using old [OF e] by (simp add: entry_inv_def x_def)
    with le have "me_ts x < me_ts e" by (auto simp: entry_key_def)
    with old [OF e] ts have "entry_track e \<noteq> entry_track x"
      by (auto simp: entry_inv_def x_def)
    with le show ?thesis by (simp add: entry_before_def)
  qed
  moreover have "entry_before e x" if e: "e \<in> set (mg_heap m)" and "entry_key e < entry_key x" for e
    using that old [OF e] assms(2) by (auto simp: entry_before_def entry_inv_def x_def)
  ultimately have sorted: "sorted_wrt entry_before (mg_heap ?m)"
    using inv unfolding heap by (intro sorted_heappush) (auto simp: merge_inv_def entry_before_def)
  have "entry_inv now ?v ?a (mg_seq ?m) e" if "e \<in> set (mg_heap ?m)" for e
  proof (cases "e = x")
    case True
    then show ?thesis using track by (auto simp: entry_inv_def x_def push_fields mark_of_def)
  next
    case False
    with that have "e \<in> set (mg_heap m)" by (simp add: heap)
    from old [OF this] show ?thesis
      by (rule entry_inv_mono) (use assms(2) bounds in \<open>simp_all add: push_fields\<close>)
  qed
  moreover have "mg_marks ?m = [(TRACK_VIDEO, ?v), (TRACK_AUDIO, ?a)]"
    using inv track ts by (auto simp: merge_inv_def push_fields mark_of_def)
  ultimately show ?thesis using sorted by (simp add: merge_inv_def)
qed

lemma sorted_wrt_dropWhile: "sorted_wrt R xs \<Longrightarrow> sorted_wrt R (dropWhile P xs)"
  by (induction xs) auto

lemma merger_poll_eq:
  "merger_poll m now =
     (m\<lparr>mg_heap := dropWhile (releasable m now) (mg_heap m)\<rparr>,
      map me_block (takeWhile (releasable m now) (mg_heap m)))"
  by (simp add: merger_poll_def poll_loop_eq)

lemma poll_inv:
  assumes "merge_inv t v a m" and "t \<le> now" and "merger_poll m now = (m', out)"
  shows "merge_inv now v a m'"
proof -
  have "entry_inv now v a (mg_seq m) e" if "e \<in> set (dropWhile (releasable m now) (mg_heap m))" for e
  proof -
    have "entry_inv t v a (mg_seq m) e"
      using assms(1) set_dropWhileD [OF that] by (simp add: merge_inv_def)
    then show ?thesis using assms(2) by (simp add: entry_inv_def)
  qed
  then show ?thesis using assms by (auto simp: merge_inv_def merger_poll_eq intro!: sorted_wrt_dropWhile)
qed

lemma ignore_inv:
  assumes "merge_inv t v a m"
  shows "v \<le> 2 ^ 62 \<Longrightarrow> merge_inv t (2 ^ 62) a (merger_ignore m TRACK_VIDEO)"
    and "a \<le> 2 ^ 62 \<Longrightarrow> merge_inv t v (2 ^ 62) (merger_ignore m TRACK_AUDIO)"
  using assms entry_inv_mono by (auto simp: merge_inv_def merger_ignore_def)




lemma new_merger_inv: "merge_inv 0 (-1) (-1) (new_merger w)"
  by (simp add: merge_inv_def new_merger_def)

lemma merge_step_wait [simp]: "mg_wait (fst (merge_step m i)) = mg_wait m"
  by (cases i) (simp_all add: push_fields merger_poll_eq merger_ignore_def merger_drain_def)



text \<open>Two video blocks and an audio block that is late: at 160 ms the first video block has waited too long.\<close>

definition late_audio :: "merge_input list" where
  "late_audio = [Push (plain_block TRACK_VIDEO 1000 True) 0, Push (plain_block TRACK_VIDEO 1040 False) 40,
     Push (plain_block TRACK_AUDIO 990 True) 60]"

lemma late_audio_run:
  "merge_run (new_merger 150) late_audio =
     (\<lparr>mg_wait = 150,
       mg_heap = [\<lparr>me_ts = 990, me_seq = 3, me_arrived = 60, me_block = plain_block TRACK_AUDIO 990 True\<rparr>,
                  \<lparr>me_ts = 1000, me_seq = 1, me_arrived = 0, me_block = plain_block TRACK_VIDEO 1000 True\<rparr>,
                  \<lparr>me_ts = 1040, me_seq = 2, me_arrived = 40, me_block = plain_block TRACK_VIDEO 1040 False\<rparr>],
       mg_seq = 3, mg_marks = [(TRACK_VIDEO, 1040), (TRACK_AUDIO, 990)]\<rparr>, [])"
  by (simp add: late_audio_def new_merger_def merger_push_def heappush_def entry_key_def plain_block_def Let_def)


section \<open>The merged stream is in order\<close>

text \<open>No poll of the run finds a block that has waited its full time, and a drain is the last input.\<close>

fun unforced :: "merger \<Rightarrow> merge_input list \<Rightarrow> bool" where
  "unforced m [] = True"
| "unforced m (i # is) =
     ((case i of Poll now \<Rightarrow> list_all (\<lambda>e. now - me_arrived e < mg_wait m) (mg_heap m)
       | Drain \<Rightarrow> is = [] | _ \<Rightarrow> True) \<and> unforced (fst (merge_step m i)) is)"

text \<open>What has come out is below both watermarks and below everything held.\<close>

definition out_inv :: "int \<Rightarrow> int \<Rightarrow> block list \<Rightarrow> merger \<Rightarrow> bool" where
  "out_inv v a out m \<longleftrightarrow>
     sorted_wrt (\<le>) (map bl_ts_ms out) \<and>
     (\<forall>b\<in>set out. bl_ts_ms b \<le> min v a \<and> (\<forall>e\<in>set (mg_heap m). bl_ts_ms b \<le> me_ts e))"

lemma heap_blocks_sorted:
  assumes "merge_inv t v a m"
  shows "sorted_wrt (\<lambda>e e'. bl_ts_ms (me_block e) \<le> bl_ts_ms (me_block e')) (mg_heap m)"
proof -
  have "sorted_wrt entry_before (mg_heap m)" using assms by (simp add: merge_inv_def)
  then show ?thesis
    by (rule sorted_wrt_mono_rel [rotated])
       (use assms in \<open>auto simp: merge_inv_def entry_before_def entry_inv_def entry_key_def\<close>)
qed

lemma heap_keys_sorted:
  assumes "merge_inv t v a m"
  shows "sorted (map entry_key (mg_heap m))"
proof -
  have "sorted_wrt entry_before (mg_heap m)" using assms by (simp add: merge_inv_def)
  then have "sorted_wrt (\<lambda>e e'. entry_key e \<le> entry_key e') (mg_heap m)"
    by (rule sorted_wrt_mono_rel [rotated]) (simp add: entry_before_def)
  then show ?thesis by (simp add: sorted_map)
qed

lemma out_inv_poll:
  assumes inv: "merge_inv t v a m" and out: "out_inv v a out m" and poll: "merger_poll m now = (m', released)"
    and fresh: "list_all (\<lambda>e. now - me_arrived e < mg_wait m) (mg_heap m)"
  shows "out_inv v a (out @ released) m'"
proof -
  let ?ready = "releasable m now"
  have parts: "released = map me_block (takeWhile ?ready (mg_heap m))" "mg_heap m' = dropWhile ?ready (mg_heap m)"
    using poll by (auto simp: merger_poll_eq)
  have ts: "me_ts e = bl_ts_ms (me_block e)" if "e \<in> set (mg_heap m)" for e
    using inv that by (simp add: merge_inv_def entry_inv_def)
  let ?R = "\<lambda>e e'. bl_ts_ms (me_block e) \<le> bl_ts_ms (me_block e')"
  have sw: "sorted_wrt ?R (takeWhile ?ready (mg_heap m) @ dropWhile ?ready (mg_heap m))"
    using heap_blocks_sorted [OF inv] by simp
  have low: "bl_ts_ms (me_block e) \<le> min v a" if "e \<in> set (takeWhile ?ready (mg_heap m))" for e
  proof -
    have in_heap: "e \<in> set (mg_heap m)" and "?ready e" using set_takeWhileD [OF that] by auto
    with fresh have "me_ts e \<le> watermark_floor m" by (auto simp: releasable_def list_all_iff)
    with inv ts [OF in_heap] show ?thesis by (simp add: merge_inv_def floor_marks)
  qed
  have old: "bl_ts_ms b \<le> bl_ts_ms (me_block e)" if "b \<in> set out" "e \<in> set (mg_heap m)" for b e
    using out that ts by (simp add: out_inv_def)
  have taken: "bl_ts_ms (me_block e) \<le> bl_ts_ms (me_block e')"
    if "e \<in> set (takeWhile ?ready (mg_heap m))" "e' \<in> set (dropWhile ?ready (mg_heap m))" for e e'
    using sw that unfolding sorted_wrt_append by blast
  have "sorted_wrt (\<le>) (map bl_ts_ms (out @ released))"
    using out sw old unfolding out_inv_def parts sorted_wrt_append
    by (auto simp: sorted_wrt_map sorted_wrt_append dest: set_takeWhileD)
  moreover have "bl_ts_ms b \<le> min v a" if "b \<in> set (out @ released)" for b
    using that out low by (auto simp: out_inv_def parts)
  moreover have "bl_ts_ms b \<le> me_ts e" if "b \<in> set (out @ released)" "e \<in> set (mg_heap m')" for b e
    using that old taken ts set_dropWhileD [of e ?ready "mg_heap m"] by (auto simp: parts)
  ultimately show ?thesis unfolding out_inv_def by blast
qed

lemma out_inv_push:
  assumes "out_inv v a out m" and "mark_of v a (bl_track b) \<le> bl_ts_ms b" and "bl_track b \<in> {TRACK_VIDEO, TRACK_AUDIO}"
  shows "out_inv (if bl_track b = TRACK_VIDEO then bl_ts_ms b else v)
    (if bl_track b = TRACK_VIDEO then a else bl_ts_ms b) out (merger_push m b now)"
  using assms by (fastforce simp: out_inv_def push_fields mark_of_def)

lemma merged_sorted:
  assumes "in_order t v a is" and "merge_inv t v a m" and "out_inv v a out m" and "unforced m is"
    and "merge_run m is = (m', new)"
  shows "sorted_wrt (\<le>) (map bl_ts_ms (out @ new))"
  using assms
proof (induction "is" arbitrary: t v a m out new)
  case Nil
  then show ?case by (simp add: out_inv_def)
next
  case (Cons i "is")
  obtain m1 o1 where step: "merge_step m i = (m1, o1)" by (rule prod.exhaust)
  obtain o2 where run: "merge_run m1 is = (m', o2)" and new: "new = o1 @ o2"
    using Cons.prems(5) step by (auto split: prod.splits)
  have rest: "unforced m1 is" using Cons.prems(4) step by simp
  note IH = Cons.IH [OF _ _ _ rest run]
  show ?case
  proof (cases i)
    case (Push b now)
    with Cons.prems(1) have ok: "t \<le> now" "bl_track b \<in> {TRACK_VIDEO, TRACK_AUDIO}"
      "mark_of v a (bl_track b) \<le> bl_ts_ms b"
      "in_order now (if bl_track b = TRACK_VIDEO then bl_ts_ms b else v)
        (if bl_track b = TRACK_VIDEO then a else bl_ts_ms b) is"
      by (auto simp: mark_of_def split: if_splits)
    have "m1 = merger_push m b now" "o1 = []" using step Push by auto
    then show ?thesis
      using IH [OF ok(4) push_inv [OF Cons.prems(2) ok(1-3), folded \<open>m1 = _\<close>], of out]
        out_inv_push [OF Cons.prems(3) ok(3,2), of now] by (simp add: new)
  next
    case (Poll now)
    then have "in_order now v a is" "merge_inv now v a m1" "out_inv v a (out @ o1) m1"
      using Cons.prems step poll_inv [OF Cons.prems(2)] out_inv_poll [OF Cons.prems(2,3)] by auto
    from IH [OF this] show ?thesis by (simp add: new)
  next
    case (Ignore number)
    then have m1: "m1 = merger_ignore m number" "o1 = []" using step by auto
    have out: "out_inv v' a' out m1" if "v \<le> v'" "a \<le> a'" for v' a'
      using Cons.prems(3) that by (fastforce simp: out_inv_def m1 merger_ignore_def)
    show ?thesis
    proof (cases "number = TRACK_VIDEO")
      case True
      with Cons.prems(1) Ignore have ok: "v \<le> 2 ^ 62" "in_order t (2 ^ 62) a is" by simp_all
      from IH [OF ok(2)] ignore_inv(1) [OF Cons.prems(2) ok(1)] out [OF ok(1) order_refl] show ?thesis
        by (simp add: new m1 True del: power_numeral)
    next
      case False
      with Cons.prems(1) Ignore have ok: "number = TRACK_AUDIO" "a \<le> 2 ^ 62" "in_order t v (2 ^ 62) is"
        by simp_all
      from IH [OF ok(3)] ignore_inv(2) [OF Cons.prems(2) ok(2)] out [OF order_refl ok(2)] show ?thesis
        by (simp add: new m1 ok(1) del: power_numeral)
    qed
  next
    case Drain
    then have "is = []" using Cons.prems(4) by simp
    let ?R = "\<lambda>e e'. bl_ts_ms (me_block e) \<le> bl_ts_ms (me_block e')"
    have "o1 = map me_block (mg_heap m)"
      using step Drain heap_keys_sorted [OF Cons.prems(2)] by (auto simp: merger_drain_def sort_key_id_if_sorted)
    moreover have "me_ts e = bl_ts_ms (me_block e)" if "e \<in> set (mg_heap m)" for e
      using Cons.prems(2) that by (simp add: merge_inv_def entry_inv_def)
    ultimately show ?thesis
      using \<open>is = []\<close> run new Cons.prems(3) heap_blocks_sorted [OF Cons.prems(2)]
      by (auto simp: out_inv_def sorted_wrt_append sorted_wrt_map)
  qed
qed

text \<open>
  The merged stream is in order of time: when the clock does not go back, each track has its own
  blocks in order and no poll finds a block that has waited its full time, the blocks that come out
  of video and audio, polled and drained, have timestamps that never go back.
\<close>

theorem merged_in_order:
  assumes "in_order 0 (-1) (-1) is" and "unforced (new_merger max_wait) is"
    and "merge_run (new_merger max_wait) is = (m, out)"
  shows "sorted_wrt (\<le>) (map bl_ts_ms out)"
  using merged_sorted [OF assms(1) new_merger_inv _ assms(2,3), of "[]"]
  by (simp add: out_inv_def)

theorem merged_in_order_witness:
  "let out = snd (merge_run (new_merger 150) (late_audio @ [Poll 100, Drain]))
   in out = [plain_block TRACK_AUDIO 990 True, plain_block TRACK_VIDEO 1000 True, plain_block TRACK_VIDEO 1040 False] \<and>
      sorted_wrt (\<le>) (map bl_ts_ms out)"
proof -
  let ?is = "late_audio @ [Poll 100, Drain]"
  have app: "merge_run m (xs @ ys) = (let (m1, o1) = merge_run m xs; (m2, o2) = merge_run m1 ys in (m2, o1 @ o2))"
    for m xs ys by (induction xs arbitrary: m) (simp_all add: case_prod_beta Let_def)
  have run: "snd (merge_run (new_merger 150) ?is) =
      [plain_block TRACK_AUDIO 990 True, plain_block TRACK_VIDEO 1000 True, plain_block TRACK_VIDEO 1040 False]"
    by (simp add: app late_audio_run merger_poll_eq releasable_def watermark_floor_def merger_drain_def entry_key_def)
  have "in_order 0 (-1) (-1) ?is" by (simp add: late_audio_def plain_block_def)
  moreover have "unforced (new_merger 150) ?is"
    by (simp add: late_audio_def new_merger_def merger_push_def heappush_def entry_key_def plain_block_def
        merger_poll_eq releasable_def watermark_floor_def Let_def)
  ultimately show ?thesis
    using merged_in_order [OF _ _ prod.collapse [symmetric]] run by (metis (no_types, lifting))
qed

end
