(* ===== verification/Relay.thy ===== *)
theory Relay
  imports TrackSwitch Merger
begin

text \<open>
  \<open>Window\<close> and \<open>Chain\<close> of \<open>stream/relay.py\<close>: one codec's path from its encoders through the track
  switch and the merger to the sinks. The clock and the sinks are parameters: \<open>clock n\<close> is the
  chain's n-th reading of its clock, and an \<open>answers\<close> value says how a sink replies after a given
  history of calls. The calls to sinks and the two callbacks are a lg in the state. Every operation
  holds the chain's lock from start to end, so an operation is one step.
\<close>

section \<open>The rolling byte counter\<close>

record window =
  wn_span :: rat
  wn_items :: "(rat \<times> nat) list"
  wn_sum :: int

definition new_window :: window where
  "new_window = \<lparr>wn_span = 3000, wn_items = [], wn_sum = 0\<rparr>"

fun trim_loop :: "rat \<Rightarrow> rat \<Rightarrow> (rat \<times> nat) list \<Rightarrow> int \<Rightarrow> (rat \<times> nat) list \<times> int" where
  "trim_loop keep now [] kept_sum = ([], kept_sum)"
| "trim_loop keep now ((at_ms, n) # items) kept_sum =
     (if keep < now - at_ms then trim_loop keep now items (kept_sum - int n) else ((at_ms, n) # items, kept_sum))"

definition window_trim :: "window \<Rightarrow> rat \<Rightarrow> window" where
  "window_trim w now =
     (let (items, kept_sum) = trim_loop (wn_span w) now (wn_items w) (wn_sum w)
      in w\<lparr>wn_items := items, wn_sum := kept_sum\<rparr>)"

definition window_add :: "window \<Rightarrow> rat \<Rightarrow> nat \<Rightarrow> window" where
  "window_add w at_ms n =
     window_trim (w\<lparr>wn_items := wn_items w @ [(at_ms, n)], wn_sum := wn_sum w + int n\<rparr>) at_ms"

definition window_kbps :: "window \<Rightarrow> rat \<Rightarrow> window \<times> rat" where
  "window_kbps w now =
     (let w1 = window_trim w now
      in case wn_items w1 of
           [] \<Rightarrow> (w1, 0)
         | (at_ms, _) # _ \<Rightarrow> (w1, of_int (wn_sum w1 * 8) / max (now - at_ms) 500))"

section \<open>Sinks and the chain\<close>

record sink =
  sk_name :: string
  sk_on_track :: bool

text \<open>\<open>at_id\<close> tells apart the attachments a name has had; the code has the object's identity.\<close>

record attached =
  at_id :: nat
  at_sink :: sink
  at_restart :: bool
  at_started :: bool
  at_bytes_out :: nat
  at_clusters :: nat
  at_wants_raw :: bool
  at_raw_declared :: bool

datatype relay_event =
    Open nat bytes bool
  | Write nat bytes nat bool bool
  | Close nat
  | OnTrack nat track
  | OnRetire nat
  | OnGeometry track

record answers =
  an_opens :: "relay_event list \<Rightarrow> nat \<Rightarrow> bytes \<Rightarrow> bool"
  an_writes :: "relay_event list \<Rightarrow> nat \<Rightarrow> bytes \<Rightarrow> bool"

record chain =
  ch_switch :: track_switch
  ch_merger :: merger
  ch_sinks :: "(string \<times> attached) list"
  ch_audio :: "track option"
  ch_raw :: "track option"
  ch_video :: "track option"
  ch_headers :: "(nat \<times> track) list"
  ch_video_rate :: window
  ch_audio_rate :: window
  ch_frames :: nat
  ch_keyframes :: nat
  ch_latency :: rat
  ch_last_video_at :: "rat option"
  ch_reads :: nat
  ch_attached :: nat
  ch_log :: "relay_event list"

definition LATENCY_ALPHA :: rat where "LATENCY_ALPHA = 1 / 10"
definition MAX_CLUSTER_MS :: int where "MAX_CLUSTER_MS = 1000"

definition TRACK_MAP :: "nat \<rightharpoonup> nat" where
  "TRACK_MAP = [TRACK_VIDEO \<mapsto> 1, TRACK_AUDIO \<mapsto> 2, TRACK_RAW \<mapsto> 3]"

definition RAW_LABELS :: "nat \<Rightarrow> bytes" where
  "RAW_LABELS number =
     (if number = TRACK_AUDIO then ascii ''Microphone (processed)''
      else if number = TRACK_RAW then ascii ''Microphone (raw)'' else [])"

definition new_chain :: "rat \<Rightarrow> chain" where
  "new_chain frame_ms = \<lparr>ch_switch = new_switch frame_ms, ch_merger = new_merger MERGE_WAIT_MS, ch_sinks = [],
     ch_audio = None, ch_raw = None, ch_video = None, ch_headers = [], ch_video_rate = new_window,
     ch_audio_rate = new_window, ch_frames = 0, ch_keyframes = 0, ch_latency = 0, ch_last_video_at = None,
     ch_reads = 0, ch_attached = 0, ch_log = []\<rparr>"

text \<open>\<open>self.clock()\<close>.\<close>

definition read_clock :: "(nat \<Rightarrow> rat) \<Rightarrow> chain \<Rightarrow> chain \<times> rat" where
  "read_clock clock ch = (ch\<lparr>ch_reads := ch_reads ch + 1\<rparr>, clock (ch_reads ch))"

definition log_event :: "relay_event \<Rightarrow> chain \<Rightarrow> chain" where
  "log_event e ch = ch\<lparr>ch_log := ch_log ch @ [e]\<rparr>"

section \<open>Output\<close>

text \<open>\<open>_cluster\<close>: \<open>run\<close> is the cluster being collected, \<open>done\<close> what is written.\<close>

fun cluster_loop :: "block list \<Rightarrow> bytes \<Rightarrow> block list \<Rightarrow> bytes result" where
  "cluster_loop run out [] = bindE (encode_cluster run TRACK_MAP) (\<lambda>c. Inr (out @ c))"
| "cluster_loop run out (b # bs) =
     (if run \<noteq> [] \<and> MAX_CLUSTER_MS < bl_ts_ms b - bl_ts_ms (hd run)
      then bindE (encode_cluster run TRACK_MAP) (\<lambda>c. cluster_loop [b] (out @ c) bs)
      else cluster_loop (run @ [b]) out bs)"

definition clusters :: "block list \<Rightarrow> bytes result" where
  "clusters bs = cluster_loop [] [] bs"

definition is_video :: "block \<Rightarrow> bool" where
  "is_video b \<longleftrightarrow> bl_track b = TRACK_VIDEO"

definition write_blocks ::
    "answers \<Rightarrow> block list \<Rightarrow> attached \<Rightarrow> relay_event list \<Rightarrow> (attached \<times> relay_event list) result" where
  "write_blocks an blocks0 a lg =
     (let blocks = if at_raw_declared a then blocks0 else filter (\<lambda>b. bl_track b \<noteq> TRACK_RAW) blocks0
      in if blocks = [] then Inr (a, lg)
         else bindE (clusters blocks) (\<lambda>data.
           let videos = length (filter is_video blocks);
               key = is_video (hd blocks) \<and> bl_keyframe (hd blocks);
               accepted = an_writes an lg (at_id a) data;
               lg1 = lg @ [Write (at_id a) data videos key accepted]
           in if accepted
              then Inr (a\<lparr>at_bytes_out := at_bytes_out a + length data, at_clusters := at_clusters a + 1\<rparr>, lg1)
              else Inr (a\<lparr>at_started := False\<rparr>, lg1)))"

definition deliver_to ::
    "answers \<Rightarrow> track option \<Rightarrow> track option \<Rightarrow> track option \<Rightarrow> block list \<Rightarrow> attached \<Rightarrow> relay_event list
     \<Rightarrow> (attached \<times> relay_event list) result" where
  "deliver_to an video audio raw0 batch a lg =
     (if at_started a then write_blocks an batch a lg
      else case find is_video batch of
             None \<Rightarrow> Inr (a, lg)
           | Some keyframe \<Rightarrow>
               if \<not> bl_keyframe keyframe then Inr (a, lg)
               else let blocks = filter (\<lambda>b. bl_ts_ms keyframe \<le> bl_ts_ms b) batch;
                        raw = if at_wants_raw a then raw0 else None;
                        names = if raw \<noteq> None then RAW_LABELS else (\<lambda>_. [])
                    in bindE (stream_header video audio (ascii ''StreamStack'') raw names) (\<lambda>header.
                         let a1 = a\<lparr>at_raw_declared := raw \<noteq> None\<rparr>;
                             opened = an_opens an lg (at_id a1) header;
                             lg1 = lg @ [Open (at_id a1) header opened]
                         in if opened
                            then write_blocks an blocks
                                   (a1\<lparr>at_started := True, at_bytes_out := at_bytes_out a1 + length header\<rparr>) lg1
                            else Inr (a1, lg1)))"

fun deliver_all ::
    "answers \<Rightarrow> track option \<Rightarrow> track option \<Rightarrow> track option \<Rightarrow> block list \<Rightarrow> (string \<times> attached) list
     \<Rightarrow> relay_event list \<Rightarrow> ((string \<times> attached) list \<times> relay_event list) result" where
  "deliver_all an video audio raw batch [] lg = Inr ([], lg)"
| "deliver_all an video audio raw batch ((name, a) # sinks) lg =
     bindE (deliver_to an video audio raw batch a lg) (\<lambda>(a1, lg1).
     bindE (deliver_all an video audio raw batch sinks lg1) (\<lambda>(sinks1, lg2).
       Inr ((name, a1) # sinks1, lg2)))"

definition deliver :: "answers \<Rightarrow> block list \<Rightarrow> chain \<Rightarrow> chain result" where
  "deliver an batch ch =
     (if batch = [] \<or> ch_video ch = None then Inr ch
      else bindE (deliver_all an (ch_video ch) (ch_audio ch) (ch_raw ch) batch (ch_sinks ch) (ch_log ch))
             (\<lambda>(sinks, lg). Inr (ch\<lparr>ch_sinks := sinks, ch_log := lg\<rparr>)))"

text \<open>The loop of \<open>_pump\<close>: a keyframe starts a batch.\<close>

fun pump_loop :: "answers \<Rightarrow> block list \<Rightarrow> block list \<Rightarrow> chain \<Rightarrow> chain result" where
  "pump_loop an batch [] ch = deliver an batch ch"
| "pump_loop an batch (b # bs) ch =
     (if is_video b \<and> bl_keyframe b \<and> batch \<noteq> []
      then bindE (deliver an batch ch) (pump_loop an [b] bs)
      else pump_loop an (batch @ [b]) bs ch)"

definition pump :: "answers \<Rightarrow> rat \<Rightarrow> chain \<Rightarrow> chain result" where
  "pump an now ch =
     (let (m, blocks) = merger_poll (ch_merger ch) now; ch1 = ch\<lparr>ch_merger := m\<rparr>
      in if blocks = [] then Inr ch1 else pump_loop an [] blocks ch1)"

section \<open>Generations and geometry\<close>

text \<open>\<open>adopt_geometry\<close>: sinks that keep their stream are told of a new track entry, sinks that
  cannot change the picture in-band are closed and start again at the next keyframe.\<close>

fun tell_sinks :: "track \<Rightarrow> (string \<times> attached) list \<Rightarrow> relay_event list" where
  "tell_sinks t [] = []"
| "tell_sinks t ((_, a) # sinks) =
     (if sk_on_track (at_sink a) \<and> at_started a then [OnTrack (at_id a) t] else []) @ tell_sinks t sinks"

fun restart_sinks :: "(string \<times> attached) list \<Rightarrow> (string \<times> attached) list \<times> relay_event list" where
  "restart_sinks [] = ([], [])"
| "restart_sinks ((name, a) # sinks) =
     (let (sinks1, es) = restart_sinks sinks
      in if at_restart a then ((name, a\<lparr>at_started := False\<rparr>) # sinks1, Close (at_id a) # es)
         else ((name, a) # sinks1, es))"

definition same_geometry :: "track \<Rightarrow> track \<Rightarrow> bool" where
  "same_geometry t v \<longleftrightarrow> (tr_width t, tr_height t, tr_codec t) = (tr_width v, tr_height v, tr_codec v)"

definition adopt_geometry :: "nat \<Rightarrow> chain \<Rightarrow> chain" where
  "adopt_geometry gen ch =
     (case map_of (ch_headers ch) gen of
        None \<Rightarrow> ch
      | Some t \<Rightarrow>
          let changed = (case ch_video ch of None \<Rightarrow> False | Some v \<Rightarrow> \<not> same_geometry t v);
              retuned = (case ch_video ch of None \<Rightarrow> False | Some v \<Rightarrow> tr_raw t \<noteq> tr_raw v);
              ch1 = ch\<lparr>ch_video := Some t\<rparr>;
              ch2 = if retuned then ch1\<lparr>ch_log := ch_log ch1 @ tell_sinks t (ch_sinks ch1)\<rparr> else ch1
          in if changed
             then let (sinks, es) = restart_sinks (ch_sinks ch2)
                  in ch2\<lparr>ch_sinks := sinks, ch_log := ch_log ch2 @ es @ [OnGeometry t]\<rparr>
             else ch2)"

definition on_retire :: "nat \<Rightarrow> chain \<Rightarrow> chain" where
  "on_retire gen ch =
     log_event (OnRetire gen)
       (case tw_active (ch_switch ch) of
          None \<Rightarrow> ch | Some g \<Rightarrow> if g \<noteq> gen then adopt_geometry g ch else ch)"

definition on_video :: "(nat \<Rightarrow> rat) \<Rightarrow> block \<Rightarrow> chain \<Rightarrow> chain" where
  "on_video clock b ch0 =
     (let (ch, now) = read_clock clock ch0;
          frames = ch_frames ch + 1; sample = max 0 (now - of_int (bl_ts_ms b))
      in ch\<lparr>ch_frames := frames, ch_keyframes := ch_keyframes ch + (if bl_keyframe b then 1 else 0),
            ch_video_rate := window_add (ch_video_rate ch) now (length (bl_data b)),
            ch_last_video_at := Some now,
            ch_latency := (if frames = 1 then sample
                           else ch_latency ch + LATENCY_ALPHA * (sample - ch_latency ch)),
            ch_merger := merger_push (ch_merger ch) b now\<rparr>)"

text \<open>The switch's callbacks, in the order it makes them.\<close>

fun run_effects :: "(nat \<Rightarrow> rat) \<Rightarrow> switch_effect list \<Rightarrow> chain \<Rightarrow> chain" where
  "run_effects clock [] ch = ch"
| "run_effects clock (Emit b # es) ch = run_effects clock es (on_video clock b ch)"
| "run_effects clock (Retire g # es) ch = run_effects clock es (on_retire g ch)"

definition switch_does :: "(nat \<Rightarrow> rat) \<Rightarrow> track_switch \<times> switch_effect list \<Rightarrow> chain \<Rightarrow> chain" where
  "switch_does clock r ch = run_effects clock (snd r) (ch\<lparr>ch_switch := fst r\<rparr>)"

section \<open>Operations\<close>

definition set_audio :: "track option \<Rightarrow> chain \<Rightarrow> chain" where
  "set_audio t ch =
     (let ch1 = ch\<lparr>ch_audio := t\<rparr>
      in if t = None then ch1\<lparr>ch_merger := merger_ignore (ch_merger ch1) TRACK_AUDIO\<rparr> else ch1)"

definition set_raw :: "track option \<Rightarrow> chain \<Rightarrow> chain" where
  "set_raw t ch = ch\<lparr>ch_raw := t\<rparr>"

definition wants_raw :: "chain \<Rightarrow> bool" where
  "wants_raw ch \<longleftrightarrow> list_ex (\<lambda>(_, a). at_wants_raw a) (ch_sinks ch)"

definition raw_block :: "answers \<Rightarrow> (nat \<Rightarrow> rat) \<Rightarrow> block \<Rightarrow> chain \<Rightarrow> chain result" where
  "raw_block an clock b ch =
     (if ch_raw ch = None \<or> \<not> wants_raw ch then Inr ch
      else let (ch1, now) = read_clock clock ch
           in pump an now (ch1\<lparr>ch_merger := merger_push (ch_merger ch1) b now\<rparr>))"

definition generation_header :: "nat \<Rightarrow> track \<Rightarrow> chain \<Rightarrow> chain" where
  "generation_header gen t ch =
     (let ch1 = ch\<lparr>ch_headers := AList.update gen t (ch_headers ch)\<rparr>
      in if ch_video ch1 = None then ch1\<lparr>ch_video := Some t\<rparr> else ch1)"

definition video_block :: "answers \<Rightarrow> (nat \<Rightarrow> rat) \<Rightarrow> nat \<Rightarrow> block \<Rightarrow> chain \<Rightarrow> chain result" where
  "video_block an clock gen b ch =
     (let (ch1, now) = read_clock clock ch
      in pump an now (switch_does clock (on_block (ch_switch ch1) gen b now) ch1))"

definition audio_block :: "answers \<Rightarrow> (nat \<Rightarrow> rat) \<Rightarrow> block \<Rightarrow> chain \<Rightarrow> chain result" where
  "audio_block an clock b ch =
     (let (ch1, now) = read_clock clock ch
      in pump an now (ch1\<lparr>ch_audio_rate := window_add (ch_audio_rate ch1) now (length (bl_data b)),
                          ch_merger := merger_push (ch_merger ch1) b now\<rparr>))"

definition chain_tick :: "answers \<Rightarrow> (nat \<Rightarrow> rat) \<Rightarrow> chain \<Rightarrow> chain result" where
  "chain_tick an clock ch =
     (let (ch1, now) = read_clock clock ch
      in pump an now (switch_does clock (switch_tick (ch_switch ch1) now) ch1))"

definition chain_generation_ended :: "answers \<Rightarrow> (nat \<Rightarrow> rat) \<Rightarrow> nat \<Rightarrow> chain \<Rightarrow> chain result" where
  "chain_generation_ended an clock gen ch =
     (let ch1 = switch_does clock (generation_ended (ch_switch ch) gen) ch;
          (ch2, now) = read_clock clock ch1
      in pump an now ch2)"

definition chain_begin_swap :: "(nat \<Rightarrow> rat) \<Rightarrow> nat \<Rightarrow> int \<Rightarrow> chain \<Rightarrow> chain result" where
  "chain_begin_swap clock gen cut_ms ch =
     (let (ch1, now) = read_clock clock ch
      in bindE (begin_swap (ch_switch ch1) gen cut_ms now) (\<lambda>s. Inr (ch1\<lparr>ch_switch := s\<rparr>)))"

definition attach :: "sink \<Rightarrow> bool \<Rightarrow> bool \<Rightarrow> chain \<Rightarrow> chain" where
  "attach sk restart raw ch =
     ch\<lparr>ch_sinks := AList.update (sk_name sk)
          \<lparr>at_id = ch_attached ch, at_sink = sk, at_restart = restart, at_started = False, at_bytes_out = 0,
           at_clusters = 0, at_wants_raw = raw, at_raw_declared = False\<rparr> (ch_sinks ch),
        ch_attached := ch_attached ch + 1\<rparr>"

definition detach :: "string \<Rightarrow> chain \<Rightarrow> chain" where
  "detach name ch =
     (case map_of (ch_sinks ch) name of
        None \<Rightarrow> ch
      | Some a \<Rightarrow> log_event (Close (at_id a)) (ch\<lparr>ch_sinks := AList.delete name (ch_sinks ch)\<rparr>))"

definition chain_close :: "chain \<Rightarrow> chain" where
  "chain_close ch =
     ch\<lparr>ch_sinks := [], ch_log := ch_log ch @ map (\<lambda>(_, a). Close (at_id a)) (ch_sinks ch)\<rparr>"

section \<open>Runs\<close>

datatype chain_input =
    SetAudio "track option"
  | SetRaw "track option"
  | GenerationHeader nat track
  | VideoBlock nat block
  | AudioBlock block
  | RawBlock block
  | ChainTick
  | GenerationEnded nat
  | ChainActivate nat
  | ChainBeginSwap nat int
  | AdoptGeometry nat
  | Attach sink bool bool
  | Detach string
  | ChainClose

fun chain_step :: "answers \<Rightarrow> (nat \<Rightarrow> rat) \<Rightarrow> chain_input \<Rightarrow> chain \<Rightarrow> chain result" where
  "chain_step an clock (SetAudio t) ch = Inr (set_audio t ch)"
| "chain_step an clock (SetRaw t) ch = Inr (set_raw t ch)"
| "chain_step an clock (GenerationHeader g t) ch = Inr (generation_header g t ch)"
| "chain_step an clock (VideoBlock g b) ch = video_block an clock g b ch"
| "chain_step an clock (AudioBlock b) ch = audio_block an clock b ch"
| "chain_step an clock (RawBlock b) ch = raw_block an clock b ch"
| "chain_step an clock ChainTick ch = chain_tick an clock ch"
| "chain_step an clock (GenerationEnded g) ch = chain_generation_ended an clock g ch"
| "chain_step an clock (ChainActivate g) ch = Inr (ch\<lparr>ch_switch := activate (ch_switch ch) g\<rparr>)"
| "chain_step an clock (ChainBeginSwap g cut_ms) ch = chain_begin_swap clock g cut_ms ch"
| "chain_step an clock (AdoptGeometry g) ch = Inr (adopt_geometry g ch)"
| "chain_step an clock (Attach sk restart raw) ch = Inr (attach sk restart raw ch)"
| "chain_step an clock (Detach name) ch = Inr (detach name ch)"
| "chain_step an clock ChainClose ch = Inr (chain_close ch)"

fun chain_run :: "answers \<Rightarrow> (nat \<Rightarrow> rat) \<Rightarrow> chain_input list \<Rightarrow> chain \<Rightarrow> chain result" where
  "chain_run an clock [] ch = Inr ch"
| "chain_run an clock (i # is) ch = bindE (chain_step an clock i ch) (chain_run an clock is)"

section \<open>What a sink sees\<close>

text \<open>
  The protocol of the calls to one attached sink. \<open>Opened\<close> is a sink that took a header and no
  data yet: the first data must start at a video keyframe. A refused header or refused data leave it
  shut.
\<close>

datatype sink_phase = Shut | Opened | Streaming

fun phase_step :: "nat \<Rightarrow> sink_phase \<Rightarrow> relay_event \<Rightarrow> sink_phase option" where
  "phase_step n p (Open i _ ok) =
     (if i \<noteq> n then Some p else if p = Shut then Some (if ok then Opened else Shut) else None)"
| "phase_step n p (Write i _ _ key ok) =
     (if i \<noteq> n then Some p
      else if p = Shut \<or> (p = Opened \<and> \<not> key) then None
      else Some (if ok then Streaming else Shut))"
| "phase_step n p (Close i) = Some (if i \<noteq> n then p else Shut)"
| "phase_step n p (OnTrack i _) = (if i \<noteq> n \<or> p = Streaming then Some p else None)"
| "phase_step n p (OnRetire _) = Some p"
| "phase_step n p (OnGeometry _) = Some p"

fun phase_run :: "nat \<Rightarrow> sink_phase \<Rightarrow> relay_event list \<Rightarrow> sink_phase option" where
  "phase_run n p [] = Some p"
| "phase_run n p (e # es) = (case phase_step n p e of None \<Rightarrow> None | Some p' \<Rightarrow> phase_run n p' es)"

definition phase_of :: "nat \<Rightarrow> relay_event list \<Rightarrow> sink_phase option" where
  "phase_of n lg = phase_run n Shut lg"

lemma phase_run_append:
  "phase_run n p (es @ es') = (case phase_run n p es of None \<Rightarrow> None | Some p' \<Rightarrow> phase_run n p' es')"
  by (induction es arbitrary: p) (auto split: option.splits)

lemma phase_of_append:
  "phase_of n (lg @ es) = (case phase_of n lg of None \<Rightarrow> None | Some p \<Rightarrow> phase_run n p es)"
  by (simp add: phase_of_def phase_run_append)

fun event_id :: "relay_event \<Rightarrow> nat option" where
  "event_id (Open i _ _) = Some i"
| "event_id (Write i _ _ _ _) = Some i"
| "event_id (Close i) = Some i"
| "event_id (OnTrack i _) = Some i"
| "event_id (OnRetire _) = None"
| "event_id (OnGeometry _) = None"

lemma phase_step_other: "event_id e \<noteq> Some n \<Longrightarrow> phase_step n p e = Some p"
  by (cases e) auto

lemma phase_run_other: "(\<And>e. e \<in> set es \<Longrightarrow> event_id e \<noteq> Some n) \<Longrightarrow> phase_run n p es = Some p"
  by (induction es) (auto simp: phase_step_other)

definition started_phase :: "bool \<Rightarrow> sink_phase" where
  "started_phase s = (if s then Streaming else Shut)"

text \<open>
  The invariant: attachments are told apart by their ids, each is where its log says it is, and the
  log of an id no longer or not yet in use is well-formed too.
\<close>

definition sinks_ok :: "(string \<times> attached) list \<Rightarrow> relay_event list \<Rightarrow> bool" where
  "sinks_ok sinks lg \<longleftrightarrow>
     distinct (map (at_id \<circ> snd) sinks) \<and>
     (\<forall>(name, a)\<in>set sinks. phase_of (at_id a) lg = Some (started_phase (at_started a))) \<and>
     (\<forall>n. phase_of n lg \<noteq> None)"

definition chain_inv :: "chain \<Rightarrow> bool" where
  "chain_inv ch \<longleftrightarrow>
     sinks_ok (ch_sinks ch) (ch_log ch) \<and> distinct (map fst (ch_sinks ch)) \<and>
     (\<forall>(name, a)\<in>set (ch_sinks ch). at_id a < ch_attached ch) \<and>
     (\<forall>n\<ge>ch_attached ch. phase_of n (ch_log ch) = Some Shut)"

text \<open>Batches are cut before each keyframe: a keyframe is nowhere but at the head.\<close>

definition keyed :: "block list \<Rightarrow> bool" where
  "keyed batch \<longleftrightarrow> (\<forall>b\<in>set (tl batch). \<not> (is_video b \<and> bl_keyframe b))"

lemma write_blocks_phase:
  assumes "write_blocks an blocks a lg = Inr (a', lg')"
    and "phase_of (at_id a) lg = Some p" and "at_started a"
    and "p = Streaming \<or> p = Opened \<and> blocks \<noteq> [] \<and> is_video (hd blocks) \<and> bl_keyframe (hd blocks)"
  shows "\<exists>es. lg' = lg @ es \<and> (\<forall>e\<in>set es. event_id e = Some (at_id a)) \<and> at_id a' = at_id a \<and>
    phase_of (at_id a) lg' = Some (started_phase (at_started a'))"
proof -
  define bs where "bs = (if at_raw_declared a then blocks else filter (\<lambda>b. bl_track b \<noteq> TRACK_RAW) blocks)"
  have keep: "bs \<noteq> [] \<and> hd bs = hd blocks" if "blocks \<noteq> []" "is_video (hd blocks)"
    using that by (cases blocks) (auto simp: bs_def is_video_def TRACK_VIDEO_def TRACK_RAW_def)
  show ?thesis
  proof (cases "bs = []")
    case True
    with assms keep show ?thesis by (auto simp: write_blocks_def bs_def [symmetric] started_phase_def)
  next
    case False
    let ?key = "is_video (hd bs) \<and> bl_keyframe (hd bs)"
    obtain data where data: "clusters bs = Inr data"
      using assms(1) False by (auto simp: write_blocks_def bs_def [symmetric] Let_def)
    define ok where "ok = an_writes an lg (at_id a) data"
    define e where "e = Write (at_id a) data (length (filter is_video bs)) ?key ok"
    have res: "lg' = lg @ [e]" "at_id a' = at_id a" "at_started a' = ok"
      using assms(1,3) False data
      by (auto simp: write_blocks_def bs_def [symmetric] Let_def e_def ok_def split: if_splits)
    have "p = Streaming \<or> p = Opened \<and> ?key" using assms(4) keep by auto
    then show ?thesis using assms(2) by (auto simp: res e_def phase_of_append started_phase_def)
  qed
qed

lemma deliver_to_phase:
  assumes "deliver_to an video audio raw batch a lg = Inr (a', lg')" and "keyed batch" and "batch \<noteq> []"
    and inv: "phase_of (at_id a) lg = Some (started_phase (at_started a))"
  shows "\<exists>es. lg' = lg @ es \<and> (\<forall>e\<in>set es. event_id e = Some (at_id a)) \<and> at_id a' = at_id a \<and>
    phase_of (at_id a) lg' = Some (started_phase (at_started a'))"
proof (cases "at_started a")
  case True
  with assms(1) have "write_blocks an batch a lg = Inr (a', lg')" by (simp add: deliver_to_def)
  from write_blocks_phase [OF this inv True] True show ?thesis by (simp add: started_phase_def)
next
  case False
  then have shut: "phase_of (at_id a) lg = Some Shut" using inv by (simp add: started_phase_def)
  show ?thesis
  proof (cases "\<exists>k. find is_video batch = Some k \<and> bl_keyframe k")
    case False
    with assms(1) \<open>\<not> at_started a\<close> shut show ?thesis
      by (auto simp: deliver_to_def started_phase_def split: option.splits)
  next
    case True
    then obtain k where k: "find is_video batch = Some k" "bl_keyframe k" by auto
    then have "k \<in> set batch" "is_video k" by (auto simp: find_Some_iff)
    then have hd_k: "hd batch = k" using assms(2,3) k(2) by (cases batch) (auto simp: keyed_def)
    define blocks where "blocks = filter (\<lambda>b. bl_ts_ms k \<le> bl_ts_ms b) batch"
    have first: "blocks \<noteq> []" "hd blocks = k" using hd_k assms(3) by (cases batch; auto simp: blocks_def)+
    define rw where "rw = (if at_wants_raw a then raw else None)"
    obtain header where header:
      "stream_header video audio (ascii ''StreamStack'') rw (if rw \<noteq> None then RAW_LABELS else (\<lambda>_. [])) = Inr header"
      using assms(1) False k by (auto simp: deliver_to_def Let_def rw_def split: option.splits)
    define a1 where "a1 = a\<lparr>at_raw_declared := rw \<noteq> None\<rparr>"
    define opened where "opened = an_opens an lg (at_id a) header"
    define lg1 where "lg1 = lg @ [Open (at_id a) header opened]"
    define a2 where "a2 = a1\<lparr>at_started := True, at_bytes_out := at_bytes_out a1 + length header\<rparr>"
    have eq: "deliver_to an video audio raw batch a lg =
        (if opened then write_blocks an blocks a2 lg1 else Inr (a1, lg1))"
      unfolding deliver_to_def using False k header
      by (simp add: Let_def rw_def [symmetric] a1_def a2_def opened_def lg1_def blocks_def)
    show ?thesis
    proof (cases opened)
      case True
      have "phase_of (at_id a2) lg1 = Some Opened"
        using shut True by (simp add: lg1_def phase_of_append a2_def a1_def)
      moreover have "write_blocks an blocks a2 lg1 = Inr (a', lg')" using eq True assms(1) by simp
      moreover have "at_started a2" "at_id a2 = at_id a" by (simp_all add: a2_def a1_def)
      ultimately obtain es where "lg' = lg1 @ es" "\<forall>e\<in>set es. event_id e = Some (at_id a)" "at_id a' = at_id a"
          "phase_of (at_id a) lg' = Some (started_phase (at_started a'))"
        using write_blocks_phase first k(2) \<open>is_video k\<close> by metis
      then show ?thesis by (auto simp: lg1_def)
    next
      case False
      with eq assms(1) shut \<open>\<not> at_started a\<close> show ?thesis
        by (auto simp: lg1_def a1_def phase_of_append started_phase_def)
    qed
  qed
qed

lemma deliver_all_ids:
  assumes "deliver_all an video audio raw batch sinks lg = Inr (sinks', lg')" and "keyed batch" and "batch \<noteq> []"
    and "distinct (map (at_id \<circ> snd) sinks)"
    and "\<forall>(name, a)\<in>set sinks. phase_of (at_id a) lg = Some (started_phase (at_started a))"
  shows "map (\<lambda>(name, a). (name, at_id a)) sinks' = map (\<lambda>(name, a). (name, at_id a)) sinks \<and>
    (\<forall>(name, a)\<in>set sinks'. phase_of (at_id a) lg' = Some (started_phase (at_started a))) \<and>
    (\<forall>n. n \<notin> (at_id \<circ> snd) ` set sinks \<longrightarrow> phase_of n lg' = phase_of n lg)"
  using assms
proof (induction sinks arbitrary: lg sinks' lg')
  case Nil
  then show ?case by simp
next
  case (Cons x sinks)
  obtain name a where x: "x = (name, a)" by (rule prod.exhaust)
  obtain a1 lg1 where one: "deliver_to an video audio raw batch a lg = Inr (a1, lg1)"
    and rest': "\<exists>sinks1. deliver_all an video audio raw batch sinks lg1 = Inr (sinks1, lg') \<and> sinks' = (name, a1) # sinks1"
    using Cons.prems(1) by (auto simp: x split: prod.splits)
  then obtain sinks1 where rest: "deliver_all an video audio raw batch sinks lg1 = Inr (sinks1, lg')"
    and sinks': "sinks' = (name, a1) # sinks1" by auto
  obtain es where es: "lg1 = lg @ es" "\<forall>e\<in>set es. event_id e = Some (at_id a)" "at_id a1 = at_id a"
      "phase_of (at_id a) lg1 = Some (started_phase (at_started a1))"
    using deliver_to_phase [OF one Cons.prems(2,3)] Cons.prems(5) by (auto simp: x)
  have other: "phase_of n lg1 = phase_of n lg" if "n \<noteq> at_id a" for n
  proof -
    have "phase_run n p es = Some p" for p using es(2) that by (intro phase_run_other) auto
    then show ?thesis by (simp add: es(1) phase_of_append split: option.splits)
  qed
  have "\<forall>(name, b)\<in>set sinks. phase_of (at_id b) lg1 = Some (started_phase (at_started b))"
  proof (clarify)
    fix name' b assume b: "(name', b) \<in> set sinks"
    with Cons.prems(4) have "at_id b \<noteq> at_id a" by (force simp: x)
    with b other Cons.prems(5) show "phase_of (at_id b) lg1 = Some (started_phase (at_started b))" by auto
  qed
  note IH = Cons.IH [OF rest Cons.prems(2,3) _ this]
  have "phase_of (at_id a) lg' = phase_of (at_id a) lg1"
    using IH Cons.prems(4) by (auto simp: x)
  then show ?case using IH Cons.prems(4) es(3,4) other by (auto simp: x sinks')
qed

lemma ids_of_pairs:
  assumes "map (\<lambda>(name, a). (name, at_id a)) sinks' = map (\<lambda>(name, a). (name, at_id a)) sinks"
  shows "map (at_id \<circ> snd) sinks' = map (at_id \<circ> snd) sinks" and "map fst sinks' = map fst sinks"
  using arg_cong [OF assms, of "map snd"] arg_cong [OF assms, of "map fst"]
  by (simp_all add: comp_def case_prod_beta)

text \<open>An operation that touches the sinks like a delivery keeps the invariant.\<close>

lemma chain_inv_update:
  assumes inv: "chain_inv ch"
    and ids: "map (\<lambda>(name, a). (name, at_id a)) sinks' = map (\<lambda>(name, a). (name, at_id a)) (ch_sinks ch)"
    and phases: "\<forall>(name, a)\<in>set sinks'. phase_of (at_id a) lg' = Some (started_phase (at_started a))"
    and others: "\<forall>n. n \<notin> (at_id \<circ> snd) ` set (ch_sinks ch) \<longrightarrow> phase_of n lg' = phase_of n (ch_log ch)"
    and ch': "ch_sinks ch' = sinks'" "ch_log ch' = lg'" "ch_attached ch' = ch_attached ch"
  shows "chain_inv ch'"
proof -
  have idset: "(at_id \<circ> snd) ` set sinks' = (at_id \<circ> snd) ` set (ch_sinks ch)"
    using arg_cong [OF ids_of_pairs(1) [OF ids], of set] by simp
  have "phase_of n lg' \<noteq> None" for n
  proof (cases "n \<in> (at_id \<circ> snd) ` set sinks'")
    case True
    then show ?thesis using phases by fastforce
  next
    case False
    then show ?thesis using others inv idset by (simp add: chain_inv_def sinks_ok_def)
  qed
  moreover have "at_id a < ch_attached ch" if "(name, a) \<in> set sinks'" for name a
  proof -
    have "at_id a \<in> (at_id \<circ> snd) ` set (ch_sinks ch)" using that idset by force
    then show ?thesis using inv by (fastforce simp: chain_inv_def)
  qed
  moreover have "phase_of n lg' = Some Shut" if "ch_attached ch \<le> n" for n
  proof -
    have "n \<notin> (at_id \<circ> snd) ` set (ch_sinks ch)" using inv that by (fastforce simp: chain_inv_def)
    then show ?thesis using others inv that by (simp add: chain_inv_def)
  qed
  ultimately show ?thesis
    using inv ids_of_pairs [OF ids] phases
    by (auto simp: chain_inv_def sinks_ok_def ch')
qed

lemma deliver_inv:
  assumes "deliver an batch ch = Inr ch'" and "keyed batch" and "chain_inv ch"
  shows "chain_inv ch'"
proof (cases "batch = [] \<or> ch_video ch = None")
  case True
  with assms show ?thesis by (auto simp: deliver_def)
next
  case False
  then obtain sinks' lg' where all:
    "deliver_all an (ch_video ch) (ch_audio ch) (ch_raw ch) batch (ch_sinks ch) (ch_log ch) = Inr (sinks', lg')"
    and ch': "ch' = ch\<lparr>ch_sinks := sinks', ch_log := lg'\<rparr>"
    using assms(1) by (auto simp: deliver_def)
  have "distinct (map (at_id \<circ> snd) (ch_sinks ch))"
    "\<forall>(name, a)\<in>set (ch_sinks ch). phase_of (at_id a) (ch_log ch) = Some (started_phase (at_started a))"
    using assms(3) by (simp_all add: chain_inv_def sinks_ok_def)
  from deliver_all_ids [OF all assms(2) _ this] False
  show ?thesis by (intro chain_inv_update [OF assms(3), of sinks' lg']) (auto simp: ch')
qed

lemma keyed_snoc: "keyed batch \<Longrightarrow> \<not> (is_video b \<and> bl_keyframe b \<and> batch \<noteq> []) \<Longrightarrow> keyed (batch @ [b])"
  by (cases batch) (auto simp: keyed_def)

lemma pump_loop_inv:
  "pump_loop an batch bs ch = Inr ch' \<Longrightarrow> keyed batch \<Longrightarrow> chain_inv ch \<Longrightarrow> chain_inv ch'"
proof (induction bs arbitrary: batch ch)
  case Nil
  then show ?case using deliver_inv by simp
next
  case (Cons b bs)
  show ?case
  proof (cases "is_video b \<and> bl_keyframe b \<and> batch \<noteq> []")
    case True
    with Cons.prems(1) obtain ch1 where "deliver an batch ch = Inr ch1" "pump_loop an [b] bs ch1 = Inr ch'"
      by auto
    with Cons show ?thesis using deliver_inv by (auto simp: keyed_def)
  next
    case False
    with Cons.prems Cons.IH keyed_snoc [OF Cons.prems(2) False] show ?thesis by (auto split: if_splits)
  qed
qed

lemma chain_inv_cong:
  "chain_inv ch \<Longrightarrow> ch_sinks ch' = ch_sinks ch \<Longrightarrow> ch_log ch' = ch_log ch \<Longrightarrow>
    ch_attached ch' = ch_attached ch \<Longrightarrow> chain_inv ch'"
  by (simp add: chain_inv_def)

lemma pump_inv: "pump an now ch = Inr ch' \<Longrightarrow> chain_inv ch \<Longrightarrow> chain_inv ch'"
proof -
  assume p: "pump an now ch = Inr ch'" and inv: "chain_inv ch"
  obtain m blocks where poll: "merger_poll (ch_merger ch) now = (m, blocks)" by (rule prod.exhaust)
  have "chain_inv (ch\<lparr>ch_merger := m\<rparr>)" using inv by (rule chain_inv_cong) simp_all
  with p poll show "chain_inv ch'"
    using pump_loop_inv [of an "[]" blocks] by (auto simp: pump_def keyed_def Let_def split: if_splits)
qed

section \<open>The other operations keep it too\<close>

lemma tell_sinks_ids: "e \<in> set (tell_sinks t sinks) \<Longrightarrow> \<exists>(name, a)\<in>set sinks. e = OnTrack (at_id a) t \<and> at_started a"
  by (induction t sinks rule: tell_sinks.induct) (auto split: if_splits)

lemma phase_run_told:
  "(\<And>e. e \<in> set es \<Longrightarrow> event_id e = Some n \<Longrightarrow> p = Streaming \<and> (\<exists>t. e = OnTrack n t)) \<Longrightarrow>
    phase_run n p es = Some p"
proof (induction es)
  case (Cons e es)
  have "phase_step n p e = Some p"
    using Cons.prems [of e] by (cases "event_id e = Some n") (auto simp: phase_step_other)
  moreover have "phase_run n p es = Some p" by (rule Cons.IH) (rule Cons.prems, simp_all)
  ultimately show ?case by simp
qed simp

lemma sinks_inj:
  assumes "distinct (map (at_id \<circ> snd) sinks)" and "(name, a) \<in> set sinks" and "(name', b) \<in> set sinks"
    and "at_id a = at_id b"
  shows "a = b"
  using assms by (induction sinks) (force)+

lemma tell_sinks_inv:
  assumes inv: "chain_inv ch"
  shows "chain_inv (ch\<lparr>ch_log := ch_log ch @ tell_sinks t (ch_sinks ch)\<rparr>)"
proof -
  let ?es = "tell_sinks t (ch_sinks ch)"
  have dist: "distinct (map (at_id \<circ> snd) (ch_sinks ch))" using inv by (simp add: chain_inv_def sinks_ok_def)
  have same: "phase_of n (ch_log ch @ ?es) = phase_of n (ch_log ch)" for n
  proof (cases "phase_of n (ch_log ch)")
    case (Some p)
    have "p = Streaming \<and> (\<exists>t. e = OnTrack n t)" if e: "e \<in> set ?es" and n: "event_id e = Some n" for e
    proof -
      obtain name a where a: "(name, a) \<in> set (ch_sinks ch)" "e = OnTrack (at_id a) t" "at_started a"
        using tell_sinks_ids [OF e] by auto
      with n have "n = at_id a" by simp
      with a inv Some show ?thesis by (fastforce simp: chain_inv_def sinks_ok_def started_phase_def)
    qed
    then have "phase_run n p ?es = Some p" by (rule phase_run_told)
    with Some show ?thesis by (simp add: phase_of_append)
  qed (simp add: phase_of_append)
  show ?thesis using inv by (simp add: chain_inv_def sinks_ok_def same)
qed

lemma restart_sinks_ids:
  "restart_sinks sinks = (sinks', es) \<Longrightarrow>
    map (\<lambda>(name, a). (name, at_id a)) sinks' = map (\<lambda>(name, a). (name, at_id a)) sinks \<and>
    (\<forall>e\<in>set es. \<exists>(name, a)\<in>set sinks. e = Close (at_id a)) \<and>
    (\<forall>(name, a)\<in>set sinks'. (name, a) \<in> set sinks \<and> \<not> at_restart a \<or>
       \<not> at_started a \<and> Close (at_id a) \<in> set es)"
  by (induction sinks arbitrary: sinks' es rule: restart_sinks.induct) (fastforce split: prod.splits if_splits)+

lemma phase_run_closed:
  "(\<And>e. e \<in> set es \<Longrightarrow> event_id e = Some n \<Longrightarrow> e = Close n) \<Longrightarrow>
    phase_run n p es = Some (if Close n \<in> set es then Shut else p)"
proof (induction es arbitrary: p)
  case (Cons e es)
  have IH: "phase_run n q es = Some (if Close n \<in> set es then Shut else q)" for q
    by (rule Cons.IH) (rule Cons.prems, simp_all)
  show ?case
  proof (cases "event_id e = Some n")
    case True
    then have "e = Close n" by (intro Cons.prems) simp_all
    then show ?thesis by (simp add: IH)
  next
    case False
    then have "e \<noteq> Close n" by auto
    with False show ?thesis by (simp add: phase_step_other IH)
  qed
qed simp

lemma restart_sinks_closes:
  "restart_sinks sinks = (sinks', es) \<Longrightarrow>
    Close n \<in> set es \<longleftrightarrow> (\<exists>(name, a)\<in>set sinks. at_restart a \<and> at_id a = n)"
  by (induction sinks arbitrary: sinks' es rule: restart_sinks.induct) (fastforce split: prod.splits if_splits)+

lemma restart_sinks_inv:
  assumes inv: "chain_inv ch" and re: "restart_sinks (ch_sinks ch) = (sinks', es)"
  shows "chain_inv (ch\<lparr>ch_sinks := sinks', ch_log := ch_log ch @ es @ [OnGeometry t]\<rparr>)"
proof -
  have dist: "distinct (map (at_id \<circ> snd) (ch_sinks ch))" using inv by (simp add: chain_inv_def sinks_ok_def)
  have phase: "phase_of n (ch_log ch @ es @ [OnGeometry t]) =
      (if Close n \<in> set es then Some Shut else phase_of n (ch_log ch))" for n
  proof -
    have "e = Close n" if "e \<in> set es" "event_id e = Some n" for e
      using restart_sinks_ids [OF re] that by fastforce
    then have "phase_run n p es = Some (if Close n \<in> set es then Shut else p)" for p
      by (rule phase_run_closed)
    moreover have "phase_of n (ch_log ch) \<noteq> None" using inv by (simp add: chain_inv_def sinks_ok_def)
    ultimately show ?thesis by (auto simp: phase_of_append phase_run_append)
  qed
  show ?thesis
  proof (rule chain_inv_update [OF inv])
    show "map (\<lambda>(name, a). (name, at_id a)) sinks' = map (\<lambda>(name, a). (name, at_id a)) (ch_sinks ch)"
      using restart_sinks_ids [OF re] by simp
    show "\<forall>(name, a)\<in>set sinks'. phase_of (at_id a) (ch_log ch @ es @ [OnGeometry t]) =
        Some (started_phase (at_started a))"
    proof (clarify)
      fix name a assume a: "(name, a) \<in> set sinks'"
      show "phase_of (at_id a) (ch_log ch @ es @ [OnGeometry t]) = Some (started_phase (at_started a))"
      proof (cases "\<not> at_started a \<and> Close (at_id a) \<in> set es")
        case True
        then show ?thesis by (simp add: phase started_phase_def)
      next
        case False
        then have kept: "(name, a) \<in> set (ch_sinks ch)" "\<not> at_restart a"
          using restart_sinks_ids [OF re] a by auto
        then have "Close (at_id a) \<notin> set es"
          using restart_sinks_closes [OF re, of "at_id a"]
          by (auto dest: sinks_inj [OF dist kept(1) _ sym])
        then show ?thesis using kept(1) inv by (auto simp: phase chain_inv_def sinks_ok_def)
      qed
    qed
    show "\<forall>n. n \<notin> (at_id \<circ> snd) ` set (ch_sinks ch) \<longrightarrow>
        phase_of n (ch_log ch @ es @ [OnGeometry t]) = phase_of n (ch_log ch)"
      using restart_sinks_closes [OF re] by (force simp: phase)
  qed simp_all
qed

lemma adopt_geometry_inv:
  assumes "chain_inv ch" shows "chain_inv (adopt_geometry gen ch)"
proof -
  have video: "chain_inv (c\<lparr>ch_video := v\<rparr>)" if "chain_inv c" for c v
    using that by (rule chain_inv_cong) simp_all
  have told: "chain_inv (ch\<lparr>ch_video := v, ch_log := ch_log ch @ tell_sinks t (ch_sinks ch)\<rparr>)" for v t
    using tell_sinks_inv [OF video [OF assms, of v], of t] by simp
  have final: "chain_inv (case restart_sinks (ch_sinks c) of (sinks, es) \<Rightarrow>
      c\<lparr>ch_sinks := sinks, ch_log := ch_log c @ es @ [OnGeometry t]\<rparr>)" if "chain_inv c" for c t
    using restart_sinks_inv [OF that] by (simp split: prod.splits)
  show ?thesis
    using final [OF told] final [OF video [OF assms]] told video [OF assms] assms
    by (auto simp: adopt_geometry_def Let_def split: option.splits)
qed

lemma log_event_inv: "chain_inv ch \<Longrightarrow> event_id e = None \<Longrightarrow> chain_inv (log_event e ch)"
  by (cases e) (auto simp: chain_inv_def sinks_ok_def log_event_def phase_of_append split: option.splits)

lemma on_retire_inv: "chain_inv ch \<Longrightarrow> chain_inv (on_retire gen ch)"
  using log_event_inv adopt_geometry_inv by (auto simp: on_retire_def split: option.splits)

lemma on_video_inv: "chain_inv ch \<Longrightarrow> chain_inv (on_video clock b ch)"
  by (erule chain_inv_cong) (simp_all add: on_video_def read_clock_def Let_def)

lemma run_effects_inv: "chain_inv ch \<Longrightarrow> chain_inv (run_effects clock es ch)"
  by (induction clock es ch rule: run_effects.induct) (simp_all add: on_video_inv on_retire_inv)

lemma switch_does_inv:
  assumes "chain_inv ch" shows "chain_inv (switch_does clock r ch)"
proof -
  have "chain_inv (ch\<lparr>ch_switch := fst r\<rparr>)" using assms by (rule chain_inv_cong) simp_all
  then show ?thesis by (simp add: switch_does_def run_effects_inv)
qed

lemma set_update_subset: "set (AList.update k v al) \<subseteq> insert (k, v) (set al)"
  by (induction al) auto

lemma distinct_ids_update:
  "distinct (map (at_id \<circ> snd) al) \<Longrightarrow> at_id a \<notin> (at_id \<circ> snd) ` set al \<Longrightarrow>
    distinct (map (at_id \<circ> snd) (AList.update name a al))"
proof (induction al)
  case (Cons x al)
  have "(at_id \<circ> snd) ` set (AList.update name a al) \<subseteq> insert (at_id a) ((at_id \<circ> snd) ` set al)"
    using image_mono [OF set_update_subset, of "at_id \<circ> snd" name a al] by simp
  with Cons show ?case by (cases x) auto
qed simp

lemma attach_inv:
  assumes "chain_inv ch" shows "chain_inv (attach sk restart raw ch)"
proof -
  define a where "a = \<lparr>at_id = ch_attached ch, at_sink = sk, at_restart = restart, at_started = False,
    at_bytes_out = 0, at_clusters = 0, at_wants_raw = raw, at_raw_declared = False\<rparr>"
  let ?sinks = "AList.update (sk_name sk) a (ch_sinks ch)"
  have new: "at_id a = ch_attached ch" "\<not> at_started a" by (simp_all add: a_def)
  have low: "at_id b < ch_attached ch" if "(name, b) \<in> set (ch_sinks ch)" for name b
    using assms that by (auto simp: chain_inv_def)
  have "at_id a \<notin> (at_id \<circ> snd) ` set (ch_sinks ch)" using low new by force
  then have ids: "distinct (map (at_id \<circ> snd) ?sinks)"
    using assms by (intro distinct_ids_update) (simp_all add: chain_inv_def sinks_ok_def)
  have names: "distinct (map fst ?sinks)" using assms by (simp add: chain_inv_def distinct_update)
  have "phase_of (at_id b) (ch_log ch) = Some (started_phase (at_started b)) \<and> at_id b < ch_attached ch + 1"
    if "(name, b) \<in> set ?sinks" for name b
  proof -
    have "(name, b) = (sk_name sk, a) \<or> (name, b) \<in> set (ch_sinks ch)" using that set_update_subset by fastforce
    then show ?thesis
    proof
      assume "(name, b) = (sk_name sk, a)"
      then show ?thesis using assms new by (simp add: chain_inv_def started_phase_def)
    next
      assume b: "(name, b) \<in> set (ch_sinks ch)"
      with low [OF b] assms show ?thesis by (auto simp: chain_inv_def sinks_ok_def)
    qed
  qed
  then show ?thesis
    using assms ids names unfolding attach_def a_def [symmetric]
    by (auto simp: chain_inv_def sinks_ok_def)
qed

text \<open>Dropping attachments, each of which is closed.\<close>

lemma drop_sinks_inv:
  assumes inv: "chain_inv ch" and sub: "set sinks' \<subseteq> set (ch_sinks ch)"
    and dist: "distinct (map (at_id \<circ> snd) sinks')" "distinct (map fst sinks')"
    and closed: "\<And>e. e \<in> set es \<Longrightarrow> \<exists>n. e = Close n \<and> n \<notin> (at_id \<circ> snd) ` set sinks'"
  shows "chain_inv (ch\<lparr>ch_sinks := sinks', ch_log := ch_log ch @ es\<rparr>)"
proof -
  have phase: "phase_of n (ch_log ch @ es) = (if Close n \<in> set es then Some Shut else phase_of n (ch_log ch))" for n
  proof -
    have "phase_run n p es = Some (if Close n \<in> set es then Shut else p)" for p
      using closed by (intro phase_run_closed) force
    moreover have "phase_of n (ch_log ch) \<noteq> None" using inv by (simp add: chain_inv_def sinks_ok_def)
    ultimately show ?thesis by (auto simp: phase_of_append)
  qed
  have "Close (at_id a) \<notin> set es" if "(name, a) \<in> set sinks'" for name a
    using closed that by force
  then show ?thesis
    using inv sub dist by (fastforce simp: chain_inv_def sinks_ok_def phase)
qed

lemma distinct_map_filter_al: "distinct (map f al) \<Longrightarrow> distinct (map f (AList.delete k al))"
  by (simp add: AList.delete_eq distinct_map_filter)

lemma detach_inv:
  assumes "chain_inv ch" shows "chain_inv (detach name ch)"
proof (cases "map_of (ch_sinks ch) name")
  case None
  then show ?thesis using assms by (simp add: detach_def)
next
  case (Some a)
  let ?sinks = "AList.delete name (ch_sinks ch)"
  have dist: "distinct (map (at_id \<circ> snd) (ch_sinks ch))" "distinct (map fst (ch_sinks ch))"
    using assms by (simp_all add: chain_inv_def sinks_ok_def)
  have a: "(name, a) \<in> set (ch_sinks ch)" using Some by (rule map_of_SomeD)
  have "at_id a \<notin> (at_id \<circ> snd) ` set ?sinks"
  proof
    assume "at_id a \<in> (at_id \<circ> snd) ` set ?sinks"
    then obtain name' b where b: "(name', b) \<in> set ?sinks" "at_id b = at_id a" by force
    then have "(name', b) \<in> set (ch_sinks ch)" "name' \<noteq> name" by (auto simp: AList.delete_eq)
    with dist(1) a b(2) show False
      by (metis (no_types, lifting) comp_apply distinct_map inj_onD prod.inject snd_conv)
  qed
  then have "chain_inv (ch\<lparr>ch_sinks := ?sinks, ch_log := ch_log ch @ [Close (at_id a)]\<rparr>)"
    using distinct_map_filter_al [OF dist(1)] distinct_map_filter_al [OF dist(2)]
    by (intro drop_sinks_inv [OF assms]) (auto simp: AList.delete_eq)
  then show ?thesis using Some by (simp add: detach_def log_event_def)
qed

lemma chain_close_inv: "chain_inv ch \<Longrightarrow> chain_inv (chain_close ch)"
  unfolding chain_close_def by (rule drop_sinks_inv) auto

lemma chain_step_inv:
  assumes "chain_step an clock i ch = Inr ch'" and inv: "chain_inv ch"
  shows "chain_inv ch'"
proof -
  have read: "chain_inv (fst (read_clock clock c))" if "chain_inv c" for c
    using that by (rule chain_inv_cong) (simp_all add: read_clock_def)
  have fields: "chain_inv (c\<lparr>ch_merger := m\<rparr>)" "chain_inv (c\<lparr>ch_audio_rate := w, ch_merger := m\<rparr>)"
      "chain_inv (c\<lparr>ch_switch := sw\<rparr>)" "chain_inv (c\<lparr>ch_audio := t\<rparr>)" "chain_inv (c\<lparr>ch_raw := t\<rparr>)"
      "chain_inv (c\<lparr>ch_headers := h\<rparr>)" "chain_inv (c\<lparr>ch_headers := h, ch_video := t\<rparr>)"
      "chain_inv (c\<lparr>ch_audio := t, ch_merger := m\<rparr>)"
    if "chain_inv c" for c m w sw t h
    using that by (rule chain_inv_cong; simp)+
  show ?thesis
  proof (cases i)
    case (VideoBlock g b)
    with assms read [OF inv] show ?thesis
      by (auto simp: video_block_def case_prod_beta Let_def intro: pump_inv switch_does_inv)
  next
    case (AudioBlock b)
    with assms read [OF inv] show ?thesis
      by (auto simp: audio_block_def case_prod_beta Let_def intro: pump_inv fields)
  next
    case (RawBlock b)
    with assms read [OF inv] show ?thesis
      by (auto simp: raw_block_def case_prod_beta Let_def split: if_splits intro: pump_inv fields)
  next
    case ChainTick
    with assms read [OF inv] show ?thesis
      by (auto simp: chain_tick_def case_prod_beta Let_def intro: pump_inv switch_does_inv)
  next
    case (GenerationEnded g)
    with assms read [OF switch_does_inv [OF inv, of clock "generation_ended (ch_switch ch) g"]] show ?thesis
      by (auto simp: chain_generation_ended_def case_prod_beta Let_def intro: pump_inv)
  next
    case (ChainBeginSwap g cut_ms)
    with assms read [OF inv] show ?thesis
      by (auto simp: chain_begin_swap_def case_prod_beta Let_def intro: fields)
  qed (use assms fields [OF inv] in
      \<open>auto simp: set_audio_def set_raw_def generation_header_def Let_def
        attach_inv detach_inv chain_close_inv adopt_geometry_inv\<close>)
qed

lemma chain_run_inv: "chain_run an clock is ch = Inr ch' \<Longrightarrow> chain_inv ch \<Longrightarrow> chain_inv ch'"
  by (induction "is" arbitrary: ch) (auto dest: chain_step_inv)

text \<open>
  C1. Every sink sees a well-formed sequence of calls, whatever is fed to the chain, however sinks
  answer and whenever encoders are swapped or sinks attached and detached: no data without an
  accepted header before it, the first data after a header starts at a video keyframe, a header only
  when the sink is shut, after refused data or a close nothing but a new header, and a new track
  entry only while it streams; and the chain's own flag says whether the sink streams.
\<close>

theorem sinks_see_the_protocol:
  assumes "chain_run an clock is (new_chain frame_ms) = Inr ch"
  shows "(\<forall>n. phase_of n (ch_log ch) \<noteq> None) \<and>
    (\<forall>(name, a)\<in>set (ch_sinks ch). phase_of (at_id a) (ch_log ch) = Some (started_phase (at_started a)))"
proof -
  have "chain_inv (new_chain frame_ms)"
    by (simp add: chain_inv_def sinks_ok_def new_chain_def phase_of_def)
  with assms have inv: "chain_inv ch" by (rule chain_run_inv)
  then show ?thesis by (auto simp: chain_inv_def sinks_ok_def)
qed

end
