(* ===== verification/RelayData.thy ===== *)
theory RelayData
  imports Relay
begin

text \<open>
  What \<open>_cluster\<close> of \<open>stream/relay.py\<close> hands to a sink is read back: the demuxer gives the blocks of
  a delivery again, however many clusters they needed.
\<close>

section \<open>Deliveries\<close>

text \<open>A block one cluster could hold by itself, on one of the relay's tracks.\<close>

definition sendable :: "block \<Rightarrow> bool" where
  "sendable b \<longleftrightarrow>
     bl_track b \<in> {TRACK_VIDEO, TRACK_AUDIO, TRACK_RAW} \<and> 0 \<le> bl_ts_ms b \<and> bl_ts_ms b < 2 ^ 64 \<and>
     block_ok (bl_ts_ms b) TRACK_MAP b"

definition sent_size :: "block list \<Rightarrow> nat" where
  "sent_size bs = sum_list (map (\<lambda>b. block_size b + 64) bs)"

lemma sent_size_simps [simp]:
  "sent_size [] = 0"
  "sent_size (b # bs) = block_size b + 64 + sent_size bs"
  "sent_size (bs @ cs) = sent_size bs + sent_size cs"
  by (simp_all add: sent_size_def)

lemma sent_size_bound: "bs \<noteq> [] \<Longrightarrow> sum_list (map block_size bs) + 64 \<le> sent_size bs"
proof (induction bs)
  case (Cons b bs)
  then show ?case by (cases "bs = []") (auto simp: sent_size_def)
qed simp

lemma sendable_renumbered: "sendable b \<Longrightarrow> renumber_block TRACK_MAP b = b"
  by (auto simp: sendable_def renumber_block_def TRACK_MAP_def TRACK_VIDEO_def TRACK_AUDIO_def TRACK_RAW_def)

text \<open>A sink that read all of what it got so far, past the header.\<close>

definition ready :: "demuxer \<Rightarrow> bool" where
  "ready d \<longleftrightarrow> dx_buf d = [] \<and> dx_header_sent d"

lemma ready_idle: "ready d \<Longrightarrow> demuxer_idle d"
  by (simp add: ready_def demuxer_idle_def demux_step_def read_id_def)

lemma ready_fits: "ready d \<Longrightarrow> length data \<le> MAX_BUFFER \<Longrightarrow> delivery_fits d data"
  by (simp add: ready_def delivery_fits_def)

definition reads_back :: "bytes \<Rightarrow> block list \<Rightarrow> bool" where
  "reads_back data bs \<longleftrightarrow>
     (\<forall>d. ready d \<longrightarrow> (\<exists>d'. feed d data = Inr (d', map BlockEvent bs) \<and> ready d'))"

lemma reads_back_append:
  assumes "reads_back x bs" and "reads_back y cs" and "length (x @ y) \<le> MAX_BUFFER"
  shows "reads_back (x @ y) (bs @ cs)"
  unfolding reads_back_def
proof (intro allI impI)
  fix d assume d: "ready d"
  then obtain d1 where d1: "feed d x = Inr (d1, map BlockEvent bs)" "ready d1"
    using assms(1) by (auto simp: reads_back_def)
  then obtain d2 where "feed d1 y = Inr (d2, map BlockEvent cs)" "ready d2"
    using assms(2) by (auto simp: reads_back_def)
  with d1 d assms(3) show "\<exists>d'. feed d (x @ y) = Inr (d', map BlockEvent (bs @ cs)) \<and> ready d'"
    using demuxing.feed_append [OF ready_idle ready_fits, of d x y] by simp
qed

lemma cluster_sent:
  assumes "run \<noteq> []" and "list_all sendable run" and "sorted_wrt (\<le>) (map bl_ts_ms run)"
    and "bl_ts_ms (last run) - bl_ts_ms (hd run) \<le> MAX_CLUSTER_MS" and "sent_size run \<le> MAX_BUFFER"
  shows "\<exists>data. encode_cluster run TRACK_MAP = Inr data \<and> length data \<le> sent_size run \<and> reads_back data run"
proof -
  let ?base = "bl_ts_ms (hd run)"
  have hd: "sendable (hd run)" using assms(1,2) by (cases run) auto
  have range: "?base \<le> bl_ts_ms b \<and> bl_ts_ms b \<le> bl_ts_ms (last run)" if "b \<in> set run" for b
  proof -
    obtain i where i: "i < length run" "b = run ! i" using \<open>b \<in> set run\<close> by (auto simp: in_set_conv_nth)
    have "sorted (map bl_ts_ms run)" using assms(3) by simp
    then have "map bl_ts_ms run ! 0 \<le> map bl_ts_ms run ! i" "map bl_ts_ms run ! i \<le> map bl_ts_ms run ! (length run - 1)"
      using i assms(1) by (intro sorted_nth_mono; simp)+
    then show ?thesis using i assms(1) by (simp add: hd_conv_nth last_conv_nth)
  qed
  have ok: "list_all (block_ok ?base TRACK_MAP) run"
    unfolding list_all_iff
  proof
    fix b assume b: "b \<in> set run"
    then have "block_ok (bl_ts_ms b) TRACK_MAP b" using assms(2) by (auto simp: sendable_def list_all_iff)
    then show "block_ok ?base TRACK_MAP b"
      using range [OF b] assms(4) by (simp add: block_ok_def MAX_CLUSTER_MS_def)
  qed
  have total: "sum_list (map block_size run) + 64 \<le> sent_size run" using assms(1) by (rule sent_size_bound)
  have base: "0 \<le> ?base" "?base < 2 ^ 64" using hd by (simp_all add: sendable_def)
  have same: "map (\<lambda>b. BlockEvent (renumber_block TRACK_MAP b)) run = map BlockEvent run"
    using assms(2) sendable_renumbered by (auto simp: list_all_iff)
  note reads = cluster_reads [OF assms(1) base ok]
  obtain data where data: "encode_cluster run TRACK_MAP = Inr data" "length data \<le> sum_list (map block_size run) + 64"
    using reads [of "new_demuxer\<lparr>dx_header_sent := True\<rparr>"] total assms(5) by (auto simp: new_demuxer_def)
  have "reads_back data run"
    unfolding reads_back_def
  proof (intro allI impI)
    fix d assume d: "ready d"
    then have "\<exists>data'. encode_cluster run TRACK_MAP = Inr data' \<and> length data' \<le> sum_list (map block_size run) + 64 \<and>
      feed d data' = Inr (d\<lparr>dx_in_cluster := True, dx_cluster_ts := Some (nat ?base),
        dx_blocks := dx_blocks d + length run\<rparr>, map (\<lambda>b. BlockEvent (renumber_block TRACK_MAP b)) run)"
      using total assms(5) by (intro reads) (simp_all add: ready_def)
    with data(1) d show "\<exists>d'. feed d data = Inr (d', map BlockEvent run) \<and> ready d'"
      by (auto simp: same ready_def)
  qed
  with data total show ?thesis by auto
qed

lemma cluster_loop_sent:
  assumes "run \<noteq> []" and "list_all sendable (run @ bs)" and "sorted_wrt (\<le>) (map bl_ts_ms (run @ bs))"
    and "bl_ts_ms (last run) - bl_ts_ms (hd run) \<le> MAX_CLUSTER_MS" and "sent_size (run @ bs) \<le> MAX_BUFFER"
  shows "\<exists>data. cluster_loop run out bs = Inr (out @ data) \<and> length data \<le> sent_size (run @ bs) \<and>
    reads_back data (run @ bs)"
  using assms
proof (induction bs arbitrary: run out)
  case Nil
  then show ?case using cluster_sent [of run] by auto
next
  case (Cons b bs)
  show ?case
  proof (cases "MAX_CLUSTER_MS < bl_ts_ms b - bl_ts_ms (hd run)")
    case False
    have "\<exists>data. cluster_loop (run @ [b]) out bs = Inr (out @ data) \<and>
        length data \<le> sent_size ((run @ [b]) @ bs) \<and> reads_back data ((run @ [b]) @ bs)"
      using Cons.prems False by (intro Cons.IH) simp_all
    then show ?thesis using False by simp
  next
    case True
    obtain c where c: "encode_cluster run TRACK_MAP = Inr c" "length c \<le> sent_size run" "reads_back c run"
      using cluster_sent [of run] Cons.prems by (auto simp: sorted_wrt_append)
    have "\<exists>data. cluster_loop [b] (out @ c) bs = Inr ((out @ c) @ data) \<and>
        length data \<le> sent_size ([b] @ bs) \<and> reads_back data ([b] @ bs)"
      using Cons.prems by (intro Cons.IH) (simp_all add: sorted_wrt_append MAX_CLUSTER_MS_def)
    then obtain data where data: "cluster_loop [b] (out @ c) bs = Inr (out @ c @ data)"
        "length data \<le> sent_size (b # bs)" "reads_back data (b # bs)"
      by auto
    have "length (c @ data) \<le> sent_size (run @ b # bs)" using c(2) data(2) by simp
    moreover from this Cons.prems(5) have "reads_back (c @ data) (run @ b # bs)"
      using reads_back_append [OF c(3) data(3)] by simp
    ultimately show ?thesis using True Cons.prems(1) c(1) data(1) by auto
  qed
qed

text \<open>
  C6. What the relay writes is what a player reads: for blocks of the relay's tracks in order of time,
  each small enough for an element, the clusters the relay makes of them, split where they span more
  than a second, never raise, and a demuxer that has seen the header gives exactly these blocks,
  every field included, and is ready for the next write.
\<close>

theorem delivery_read_back:
  assumes "bs \<noteq> []" and "list_all sendable bs" and "sorted_wrt (\<le>) (map bl_ts_ms bs)"
    and "sent_size bs \<le> MAX_BUFFER" and "ready d"
  shows "\<exists>data d'. clusters bs = Inr data \<and> feed d data = Inr (d', map BlockEvent bs) \<and> ready d'"
proof -
  obtain b cs where bs: "bs = b # cs" using assms(1) by (cases bs) auto
  have "\<exists>data. cluster_loop [b] [] cs = Inr ([] @ data) \<and> length data \<le> sent_size ([b] @ cs) \<and> reads_back data ([b] @ cs)"
    using assms unfolding bs by (intro cluster_loop_sent) (simp_all add: MAX_CLUSTER_MS_def)
  with assms(5) show ?thesis by (auto simp: clusters_def bs reads_back_def)
qed

theorem delivery_read_back_witness:
  "\<exists>data d'. clusters [plain_block 1 0 True, plain_block 2 700 True, plain_block 1 1040 False] = Inr data \<and>
     feed (new_demuxer\<lparr>dx_header_sent := True\<rparr>) data =
       Inr (d', map BlockEvent [plain_block 1 0 True, plain_block 2 700 True, plain_block 1 1040 False]) \<and> ready d'"
  by (rule delivery_read_back)
     (simp_all add: sendable_def plain_block_def block_ok_def TRACK_MAP_def TRACK_VIDEO_def TRACK_AUDIO_def
        TRACK_RAW_def MAX_ELEMENT_def block_size_def MAX_BUFFER_def ready_def new_demuxer_def)

section \<open>A stream that starts\<close>

text \<open>An encoder's track entry with nothing but its number, a sink that takes everything, and a keyframe.\<close>

definition bare_track :: track where
  "bare_track = \<lparr>tr_number = 1, tr_kind = Video, tr_codec = [], tr_width = 640, tr_height = 360,
     tr_raw = [0xAE, 0x83, 0xD7, 0x81, 1]\<rparr>"

definition willing :: answers where
  "willing = \<lparr>an_opens = (\<lambda>_ _ _. True), an_writes = (\<lambda>_ _ _. True)\<rparr>"

lemma element_short:
  assumes "length body < 1000" and "valid_id i"
  obtains s where "element i body = Inr s" and "length s \<le> length body + 12"
proof -
  have ok: "element_ok (i, body)" using assms by (simp add: element_ok_def)
  from element_length(1,3) [OF ok] show thesis by (intro that) auto
qed

lemma uint_element_short:
  assumes "v < 256" and "valid_id i"
  obtains s where "uint_element i v = Inr s" and "length s \<le> 20"
proof -
  have "v < 2 ^ 64" using assms(1) by simp
  then obtain body where body: "uint_element i v = Inr (encode_element (i, body))" "element_ok (i, body)" "length body \<le> 8"
    using uint_element_written assms(2) by metis
  from body(1,3) element_length(1) [OF body(2)] show thesis by (intro that) auto
qed

lemma header_ids [simp]: "valid_id 0x4286" "valid_id 0x42F7" "valid_id 0x42F2" "valid_id 0x42F3" "valid_id 0x4282"
    "valid_id 0x4287" "valid_id 0x4285"
  by (simp_all add: valid_id_def)

lemma joinE_Cons: "joinE (Inr x # rs) = bindE (joinE rs) (\<lambda>y. Inr (x @ y))"
  by (cases "mapE (\<lambda>r. r) rs") (simp_all add: joinE_def)

lemma joinE_Nil: "joinE [] = Inr []"
  by (simp add: joinE_def)

lemma bare_entry: "\<exists>e. track_entry_for (Some bare_track) TRACK_VIDEO (\<lambda>_. []) = Inr e \<and> length e \<le> 32"
proof -
  have body: "entry_body err (tr_raw bare_track) = Inr [0xD7, 0x81, 1]" for err
    unfolding bare_track_def by code_simp
  have kids: "children [0xD7, 0x81, 1] = Inr [(0xD7, [1], [0xD7, 0x81, 1])]"
    by code_simp
  have number: "0xD7 = ID_TRACK_NUMBER" by (simp add: element_ids)
  have "(1 :: nat) < 256" by simp
  then obtain e where e: "uint_element ID_TRACK_NUMBER 1 = Inr e" "length e \<le> 20"
    by (rule uint_element_short [OF _ valid_ids(13)])
  then have "length e < 1000" by simp
  then obtain r where "element ID_TRACK_ENTRY e = Inr r" "length r \<le> length e + 12"
    by (rule element_short [OF _ valid_ids(12)])
  with e show ?thesis
    by (simp add: track_entry_for_def renumber_track_def body kids number TRACK_VIDEO_def)
qed

lemma bare_header: "\<exists>h. stream_header (Some bare_track) None (ascii ''StreamStack'') None (\<lambda>_. []) = Inr h"
proof -
  obtain entry where entry: "track_entry_for (Some bare_track) TRACK_VIDEO (\<lambda>_. []) = Inr entry" "length entry \<le> 32"
    using bare_entry by auto
  have none: "track_entry_for None n names = Inr []" for n names by (simp add: track_entry_for_def)
  obtain a1 where a1: "uint_element 0x4286 1 = Inr a1" "length a1 \<le> 20" by (rule uint_element_short [of 1 "0x4286"]) simp_all
  obtain a2 where a2: "uint_element 0x42F7 1 = Inr a2" "length a2 \<le> 20" by (rule uint_element_short [of 1 "0x42F7"]) simp_all
  obtain a3 where a3: "uint_element 0x42F2 4 = Inr a3" "length a3 \<le> 20" by (rule uint_element_short [of 4 "0x42F2"]) simp_all
  obtain a4 where a4: "uint_element 0x42F3 8 = Inr a4" "length a4 \<le> 20" by (rule uint_element_short [of 8 "0x42F3"]) simp_all
  obtain a5 where a5: "element 0x4282 (ascii ''matroska'') = Inr a5" "length a5 \<le> 20"
    by (rule element_short [of "ascii ''matroska''" "0x4282"]) (simp_all add: ascii_def)
  obtain a6 where a6: "uint_element 0x4287 4 = Inr a6" "length a6 \<le> 20" by (rule uint_element_short [of 4 "0x4287"]) simp_all
  obtain a7 where a7: "uint_element 0x4285 2 = Inr a7" "length a7 \<le> 20" by (rule uint_element_short [of 2 "0x4285"]) simp_all
  obtain ebml where ebml: "element ID_EBML (a1 @ a2 @ a3 @ a4 @ a5 @ a6 @ a7) = Inr ebml"
    by (rule element_short [of "a1 @ a2 @ a3 @ a4 @ a5 @ a6 @ a7" ID_EBML])
       (use a1 a2 a3 a4 a5 a6 a7 in simp_all)
  have "(1000000 :: nat) < 2 ^ 64" by simp
  then obtain body where "uint_element ID_TIMESTAMP_SCALE 1000000 = Inr (encode_element (ID_TIMESTAMP_SCALE, body))"
      "element_ok (ID_TIMESTAMP_SCALE, body)" "length body \<le> 8"
    using uint_element_written valid_ids(11) by metis
  then obtain b1 where b1: "uint_element ID_TIMESTAMP_SCALE 1000000 = Inr b1" "length b1 \<le> 20"
    using element_length(1) by fastforce
  obtain b2 where b2: "element ID_MUXING_APP (ascii ''StreamStack'') = Inr b2" "length b2 \<le> 23"
    by (rule element_short [of "ascii ''StreamStack''" ID_MUXING_APP]) (simp_all add: ascii_def)
  obtain b3 where b3: "element ID_WRITING_APP (ascii ''StreamStack'') = Inr b3" "length b3 \<le> 23"
    by (rule element_short [of "ascii ''StreamStack''" ID_WRITING_APP]) (simp_all add: ascii_def)
  obtain info where info: "element ID_INFO (b1 @ b2 @ b3) = Inr info"
    by (rule element_short [of "b1 @ b2 @ b3" ID_INFO]) (use b1 b2 b3 in simp_all)
  obtain tracks where "element ID_TRACKS entry = Inr tracks"
    by (rule element_short [of entry ID_TRACKS]) (use entry in simp_all)
  with entry a1 a2 a3 a4 a5 a6 a7 ebml b1 b2 b3 info show ?thesis
    by (simp add: stream_header_def joinE_Cons joinE_Nil none)
qed

text \<open>The chain of the instance: a keyframe opens the sink and is written.\<close>

definition first_stream :: "chain_input list" where
  "first_stream =
     [Attach \<lparr>sk_name = ''srt'', sk_on_track = False\<rparr> True False, SetAudio None,
      GenerationHeader 1 bare_track, ChainActivate 1, VideoBlock 1 (plain_block 1 0 True)]"

lemma first_data: "\<exists>data. clusters [plain_block 1 0 True] = Inr data"
proof -
  have "list_all sendable [plain_block 1 0 True]"
    by (simp add: sendable_def plain_block_def block_ok_def TRACK_MAP_def TRACK_VIDEO_def TRACK_AUDIO_def
        TRACK_RAW_def MAX_ELEMENT_def)
  then have "\<exists>data. cluster_loop [plain_block 1 0 True] [] [] = Inr ([] @ data) \<and>
      length data \<le> sent_size ([plain_block 1 0 True] @ []) \<and> reads_back data ([plain_block 1 0 True] @ [])"
    by (intro cluster_loop_sent)
       (simp_all add: plain_block_def block_size_def MAX_BUFFER_def MAX_CLUSTER_MS_def)
  then show ?thesis by (auto simp: clusters_def)
qed

lemma first_stream_run:
  assumes "stream_header (Some bare_track) None (ascii ''StreamStack'') None (\<lambda>_. []) = Inr h"
    and "clusters [plain_block 1 0 True] = Inr data"
  obtains ch a where "chain_run willing of_nat first_stream (new_chain 40) = Inr ch"
    and "ch_log ch = [Open 0 h True, Write 0 data 1 True True]"
    and "(''srt'', a) \<in> set (ch_sinks ch)" and "at_id a = 0" and "at_started a"
  using assms
  by (simp add: first_stream_def new_chain_def attach_def set_audio_def generation_header_def video_block_def
        activate_def new_switch_def read_clock_def on_block_def forward_def switch_does_def on_video_def
        merger_push_def new_merger_def heappush_def merger_ignore_def pump_def merger_poll_eq releasable_def
        watermark_floor_def TRACK_VIDEO_def TRACK_AUDIO_def TRACK_RAW_def plain_block_def deliver_def deliver_to_def
        is_video_def write_blocks_def willing_def Let_def)

theorem sinks_see_the_protocol_witness:
  "\<exists>ch h data. chain_run willing of_nat first_stream (new_chain 40) = Inr ch \<and>
     ch_log ch = [Open 0 h True, Write 0 data 1 True True] \<and> phase_of 0 (ch_log ch) = Some Streaming"
proof -
  obtain h data where "stream_header (Some bare_track) None (ascii ''StreamStack'') None (\<lambda>_. []) = Inr h"
      "clusters [plain_block 1 0 True] = Inr data"
    using bare_header first_data by auto
  then obtain ch a where run: "chain_run willing of_nat first_stream (new_chain 40) = Inr ch"
      and lg: "ch_log ch = [Open 0 h True, Write 0 data 1 True True]"
      and a: "(''srt'', a) \<in> set (ch_sinks ch)" "at_id a = 0" "at_started a"
    by (rule first_stream_run)
  from sinks_see_the_protocol [OF run] a have "phase_of 0 (ch_log ch) = Some Streaming"
    by (auto simp: started_phase_def)
  with run lg show ?thesis by blast
qed

end
