(* ===== verification/Idle.thy ===== *)
theory Idle
  imports PyNum PyText
begin

text \<open>
  \<open>engine/idle.py\<close>, the machine that rests the video engine when no app reads the camera, and the
  tick of \<open>console/native.py\<close> that acts on its verdicts. Seconds are exact rationals; every reading of
  the clock is an argument. What the engine, the Canon body and the placeholder are told is a list of
  effects.
\<close>

section \<open>Settings\<close>

definition IDLE_AFTER :: rat where "IDLE_AFTER = 10"
definition WAKE_CONFIRM :: rat where "WAKE_CONFIRM = 1 / 4"
definition WAKE_TIMEOUT :: rat where "WAKE_TIMEOUT = 8"
definition FRESH_FOR :: rat where "FRESH_FOR = 4"

definition MODES :: "string list" where "MODES = [''auto'', ''off'']"

text \<open>\<open>(cfg.get(key) or default).strip().lower()\<close>; an empty or missing value gives the default.\<close>

definition idle_mode :: "string \<Rightarrow> string" where
  "idle_mode configured =
     (let wanted = lower (strip (if configured = [] then ''auto'' else configured))
      in if wanted \<notin> set MODES then ''auto'' else wanted)"

definition idle_ignore :: "string \<Rightarrow> string set" where
  "idle_ignore configured = set (filter (\<lambda>p. p \<noteq> []) (map strip (split_on (CHR '','') configured)))"

section \<open>The governor\<close>

datatype camera_state = RUNNING | IDLE | WAKING

datatype idle_action = Nothing_now | Rest string | Wake string

record governor =
  gv_enabled :: bool
  gv_after :: rat
  gv_confirm :: rat
  gv_wake_timeout :: rat
  gv_keep_alive :: bool
  gv_state :: camera_state
  gv_wakes :: nat
  gv_wake_ms :: "rat option"
  gv_reason :: string
  gv_since :: rat
  gv_quiet_since :: "rat option"
  gv_seen_since :: "rat option"

definition new_governor :: "bool \<Rightarrow> rat \<Rightarrow> rat \<Rightarrow> governor" where
  "new_governor enabled after now = \<lparr>gv_enabled = enabled, gv_after = after, gv_confirm = WAKE_CONFIRM,
     gv_wake_timeout = WAKE_TIMEOUT, gv_keep_alive = False, gv_state = RUNNING, gv_wakes = 0, gv_wake_ms = None,
     gv_reason = [], gv_since = now, gv_quiet_since = Some now, gv_seen_since = None\<rparr>"

definition go :: "governor \<Rightarrow> camera_state \<Rightarrow> rat \<Rightarrow> governor" where
  "go g s now = g\<lparr>gv_state := s, gv_since := now\<rparr>"

definition do_wake :: "governor \<Rightarrow> rat \<Rightarrow> string \<Rightarrow> governor \<times> idle_action" where
  "do_wake g now reason =
     ((go g WAKING now)\<lparr>gv_wakes := gv_wakes g + 1, gv_reason := reason\<rparr>, Wake reason)"

text \<open>\<open>f"{x:.0f}"\<close> of a number that is not negative.\<close>

definition whole_seconds :: "rat \<Rightarrow> string" where
  "whole_seconds x = decimal (nat (py_round x))"

definition while_running :: "governor \<Rightarrow> rat \<Rightarrow> bool \<Rightarrow> bool \<Rightarrow> governor \<times> idle_action" where
  "while_running g now wanted engine_running =
     (if wanted \<or> \<not> engine_running then (g\<lparr>gv_quiet_since := None\<rparr>, Nothing_now)
      else let since = (case gv_quiet_since g of None \<Rightarrow> now | Some t \<Rightarrow> t);
               g1 = g\<lparr>gv_quiet_since := Some since\<rparr>; quiet = now - since
           in if quiet < gv_after g1 then (g1, Nothing_now)
              else let reason = ''no app has read the camera for '' @ whole_seconds quiet @ '' s''
                   in ((go g1 IDLE now)\<lparr>gv_seen_since := None, gv_reason := reason\<rparr>, Rest reason))"

definition while_idle :: "governor \<Rightarrow> rat \<Rightarrow> bool \<Rightarrow> bool \<Rightarrow> governor \<times> idle_action" where
  "while_idle g now readers demand =
     (if gv_keep_alive g then do_wake g now ''keep alive is on''
      else if demand then do_wake g now ''a preview or an output needs the picture''
      else if \<not> readers then (g\<lparr>gv_seen_since := None\<rparr>, Nothing_now)
      else let seen = (case gv_seen_since g of None \<Rightarrow> now | Some t \<Rightarrow> t);
               g1 = g\<lparr>gv_seen_since := Some seen\<rparr>
           in if now - seen < gv_confirm g1 then (g1, Nothing_now)
              else do_wake g1 now ''an app opened the camera'')"

text \<open>\<open>round(x, 1)\<close>.\<close>

definition while_waking :: "governor \<Rightarrow> rat \<Rightarrow> bool \<Rightarrow> bool \<Rightarrow> governor \<times> idle_action" where
  "while_waking g now wanted engine_running =
     (if engine_running then
        ((go (g\<lparr>gv_wake_ms := Some (py_round1 ((now - gv_since g) * 1000))\<rparr>) RUNNING now)
           \<lparr>gv_quiet_since := (if wanted then None else Some now), gv_reason := []\<rparr>, Nothing_now)
      else if gv_wake_timeout g < now - gv_since g then
        ((go g RUNNING now)\<lparr>gv_quiet_since := None, gv_reason := []\<rparr>, Nothing_now)
      else (g, Nothing_now))"

definition settle :: "governor \<Rightarrow> rat \<Rightarrow> bool \<Rightarrow> governor \<times> idle_action" where
  "settle g now engine_running =
     (if gv_state g = WAKING then while_waking g now True engine_running else (g, Nothing_now))"

definition governor_step :: "governor \<Rightarrow> rat \<Rightarrow> bool \<Rightarrow> bool \<Rightarrow> bool \<Rightarrow> governor \<times> idle_action" where
  "governor_step g now readers demand engine_running =
     (let wanted = readers \<or> demand \<or> gv_keep_alive g
      in if \<not> gv_enabled g then
           (if gv_state g = IDLE then do_wake g now ''idling is switched off'' else settle g now engine_running)
         else case gv_state g of
           RUNNING \<Rightarrow> while_running g now wanted engine_running
         | IDLE \<Rightarrow> while_idle g now readers demand
         | WAKING \<Rightarrow> while_waking g now wanted engine_running)"

definition force_running :: "governor \<Rightarrow> rat \<Rightarrow> governor \<times> bool" where
  "force_running g now =
     (let g1 = (if gv_state g \<noteq> RUNNING then go g RUNNING now else g)
      in (g1\<lparr>gv_quiet_since := Some now, gv_reason := []\<rparr>, gv_state g = IDLE))"

section \<open>The sensor\<close>

record readers =
  rd_at :: rat
  rd_ok :: bool
  rd_apps :: "string list"

definition present :: "readers \<Rightarrow> bool" where
  "present r \<longleftrightarrow> rd_apps r \<noteq> [] \<or> \<not> rd_ok r"

text \<open>\<open>ReaderWatch.scan\<close>: \<open>None\<close> is a scanner that raised.\<close>

definition scan_result :: "rat \<Rightarrow> string list option \<Rightarrow> readers" where
  "scan_result now found =
     (case found of
        None \<Rightarrow> \<lparr>rd_at = now, rd_ok = False, rd_apps = []\<rparr>
      | Some apps \<Rightarrow> \<lparr>rd_at = now, rd_ok = True, rd_apps = apps\<rparr>)"

definition fresh :: "readers \<Rightarrow> rat \<Rightarrow> bool" where
  "fresh r now \<longleftrightarrow> rd_ok r \<and> now - rd_at r \<le> FRESH_FOR"

section \<open>The tick\<close>

datatype camera_effect = EngineStop | EngineStart | CanonRest bool

text \<open>
  What one tick finds: the engine was told to run and exists, the latest scan, the names something
  inside needs the picture for (timed ones by their end, probes by their answer, \<open>None\<close> when the probe
  raised), whether the engine delivers frames, whether the placeholder could be put on the node, and
  the three clock readings.
\<close>

record idle_tick_in =
  ti_wanted :: bool
  ti_latest :: readers
  ti_until :: "(string \<times> rat) list"
  ti_probes :: "(string \<times> bool option) list"
  ti_running :: bool
  ti_parks :: bool
  ti_fresh_at :: rat
  ti_step_at :: rat
  ti_force_at :: rat

definition demands :: "rat \<Rightarrow> (string \<times> rat) list \<Rightarrow> (string \<times> bool option) list \<Rightarrow> string list" where
  "demands now until probes =
     map fst (filter (\<lambda>(_, end_at). now < end_at) until) @
     map fst (filter (\<lambda>(_, needs). needs \<noteq> Some False) probes)"

definition tick_readers :: "idle_tick_in \<Rightarrow> bool" where
  "tick_readers ti \<longleftrightarrow> present (ti_latest ti) \<or> \<not> fresh (ti_latest ti) (ti_fresh_at ti)"

definition tick_demand :: "idle_tick_in \<Rightarrow> bool" where
  "tick_demand ti \<longleftrightarrow> demands (ti_fresh_at ti) (ti_until ti) (ti_probes ti) \<noteq> []"

definition idle_tick :: "governor \<Rightarrow> idle_tick_in \<Rightarrow> governor \<times> camera_effect list" where
  "idle_tick g ti =
     (if \<not> ti_wanted ti then (g, [])
      else let (g1, action) = governor_step g (ti_step_at ti) (tick_readers ti) (tick_demand ti) (ti_running ti)
           in case action of
                Rest _ \<Rightarrow> if \<not> ti_parks ti
                          then (fst (force_running g1 (ti_force_at ti)), [EngineStop, EngineStart])
                          else (g1, [EngineStop, CanonRest True])
              | Wake _ \<Rightarrow> (g1, [CanonRest False, EngineStart])
              | Nothing_now \<Rightarrow> (g1, if gv_state g1 = IDLE then [CanonRest True] else []))"

section \<open>Runs\<close>

datatype idle_input = Tick_in idle_tick_in | KeepAlive bool | ByHand rat

fun idle_input_step :: "governor \<Rightarrow> idle_input \<Rightarrow> governor \<times> camera_effect list" where
  "idle_input_step g (Tick_in ti) = idle_tick g ti"
| "idle_input_step g (KeepAlive on) = (g\<lparr>gv_keep_alive := on\<rparr>, [])"
| "idle_input_step g (ByHand now) = (fst (force_running g now), [])"

text \<open>
  What the ticks of a run saw: the time the governor was asked, and whether the camera was quiet
  then (nothing wanted the picture and the engine delivered frames).
\<close>

definition quiet_tick :: "governor \<Rightarrow> idle_tick_in \<Rightarrow> bool" where
  "quiet_tick g ti \<longleftrightarrow> \<not> tick_readers ti \<and> \<not> tick_demand ti \<and> \<not> gv_keep_alive g \<and> ti_running ti"

fun observed :: "governor \<Rightarrow> idle_input \<Rightarrow> (rat \<times> bool) list" where
  "observed g (Tick_in ti) = (if ti_wanted ti then [(ti_step_at ti, quiet_tick g ti)] else [])"
| "observed g (KeepAlive on) = []"
| "observed g (ByHand now) = []"

fun idle_run :: "governor \<Rightarrow> idle_input list \<Rightarrow> governor \<times> (rat \<times> bool) list \<times> camera_effect list" where
  "idle_run g [] = (g, [], [])"
| "idle_run g (i # is) =
     (let (g1, es1) = idle_input_step g i; (g2, obs, es2) = idle_run g1 is
      in (g2, observed g i @ obs, es1 @ es2))"



section \<open>The engine rests only after trusted quiet\<close>








lemmas governor_parts = while_running_def while_idle_def while_waking_def settle_def do_wake_def go_def Let_def






definition idle_tick_at :: "rat \<Rightarrow> string list option \<Rightarrow> idle_tick_in" where
  "idle_tick_at now found = \<lparr>ti_wanted = True, ti_latest = scan_result now found, ti_until = [], ti_probes = [],
     ti_running = True, ti_parks = True, ti_fresh_at = now, ti_step_at = now, ti_force_at = now\<rparr>"



section \<open>A reader wakes it\<close>

text \<open>One tick with a reader while the engine rests: it wakes, or the reader is remembered from its first sighting.\<close>

lemma reader_tick:
  assumes "gv_state g = IDLE" and "ti_wanted ti" and "tick_readers ti" and "idle_tick g ti = (g', es)"
  shows "EngineStart \<in> set es \<or>
    gv_state g' = IDLE \<and> gv_confirm g' = gv_confirm g \<and>
    (\<exists>s. gv_seen_since g' = Some s \<and> s = (case gv_seen_since g of None \<Rightarrow> ti_step_at ti | Some s \<Rightarrow> s) \<and>
      ti_step_at ti - s < gv_confirm g)"
  using assms by (auto simp: idle_tick_def governor_step_def governor_parts split: if_splits)

lemma reader_ticks:
  assumes "gv_state g = IDLE" and "gv_seen_since g = Some s" and "tis \<noteq> []"
    and "list_all (\<lambda>ti. ti_wanted ti \<and> tick_readers ti) tis" and "gv_confirm g \<le> ti_step_at (last tis) - s"
    and "idle_run g (map Tick_in tis) = (g', obs, es)"
  shows "EngineStart \<in> set es"
  using assms
proof (induction tis arbitrary: g obs es)
  case (Cons ti tis)
  obtain g1 es1 where step: "idle_tick g ti = (g1, es1)" by (rule prod.exhaust)
  obtain obs2 es2 where run: "idle_run g1 (map Tick_in tis) = (g', obs2, es2)" and es: "es = es1 @ es2"
    using Cons.prems(6) step by (auto split: prod.splits)
  have one: "EngineStart \<in> set es1 \<or> gv_state g1 = IDLE \<and> gv_confirm g1 = gv_confirm g \<and>
      gv_seen_since g1 = Some s \<and> ti_step_at ti - s < gv_confirm g"
    using reader_tick [OF Cons.prems(1) _ _ step] Cons.prems(2,4) by auto
  show ?case
  proof (cases "EngineStart \<in> set es1")
    case False
    with one Cons.prems(5) have "tis \<noteq> []" by auto
    with False one Cons.prems Cons.IH [OF _ _ _ _ _ run] show ?thesis by (auto simp: es)
  qed (simp add: es)
qed simp

text \<open>
  A reader that stays wakes the camera: when the engine rests and every tick of a stretch at least
  as long as the confirmation finds a reader (or cannot tell), the engine is started within that
  stretch, whatever demand, keep-alive and engine state come with the ticks.
\<close>

theorem reader_wakes_the_camera:
  assumes "gv_state g = IDLE" and "0 < gv_confirm g" and "gv_seen_since g = None"
    and "list_all (\<lambda>ti. ti_wanted ti \<and> tick_readers ti) (ti # tis)"
    and "gv_confirm g \<le> ti_step_at (last (ti # tis)) - ti_step_at ti"
    and "idle_run g (map Tick_in (ti # tis)) = (g', obs, es)"
  shows "EngineStart \<in> set es"
proof -
  obtain g1 es1 where step: "idle_tick g ti = (g1, es1)" by (rule prod.exhaust)
  obtain obs2 es2 where run: "idle_run g1 (map Tick_in tis) = (g', obs2, es2)" and es: "es = es1 @ es2"
    using assms(6) step by (auto split: prod.splits)
  show ?thesis
  proof (cases "EngineStart \<in> set es1")
    case False
    then have g1: "gv_state g1 = IDLE" "gv_confirm g1 = gv_confirm g" "gv_seen_since g1 = Some (ti_step_at ti)"
      using reader_tick [OF assms(1) _ _ step] assms(3,4) by auto
    have "tis \<noteq> []" using assms(2,5) by auto
    then have "EngineStart \<in> set es2"
      using assms(4,5) g1 by (intro reader_ticks [OF g1(1,3) _ _ _ run]) auto
    then show ?thesis by (simp add: es)
  qed (simp add: es)
qed

theorem reader_wakes_the_camera_witness:
  "let g = (new_governor True 10 0)\<lparr>gv_state := IDLE\<rparr>; tis = [idle_tick_at 20 (Some [''Zoom'']), idle_tick_at (81 / 4) None]
   in EngineStart \<in> set (snd (snd (idle_run g (map Tick_in tis))))"
proof -
  let ?g = "(new_governor True 10 0)\<lparr>gv_state := IDLE\<rparr>"
  let ?tis = "[idle_tick_at 20 (Some [''Zoom'']), idle_tick_at (81 / 4) None]"
  have "idle_run ?g (map Tick_in ?tis) =
      (fst (idle_run ?g (map Tick_in ?tis)), fst (snd (idle_run ?g (map Tick_in ?tis))), snd (snd (idle_run ?g (map Tick_in ?tis))))"
    by simp
  from reader_wakes_the_camera [OF _ _ _ _ _ this] show ?thesis
    unfolding Let_def
    by (simp add: new_governor_def WAKE_CONFIRM_def idle_tick_at_def scan_result_def present_def tick_readers_def
        del: idle_run.simps list.map)
qed

end
