(* ===== verification/Speech.thy ===== *)
theory Speech
  imports Complex_Main Prelude
begin

text \<open>
  \<open>speech.py\<close>: the voice-activity detector on the microphone's level and the rule that warns once per
  episode of talking while muted. Seconds and decibels are exact rationals; the code's \<open>-inf\<close> start
  of the floor clock is \<open>None\<close>.
\<close>

section \<open>The detector\<close>

definition HOLD_S :: rat where "HOLD_S = 2 / 5"
definition WINDOW_S :: rat where "WINDOW_S = 1"
definition FLOOR_WINDOW_S :: rat where "FLOOR_WINDOW_S = 10"
definition FLOOR_EVERY_S :: rat where "FLOOR_EVERY_S = 1 / 4"
definition FLOOR_CAP_DB :: rat where "FLOOR_CAP_DB = -30"
definition MAX_STEP_S :: rat where "MAX_STEP_S = 1 / 4"
definition SILENCE_DB :: rat where "SILENCE_DB = -90"

record sensitivity =
  sn_absolute_db :: rat
  sn_margin_db :: rat

datatype sensitivity_name = High | Medium | Low

fun SENSITIVITIES :: "sensitivity_name \<Rightarrow> sensitivity" where
  "SENSITIVITIES High = \<lparr>sn_absolute_db = -52, sn_margin_db = 6\<rparr>"
| "SENSITIVITIES Medium = \<lparr>sn_absolute_db = -46, sn_margin_db = 10\<rparr>"
| "SENSITIVITIES Low = \<lparr>sn_absolute_db = -38, sn_margin_db = 15\<rparr>"

record detector =
  dt_hold :: rat
  dt_window_s :: rat
  dt_sens :: sensitivity
  dt_levels :: "(rat \<times> rat) list"
  dt_floor :: rat
  dt_floor_at :: "rat option"
  dt_last :: "rat option"
  dt_window :: "(rat \<times> rat \<times> bool) list"
  dt_above :: rat
  dt_speaking :: bool

definition new_detector :: "sensitivity_name \<Rightarrow> rat \<Rightarrow> rat \<Rightarrow> detector" where
  "new_detector name hold window = \<lparr>dt_hold = hold, dt_window_s = window, dt_sens = SENSITIVITIES name,
     dt_levels = [], dt_floor = SILENCE_DB, dt_floor_at = None, dt_last = None, dt_window = [], dt_above = 0,
     dt_speaking = False\<rparr>"

definition set_sensitivity :: "detector \<Rightarrow> sensitivity_name \<Rightarrow> detector" where
  "set_sensitivity d name = d\<lparr>dt_sens := SENSITIVITIES name\<rparr>"

definition threshold_db :: "detector \<Rightarrow> rat" where
  "threshold_db d =
     max (sn_absolute_db (dt_sens d)) (min (dt_floor d) FLOOR_CAP_DB + sn_margin_db (dt_sens d))"

definition detector_reset :: "detector \<Rightarrow> detector" where
  "detector_reset d = d\<lparr>dt_levels := [], dt_window := [], dt_floor := SILENCE_DB, dt_floor_at := None,
     dt_last := None, dt_above := 0, dt_speaking := False\<rparr>"

text \<open>The 10th percentile of the levels kept; \<open>int(len(ordered) * 0.1)\<close>.\<close>

definition track_floor :: "detector \<Rightarrow> rat \<Rightarrow> rat \<Rightarrow> detector" where
  "track_floor d now level =
     (let levels = dropWhile (\<lambda>(at_s, _). FLOOR_WINDOW_S < now - at_s) (dt_levels d @ [(now, level)]);
          d1 = d\<lparr>dt_levels := levels\<rparr>
      in if (case dt_floor_at d of None \<Rightarrow> False | Some t \<Rightarrow> now - t < FLOOR_EVERY_S) then d1
         else let ordered = sort (map snd levels)
              in d1\<lparr>dt_floor_at := Some now, dt_floor := ordered ! (length ordered div 10)\<rparr>)"

fun forget_old :: "rat \<Rightarrow> rat \<Rightarrow> (rat \<times> rat \<times> bool) list \<Rightarrow> rat \<Rightarrow> (rat \<times> rat \<times> bool) list \<times> rat" where
  "forget_old keep now [] loud_s = ([], loud_s)"
| "forget_old keep now ((at_s, dt, loud) # frames) loud_s =
     (if keep < now - at_s then forget_old keep now frames (if loud then loud_s - dt else loud_s)
      else ((at_s, dt, loud) # frames, loud_s))"

definition speech_feed :: "detector \<Rightarrow> rat \<Rightarrow> rat \<Rightarrow> detector \<times> bool" where
  "speech_feed d now level =
     (let dt = (case dt_last d of None \<Rightarrow> 0 | Some t \<Rightarrow> max 0 (min (now - t) MAX_STEP_S));
          d1 = track_floor (d\<lparr>dt_last := Some now\<rparr>) now level;
          loud = threshold_db d1 < level;
          loud_s1 = (if loud then dt_above d1 + dt else dt_above d1);
          (frames, loud_s2) = forget_old (dt_window_s d1) now (dt_window d1 @ [(now, dt, loud)]) loud_s1;
          loud_s = max 0 loud_s2;
          speaking = (if \<not> dt_speaking d1 \<and> dt_hold d1 \<le> loud_s then True
                      else if dt_speaking d1 \<and> loud_s < dt_hold d1 / 2 then False else dt_speaking d1)
      in (d1\<lparr>dt_window := frames, dt_above := loud_s, dt_speaking := speaking\<rparr>, speaking))"

fun speech_run :: "detector \<Rightarrow> (rat \<times> rat) list \<Rightarrow> detector" where
  "speech_run d [] = d"
| "speech_run d ((now, level) # frames) = speech_run (fst (speech_feed d now level)) frames"

section \<open>What the detector counts\<close>

text \<open>How long the frames of a window were loud.\<close>

definition loud_time :: "(rat \<times> rat \<times> bool) list \<Rightarrow> rat" where
  "loud_time frames = sum_list (map (\<lambda>(_, dt, loud). if loud then dt else 0) frames)"

definition detector_inv :: "detector \<Rightarrow> bool" where
  "detector_inv d \<longleftrightarrow>
     dt_above d = loud_time (dt_window d) \<and>
     (\<forall>(at_s, dt, loud)\<in>set (dt_window d). 0 \<le> dt \<and> dt \<le> MAX_STEP_S)"

lemma loud_time_append [simp]: "loud_time (xs @ ys) = loud_time xs + loud_time ys"
  by (simp add: loud_time_def)

lemma loud_time_nonneg: "(\<forall>(at_s, dt, loud)\<in>set frames. 0 \<le> dt) \<Longrightarrow> 0 \<le> loud_time frames"
  unfolding loud_time_def by (induction frames) auto

lemma forget_old_sum:
  "loud_s = loud_time frames + c \<Longrightarrow> forget_old keep now frames loud_s = (frames', loud_s') \<Longrightarrow>
    loud_s' = loud_time frames' + c \<and> set frames' \<subseteq> set frames \<and> frames' = dropWhile (\<lambda>(at_s, _). keep < now - at_s) frames"
  by (induction keep now frames loud_s rule: forget_old.induct) (auto simp: loud_time_def split: if_splits)

lemma track_floor_keeps [simp]:
  "dt_window (track_floor d now level) = dt_window d" "dt_above (track_floor d now level) = dt_above d"
  "dt_speaking (track_floor d now level) = dt_speaking d" "dt_hold (track_floor d now level) = dt_hold d"
  "dt_window_s (track_floor d now level) = dt_window_s d" "dt_last (track_floor d now level) = dt_last d"
  "dt_sens (track_floor d now level) = dt_sens d"
  by (simp_all add: track_floor_def Let_def)

text \<open>One frame, in terms of the frames of the window: what \<open>feed\<close> is meant to decide.\<close>

definition frame_step :: "detector \<Rightarrow> rat \<Rightarrow> rat" where
  "frame_step d now = (case dt_last d of None \<Rightarrow> 0 | Some t \<Rightarrow> max 0 (min (now - t) MAX_STEP_S))"

lemma frame_step_bounds: "0 \<le> frame_step d now" "frame_step d now \<le> MAX_STEP_S"
  by (auto simp: frame_step_def MAX_STEP_S_def min_def max_def split: option.splits)

lemma heard_keeps:
  "dt_window (track_floor (d\<lparr>dt_last := t\<rparr>) now level) = dt_window d"
  "dt_above (track_floor (d\<lparr>dt_last := t\<rparr>) now level) = dt_above d"
  "dt_speaking (track_floor (d\<lparr>dt_last := t\<rparr>) now level) = dt_speaking d"
  "dt_hold (track_floor (d\<lparr>dt_last := t\<rparr>) now level) = dt_hold d"
  "dt_window_s (track_floor (d\<lparr>dt_last := t\<rparr>) now level) = dt_window_s d"
  by simp_all

lemma speech_feed_spec:
  assumes inv: "detector_inv d" and feed: "speech_feed d now level = (d', said)"
  shows "detector_inv d'"
    and "dt_window d' = dropWhile (\<lambda>(at_s, _). dt_window_s d < now - at_s)
           (dt_window d @ [(now, frame_step d now, threshold_db (track_floor (d\<lparr>dt_last := Some now\<rparr>) now level) < level)])"
    and "said = (if dt_speaking d then dt_hold d / 2 \<le> loud_time (dt_window d')
                 else dt_hold d \<le> loud_time (dt_window d'))"
    and "dt_speaking d' = said" and "dt_hold d' = dt_hold d"
proof -
  let ?loud = "threshold_db (track_floor (d\<lparr>dt_last := Some now\<rparr>) now level) < level"
  let ?all = "dt_window d @ [(now, frame_step d now, ?loud)]"
  let ?loud_s = "if ?loud then dt_above d + frame_step d now else dt_above d"
  obtain frames loud_s where old: "forget_old (dt_window_s d) now ?all ?loud_s = (frames, loud_s)" by (rule prod.exhaust)
  have "?loud_s = loud_time ?all + 0" using inv by (simp add: detector_inv_def loud_time_def)
  from forget_old_sum [OF this old] have fo: "loud_s = loud_time frames" "set frames \<subseteq> set ?all"
      "frames = dropWhile (\<lambda>(at_s, _). dt_window_s d < now - at_s) ?all" by auto
  have bounds: "\<forall>(at_s, dt, loud)\<in>set frames. 0 \<le> dt \<and> dt \<le> MAX_STEP_S"
    using fo(2) inv frame_step_bounds by (fastforce simp: detector_inv_def)
  then have "0 \<le> loud_time frames" by (intro loud_time_nonneg) auto
  then have loud_s: "max 0 loud_s = loud_time frames" using fo(1) by simp
  have d': "dt_window d' = frames" "dt_above d' = loud_time frames"
    "dt_speaking d' = said" "dt_hold d' = dt_hold d"
    and said: "said = (if \<not> dt_speaking d \<and> dt_hold d \<le> loud_time frames then True
        else if dt_speaking d \<and> loud_time frames < dt_hold d / 2 then False else dt_speaking d)"
    using feed unfolding speech_feed_def Let_def heard_keeps frame_step_def [symmetric] old prod.case loud_s
    by auto
  show "detector_inv d'" using bounds d' by (simp add: detector_inv_def)
  show "dt_window d' = dropWhile (\<lambda>(at_s, _). dt_window_s d < now - at_s) ?all" using fo(3) d'(1) by simp
  show "said = (if dt_speaking d then dt_hold d / 2 \<le> loud_time (dt_window d') else dt_hold d \<le> loud_time (dt_window d'))"
    using said d'(1) by auto
  show "dt_speaking d' = said" "dt_hold d' = dt_hold d" by (rule d')+
qed

section \<open>Speech is sustained sound\<close>

definition frame_loud :: "detector \<Rightarrow> rat \<Rightarrow> rat \<Rightarrow> bool" where
  "frame_loud d now level \<longleftrightarrow> threshold_db (track_floor (d\<lparr>dt_last := Some now\<rparr>) now level) < level"

text \<open>The whole history of a run: when each frame came, how long it counts and whether it was loud.\<close>

fun heard :: "detector \<Rightarrow> (rat \<times> rat) list \<Rightarrow> (rat \<times> rat \<times> bool) list" where
  "heard d [] = []"
| "heard d ((now, level) # frames) =
     (now, frame_step d now, frame_loud d now level) # heard (fst (speech_feed d now level)) frames"

definition recent :: "rat \<Rightarrow> rat \<Rightarrow> (rat \<times> rat \<times> bool) list \<Rightarrow> (rat \<times> rat \<times> bool) list" where
  "recent keep now hist = filter (\<lambda>(at_s, _). now - at_s \<le> keep) hist"

lemma dropWhile_sorted:
  "sorted_wrt (\<le>) (map fst xs) \<Longrightarrow> dropWhile (\<lambda>(at_s, _). keep < now - at_s) xs = filter (\<lambda>(at_s, _). now - at_s \<le> keep) xs"
  for xs :: "(rat \<times> 'a) list"
proof (induction xs)
  case (Cons x xs)
  show ?case
  proof (cases "keep < now - fst x")
    case True
    with Cons show ?thesis by (auto simp: case_prod_beta)
  next
    case False
    with Cons.prems have "\<forall>y\<in>set xs. now - fst y \<le> keep" by fastforce
    with False show ?thesis by (auto simp: case_prod_beta intro!: filter_True [symmetric])
  qed
qed simp

lemma recent_later: "now \<le> later \<Longrightarrow> recent keep later (recent keep now hist) = recent keep later hist"
  unfolding recent_def by (induction hist) auto

lemma heard_append: "heard d (xs @ ys) = heard d xs @ heard (speech_run d xs) ys"
  by (induction d xs rule: heard.induct) simp_all

lemma heard_times: "map fst (heard d frames) = map fst frames"
  by (induction d frames rule: heard.induct) simp_all

lemma speech_run_append: "speech_run d (xs @ ys) = speech_run (speech_run d xs) ys"
  by (induction d xs rule: speech_run.induct) simp_all

lemma speech_feed_window_s [simp]: "dt_window_s (fst (speech_feed d now level)) = dt_window_s d"
  by (simp add: speech_feed_def Let_def split: prod.splits)

lemma speech_run_fields:
  "detector_inv d \<Longrightarrow> detector_inv (speech_run d frames) \<and> dt_hold (speech_run d frames) = dt_hold d \<and>
    dt_window_s (speech_run d frames) = dt_window_s d"
proof (induction d frames rule: speech_run.induct)
  case (2 d now level frames)
  obtain d' said where feed: "speech_feed d now level = (d', said)" by (rule prod.exhaust)
  with 2 speech_feed_spec(1,5) [OF 2(2) feed] speech_feed_window_s [of d now level] show ?case by simp
qed simp

text \<open>The window is the history's last \<open>dt_window_s\<close> seconds.\<close>

lemma window_is_recent:
  assumes "detector_inv d" and "dt_window d = []" and "sorted_wrt (\<le>) (map fst (frames @ [(now, level)]))"
  shows "dt_window (speech_run d (frames @ [(now, level)])) = recent (dt_window_s d) now (heard d (frames @ [(now, level)]))"
  using assms(3)
proof (induction frames arbitrary: now level rule: rev_induct)
  case Nil
  obtain d' said where feed: "speech_feed d now level = (d', said)" by (rule prod.exhaust)
  from speech_feed_spec(2) [OF assms(1) feed] feed assms(2) show ?case
    by (simp add: recent_def frame_loud_def)
next
  case (snoc x frames)
  obtain t l where x: "x = (t, l)" by (rule prod.exhaust)
  let ?e = "speech_run d (frames @ [x])"
  let ?hist = "heard d (frames @ [x])"
  have IH: "dt_window ?e = recent (dt_window_s d) t ?hist"
    using snoc.prems unfolding x by (intro snoc.IH) (auto simp: sorted_wrt_append)
  have inv: "detector_inv ?e" and keep: "dt_window_s ?e = dt_window_s d"
    using speech_run_fields [OF assms(1), of "frames @ [x]"] by simp_all
  have later: "t \<le> now" using snoc.prems by (simp add: x sorted_wrt_append)
  obtain d' said where feed: "speech_feed ?e now level = (d', said)" by (rule prod.exhaust)
  define new where "new = (now, frame_step ?e now, frame_loud ?e now level)"
  have hist: "heard d ((frames @ [x]) @ [(now, level)]) = ?hist @ [new]"
    unfolding heard_append [of d "frames @ [x]"] by (simp add: new_def)
  have "sorted_wrt (\<le>) (map fst (?hist @ [new]))"
    using snoc.prems heard_times [of d "(frames @ [x]) @ [(now, level)]"] unfolding hist by simp
  moreover have "sorted_wrt (\<le>) (map fst (recent (dt_window_s d) t ?hist @ [new]))"
    using calculation by (auto simp: recent_def sorted_wrt_append sorted_wrt_map intro: sorted_wrt_filter)
  moreover have "dt_window d' = dropWhile (\<lambda>(at_s, _). dt_window_s d < now - at_s) (recent (dt_window_s d) t ?hist @ [new])"
    using speech_feed_spec(2) [OF inv feed] by (simp add: keep IH new_def frame_loud_def)
  ultimately have "dt_window d' = recent (dt_window_s d) now (recent (dt_window_s d) t ?hist @ [new])"
    using dropWhile_sorted unfolding recent_def by metis
  also have "\<dots> = recent (dt_window_s d) now (?hist @ [new])"
    using recent_later [OF later, of "dt_window_s d" ?hist] by (simp add: recent_def)
  finally show ?case
    unfolding hist speech_run_append [of d "frames @ [x]"] using feed by simp
qed

text \<open>
  C29. Speech is sustained sound: when the frames come in order of time, a frame says speech exactly
  when the loud frames of the last second (of \<open>window_s\<close>), counted over the whole history with each
  frame at most a quarter second long, add up to the hold time, or to half of it when speech was
  already said. In particular a sound shorter than the hold is never speech, and the running sum the
  code keeps never drifts from the frames it stands for.
\<close>

theorem speech_is_sustained_sound:
  assumes "sorted_wrt (\<le>) (map fst (frames @ [(now, level)]))"
    and "speech_feed (speech_run (new_detector name hold window) frames) now level = (d', said)"
  shows "said \<longleftrightarrow>
    (if dt_speaking (speech_run (new_detector name hold window) frames) then hold / 2 else hold)
      \<le> loud_time (recent window now (heard (new_detector name hold window) (frames @ [(now, level)])))"
proof -
  let ?d = "new_detector name hold window"
  have inv: "detector_inv ?d" by (simp add: detector_inv_def new_detector_def loud_time_def)
  have d: "dt_hold ?d = hold" "dt_window_s ?d = window" "dt_window ?d = []" by (simp_all add: new_detector_def)
  have run: "detector_inv (speech_run ?d frames)" "dt_hold (speech_run ?d frames) = hold"
    using speech_run_fields [OF inv, of frames] d by simp_all
  have "dt_window d' = recent window now (heard ?d (frames @ [(now, level)]))"
    using window_is_recent [OF inv d(3) assms(1)] assms(2) by (simp add: speech_run_append d)
  then show ?thesis using speech_feed_spec(3) [OF run(1) assms(2)] run(2) by simp
qed

text \<open>Three loud frames 0.2 s apart after a quiet one: the second one after the floor is learned reaches the hold.\<close>

theorem speech_is_sustained_sound_witness:
  "let d = new_detector Medium HOLD_S WINDOW_S; frames = [(0, -70), (1 / 5, -20)]
   in snd (speech_feed (speech_run d frames) (2 / 5) (-20)) \<and>
      loud_time (recent WINDOW_S (2 / 5) (heard d (frames @ [(2 / 5, -20)]))) = 2 / 5"
proof -
  let ?d = "new_detector Medium HOLD_S WINDOW_S"
  let ?frames = "[(0, -70), (1 / 5, -20)] :: (rat \<times> rat) list"
  note defs = new_detector_def speech_feed_def track_floor_def threshold_db_def Let_def FLOOR_WINDOW_S_def
    FLOOR_EVERY_S_def FLOOR_CAP_DB_def MAX_STEP_S_def SILENCE_DB_def HOLD_S_def WINDOW_S_def frame_step_def
    frame_loud_def
  have loud: "loud_time (recent WINDOW_S (2 / 5) (heard ?d (?frames @ [(2 / 5, -20)]))) = 2 / 5"
    by (simp add: defs recent_def loud_time_def)
  moreover have "snd (speech_feed (speech_run ?d ?frames) (2 / 5) (-20)) =
      ((if dt_speaking (speech_run ?d ?frames) then HOLD_S / 2 else HOLD_S) \<le>
        loud_time (recent WINDOW_S (2 / 5) (heard ?d (?frames @ [(2 / 5, -20)]))))"
    by (rule speech_is_sustained_sound [OF _ prod.collapse [symmetric]]) simp
  ultimately show ?thesis unfolding Let_def by (simp add: HOLD_S_def)
qed

section \<open>The watcher\<close>

record watcher =
  wt_cooldown :: rat
  wt_quiet :: rat
  wt_count :: nat
  wt_last_at :: "rat option"
  wt_talking :: bool
  wt_armed :: bool
  wt_quiet_since :: "rat option"

definition new_watcher :: "rat \<Rightarrow> rat \<Rightarrow> watcher" where
  "new_watcher cooldown quiet = \<lparr>wt_cooldown = cooldown, wt_quiet = quiet, wt_count = 0, wt_last_at = None,
     wt_talking = False, wt_armed = True, wt_quiet_since = None\<rparr>"

definition watch :: "watcher \<Rightarrow> rat \<Rightarrow> bool \<Rightarrow> bool \<Rightarrow> bool \<Rightarrow> watcher \<times> bool" where
  "watch w now in_call muted speaking =
     (if \<not> in_call \<or> \<not> muted then (w\<lparr>wt_armed := True, wt_talking := False, wt_quiet_since := None\<rparr>, False)
      else if speaking then
        let w1 = w\<lparr>wt_quiet_since := None\<rparr>
        in if wt_armed w1
           then (w1\<lparr>wt_armed := False, wt_talking := True, wt_count := wt_count w1 + 1, wt_last_at := Some now\<rparr>, True)
           else (w1, False)
      else
        let since = (case wt_quiet_since w of None \<Rightarrow> now | Some t \<Rightarrow> t);
            w1 = w\<lparr>wt_quiet_since := Some since\<rparr>;
            waited = (case wt_last_at w1 of None \<Rightarrow> True | Some t \<Rightarrow> wt_cooldown w1 \<le> now - t)
        in if \<not> wt_armed w1 \<and> wt_quiet w1 \<le> now - since \<and> waited
           then (w1\<lparr>wt_armed := True, wt_talking := False\<rparr>, False)
           else if \<not> wt_armed w1 \<and> wt_quiet w1 \<le> now - since
           then (w1\<lparr>wt_talking := False\<rparr>, False)
           else (w1, False))"

text \<open>Updates of a person who stays in the call and muted: the time and whether they speak.\<close>

fun muted_run :: "watcher \<Rightarrow> (rat \<times> bool) list \<Rightarrow> watcher \<times> bool list" where
  "muted_run w [] = (w, [])"
| "muted_run w ((now, speaking) # us) =
     (let (w1, warn) = watch w now True True speaking; (w2, warns) = muted_run w1 us in (w2, warn # warns))"

text \<open>
  Between two warnings: \<open>us\<close> are the updates since the warning at \<open>t1\<close>. Silence is a stretch of them
  without speech; the invariant says where the watcher's fields come from.
\<close>

definition silence :: "(rat \<times> bool) list \<Rightarrow> bool" where
  "silence us \<longleftrightarrow> us \<noteq> [] \<and> (\<forall>(t, speaking)\<in>set us. \<not> speaking)"

definition episode_over :: "rat \<Rightarrow> rat \<Rightarrow> rat \<Rightarrow> (rat \<times> bool) list \<Rightarrow> bool" where
  "episode_over t1 cooldown quiet us \<longleftrightarrow>
     (\<exists>pre mid post. us = pre @ mid @ post \<and> silence mid \<and> quiet \<le> fst (last mid) - fst (hd mid) \<and>
        cooldown \<le> fst (last mid) - t1)"

definition watch_inv :: "rat \<Rightarrow> rat \<Rightarrow> rat \<Rightarrow> (rat \<times> bool) list \<Rightarrow> watcher \<Rightarrow> bool" where
  "watch_inv t1 cooldown quiet us w \<longleftrightarrow>
     wt_cooldown w = cooldown \<and> wt_quiet w = quiet \<and> wt_last_at w = Some t1 \<and>
     (wt_armed w \<longrightarrow> episode_over t1 cooldown quiet us) \<and>
     (\<forall>q. wt_quiet_since w = Some q \<longrightarrow> (\<exists>pre mid. us = pre @ mid \<and> silence mid \<and> fst (hd mid) = q))"

lemma episode_over_snoc: "episode_over t1 c q us \<Longrightarrow> episode_over t1 c q (us @ [u])"
  unfolding episode_over_def by (metis append_assoc)

lemma watch_quiet_inv:
  assumes "watch_inv t1 c q us w" and "watch w now True True speaking = (w', False)"
  shows "watch_inv t1 c q (us @ [(now, speaking)]) w'"
proof (cases speaking)
  case True
  with assms show ?thesis
    by (auto simp: watch_inv_def watch_def Let_def intro: episode_over_snoc split: if_splits)
next
  case False
  define since where "since = (case wt_quiet_since w of None \<Rightarrow> now | Some t \<Rightarrow> t)"
  have "\<exists>pre mid. us @ [(now, False)] = pre @ mid \<and> silence mid \<and> fst (hd mid) = since \<and> fst (last mid) = now"
  proof (cases "wt_quiet_since w")
    case None
    then show ?thesis by (intro exI [of _ us] exI [of _ "[(now, False)]"]) (simp add: silence_def since_def)
  next
    case (Some t)
    then obtain pre mid where "us = pre @ mid" "silence mid" "fst (hd mid) = t"
      using assms(1) by (auto simp: watch_inv_def)
    then show ?thesis using Some
      by (intro exI [of _ pre] exI [of _ "mid @ [(now, False)]"]) (auto simp: silence_def since_def)
  qed
  then obtain pre mid where mid: "us @ [(now, False)] = pre @ mid" "silence mid" "fst (hd mid) = since" "fst (last mid) = now"
    by blast
  have over: "episode_over t1 c q (us @ [(now, False)])" if "q \<le> now - since" "c \<le> now - t1"
    unfolding episode_over_def using mid that by (intro exI [of _ pre] exI [of _ mid] exI [of _ "[]"]) auto
  have w': "wt_quiet_since w' = Some since" "wt_cooldown w' = c" "wt_quiet w' = q" "wt_last_at w' = Some t1"
      "wt_armed w' \<longrightarrow> wt_armed w \<or> q \<le> now - since \<and> c \<le> now - t1"
    using assms False by (auto simp: watch_def watch_inv_def Let_def since_def split: if_splits)
  have "episode_over t1 c q (us @ [(now, False)])" if "wt_armed w'"
    using w'(5) that over episode_over_snoc assms(1) by (auto simp: watch_inv_def)
  then show ?thesis using w' mid False by (auto simp: watch_inv_def)
qed

lemma muted_run_inv:
  assumes "watch_inv t1 c q us0 w" and "muted_run w us = (w', warns)" and "True \<notin> set warns"
  shows "watch_inv t1 c q (us0 @ us) w'"
  using assms
proof (induction us arbitrary: us0 w warns)
  case (Cons u us)
  obtain now speaking where u: "u = (now, speaking)" by (rule prod.exhaust)
  obtain w1 warn where step: "watch w now True True speaking = (w1, warn)" by (rule prod.exhaust)
  obtain warns' where run: "muted_run w1 us = (w', warns')" and warns: "warns = warn # warns'"
    using Cons.prems(2) step by (auto simp: u split: prod.splits)
  have "warn = False" using Cons.prems(3) warns by auto
  with step have "watch_inv t1 c q (us0 @ [u]) w1" using watch_quiet_inv [OF Cons.prems(1)] by (simp add: u)
  from Cons.IH [OF this run] Cons.prems(3) show ?case by (simp add: warns)
qed simp

text \<open>
  One warning per episode: when a person who stays in the call and muted is warned at \<open>t1\<close> and
  next at \<open>t2\<close>, the updates between hold an unbroken silence at least as long as the quiet time, whose
  end is at least the cooldown after \<open>t1\<close>; so talking on, however long, is never warned about twice.
\<close>

theorem one_warning_per_episode:
  assumes "watch w t1 True True True = (w1, True)" and "muted_run w1 us = (w2, warns)" and "True \<notin> set warns"
    and "watch w2 t2 True True speaking = (w3, True)"
  shows "\<exists>pre mid post. us = pre @ mid @ post \<and> silence mid \<and> wt_quiet w \<le> fst (last mid) - fst (hd mid) \<and>
    wt_cooldown w \<le> fst (last mid) - t1"
proof -
  have "watch_inv t1 (wt_cooldown w) (wt_quiet w) [] w1"
    using assms(1) by (auto simp: watch_def watch_inv_def Let_def split: if_splits)
  from muted_run_inv [OF this assms(2,3)] have inv: "watch_inv t1 (wt_cooldown w) (wt_quiet w) us w2" by simp
  have "wt_armed w2" using assms(4) by (auto simp: watch_def Let_def split: if_splits)
  with inv show ?thesis by (simp add: watch_inv_def episode_over_def)
qed

theorem one_warning_per_episode_witness:
  "let w1 = fst (watch (new_watcher 20 3) 0 True True True);
       us = [(5, True), (18, False), (21, False), (24, False)]
   in \<exists>pre mid post. us = pre @ mid @ post \<and> silence mid \<and> 3 \<le> fst (last mid) - fst (hd mid) \<and>
        (20 :: rat) \<le> fst (last mid) - 0"
proof -
  let ?w1 = "fst (watch (new_watcher 20 3) 0 True True True)"
  let ?us = "[(5, True), (18, False), (21, False), (24, False)] :: (rat \<times> bool) list"
  note defs = watch_def new_watcher_def Let_def
  have first: "watch (new_watcher 20 3) 0 True True True = (?w1, True)" by (simp add: defs)
  have "snd (muted_run ?w1 ?us) = [False, False, False, False]" by (simp add: defs)
  moreover have "snd (watch (fst (muted_run ?w1 ?us)) 25 True True True)" by (simp add: defs)
  ultimately have "\<exists>pre mid post. ?us = pre @ mid @ post \<and> silence mid \<and>
      wt_quiet (new_watcher 20 3) \<le> fst (last mid) - fst (hd mid) \<and> wt_cooldown (new_watcher 20 3) \<le> fst (last mid) - 0"
    by (intro one_warning_per_episode [OF first prod.collapse [symmetric], of _ 25 True
        "fst (watch (fst (muted_run ?w1 ?us)) 25 True True True)"])
       (simp_all add: prod_eq_iff)
  then show ?thesis unfolding Let_def by (simp add: new_watcher_def)
qed

end
