(* ===== verification/Litra.thy ===== *)
theory Litra
  imports PyNum
begin

text \<open>
  \<open>lighting.py\<close>: the values, the 20 byte reports and the request and answer protocol of the Litra
  lights, and the repository's own simulated light. A transport is a record of the operations the
  protocol calls; the protocol's lemmas are proved for every light that keeps the promises of the
  locale \<open>litra_light\<close>, and the simulated light is shown to keep them.
\<close>

section \<open>Values\<close>

definition KELVIN_MIN :: int where "KELVIN_MIN = 2700"
definition KELVIN_MAX :: int where "KELVIN_MAX = 6500"
definition KELVIN_STEP :: int where "KELVIN_STEP = 100"

record light_model =
  lm_pid :: nat
  lm_name :: string
  lm_lumen_min :: int
  lm_lumen_max :: int
  lm_feature :: nat

definition MODELS :: "nat \<rightharpoonup> light_model" where
  "MODELS =
     [0xC900 \<mapsto> \<lparr>lm_pid = 0xC900, lm_name = ''Litra Glow'', lm_lumen_min = 20, lm_lumen_max = 250, lm_feature = 4\<rparr>,
      0xC901 \<mapsto> \<lparr>lm_pid = 0xC901, lm_name = ''Litra Beam'', lm_lumen_min = 30, lm_lumen_max = 400, lm_feature = 4\<rparr>,
      0xB901 \<mapsto> \<lparr>lm_pid = 0xB901, lm_name = ''Litra Beam'', lm_lumen_min = 30, lm_lumen_max = 400, lm_feature = 4\<rparr>,
      0xC903 \<mapsto> \<lparr>lm_pid = 0xC903, lm_name = ''Litra Beam LX'', lm_lumen_min = 30, lm_lumen_max = 400, lm_feature = 6\<rparr>]"

definition clamp_kelvin :: "rat \<Rightarrow> int" where
  "clamp_kelvin kelvin =
     (let stepped = py_round (kelvin / of_int KELVIN_STEP) * KELVIN_STEP
      in min KELVIN_MAX (max KELVIN_MIN stepped))"

definition percent_to_lumen :: "light_model \<Rightarrow> rat \<Rightarrow> int" where
  "percent_to_lumen m percent =
     (let fraction = (min 100 (max 1 percent) - 1) / 99
      in py_round (of_int (lm_lumen_min m) + of_int (lm_lumen_max m - lm_lumen_min m) * fraction))"

definition lumen_to_percent :: "light_model \<Rightarrow> int \<Rightarrow> int" where
  "lumen_to_percent m lumen =
     (let width = lm_lumen_max m - lm_lumen_min m;
          fraction = min 1 (max 0 (of_int (lumen - lm_lumen_min m) / of_int width))
      in py_round (fraction * 99) + 1)"

text \<open>The colour temperatures a light knows.\<close>

definition supported_kelvin :: "int \<Rightarrow> bool" where
  "supported_kelvin k \<longleftrightarrow> 2700 \<le> k \<and> k \<le> 6500 \<and> k mod 100 = 0"

lemma clamp_kelvin_supported: "supported_kelvin (clamp_kelvin k)"
  by (auto simp: supported_kelvin_def clamp_kelvin_def KELVIN_MIN_def KELVIN_MAX_def KELVIN_STEP_def Let_def
      min_def max_def)

lemma clamp_kelvin_noop: "supported_kelvin k \<Longrightarrow> clamp_kelvin (of_int k) = k"
proof -
  assume k: "supported_kelvin k"
  then have "k = k div 100 * 100" by (auto simp: supported_kelvin_def)
  then have "rat_of_int k / of_int KELVIN_STEP = of_int (k div 100)"
    by (metis KELVIN_STEP_def mult.commute nonzero_mult_div_cancel_left of_int_eq_0_iff of_int_mult zero_neq_numeral)
  with k show ?thesis
    by (auto simp: clamp_kelvin_def supported_kelvin_def KELVIN_MIN_def KELVIN_MAX_def KELVIN_STEP_def Let_def)
qed

lemma py_round_near: "\<bar>of_int (py_round x) - x\<bar> \<le> 1 / 2"
proof -
  have "of_int \<lfloor>x\<rfloor> \<le> x" "x < of_int \<lfloor>x\<rfloor> + 1" by linarith+
  then show ?thesis by (auto simp: py_round_def Let_def abs_le_iff)
qed

lemma py_round_unique: "\<bar>of_int n - x\<bar> < 1 / 2 \<Longrightarrow> py_round x = n"
proof -
  assume "\<bar>of_int n - x\<bar> < 1 / 2"
  moreover have "\<bar>of_int (py_round x) - x\<bar> \<le> 1 / 2" by (rule py_round_near)
  ultimately have "\<bar>rat_of_int (py_round x) - of_int n\<bar> < 1" by linarith
  then have "\<bar>py_round x - n\<bar> < 1" by (metis of_int_abs of_int_diff of_int_less_1_iff)
  then show ?thesis by simp
qed

lemma py_round_mono: "x \<le> y \<Longrightarrow> py_round x \<le> py_round y"
proof (rule ccontr)
  assume xy: "x \<le> y" and "\<not> py_round x \<le> py_round y"
  then have gap: "rat_of_int (py_round y) + 1 \<le> of_int (py_round x)"
    by (metis add1_zle_eq of_int_1 of_int_add of_int_le_iff not_le)
  have near: "\<bar>of_int (py_round x) - x\<bar> \<le> 1 / 2" "\<bar>of_int (py_round y) - y\<bar> \<le> 1 / 2"
    by (rule py_round_near)+
  then have "x = y" using xy gap by linarith
  then show False using gap by simp
qed

lemma clamp_kelvin_mono: "x \<le> y \<Longrightarrow> clamp_kelvin x \<le> clamp_kelvin y"
proof -
  assume "x \<le> y"
  then have "py_round (x / of_int KELVIN_STEP) \<le> py_round (y / of_int KELVIN_STEP)"
    by (intro py_round_mono) (simp add: KELVIN_STEP_def)
  then show ?thesis by (auto simp: clamp_kelvin_def KELVIN_STEP_def Let_def min_def max_def)
qed

lemma models_wide: "MODELS pid = Some m \<Longrightarrow> 0 < lm_lumen_min m \<and> lm_lumen_min m + 99 < lm_lumen_max m \<and> lm_lumen_max m < 65536"
  by (auto simp: MODELS_def split: if_splits)

lemma percent_to_lumen_range:
  assumes "lm_lumen_min m \<le> lm_lumen_max m"
  shows "lm_lumen_min m \<le> percent_to_lumen m p" and "percent_to_lumen m p \<le> lm_lumen_max m"
proof -
  define f where "f = (min 100 (max 1 p) - 1) / (99 :: rat)"
  have f: "0 \<le> f" "f \<le> 1" by (auto simp: f_def)
  let ?w = "rat_of_int (lm_lumen_max m - lm_lumen_min m)"
  have "0 \<le> ?w" using assms by simp
  with f have "0 \<le> ?w * f" "?w * f \<le> ?w" by (simp_all add: mult_left_le)
  then show "lm_lumen_min m \<le> percent_to_lumen m p" "percent_to_lumen m p \<le> lm_lumen_max m"
    using py_round_bounds [of "lm_lumen_min m" "of_int (lm_lumen_min m) + ?w * f" "lm_lumen_max m"]
    unfolding percent_to_lumen_def Let_def f_def [symmetric] by simp_all
qed

lemma percent_there_and_back:
  assumes "MODELS pid = Some m" and "1 \<le> p" and "p \<le> 100"
  shows "lumen_to_percent m (percent_to_lumen m (of_int p)) = p"
proof -
  let ?lo = "lm_lumen_min m"
  define w where "w = rat_of_int (lm_lumen_max m - ?lo)"
  have w: "99 < w" using models_wide [OF assms(1)] by (simp add: w_def)
  let ?l = "percent_to_lumen m (of_int p)"
  define x where "x = of_int ?lo + w * ((of_int p - 1) / 99)"
  have "min 100 (max 1 (rat_of_int p)) = of_int p" using assms(2,3) by simp
  then have l: "?l = py_round x" by (simp add: percent_to_lumen_def x_def w_def)
  have near: "\<bar>of_int ?l - x\<bar> \<le> 1 / 2" unfolding l by (rule py_round_near)
  have range: "?lo \<le> ?l" "?l \<le> lm_lumen_max m"
    using models_wide [OF assms(1)] by (intro percent_to_lumen_range; simp)+
  define fraction where "fraction = rat_of_int (?l - ?lo) / w"
  have "0 \<le> rat_of_int (?l - ?lo)" "rat_of_int (?l - ?lo) \<le> w" using range by (simp_all add: w_def)
  with w have fr: "0 \<le> fraction" "fraction \<le> 1" by (simp_all add: fraction_def)
  have "of_int (p - 1) - fraction * 99 = (x - of_int ?l) * (99 / w)"
    using w by (simp add: fraction_def x_def field_simps)
  moreover have "\<bar>(x - of_int ?l) * (99 / w)\<bar> < 1 / 2"
  proof -
    have "0 < 99 / w" using w by simp
    then have "\<bar>(x - of_int ?l) * (99 / w)\<bar> = \<bar>of_int ?l - x\<bar> * (99 / w)"
      by (simp only: abs_mult abs_of_pos abs_minus_commute [of x])
    also have "\<dots> \<le> 1 / 2 * (99 / w)" using near w by (intro mult_right_mono) simp_all
    also have "\<dots> < 1 / 2" using w by (simp add: field_simps)
    finally show ?thesis .
  qed
  ultimately have "py_round (fraction * 99) = p - 1" by (intro py_round_unique) simp
  with fr show ?thesis
    by (simp add: lumen_to_percent_def Let_def fraction_def w_def)
qed

section \<open>Reports\<close>

definition REPORT_ID :: nat where "REPORT_ID = 0x11"
definition DEVICE_BYTE :: nat where "DEVICE_BYTE = 0xFF"
definition REPORT_LENGTH :: nat where "REPORT_LENGTH = 20"
definition CMD_GET_POWER :: nat where "CMD_GET_POWER = 0x01"
definition CMD_GET_BRIGHTNESS :: nat where "CMD_GET_BRIGHTNESS = 0x31"
definition CMD_GET_TEMPERATURE :: nat where "CMD_GET_TEMPERATURE = 0x81"
definition CMD_SET_POWER :: nat where "CMD_SET_POWER = 0x1C"
definition CMD_SET_BRIGHTNESS :: nat where "CMD_SET_BRIGHTNESS = 0x4C"
definition CMD_SET_TEMPERATURE :: nat where "CMD_SET_TEMPERATURE = 0x9C"

definition build_report :: "light_model \<Rightarrow> nat \<Rightarrow> int list \<Rightarrow> bytes result" where
  "build_report m command payload =
     (if REPORT_LENGTH - 4 < length payload \<or> list_ex (\<lambda>b. \<not> (0 \<le> b \<and> b \<le> 0xFF)) payload
      then Inl ValueError
      else let head = map byte_of ([REPORT_ID, DEVICE_BYTE, lm_feature m, command] @ map nat payload)
           in Inr (head @ replicate (REPORT_LENGTH - length head) 0))"

definition report_power :: "light_model \<Rightarrow> bool \<Rightarrow> bytes result" where
  "report_power m on = build_report m CMD_SET_POWER [if on then 1 else 0]"

definition clamp_lumen :: "light_model \<Rightarrow> int \<Rightarrow> int" where
  "clamp_lumen m lumen = min (lm_lumen_max m) (max (lm_lumen_min m) lumen)"

definition report_brightness :: "light_model \<Rightarrow> int \<Rightarrow> bytes result" where
  "report_brightness m lumen0 =
     (let lumen = clamp_lumen m lumen0
      in build_report m CMD_SET_BRIGHTNESS [drop_bit 8 lumen, lumen AND 0xFF])"

definition report_temperature :: "light_model \<Rightarrow> int \<Rightarrow> bytes result" where
  "report_temperature m kelvin0 =
     (let kelvin = clamp_kelvin (of_int kelvin0)
      in build_report m CMD_SET_TEMPERATURE [drop_bit 8 kelvin, kelvin AND 0xFF])"

definition answer_to :: "light_model \<Rightarrow> bytes \<Rightarrow> nat \<Rightarrow> bytes option" where
  "answer_to m report command =
     (if length report < 6 \<or> unat (report ! 0) \<noteq> REPORT_ID \<or> unat (report ! 1) \<noteq> DEVICE_BYTE then None
      else if unat (report ! 2) \<noteq> lm_feature m \<or> unat (report ! 3) \<noteq> command then None
      else Some (drop 4 report))"

definition decode_power :: "bytes \<Rightarrow> bool" where
  "decode_power v \<longleftrightarrow> unat (v ! 0) = 1"

definition decode_word :: "bytes \<Rightarrow> int" where
  "decode_word v = push_bit 8 (int (unat (v ! 0))) OR int (unat (v ! 1))"

section \<open>The protocol over a transport\<close>

record 't transport =
  tp_write :: "'t \<Rightarrow> bytes \<Rightarrow> 't result"
  tp_read :: "'t \<Rightarrow> bytes option \<times> 't"
  tp_drain :: "'t \<Rightarrow> 't"

text \<open>
  The loop of \<open>_ask\<close>. \<open>time_left\<close> holds, for each check of the deadline in turn, whether time is left;
  the clock reaches the deadline, so the list is finite.
\<close>

fun ask_loop :: "'t transport \<Rightarrow> light_model \<Rightarrow> nat \<Rightarrow> bool list \<Rightarrow> 't \<Rightarrow> bytes option \<times> 't" where
  "ask_loop tp m command [] t = (None, t)"
| "ask_loop tp m command (left # time_left) t =
     (if \<not> left then (None, t)
      else case tp_read tp t of
             (None, t1) \<Rightarrow> (None, t1)
           | (Some report, t1) \<Rightarrow>
               (case answer_to m report command of
                  Some v \<Rightarrow> (Some v, t1)
                | None \<Rightarrow> ask_loop tp m command time_left t1))"

definition ask :: "'t transport \<Rightarrow> light_model \<Rightarrow> nat \<Rightarrow> bool list \<Rightarrow> 't \<Rightarrow> (bytes option \<times> 't) result" where
  "ask tp m command time_left t =
     bindE (build_report m command []) (\<lambda>report.
     bindE (tp_write tp (tp_drain tp t) report) (\<lambda>t1. Inr (ask_loop tp m command time_left t1)))"

definition read_power :: "'t transport \<Rightarrow> light_model \<Rightarrow> bool list \<Rightarrow> 't \<Rightarrow> (bool option \<times> 't) result" where
  "read_power tp m time_left t =
     bindE (ask tp m CMD_GET_POWER time_left t) (\<lambda>(v, t1). Inr (map_option decode_power v, t1))"

definition read_lumen :: "'t transport \<Rightarrow> light_model \<Rightarrow> bool list \<Rightarrow> 't \<Rightarrow> (int option \<times> 't) result" where
  "read_lumen tp m time_left t =
     bindE (ask tp m CMD_GET_BRIGHTNESS time_left t) (\<lambda>(v, t1). Inr (map_option decode_word v, t1))"

definition read_kelvin :: "'t transport \<Rightarrow> light_model \<Rightarrow> bool list \<Rightarrow> 't \<Rightarrow> (int option \<times> 't) result" where
  "read_kelvin tp m time_left t =
     bindE (ask tp m CMD_GET_TEMPERATURE time_left t) (\<lambda>(v, t1). Inr (map_option decode_word v, t1))"

definition set_power :: "'t transport \<Rightarrow> light_model \<Rightarrow> bool \<Rightarrow> 't \<Rightarrow> 't result" where
  "set_power tp m on t = bindE (report_power m on) (tp_write tp t)"

definition set_lumen :: "'t transport \<Rightarrow> light_model \<Rightarrow> int \<Rightarrow> 't \<Rightarrow> (int \<times> 't) result" where
  "set_lumen tp m lumen0 t =
     (let lumen = clamp_lumen m lumen0
      in bindE (report_brightness m lumen) (\<lambda>report. bindE (tp_write tp t report) (\<lambda>t1. Inr (lumen, t1))))"

definition set_kelvin :: "'t transport \<Rightarrow> light_model \<Rightarrow> int \<Rightarrow> 't \<Rightarrow> (int \<times> 't) result" where
  "set_kelvin tp m kelvin0 t =
     (let kelvin = clamp_kelvin (of_int kelvin0)
      in bindE (report_temperature m kelvin) (\<lambda>report. bindE (tp_write tp t report) (\<lambda>t1. Inr (kelvin, t1))))"

section \<open>The simulated light\<close>

record simulated =
  si_model :: light_model
  si_on :: bool
  si_lumen :: int
  si_kelvin :: int
  si_ceiling :: "int option"
  si_writes :: "bytes list"
  si_closed :: bool
  si_inbox :: "bytes list"

definition sim_answer :: "simulated \<Rightarrow> nat \<Rightarrow> int list \<Rightarrow> simulated result" where
  "sim_answer s command payload =
     bindE (build_report (si_model s) command payload) (\<lambda>r. Inr (s\<lparr>si_inbox := si_inbox s @ [r]\<rparr>))"

definition sim_write :: "simulated \<Rightarrow> bytes \<Rightarrow> simulated result" where
  "sim_write s data =
     (if si_closed s then Inl (LightingError ''closed'')
      else if length data \<noteq> REPORT_LENGTH \<or> unat (data ! 0) \<noteq> REPORT_ID \<or> unat (data ! 1) \<noteq> DEVICE_BYTE \<or>
              unat (data ! 2) \<noteq> lm_feature (si_model s)
      then Inl (LightingError ''the simulated light got a malformed report'')
      else let s1 = s\<lparr>si_writes := si_writes s @ [data]\<rparr>; command = unat (data ! 3);
               word = push_bit 8 (int (unat (data ! 4))) OR int (unat (data ! 5))
           in if command = CMD_SET_POWER then Inr (s1\<lparr>si_on := unat (data ! 4) = 1\<rparr>)
              else if command = CMD_SET_BRIGHTNESS then
                let limit = (case si_ceiling s1 of None \<Rightarrow> lm_lumen_max (si_model s1)
                             | Some c \<Rightarrow> min (lm_lumen_max (si_model s1)) c)
                in Inr (s1\<lparr>si_lumen := min limit (max (lm_lumen_min (si_model s1)) word)\<rparr>)
              else if command = CMD_SET_TEMPERATURE then Inr (s1\<lparr>si_kelvin := clamp_kelvin (of_int word)\<rparr>)
              else if command = CMD_GET_POWER then sim_answer s1 command [if si_on s1 then 1 else 0, 0]
              else if command = CMD_GET_BRIGHTNESS
              then sim_answer s1 command [drop_bit 8 (si_lumen s1), si_lumen s1 AND 0xFF]
              else if command = CMD_GET_TEMPERATURE
              then sim_answer s1 command [drop_bit 8 (si_kelvin s1), si_kelvin s1 AND 0xFF]
              else Inr s1)"

definition sim_read :: "simulated \<Rightarrow> bytes option \<times> simulated" where
  "sim_read s = (case si_inbox s of [] \<Rightarrow> (None, s) | r # rs \<Rightarrow> (Some r, s\<lparr>si_inbox := rs\<rparr>))"

definition sim_drain :: "simulated \<Rightarrow> simulated" where
  "sim_drain s = s\<lparr>si_inbox := []\<rparr>"

definition sim_transport :: "simulated transport" where
  "sim_transport = \<lparr>tp_write = sim_write, tp_read = sim_read, tp_drain = sim_drain\<rparr>"

section \<open>Words in reports\<close>

lemma build_report_ok:
  assumes "length payload \<le> 16" and "\<forall>b\<in>set payload. 0 \<le> b \<and> b \<le> 255"
  shows "build_report m command payload =
    Inr (map byte_of ([REPORT_ID, DEVICE_BYTE, lm_feature m, command] @ map nat payload) @ replicate (16 - length payload) 0)"
  using assms by (auto simp: build_report_def REPORT_LENGTH_def list_ex_iff Let_def)

lemma word_split:
  assumes "0 \<le> v" and "v < 65536"
  shows "0 \<le> drop_bit 8 v" and "drop_bit 8 v \<le> (255 :: int)" and "0 \<le> v AND 0xFF" and "v AND 0xFF \<le> (255 :: int)"
    and "push_bit 8 (drop_bit 8 v) OR (v AND 0xFF) = v"
proof -
  have m: "v AND 0xFF = take_bit 8 v" by (simp add: take_bit_eq_mask mask_eq_exp_minus_1)
  have "0 \<le> take_bit 8 v" "take_bit 8 v < 2 ^ 8" by (simp, rule take_bit_int_less_exp)
  then show "0 \<le> v AND 0xFF" "v AND 0xFF \<le> 255" unfolding m by simp_all
  show "0 \<le> drop_bit 8 v" using assms(1) by simp
  show "drop_bit 8 v \<le> 255" using assms by (simp add: drop_bit_eq_div)
  show "push_bit 8 (drop_bit 8 v) OR (v AND 0xFF) = v"
    unfolding m by (rule bit_eqI) (auto simp: bit_simps)
qed

lemma decode_word_bytes:
  assumes "0 \<le> v" and "v < 65536"
  shows "decode_word (byte_of (nat (drop_bit 8 v)) # byte_of (nat (v AND 0xFF)) # rest) = v"
proof -
  note w = word_split [OF assms]
  have "nat (drop_bit 8 v) < 256" "nat (v AND 0xFF) < 256" using w by linarith+
  then show ?thesis using w by (simp add: decode_word_def)
qed

section \<open>Every light that answers what it was asked is read back\<close>

text \<open>
  The promises of a light behind a transport: it takes every report of its model, an answer is the
  next thing read after a drain and a get, and it holds what \<open>shows\<close> says. \<open>power\<close>, \<open>lumen\<close> and
  \<open>kelvin\<close> are what the light shows; \<open>takes_lumen\<close> and \<open>takes_kelvin\<close> what it makes of a value it is
  told.
\<close>

locale litra_light =
  fixes tp :: "'t transport" and m :: light_model and ok :: "'t \<Rightarrow> bool"
    and power :: "'t \<Rightarrow> bool" and lumen :: "'t \<Rightarrow> int" and kelvin :: "'t \<Rightarrow> int"
    and takes_lumen :: "'t \<Rightarrow> int \<Rightarrow> int" and takes_kelvin :: "int \<Rightarrow> int"
  assumes model_range: "ok t \<Longrightarrow>
      0 < lm_lumen_min m \<and> lm_lumen_min m \<le> lm_lumen_max m \<and> lm_lumen_max m < 65536 \<and> lm_feature m < 256"
    and shown_range: "ok t \<Longrightarrow> 0 \<le> lumen t \<and> lumen t < 65536 \<and> 0 \<le> kelvin t \<and> kelvin t < 65536"
    and answers_power: "ok t \<Longrightarrow> build_report m CMD_GET_POWER [] = Inr r \<Longrightarrow>
      \<exists>t1 t2. tp_write tp (tp_drain tp t) r = Inr t1 \<and>
        tp_read tp t1 = (Some (projr (build_report m CMD_GET_POWER [if power t then 1 else 0, 0])), t2)"
    and answers_lumen: "ok t \<Longrightarrow> build_report m CMD_GET_BRIGHTNESS [] = Inr r \<Longrightarrow>
      \<exists>t1 t2. tp_write tp (tp_drain tp t) r = Inr t1 \<and>
        tp_read tp t1 = (Some (projr (build_report m CMD_GET_BRIGHTNESS [drop_bit 8 (lumen t), lumen t AND 0xFF])), t2)"
    and answers_kelvin: "ok t \<Longrightarrow> build_report m CMD_GET_TEMPERATURE [] = Inr r \<Longrightarrow>
      \<exists>t1 t2. tp_write tp (tp_drain tp t) r = Inr t1 \<and>
        tp_read tp t1 = (Some (projr (build_report m CMD_GET_TEMPERATURE [drop_bit 8 (kelvin t), kelvin t AND 0xFF])), t2)"
    and takes_power: "ok t \<Longrightarrow> report_power m on = Inr r \<Longrightarrow> \<exists>t1. tp_write tp t r = Inr t1 \<and> ok t1 \<and> power t1 = on"
    and takes_brightness: "ok t \<Longrightarrow> report_brightness m v = Inr r \<Longrightarrow>
      \<exists>t1. tp_write tp t r = Inr t1 \<and> ok t1 \<and> lumen t1 = takes_lumen t (clamp_lumen m v)"
    and takes_temperature: "ok t \<Longrightarrow> report_temperature m v = Inr r \<Longrightarrow>
      \<exists>t1. tp_write tp t r = Inr t1 \<and> ok t1 \<and> kelvin t1 = takes_kelvin (clamp_kelvin (of_int v))"
begin

lemma clamped_range:
  assumes "ok t"
  shows "0 \<le> clamp_lumen m v" and "clamp_lumen m v < 65536" and "clamp_lumen m (clamp_lumen m v) = clamp_lumen m v"
  using model_range [OF assms] by (auto simp: clamp_lumen_def)

lemma report_brightness_ok:
  assumes "ok t" shows "\<exists>r. report_brightness m v = Inr r"
  using word_split [OF clamped_range(1,2) [OF assms], of v] by (simp add: report_brightness_def build_report_ok Let_def)

lemma kelvin_range: "0 \<le> clamp_kelvin x" "clamp_kelvin x < 65536"
  using clamp_kelvin_supported [of x] by (simp_all add: supported_kelvin_def)

lemma report_temperature_ok: "\<exists>r. report_temperature m v = Inr r"
  using word_split [OF kelvin_range, of "of_int v"] by (simp add: report_temperature_def build_report_ok Let_def)

text \<open>An answer of the right feature and command is understood.\<close>

lemma answered:
  assumes "ok t" and "command < 256" and "0 \<le> a" "a \<le> 255" "0 \<le> b" "b \<le> 255"
  shows "answer_to m (projr (build_report m command [a, b])) command =
    Some (byte_of (nat a) # byte_of (nat b) # replicate 14 0)"
proof -
  have "build_report m command [a, b] =
      Inr (map byte_of [REPORT_ID, DEVICE_BYTE, lm_feature m, command, nat a, nat b] @ replicate 14 0)"
    using assms(3-6) by (simp add: build_report_ok)
  with model_range [OF assms(1)] assms(2) show ?thesis
    by (simp add: answer_to_def REPORT_ID_def DEVICE_BYTE_def)
qed

lemma ask_answered:
  assumes "ok t" and "command < 256" and "0 \<le> a" "a \<le> 255" "0 \<le> b" "b \<le> 255"
    and "\<And>r. build_report m command [] = Inr r \<Longrightarrow> \<exists>t1 t2. tp_write tp (tp_drain tp t) r = Inr t1 \<and>
      tp_read tp t1 = (Some (projr (build_report m command [a, b])), t2)"
  shows "\<exists>t2. ask tp m command (True # time_left) t = Inr (Some (byte_of (nat a) # byte_of (nat b) # replicate 14 0), t2)"
proof -
  obtain r where r: "build_report m command [] = Inr r" by (simp add: build_report_ok)
  obtain t1 t2 where "tp_write tp (tp_drain tp t) r = Inr t1"
      "tp_read tp t1 = (Some (projr (build_report m command [a, b])), t2)"
    using assms(7) [OF r] by blast
  then show ?thesis using r answered [OF assms(1-6)] by (simp add: ask_def)
qed

lemma power_read: "ok t \<Longrightarrow> \<exists>t'. read_power tp m (True # time_left) t = Inr (Some (power t), t')"
  using ask_answered [of t CMD_GET_POWER "if power t then 1 else 0" 0 time_left] answers_power [of t]
  by (cases "power t") (fastforce simp: read_power_def CMD_GET_POWER_def decode_power_def)+

lemma lumen_read: "ok t \<Longrightarrow> \<exists>t'. read_lumen tp m (True # time_left) t = Inr (Some (lumen t), t')"
  using ask_answered [of t CMD_GET_BRIGHTNESS "drop_bit 8 (lumen t)" "lumen t AND 0xFF" time_left]
    answers_lumen [of t] word_split [of "lumen t"] shown_range [of t] decode_word_bytes [of "lumen t"]
  by (auto simp: read_lumen_def CMD_GET_BRIGHTNESS_def)

lemma kelvin_read: "ok t \<Longrightarrow> \<exists>t'. read_kelvin tp m (True # time_left) t = Inr (Some (kelvin t), t')"
  using ask_answered [of t CMD_GET_TEMPERATURE "drop_bit 8 (kelvin t)" "kelvin t AND 0xFF" time_left]
    answers_kelvin [of t] word_split [of "kelvin t"] shown_range [of t] decode_word_bytes [of "kelvin t"]
  by (auto simp: read_kelvin_def CMD_GET_TEMPERATURE_def)

lemma power_set_read:
  assumes "ok t"
  shows "\<exists>t1 t2. set_power tp m on t = Inr t1 \<and> read_power tp m (True # time_left) t1 = Inr (Some on, t2)"
proof -
  obtain r where r: "report_power m on = Inr r" by (simp add: report_power_def build_report_ok)
  with takes_power [OF assms r] show ?thesis using power_read by (fastforce simp: set_power_def)
qed

lemma lumen_set_read:
  assumes "ok t"
  shows "\<exists>t1 t2. set_lumen tp m v t = Inr (clamp_lumen m v, t1) \<and>
    read_lumen tp m (True # time_left) t1 = Inr (Some (takes_lumen t (clamp_lumen m v)), t2)"
proof -
  obtain r where r: "report_brightness m (clamp_lumen m v) = Inr r" using report_brightness_ok [OF assms] by blast
  with takes_brightness [OF assms r] show ?thesis
    using lumen_read clamped_range(3) [OF assms] by (fastforce simp: set_lumen_def)
qed

lemma kelvin_set_read:
  assumes "ok t"
  shows "\<exists>t1 t2. set_kelvin tp m v t = Inr (clamp_kelvin (of_int v), t1) \<and>
    read_kelvin tp m (True # time_left) t1 = Inr (Some (takes_kelvin (clamp_kelvin (of_int v))), t2)"
proof -
  obtain r where r: "report_temperature m (clamp_kelvin (of_int v)) = Inr r" using report_temperature_ok by blast
  with takes_temperature [OF assms r] show ?thesis
    using kelvin_read clamp_kelvin_noop [OF clamp_kelvin_supported] by (fastforce simp: set_kelvin_def)
qed

end

section \<open>The simulated light keeps the promises\<close>

definition sim_limit :: "simulated \<Rightarrow> int" where
  "sim_limit s = (case si_ceiling s of None \<Rightarrow> lm_lumen_max (si_model s) | Some c \<Rightarrow> min (lm_lumen_max (si_model s)) c)"

definition sim_ok :: "light_model \<Rightarrow> simulated \<Rightarrow> bool" where
  "sim_ok m s \<longleftrightarrow>
     si_model s = m \<and> m \<in> ran MODELS \<and> \<not> si_closed s \<and> 0 \<le> sim_limit s \<and>
     0 \<le> si_lumen s \<and> si_lumen s < 65536 \<and> 0 \<le> si_kelvin s \<and> si_kelvin s < 65536"

lemma models_ok: "m \<in> ran MODELS \<Longrightarrow>
    0 < lm_lumen_min m \<and> lm_lumen_min m \<le> lm_lumen_max m \<and> lm_lumen_max m < 65536 \<and> lm_feature m < 256"
  by (auto simp: ran_def MODELS_def split: if_splits)

lemmas commands = CMD_GET_POWER_def CMD_GET_BRIGHTNESS_def CMD_GET_TEMPERATURE_def CMD_SET_POWER_def
  CMD_SET_BRIGHTNESS_def CMD_SET_TEMPERATURE_def

text \<open>Every report of the light's model is taken.\<close>

lemma sim_write_report:
  assumes "m \<in> ran MODELS" and "si_model s = m" and "\<not> si_closed s" and "command < 256"
    and "length payload \<le> 16" and "\<forall>b\<in>set payload. 0 \<le> b \<and> b \<le> 255" and "build_report m command payload = Inr r"
  shows "length r = REPORT_LENGTH" and "unat (r ! 0) = REPORT_ID" and "unat (r ! 1) = DEVICE_BYTE"
    and "unat (r ! 2) = lm_feature m" and "unat (r ! 3) = command"
    and "payload = [a, b] \<Longrightarrow> unat (r ! 4) = nat a \<and> unat (r ! 5) = nat b"
    and "payload = [a] \<Longrightarrow> unat (r ! 4) = nat a"
proof -
  have r: "r = map byte_of ([REPORT_ID, DEVICE_BYTE, lm_feature m, command] @ map nat payload) @ replicate (16 - length payload) 0"
    using assms(5-7) by (simp add: build_report_ok)
  have f: "lm_feature m < 256" using models_ok [OF assms(1)] by simp
  show "length r = REPORT_LENGTH" using assms(5) by (simp add: r REPORT_LENGTH_def)
  show "unat (r ! 0) = REPORT_ID" "unat (r ! 1) = DEVICE_BYTE" "unat (r ! 2) = lm_feature m" "unat (r ! 3) = command"
    using f assms(4) by (simp_all add: r REPORT_ID_def DEVICE_BYTE_def)
  have small: "unat (byte_of (nat c)) = nat c" if "0 \<le> c \<and> c \<le> 255" for c
  proof -
    have "nat c < 256" using that by linarith
    then show ?thesis by simp
  qed
  show "payload = [a, b] \<Longrightarrow> unat (r ! 4) = nat a \<and> unat (r ! 5) = nat b"
    using assms(6) by (simp add: r small)
  show "payload = [a] \<Longrightarrow> unat (r ! 4) = nat a" using assms(6) by (simp add: r small)
qed


text \<open>What it makes of a report, by command.\<close>

lemma sim_gets:
  assumes ok: "sim_ok m s" and get: "command \<in> {CMD_GET_POWER, CMD_GET_BRIGHTNESS, CMD_GET_TEMPERATURE}"
    and r: "build_report m command [] = Inr r"
    and ans: "(a, b) = (if command = CMD_GET_POWER then (if si_on s then 1 else 0, 0)
      else if command = CMD_GET_BRIGHTNESS then (drop_bit 8 (si_lumen s), si_lumen s AND 0xFF)
      else (drop_bit 8 (si_kelvin s), si_kelvin s AND 0xFF))"
  shows "\<exists>t1 t2. sim_write (sim_drain s) r = Inr t1 \<and> sim_read t1 = (Some (projr (build_report m command [a, b])), t2)"
proof -
  have m: "m \<in> ran MODELS" "si_model s = m" "\<not> si_closed s" using ok by (simp_all add: sim_ok_def)
  have c: "command < 256" using get by (auto simp: commands)
  note rep = sim_write_report(1-5) [of m "sim_drain s" command "[]" r]
  have shape: "length r = REPORT_LENGTH" "unat (r ! 0) = REPORT_ID" "unat (r ! 1) = DEVICE_BYTE"
      "unat (r ! 2) = lm_feature m" "unat (r ! 3) = command"
    using rep m c r by (simp_all add: sim_drain_def)
  have "0 \<le> a \<and> a \<le> 255 \<and> 0 \<le> b \<and> b \<le> 255"
    using ans word_split [of "si_lumen s"] word_split [of "si_kelvin s"] ok
    by (auto simp: sim_ok_def split: if_splits)
  then obtain answer where answer: "build_report m command [a, b] = Inr answer" by (simp add: build_report_ok)
  have "sim_write (sim_drain s) r = sim_answer ((sim_drain s)\<lparr>si_writes := si_writes s @ [r]\<rparr>) command [a, b]"
    using get ans m shape
    by (auto simp: sim_write_def sim_drain_def Let_def commands split: if_splits)
  then show ?thesis using m answer by (simp add: sim_answer_def sim_drain_def sim_read_def)
qed

interpretation sim: litra_light sim_transport m "sim_ok m" si_on si_lumen si_kelvin
    "\<lambda>s v. min (sim_limit s) v" "\<lambda>k. k" for m
proof
  fix t assume ok: "sim_ok m t"
  then have m: "m \<in> ran MODELS" "si_model t = m" "\<not> si_closed t" by (simp_all add: sim_ok_def)
  note range = models_ok [OF m(1)]
  show "0 < lm_lumen_min m \<and> lm_lumen_min m \<le> lm_lumen_max m \<and> lm_lumen_max m < 65536 \<and> lm_feature m < 256"
    by (rule range)
  show "0 \<le> si_lumen t \<and> si_lumen t < 65536 \<and> 0 \<le> si_kelvin t \<and> si_kelvin t < 65536"
    using ok by (simp add: sim_ok_def)
  fix r
  show "build_report m CMD_GET_POWER [] = Inr r \<Longrightarrow> \<exists>t1 t2.
      tp_write sim_transport (tp_drain sim_transport t) r = Inr t1 \<and>
      tp_read sim_transport t1 = (Some (projr (build_report m CMD_GET_POWER [if si_on t then 1 else 0, 0])), t2)"
    using sim_gets [OF ok, of CMD_GET_POWER r] by (simp add: sim_transport_def)
  show "build_report m CMD_GET_BRIGHTNESS [] = Inr r \<Longrightarrow> \<exists>t1 t2.
      tp_write sim_transport (tp_drain sim_transport t) r = Inr t1 \<and>
      tp_read sim_transport t1 = (Some (projr (build_report m CMD_GET_BRIGHTNESS [drop_bit 8 (si_lumen t), si_lumen t AND 0xFF])), t2)"
    using sim_gets [OF ok, of CMD_GET_BRIGHTNESS r] by (simp add: sim_transport_def commands)
  show "build_report m CMD_GET_TEMPERATURE [] = Inr r \<Longrightarrow> \<exists>t1 t2.
      tp_write sim_transport (tp_drain sim_transport t) r = Inr t1 \<and>
      tp_read sim_transport t1 = (Some (projr (build_report m CMD_GET_TEMPERATURE [drop_bit 8 (si_kelvin t), si_kelvin t AND 0xFF])), t2)"
    using sim_gets [OF ok, of CMD_GET_TEMPERATURE r] by (simp add: sim_transport_def commands)
  show "\<exists>t1. tp_write sim_transport t r = Inr t1 \<and> sim_ok m t1 \<and> si_on t1 = on"
    if r: "report_power m on = Inr r" for on
  proof -
    have b: "build_report m CMD_SET_POWER [if on then 1 else 0] = Inr r" using r by (simp add: report_power_def)
    have flag: "unat (r ! 4) = nat (if on then 1 else 0)"
      by (rule sim_write_report(7) [OF m(1,2,3) _ _ _ b]) (simp_all add: commands)
    have shape: "length r = REPORT_LENGTH" "unat (r ! 0) = REPORT_ID" "unat (r ! 1) = DEVICE_BYTE"
        "unat (r ! 2) = lm_feature m" "unat (r ! 3) = CMD_SET_POWER"
      by (rule sim_write_report(1-5) [OF m(1,2,3) _ _ _ b]; simp add: commands)+
    have "sim_write t r = Inr (t\<lparr>si_writes := si_writes t @ [r], si_on := on\<rparr>)"
      unfolding sim_write_def Let_def shape flag using m shape(5) by (simp add: commands)
    then show ?thesis using ok by (auto simp: sim_transport_def sim_ok_def sim_limit_def split: option.splits)
  qed
  show "\<exists>t1. tp_write sim_transport t r = Inr t1 \<and> sim_ok m t1 \<and> si_lumen t1 = min (sim_limit t) (clamp_lumen m v)"
    if r: "report_brightness m v = Inr r" for v
  proof -
    let ?l = "clamp_lumen m v"
    have l: "0 \<le> ?l" "?l < 65536" "lm_lumen_min m \<le> ?l" using range by (auto simp: clamp_lumen_def)
    note w = word_split [OF l(1,2)]
    have b: "build_report m CMD_SET_BRIGHTNESS [drop_bit 8 ?l, ?l AND 0xFF] = Inr r"
      using r by (simp add: report_brightness_def Let_def)
    have "unat (r ! 4) = nat (drop_bit 8 ?l) \<and> unat (r ! 5) = nat (?l AND 0xFF)"
      by (rule sim_write_report(6) [OF m(1,2,3) _ _ _ b]) (use w in \<open>simp_all add: commands\<close>)
    then have word: "push_bit 8 (int (unat (r ! 4))) OR int (unat (r ! 5)) = ?l" using w by simp
    have shape: "length r = REPORT_LENGTH" "unat (r ! 0) = REPORT_ID" "unat (r ! 1) = DEVICE_BYTE"
        "unat (r ! 2) = lm_feature m" "unat (r ! 3) = CMD_SET_BRIGHTNESS"
      by (rule sim_write_report(1-5) [OF m(1,2,3) _ _ _ b]; use w in \<open>simp add: commands\<close>)+
    have "sim_write t r = Inr (t\<lparr>si_writes := si_writes t @ [r], si_lumen := min (sim_limit t) ?l\<rparr>)"
      unfolding sim_write_def Let_def shape word using m l(3) shape(5)
      by (cases "si_ceiling t") (simp_all add: sim_limit_def commands max_absorb2)
    then show ?thesis using ok l(1,2)
      by (auto simp: sim_transport_def sim_ok_def sim_limit_def split: option.splits)
  qed
  show "\<exists>t1. tp_write sim_transport t r = Inr t1 \<and> sim_ok m t1 \<and> si_kelvin t1 = clamp_kelvin (of_int v)"
    if r: "report_temperature m v = Inr r" for v
  proof -
    let ?k = "clamp_kelvin (of_int v)"
    have k: "0 \<le> ?k" "?k < 65536" using clamp_kelvin_supported [of "of_int v"] by (simp_all add: supported_kelvin_def)
    note w = word_split [OF k]
    have b: "build_report m CMD_SET_TEMPERATURE [drop_bit 8 ?k, ?k AND 0xFF] = Inr r"
      using r by (simp add: report_temperature_def Let_def)
    have "unat (r ! 4) = nat (drop_bit 8 ?k) \<and> unat (r ! 5) = nat (?k AND 0xFF)"
      by (rule sim_write_report(6) [OF m(1,2,3) _ _ _ b]) (use w in \<open>simp_all add: commands\<close>)
    then have word: "push_bit 8 (int (unat (r ! 4))) OR int (unat (r ! 5)) = ?k" using w by simp
    have shape: "length r = REPORT_LENGTH" "unat (r ! 0) = REPORT_ID" "unat (r ! 1) = DEVICE_BYTE"
        "unat (r ! 2) = lm_feature m" "unat (r ! 3) = CMD_SET_TEMPERATURE"
      by (rule sim_write_report(1-5) [OF m(1,2,3) _ _ _ b]; use w in \<open>simp add: commands\<close>)+
    have "sim_write t r = Inr (t\<lparr>si_writes := si_writes t @ [r], si_kelvin := ?k\<rparr>)"
      unfolding sim_write_def Let_def shape word using m shape(5) clamp_kelvin_noop [OF clamp_kelvin_supported]
      by (simp add: commands)
    then show ?thesis using ok k by (auto simp: sim_transport_def sim_ok_def sim_limit_def split: option.splits)
  qed
qed

text \<open>
  What a light is told is what it is read back as: over the reports of the protocol a light of
  every supported model shows, after a write, the power it was told, the brightness clamped to its
  model (and to a limit it keeps itself) and the nearest supported colour temperature, whatever lay
  unread in its queue before, and each read needs one answer only.
\<close>

theorem light_reads_back:
  assumes "sim_ok m s"
  shows "(\<exists>t1 t2. set_power sim_transport m on s = Inr t1 \<and>
      read_power sim_transport m (True # time_left) t1 = Inr (Some on, t2)) \<and>
    (\<exists>t1 t2. set_lumen sim_transport m lumen s = Inr (clamp_lumen m lumen, t1) \<and>
      read_lumen sim_transport m (True # time_left) t1 = Inr (Some (min (sim_limit s) (clamp_lumen m lumen)), t2)) \<and>
    (\<exists>t1 t2. set_kelvin sim_transport m kelvin s = Inr (clamp_kelvin (of_int kelvin), t1) \<and>
      read_kelvin sim_transport m (True # time_left) t1 = Inr (Some (clamp_kelvin (of_int kelvin)), t2))"
  using sim.power_set_read [OF assms] sim.lumen_set_read [OF assms] sim.kelvin_set_read [OF assms] by blast

theorem light_reads_back_witness:
  "let m = \<lparr>lm_pid = 0xC901, lm_name = ''Litra Beam'', lm_lumen_min = 30, lm_lumen_max = 400, lm_feature = 4\<rparr>;
       s = \<lparr>si_model = m, si_on = False, si_lumen = 215, si_kelvin = 4500, si_ceiling = Some 204, si_writes = [],
            si_closed = False, si_inbox = [[1, 2, 3]]\<rparr>
   in \<exists>t1 t2. set_lumen sim_transport m 265 s = Inr (265, t1) \<and>
        read_lumen sim_transport m [True] t1 = Inr (Some 204, t2)"
proof -
  define m where "m = \<lparr>lm_pid = 0xC901, lm_name = ''Litra Beam'', lm_lumen_min = 30, lm_lumen_max = 400, lm_feature = 4\<rparr>"
  define s where "s = \<lparr>si_model = m, si_on = False, si_lumen = 215, si_kelvin = 4500, si_ceiling = Some 204,
    si_writes = [], si_closed = False, si_inbox = [[1, 2, 3]]\<rparr>"
  have "MODELS 0xC901 = Some m" by (simp add: MODELS_def m_def)
  then have "m \<in> ran MODELS" by (rule ranI)
  then have "sim_ok m s" by (simp add: sim_ok_def s_def sim_limit_def m_def)
  from light_reads_back [OF this, of True "[]" 265 4500] show ?thesis
    unfolding Let_def m_def [symmetric] s_def [symmetric]
    by (simp add: clamp_lumen_def m_def s_def sim_limit_def)
qed

end
