(* ===== verification/LightPlan.thy ===== *)
theory LightPlan
  imports Litra PyText LatestWriter "HOL-Library.AList"
begin

text \<open>
  \<open>lightplan.py\<close>: the settings of the lighting automation, their validation, the settings file and the
  schedule. A section of the document is a record, a rule of a \<open>_RULES\<close> table validates a value and
  puts it in its section, and every \<open>PlanError\<close> is a value. The position of the sun is a parameter:
  \<open>slot_of n\<close> is the slot of the moment \<open>n\<close> minutes from the one asked for.
\<close>

section \<open>Defaults and validation\<close>

definition LIMITS :: "string \<rightharpoonup> rat \<times> rat \<times> rat" where
  "LIMITS =
     [''grace_seconds'' \<mapsto> (0, 3600, 5),
      ''start_delay_seconds'' \<mapsto> (0, 60, 1),
      ''fade_seconds'' \<mapsto> (0, 60, 1),
      ''hold_minutes'' \<mapsto> (0, 720, 5),
      ''fill_percent'' \<mapsto> (10, 100, 5),
      ''brightness'' \<mapsto> (1, 100, 1),
      ''kelvin'' \<mapsto> (of_int KELVIN_MIN, of_int KELVIN_MAX, of_int KELVIN_STEP)]"

definition MAX_NAME :: nat where "MAX_NAME = 40"
definition MAX_IGNORE :: nat where "MAX_IGNORE = 20"
definition ROLES :: "string list" where "ROLES = [''key'', ''fill'', ''manual'']"
definition MODES_OF_SCHEDULE :: "string list" where "MODES_OF_SCHEDULE = [''sun'', ''clock'']"
definition SLOT_ORDER :: "string list" where
  "SLOT_ORDER = [''night'', ''dawn'', ''morning'', ''afternoon'', ''evening'']"
definition LIGHT_PRIORS :: "(string \<times> rat \<times> rat) list" where
  "LIGHT_PRIORS = [(''night'', 20 / 100, -400), (''dawn'', 15 / 100, -250), (''morning'', 0, 0),
     (''afternoon'', -10 / 100, 200), (''evening'', 12 / 100, -350)]"
definition BASE_BRIGHTNESS :: rat where "BASE_BRIGHTNESS = 50"
definition BASE_KELVIN :: rat where "BASE_KELVIN = 4800"

record light_level =
  lv_brightness :: rat
  lv_kelvin :: int

record follow =
  fo_enabled :: bool
  fo_grace_seconds :: int
  fo_start_delay_seconds :: int
  fo_turn_off :: bool
  fo_apps :: bool
  fo_ignore :: "string list"
  fo_devices :: "string list"

record schedule =
  sc_enabled :: bool
  sc_mode :: string
  sc_slots :: "(string \<times> light_level) list"
  sc_hours :: "light_level list option"
  sc_fade_seconds :: int
  sc_hold_minutes :: int
  sc_fill_percent :: int

text \<open>The settings of one light, and what is stored of them: only what differs from the defaults.\<close>

record light =
  li_name :: string
  li_role :: string
  li_min_brightness :: int
  li_max_brightness :: int
  li_min_kelvin :: int
  li_max_kelvin :: int

record kept =
  ke_name :: "string option"
  ke_role :: "string option"
  ke_min_brightness :: "int option"
  ke_max_brightness :: "int option"
  ke_min_kelvin :: "int option"
  ke_max_kelvin :: "int option"

record plan =
  pl_follow :: follow
  pl_schedule :: schedule
  pl_lights :: "(string \<times> kept) list"
  pl_resume :: rat

definition default_slots :: "(string \<times> light_level) list" where
  "default_slots =
     map (\<lambda>(slot, d_fraction, d_kelvin).
            (slot, \<lparr>lv_brightness = of_int (py_round (min 100 (max 1 (BASE_BRIGHTNESS + 100 * d_fraction)))),
                    lv_kelvin = clamp_kelvin (BASE_KELVIN + d_kelvin)\<rparr>))
         LIGHT_PRIORS"

definition defaults :: plan where
  "defaults =
     \<lparr>pl_follow =
        \<lparr>fo_enabled = True, fo_grace_seconds = 120, fo_start_delay_seconds = 3, fo_turn_off = True,
         fo_apps = True, fo_ignore = [], fo_devices = []\<rparr>,
      pl_schedule =
        \<lparr>sc_enabled = True, sc_mode = ''sun'', sc_slots = default_slots, sc_hours = None,
         sc_fade_seconds = 3, sc_hold_minutes = 90, sc_fill_percent = 60\<rparr>,
      pl_lights = [],
      pl_resume = 0\<rparr>"

text \<open>
  \<open>math.isfinite\<close> and \<open>float\<close> convert an integer to a double first, which raises for one that rounds
  beyond the largest double.
\<close>

definition float_overflows :: "int \<Rightarrow> bool" where
  "float_overflows n \<longleftrightarrow> 2 ^ 1024 - 2 ^ 970 \<le> \<bar>n\<bar>"

definition clamp :: "string \<Rightarrow> json \<Rightarrow> rat result" where
  "clamp key v =
     (case LIMITS key of
        None \<Rightarrow> Inl KeyError
      | Some (low, high, _) \<Rightarrow>
          (case v of
             JInt n \<Rightarrow> if float_overflows n then Inl OverflowError else Inr (min high (max low (of_int n)))
           | JFloat x _ \<Rightarrow> Inr (min high (max low x))
           | _ \<Rightarrow> Inl (PlanError '' must be a number'')))"

definition flag :: "json \<Rightarrow> bool result" where
  "flag v = (case v of JBool b \<Rightarrow> Inr b | _ \<Rightarrow> Inl (PlanError '' must be true or false''))"

fun strings_of :: "json list \<Rightarrow> string list option" where
  "strings_of [] = Some []"
| "strings_of (JStr s # vs) = map_option ((#) s) (strings_of vs)"
| "strings_of (_ # vs) = None"

fun collect_names :: "string list \<Rightarrow> string list \<Rightarrow> string list" where
  "collect_names names [] = names"
| "collect_names names (item # items) =
     (let txt = strip item
      in collect_names (if txt \<noteq> [] \<and> txt \<notin> set names then names @ [take 60 txt] else names) items)"

definition name_list :: "json \<Rightarrow> string list result" where
  "name_list v =
     (case v of
        JList vs \<Rightarrow>
          (case strings_of vs of
             None \<Rightarrow> Inl (PlanError '' must be a list of names'')
           | Some items \<Rightarrow>
               let names = collect_names [] items
               in if MAX_IGNORE < length names then Inl (PlanError '' holds at most 20 entries'') else Inr names)
      | _ \<Rightarrow> Inl (PlanError '' must be a list of names''))"

definition is_device_path :: "string \<Rightarrow> bool" where
  "is_device_path path \<longleftrightarrow> take 5 path = ''/dev/''"

definition device_list :: "json \<Rightarrow> string list result" where
  "device_list v =
     bindE (name_list v) (\<lambda>paths.
       if list_all is_device_path paths then Inr paths
       else Inl (PlanError '' is not a device path (it must start with /dev/).''))"

definition level_of :: "json \<Rightarrow> json \<Rightarrow> light_level result" where
  "level_of brightness kelvin =
     bindE (clamp ''brightness'' brightness) (\<lambda>b.
     bindE (clamp ''kelvin'' kelvin) (\<lambda>k.
       Inr \<lparr>lv_brightness = of_int (py_round b), lv_kelvin = clamp_kelvin k\<rparr>))"

type_synonym 'a rules = "string \<rightharpoonup> (json \<Rightarrow> 'a \<Rightarrow> 'a result)"

fun merge :: "'a rules \<Rightarrow> 'a \<Rightarrow> (string \<times> json) list \<Rightarrow> 'a result" where
  "merge rules out [] = Inr out"
| "merge rules out ((key, v) # patch) =
     (case rules key of
        None \<Rightarrow> Inl (PlanError ''Unknown setting'')
      | Some rule \<Rightarrow> bindE (rule v out) (\<lambda>out'. merge rules out' patch))"

text \<open>\<open>out[key] = rule(value)\<close>: the validated value goes to its field.\<close>

definition field :: "(json \<Rightarrow> 'v result) \<Rightarrow> ('v \<Rightarrow> 'a \<Rightarrow> 'a) \<Rightarrow> json \<Rightarrow> 'a \<Rightarrow> 'a result" where
  "field rule put v out = bindE (rule v) (\<lambda>x. Inr (put x out))"

definition rounded :: "string \<Rightarrow> json \<Rightarrow> int result" where
  "rounded key v = bindE (clamp key v) (\<lambda>x. Inr (py_round x))"

definition kelvin_step :: "json \<Rightarrow> int result" where
  "kelvin_step v = bindE (clamp ''kelvin'' v) (\<lambda>x. Inr (clamp_kelvin x))"

definition FOLLOW_RULES :: "follow rules" where
  "FOLLOW_RULES =
     [''enabled'' \<mapsto> field flag (\<lambda>b d. d\<lparr>fo_enabled := b\<rparr>),
      ''grace_seconds'' \<mapsto> field (rounded ''grace_seconds'') (\<lambda>n d. d\<lparr>fo_grace_seconds := n\<rparr>),
      ''start_delay_seconds'' \<mapsto> field (rounded ''start_delay_seconds'') (\<lambda>n d. d\<lparr>fo_start_delay_seconds := n\<rparr>),
      ''turn_off'' \<mapsto> field flag (\<lambda>b d. d\<lparr>fo_turn_off := b\<rparr>),
      ''apps'' \<mapsto> field flag (\<lambda>b d. d\<lparr>fo_apps := b\<rparr>),
      ''ignore'' \<mapsto> field name_list (\<lambda>ns d. d\<lparr>fo_ignore := ns\<rparr>),
      ''devices'' \<mapsto> field device_list (\<lambda>ns d. d\<lparr>fo_devices := ns\<rparr>)]"

definition mode :: "json \<Rightarrow> string result" where
  "mode v =
     (case v of JStr s \<Rightarrow> if s \<in> set MODES_OF_SCHEDULE then Inr s else Inl (PlanError ''mode must be one of sun, clock'')
      | _ \<Rightarrow> Inl (PlanError ''mode must be one of sun, clock''))"

definition SCHEDULE_RULES :: "schedule rules" where
  "SCHEDULE_RULES =
     [''enabled'' \<mapsto> field flag (\<lambda>b d. d\<lparr>sc_enabled := b\<rparr>),
      ''mode'' \<mapsto> field mode (\<lambda>s d. d\<lparr>sc_mode := s\<rparr>),
      ''fade_seconds'' \<mapsto> field (rounded ''fade_seconds'') (\<lambda>n d. d\<lparr>sc_fade_seconds := n\<rparr>),
      ''hold_minutes'' \<mapsto> field (rounded ''hold_minutes'') (\<lambda>n d. d\<lparr>sc_hold_minutes := n\<rparr>),
      ''fill_percent'' \<mapsto> field (rounded ''fill_percent'') (\<lambda>n d. d\<lparr>sc_fill_percent := n\<rparr>)]"

definition validate_follow :: "follow \<Rightarrow> (string \<times> json) list \<Rightarrow> follow result" where
  "validate_follow current patch = merge FOLLOW_RULES current patch"

definition validate_schedule :: "schedule \<Rightarrow> (string \<times> json) list \<Rightarrow> schedule result" where
  "validate_schedule current patch = merge SCHEDULE_RULES current patch"

text \<open>\<open>patch.get(key, old)\<close>, for an old value that is a number.\<close>

definition get_or :: "(string \<times> json) list \<Rightarrow> string \<Rightarrow> rat \<Rightarrow> json" where
  "get_or patch key old = (case map_of patch key of None \<Rightarrow> JFloat old [] | Some v \<Rightarrow> v)"

definition patched_level :: "light_level \<Rightarrow> (string \<times> json) list \<Rightarrow> light_level result" where
  "patched_level old patch =
     level_of (get_or patch ''brightness'' (lv_brightness old)) (get_or patch ''kelvin'' (of_int (lv_kelvin old)))"

definition validate_slot :: "schedule \<Rightarrow> string \<Rightarrow> (string \<times> json) list \<Rightarrow> schedule result" where
  "validate_slot current slot patch =
     (if slot \<notin> set SLOT_ORDER then Inl (PlanError ''slot must be one of the five'')
      else case map_of (sc_slots current) slot of
             None \<Rightarrow> Inl KeyError
           | Some old \<Rightarrow>
               bindE (patched_level old patch) (\<lambda>l.
                 Inr (current\<lparr>sc_slots := AList.update slot l (sc_slots current)\<rparr>)))"

definition validate_hour :: "schedule \<Rightarrow> json \<Rightarrow> (string \<times> json) list \<Rightarrow> light_level list \<Rightarrow> schedule result" where
  "validate_hour current hour patch seed =
     (case hour of
        JInt h \<Rightarrow>
          if \<not> (0 \<le> h \<and> h \<le> 23) then Inl (PlanError ''hour must be a whole number from 0 to 23'')
          else let hours = (case sc_hours current of None \<Rightarrow> seed | Some hs \<Rightarrow> if hs = [] then seed else hs)
               in if length hours \<le> nat h then Inl IndexError
                  else bindE (patched_level (hours ! nat h) patch) (\<lambda>l.
                         Inr (current\<lparr>sc_hours := Some (hours[nat h := l])\<rparr>))
      | _ \<Rightarrow> Inl (PlanError ''hour must be a whole number from 0 to 23''))"

definition clean_name :: "json \<Rightarrow> string result" where
  "clean_name v =
     (case v of
        JStr s \<Rightarrow>
          if MAX_NAME < length (strip s) \<or> list_ex (\<lambda>c. code c < 32) s
          then Inl (PlanError ''A light name is at most 40 characters, without control characters.'')
          else Inr (strip s)
      | _ \<Rightarrow> Inl (PlanError ''A light name is at most 40 characters, without control characters.''))"

definition role :: "json \<Rightarrow> string result" where
  "role v =
     (case v of JStr s \<Rightarrow> if s \<in> set ROLES then Inr s else Inl (PlanError ''role must be one of key, fill, manual'')
      | _ \<Rightarrow> Inl (PlanError ''role must be one of key, fill, manual''))"

definition LIGHT_DEFAULTS :: light where
  "LIGHT_DEFAULTS =
     \<lparr>li_name = '''', li_role = ''key'', li_min_brightness = 1, li_max_brightness = 100,
      li_min_kelvin = KELVIN_MIN, li_max_kelvin = KELVIN_MAX\<rparr>"

definition LIGHT_RULES :: "light rules" where
  "LIGHT_RULES =
     [''name'' \<mapsto> field clean_name (\<lambda>s d. d\<lparr>li_name := s\<rparr>),
      ''role'' \<mapsto> field role (\<lambda>s d. d\<lparr>li_role := s\<rparr>),
      ''min_brightness'' \<mapsto> field (rounded ''brightness'') (\<lambda>n d. d\<lparr>li_min_brightness := n\<rparr>),
      ''max_brightness'' \<mapsto> field (rounded ''brightness'') (\<lambda>n d. d\<lparr>li_max_brightness := n\<rparr>),
      ''min_kelvin'' \<mapsto> field kelvin_step (\<lambda>n d. d\<lparr>li_min_kelvin := n\<rparr>),
      ''max_kelvin'' \<mapsto> field kelvin_step (\<lambda>n d. d\<lparr>li_max_kelvin := n\<rparr>)]"

text \<open>\<open>{**LIGHT_DEFAULTS, **stored}\<close> and back: \<open>{k: v for k, v in out.items() if v != LIGHT_DEFAULTS[k]}\<close>.\<close>

definition or_default :: "'v option \<Rightarrow> 'v \<Rightarrow> 'v" where
  "or_default stored v = (case stored of None \<Rightarrow> v | Some x \<Rightarrow> x)"

definition unless_default :: "'v \<Rightarrow> 'v \<Rightarrow> 'v option" where
  "unless_default v x = (if x \<noteq> v then Some x else None)"

definition with_defaults :: "kept \<Rightarrow> light" where
  "with_defaults k =
     \<lparr>li_name = or_default (ke_name k) (li_name LIGHT_DEFAULTS),
      li_role = or_default (ke_role k) (li_role LIGHT_DEFAULTS),
      li_min_brightness = or_default (ke_min_brightness k) (li_min_brightness LIGHT_DEFAULTS),
      li_max_brightness = or_default (ke_max_brightness k) (li_max_brightness LIGHT_DEFAULTS),
      li_min_kelvin = or_default (ke_min_kelvin k) (li_min_kelvin LIGHT_DEFAULTS),
      li_max_kelvin = or_default (ke_max_kelvin k) (li_max_kelvin LIGHT_DEFAULTS)\<rparr>"

definition only_differing :: "light \<Rightarrow> kept" where
  "only_differing l =
     \<lparr>ke_name = unless_default (li_name LIGHT_DEFAULTS) (li_name l),
      ke_role = unless_default (li_role LIGHT_DEFAULTS) (li_role l),
      ke_min_brightness = unless_default (li_min_brightness LIGHT_DEFAULTS) (li_min_brightness l),
      ke_max_brightness = unless_default (li_max_brightness LIGHT_DEFAULTS) (li_max_brightness l),
      ke_min_kelvin = unless_default (li_min_kelvin LIGHT_DEFAULTS) (li_min_kelvin l),
      ke_max_kelvin = unless_default (li_max_kelvin LIGHT_DEFAULTS) (li_max_kelvin l)\<rparr>"

definition nothing_kept :: kept where
  "nothing_kept =
     \<lparr>ke_name = None, ke_role = None, ke_min_brightness = None, ke_max_brightness = None,
      ke_min_kelvin = None, ke_max_kelvin = None\<rparr>"

definition stored_light :: "plan \<Rightarrow> string \<Rightarrow> kept" where
  "stored_light data light_id = (case map_of (pl_lights data) light_id of None \<Rightarrow> nothing_kept | Some k \<Rightarrow> k)"

definition light_settings :: "plan \<Rightarrow> string \<Rightarrow> light" where
  "light_settings data light_id = with_defaults (stored_light data light_id)"

definition validate_light :: "kept \<Rightarrow> (string \<times> json) list \<Rightarrow> kept result" where
  "validate_light current patch =
     bindE (merge LIGHT_RULES (with_defaults current) patch) (\<lambda>out.
       if li_max_brightness out < li_min_brightness out
       then Inl (PlanError ''The minimum brightness cannot be above the maximum.'')
       else if li_max_kelvin out < li_min_kelvin out
       then Inl (PlanError ''The coolest limit cannot be warmer than the warmest.'')
       else Inr (only_differing out))"

section \<open>Reading a file that may hold anything\<close>

text \<open>\<open>except PlanError: continue\<close>, and a loop whose body may raise.\<close>

definition tolerate :: "'a \<Rightarrow> 'a result \<Rightarrow> 'a result" where
  "tolerate d r = (case r of Inl (PlanError _) \<Rightarrow> Inr d | _ \<Rightarrow> r)"

fun foldE :: "('a \<Rightarrow> 'x \<Rightarrow> 'a result) \<Rightarrow> 'a \<Rightarrow> 'x list \<Rightarrow> 'a result" where
  "foldE f d [] = Inr d"
| "foldE f d (x # xs) = bindE (f d x) (\<lambda>d'. foldE f d' xs)"

definition fields_of :: "json \<Rightarrow> (string \<times> json) list" where
  "fields_of v = (case v of JObj kvs \<Rightarrow> kvs | _ \<Rightarrow> [])"

definition saved_section ::
    "('a \<Rightarrow> (string \<times> json) list \<Rightarrow> 'a result) \<Rightarrow> 'a \<Rightarrow> json \<Rightarrow> 'a result" where
  "saved_section validate section saved =
     foldE (\<lambda>d (key, v). tolerate d (validate d [(key, v)])) section (fields_of saved)"

definition saved_slots :: "schedule \<Rightarrow> json \<Rightarrow> schedule result" where
  "saved_slots sc saved =
     foldE (\<lambda>d (slot, v). tolerate d (validate_slot d slot (fields_of v))) sc (fields_of saved)"

definition saved_hour :: "json \<Rightarrow> light_level result" where
  "saved_hour h =
     (case h of JObj kvs \<Rightarrow> level_of (jget kvs ''brightness'') (jget kvs ''kelvin'') | _ \<Rightarrow> Inl AttributeError)"

definition saved_hours :: "schedule \<Rightarrow> json \<Rightarrow> schedule result" where
  "saved_hours sc saved =
     (case saved of
        JList hours \<Rightarrow>
          if length hours = 24 then
            (case mapE saved_hour hours of
               Inr ls \<Rightarrow> Inr (sc\<lparr>sc_hours := Some ls\<rparr>)
             | Inl (PlanError _) \<Rightarrow> Inr (sc\<lparr>sc_hours := None\<rparr>)
             | Inl AttributeError \<Rightarrow> Inr (sc\<lparr>sc_hours := None\<rparr>)
             | Inl e \<Rightarrow> Inl e)
          else Inr sc
      | _ \<Rightarrow> Inr sc)"

definition saved_light :: "(string \<times> kept) list \<Rightarrow> string \<Rightarrow> json \<Rightarrow> (string \<times> kept) list result" where
  "saved_light d light_id v =
     (case v of
        JObj patch \<Rightarrow>
          bindE (validate_light nothing_kept patch) (\<lambda>k.
            Inr (if k \<noteq> nothing_kept then AList.update light_id k d else d))
      | _ \<Rightarrow> Inr d)"

definition saved_lights :: "(string \<times> kept) list \<Rightarrow> json \<Rightarrow> (string \<times> kept) list result" where
  "saved_lights lights saved =
     foldE (\<lambda>d (light_id, v). tolerate d (saved_light d light_id v)) lights (fields_of saved)"

definition saved_resume :: "json \<Rightarrow> rat result" where
  "saved_resume saved =
     (case saved of
        JInt n \<Rightarrow> if float_overflows n then Inl OverflowError else Inr (of_int n)
      | JFloat x _ \<Rightarrow> Inr x
      | _ \<Rightarrow> Inr 0)"

definition normalise :: "json \<Rightarrow> plan result" where
  "normalise raw =
     (case raw of
        JObj doc \<Rightarrow>
          let sched = fields_of (jget doc ''schedule'')
          in bindE (saved_section validate_follow (pl_follow defaults) (jget doc ''follow'')) (\<lambda>fo.
             bindE (saved_section validate_schedule (pl_schedule defaults) (jget doc ''schedule'')) (\<lambda>sc1.
             bindE (saved_slots sc1 (jget sched ''slots'')) (\<lambda>sc2.
             bindE (saved_hours sc2 (jget sched ''hours'')) (\<lambda>sc3.
             bindE (saved_lights (pl_lights defaults) (jget doc ''lights'')) (\<lambda>lights.
             bindE (saved_resume (jget doc ''resume'')) (\<lambda>resume.
               Inr \<lparr>pl_follow = fo, pl_schedule = sc3, pl_lights = lights, pl_resume = resume\<rparr>))))))
      | _ \<Rightarrow> Inr defaults)"

section \<open>Well-formed settings\<close>

definition wf_level :: "light_level \<Rightarrow> bool" where
  "wf_level l \<longleftrightarrow>
     of_int \<lfloor>lv_brightness l\<rfloor> = lv_brightness l \<and> 1 \<le> lv_brightness l \<and> lv_brightness l \<le> 100 \<and>
     supported_kelvin (lv_kelvin l)"

definition wf_names :: "string list \<Rightarrow> bool" where
  "wf_names ns \<longleftrightarrow> length ns \<le> MAX_IGNORE \<and> list_all (\<lambda>n. n \<noteq> [] \<and> length n \<le> 60) ns"

definition wf_follow :: "follow \<Rightarrow> bool" where
  "wf_follow f \<longleftrightarrow>
     0 \<le> fo_grace_seconds f \<and> fo_grace_seconds f \<le> 3600 \<and>
     0 \<le> fo_start_delay_seconds f \<and> fo_start_delay_seconds f \<le> 60 \<and>
     wf_names (fo_ignore f) \<and> wf_names (fo_devices f) \<and> list_all is_device_path (fo_devices f)"

definition wf_hours :: "light_level list \<Rightarrow> bool" where
  "wf_hours hs \<longleftrightarrow> length hs = 24 \<and> list_all wf_level hs"

definition wf_schedule :: "schedule \<Rightarrow> bool" where
  "wf_schedule s \<longleftrightarrow>
     sc_mode s \<in> set MODES_OF_SCHEDULE \<and>
     map fst (sc_slots s) = SLOT_ORDER \<and> list_all (\<lambda>(_, l). wf_level l) (sc_slots s) \<and>
     pred_option wf_hours (sc_hours s) \<and>
     0 \<le> sc_fade_seconds s \<and> sc_fade_seconds s \<le> 60 \<and>
     0 \<le> sc_hold_minutes s \<and> sc_hold_minutes s \<le> 720 \<and>
     10 \<le> sc_fill_percent s \<and> sc_fill_percent s \<le> 100"

text \<open>The fields of a light one by one, and with the two orders \<open>validate_light\<close> checks.\<close>

definition wf_fields :: "light \<Rightarrow> bool" where
  "wf_fields l \<longleftrightarrow>
     strip (li_name l) = li_name l \<and> length (li_name l) \<le> MAX_NAME \<and> list_all (\<lambda>c. 32 \<le> code c) (li_name l) \<and>
     li_role l \<in> set ROLES \<and>
     1 \<le> li_min_brightness l \<and> li_min_brightness l \<le> 100 \<and>
     1 \<le> li_max_brightness l \<and> li_max_brightness l \<le> 100 \<and>
     supported_kelvin (li_min_kelvin l) \<and> supported_kelvin (li_max_kelvin l)"

definition wf_light :: "light \<Rightarrow> bool" where
  "wf_light l \<longleftrightarrow>
     wf_fields l \<and> li_min_brightness l \<le> li_max_brightness l \<and> li_min_kelvin l \<le> li_max_kelvin l"

definition wf_kept :: "kept \<Rightarrow> bool" where
  "wf_kept k \<longleftrightarrow> wf_light (with_defaults k) \<and> only_differing (with_defaults k) = k"

definition wf_lights :: "(string \<times> kept) list \<Rightarrow> bool" where
  "wf_lights ls \<longleftrightarrow> distinct (map fst ls) \<and> list_all (\<lambda>(_, k). wf_kept k \<and> k \<noteq> nothing_kept) ls"

definition wf_plan :: "plan \<Rightarrow> bool" where
  "wf_plan d \<longleftrightarrow> wf_follow (pl_follow d) \<and> wf_schedule (pl_schedule d) \<and> wf_lights (pl_lights d)"

section \<open>What the rules accept\<close>

lemma clamp_within:
  assumes "clamp key v = Inr x" and "LIMITS key = Some (low, high, s)" and "low \<le> high"
  shows "low \<le> x \<and> x \<le> high"
  using assms by (auto simp: clamp_def split: json.splits if_splits)

lemma limits [simp]:
  "LIMITS ''grace_seconds'' = Some (0, 3600, 5)" "LIMITS ''start_delay_seconds'' = Some (0, 60, 1)"
  "LIMITS ''fade_seconds'' = Some (0, 60, 1)" "LIMITS ''hold_minutes'' = Some (0, 720, 5)"
  "LIMITS ''fill_percent'' = Some (10, 100, 5)" "LIMITS ''brightness'' = Some (1, 100, 1)"
  "LIMITS ''kelvin'' = Some (2700, 6500, 100)"
  by (simp_all add: LIMITS_def KELVIN_MIN_def KELVIN_MAX_def KELVIN_STEP_def)

lemma rounded_within:
  assumes "rounded key v = Inr n" and "LIMITS key = Some (of_int low, of_int high, s)" and "low \<le> high"
  shows "low \<le> n \<and> n \<le> high"
proof -
  obtain x where x: "clamp key v = Inr x" and n: "n = py_round x" using assms(1) by (auto simp: rounded_def)
  have "of_int low \<le> x \<and> x \<le> of_int high" using x assms(2,3) by (intro clamp_within) simp_all
  then show ?thesis unfolding n using py_round_bounds by blast
qed

lemmas rounded_bounds =
  rounded_within [of "''grace_seconds''" _ _ 0 3600 5, simplified]
  rounded_within [of "''start_delay_seconds''" _ _ 0 60 1, simplified]
  rounded_within [of "''fade_seconds''" _ _ 0 60 1, simplified]
  rounded_within [of "''hold_minutes''" _ _ 0 720 5, simplified]
  rounded_within [of "''fill_percent''" _ _ 10 100 5, simplified]
  rounded_within [of "''brightness''" _ _ 1 100 1, simplified]

lemma kelvin_step_supported: "kelvin_step v = Inr n \<Longrightarrow> supported_kelvin n"
  by (auto simp: kelvin_step_def clamp_kelvin_supported)

lemma level_wf: "level_of b k = Inr l \<Longrightarrow> wf_level l"
  using clamp_within [of "''brightness''" b] py_round_bounds [of 1 _ 100]
  by (fastforce simp: level_of_def wf_level_def clamp_kelvin_supported)

lemma collect_names_wf:
  "list_all (\<lambda>n. n \<noteq> [] \<and> length n \<le> 60) names \<Longrightarrow>
    list_all (\<lambda>n. n \<noteq> [] \<and> length n \<le> 60) (collect_names names items)"
  by (induction items arbitrary: names) (auto simp: Let_def)

lemma name_list_wf: "name_list v = Inr ns \<Longrightarrow> wf_names ns"
  using collect_names_wf [of "[]"]
  by (auto simp: name_list_def wf_names_def Let_def split: json.splits option.splits if_splits)

lemma device_list_wf: "device_list v = Inr ns \<Longrightarrow> wf_names ns \<and> list_all is_device_path ns"
  by (auto simp: device_list_def name_list_wf split: if_splits)

lemma mode_wf: "mode v = Inr s \<Longrightarrow> s \<in> set MODES_OF_SCHEDULE"
  by (auto simp: mode_def split: json.splits if_splits)

lemma role_wf: "role v = Inr s \<Longrightarrow> s \<in> set ROLES"
  by (auto simp: role_def split: json.splits if_splits)

lemma strip_subset: "set (strip s) \<subseteq> set s"
  unfolding strip_def by (metis set_dropWhileD set_rev subsetI)

lemma clean_name_wf:
  "clean_name v = Inr s \<Longrightarrow> strip s = s \<and> length s \<le> MAX_NAME \<and> list_all (\<lambda>c. 32 \<le> code c) s"
  using strip_subset by (fastforce simp: clean_name_def list_ex_iff list_all_iff not_less split: json.splits if_splits)

section \<open>Tables of rules\<close>

text \<open>
  A table of rules keeps what its section promises when each rule does; then a merge does, and reading
  a saved section does, whatever the file held.
\<close>

locale rule_table =
  fixes rules :: "'a rules" and wf :: "'a \<Rightarrow> bool"
  assumes rule_keeps: "rules key = Some rule \<Longrightarrow> wf d \<Longrightarrow> rule v d = Inr d' \<Longrightarrow> wf d'"
    and rule_raises: "rules key = Some rule \<Longrightarrow> rule v d = Inl e \<Longrightarrow>
      (\<exists>m. e = PlanError m) \<or> (e = OverflowError \<and> (\<exists>n. v = JInt n \<and> float_overflows n))"
begin

lemma merge_keeps: "wf d \<Longrightarrow> merge rules d patch = Inr d' \<Longrightarrow> wf d'"
proof (induction patch arbitrary: d)
  case (Cons kv patch)
  obtain key v where kv: "kv = (key, v)" by (rule prod.exhaust)
  obtain rule d1 where "rules key = Some rule" "rule v d = Inr d1" "merge rules d1 patch = Inr d'"
    using Cons.prems(2) kv by (auto split: option.splits)
  then show ?case using Cons.IH Cons.prems(1) rule_keeps by blast
qed simp

lemma one_raises:
  assumes "merge rules d [(key, v)] = Inl e"
  shows "(\<exists>m. e = PlanError m) \<or> (\<exists>n. v = JInt n \<and> float_overflows n)"
proof (cases "rules key")
  case (Some rule)
  then have "rule v d = Inl e" using assms by (cases "rule v d") simp_all
  with Some show ?thesis using rule_raises by blast
qed (use assms in auto)

lemma section_keeps:
  "wf d \<Longrightarrow> foldE (\<lambda>d (key, v). tolerate d (merge rules d [(key, v)])) d kvs = Inr d' \<Longrightarrow> wf d'"
proof (induction kvs arbitrary: d)
  case (Cons kv kvs)
  obtain key v where kv: "kv = (key, v)" by (rule prod.exhaust)
  from Cons.prems(2) obtain d1 where d1: "tolerate d (merge rules d [(key, v)]) = Inr d1"
      "foldE (\<lambda>d (key, v). tolerate d (merge rules d [(key, v)])) d1 kvs = Inr d'"
    unfolding kv by auto
  have "wf d1"
  proof (cases "merge rules d [(key, v)]")
    case (Inl e)
    then show ?thesis using d1(1) Cons.prems(1) by (cases e) (simp_all add: tolerate_def)
  next
    case (Inr r)
    then have "merge rules d [(key, v)] = Inr d1" using d1(1) by (simp add: tolerate_def del: merge.simps)
    then show ?thesis by (rule merge_keeps [OF Cons.prems(1)])
  qed
  then show ?case using d1(2) by (rule Cons.IH)
qed simp

lemma section_total:
  "\<forall>(key, v)\<in>set kvs. \<forall>n. v = JInt n \<longrightarrow> \<not> float_overflows n \<Longrightarrow>
    \<exists>d'. foldE (\<lambda>d (key, v). tolerate d (merge rules d [(key, v)])) d kvs = Inr d'"
proof (induction kvs arbitrary: d)
  case (Cons kv kvs)
  obtain key v where kv: "kv = (key, v)" by (rule prod.exhaust)
  have "\<exists>d1. tolerate d (merge rules d [(key, v)]) = Inr d1"
  proof (cases "merge rules d [(key, v)]")
    case (Inl e)
    then show ?thesis using one_raises [OF Inl] Cons.prems kv by (auto simp: tolerate_def)
  qed (simp add: tolerate_def)
  then show ?case using Cons.IH Cons.prems kv by auto
qed simp

end

lemma clamp_raises:
  "clamp key v = Inl e \<Longrightarrow> LIMITS key \<noteq> None \<Longrightarrow>
    (\<exists>m. e = PlanError m) \<or> (e = OverflowError \<and> (\<exists>n. v = JInt n \<and> float_overflows n))"
  by (auto simp: clamp_def split: option.splits json.splits if_splits)

lemmas rule_defs = field_def flag_def rounded_def kelvin_step_def name_list_def device_list_def mode_def role_def
  clean_name_def Let_def

interpretation follow_rules: rule_table FOLLOW_RULES wf_follow
proof
  fix key rule d v d'
  show "FOLLOW_RULES key = Some rule \<Longrightarrow> wf_follow d \<Longrightarrow> rule v d = Inr d' \<Longrightarrow> wf_follow d'"
    by (auto simp: FOLLOW_RULES_def field_def wf_follow_def split: if_splits
        dest!: rounded_bounds name_list_wf device_list_wf)
next
  fix key rule d v e
  show "FOLLOW_RULES key = Some rule \<Longrightarrow> rule v d = Inl e \<Longrightarrow>
      (\<exists>m. e = PlanError m) \<or> (e = OverflowError \<and> (\<exists>n. v = JInt n \<and> float_overflows n))"
    by (auto simp: FOLLOW_RULES_def rule_defs bindE_eq_Inl dest!: clamp_raises
        split: if_splits json.splits option.splits)
qed

interpretation schedule_rules: rule_table SCHEDULE_RULES wf_schedule
proof
  fix key rule d v d'
  show "SCHEDULE_RULES key = Some rule \<Longrightarrow> wf_schedule d \<Longrightarrow> rule v d = Inr d' \<Longrightarrow> wf_schedule d'"
    by (auto simp: SCHEDULE_RULES_def field_def wf_schedule_def split: if_splits dest!: rounded_bounds mode_wf)
next
  fix key rule d v e
  show "SCHEDULE_RULES key = Some rule \<Longrightarrow> rule v d = Inl e \<Longrightarrow>
      (\<exists>m. e = PlanError m) \<or> (e = OverflowError \<and> (\<exists>n. v = JInt n \<and> float_overflows n))"
    by (auto simp: SCHEDULE_RULES_def rule_defs bindE_eq_Inl dest!: clamp_raises
        split: if_splits json.splits option.splits)
qed

interpretation light_rules: rule_table LIGHT_RULES wf_fields
proof
  fix key rule d v d'
  show "LIGHT_RULES key = Some rule \<Longrightarrow> wf_fields d \<Longrightarrow> rule v d = Inr d' \<Longrightarrow> wf_fields d'"
    by (auto simp: LIGHT_RULES_def field_def wf_fields_def split: if_splits
        dest!: rounded_bounds role_wf clean_name_wf kelvin_step_supported)
next
  fix key rule d v e
  show "LIGHT_RULES key = Some rule \<Longrightarrow> rule v d = Inl e \<Longrightarrow>
      (\<exists>m. e = PlanError m) \<or> (e = OverflowError \<and> (\<exists>n. v = JInt n \<and> float_overflows n))"
    by (auto simp: LIGHT_RULES_def rule_defs bindE_eq_Inl dest!: clamp_raises
        split: if_splits json.splits option.splits)
qed
section \<open>Whatever the file holds, the settings are well-formed\<close>

text \<open>Documents without an integer that no double can hold.\<close>

fun moderate :: "json \<Rightarrow> bool" where
  "moderate (JInt n) = (\<not> float_overflows n)"
| "moderate (JList vs) = list_all moderate vs"
| "moderate (JObj kvs) = list_all (\<lambda>(k, v). moderate v) kvs"
| "moderate _ = True"

lemma moderate_fields: "moderate v \<Longrightarrow> list_all (\<lambda>(k, x). moderate x) (fields_of v)"
  by (cases v) (simp_all add: fields_of_def)

lemma moderate_get: "list_all (\<lambda>(k, x). moderate x) kvs \<Longrightarrow> moderate (jget kvs key)"
  by (auto simp: jget_def list_all_iff split: option.split dest: map_of_SomeD)

lemma tolerate_keeps: "P d \<Longrightarrow> (\<And>d'. r = Inr d' \<Longrightarrow> P d') \<Longrightarrow> tolerate d r = Inr d' \<Longrightarrow> P d'"
  by (cases r) (auto simp: tolerate_def split: exn.splits)

lemma tolerate_total: "(\<And>e. r = Inl e \<Longrightarrow> \<exists>m. e = PlanError m) \<Longrightarrow> \<exists>d'. tolerate d r = Inr d'"
  by (cases r) (auto simp: tolerate_def split: exn.splits)

lemma foldE_keeps: "P d \<Longrightarrow> (\<And>d x d'. P d \<Longrightarrow> f d x = Inr d' \<Longrightarrow> P d') \<Longrightarrow> foldE f d xs = Inr d' \<Longrightarrow> P d'"
  by (induction xs arbitrary: d) auto

lemma foldE_total:
  assumes "P d" and "\<And>d x. x \<in> set xs \<Longrightarrow> P d \<Longrightarrow> \<exists>d'. f d x = Inr d' \<and> P d'"
  shows "\<exists>d'. foldE f d xs = Inr d'"
  using assms
proof (induction xs arbitrary: d)
  case (Cons x xs)
  obtain d1 where "f d x = Inr d1" "P d1" using Cons.prems by (metis list.set_intros(1))
  with Cons.IH [of d1] Cons.prems(2) show ?case by simp
qed simp

lemma level_raises: "level_of b k = Inl e \<Longrightarrow> moderate b \<Longrightarrow> moderate k \<Longrightarrow> \<exists>m. e = PlanError m"
  by (auto simp: level_of_def bindE_eq_Inl dest!: clamp_raises)

lemma moderate_get_or: "list_all (\<lambda>(k, x). moderate x) patch \<Longrightarrow> moderate (get_or patch key x)"
  by (auto simp: get_or_def list_all_iff split: option.split dest: map_of_SomeD)

lemma patched_level_wf: "patched_level old patch = Inr l \<Longrightarrow> wf_level l"
  by (auto simp: patched_level_def intro: level_wf)

text \<open>Slots and hours.\<close>

lemma update_values: "list_all (\<lambda>(_, l). P l) kvs \<Longrightarrow> P v \<Longrightarrow> list_all (\<lambda>(_, l). P l) (AList.update k v kvs)"
  by (induction kvs) auto

lemma validate_slot_wf:
  assumes "wf_schedule sc" and "validate_slot sc slot patch = Inr sc'"
  shows "wf_schedule sc'"
proof -
  obtain old l where slot: "map_of (sc_slots sc) slot = Some old" and l: "patched_level old patch = Inr l"
    and sc': "sc' = sc\<lparr>sc_slots := AList.update slot l (sc_slots sc)\<rparr>"
    using assms(2) by (auto simp: validate_slot_def split: if_splits option.splits)
  have "slot \<in> set (map fst (sc_slots sc))" using slot by (auto dest: map_of_SomeD intro: rev_image_eqI)
  then have "map fst (sc_slots sc') = map fst (sc_slots sc)" by (simp add: sc' update_keys)
  moreover have "list_all (\<lambda>(_, l). wf_level l) (sc_slots sc')"
    using assms(1) patched_level_wf [OF l] by (simp add: sc' wf_schedule_def update_values)
  ultimately show ?thesis using assms(1) by (simp add: wf_schedule_def) (simp add: sc')
qed

lemma validate_slot_raises:
  "validate_slot sc slot patch = Inl e \<Longrightarrow> wf_schedule sc \<Longrightarrow> list_all (\<lambda>(k, x). moderate x) patch \<Longrightarrow>
    \<exists>m. e = PlanError m"
proof -
  assume a: "validate_slot sc slot patch = Inl e" "wf_schedule sc" "list_all (\<lambda>(k, x). moderate x) patch"
  show ?thesis
  proof (cases "slot \<in> set SLOT_ORDER")
    case True
    then have "map_of (sc_slots sc) slot \<noteq> None" using a(2) by (simp add: wf_schedule_def map_of_eq_None_iff flip: set_map)
    then obtain old where "map_of (sc_slots sc) slot = Some old" by blast
    with a(1) True have "patched_level old patch = Inl e"
      by (auto simp: validate_slot_def bindE_eq_Inl)
    then show ?thesis using level_raises a(3) moderate_get_or unfolding patched_level_def by blast
  qed (use a(1) in \<open>auto simp: validate_slot_def\<close>)
qed

lemma saved_slots_wf:
  assumes "wf_schedule sc" and "saved_slots sc saved = Inr sc'"
  shows "wf_schedule sc'"
  using assms(2) unfolding saved_slots_def
  by (rule foldE_keeps [where P = wf_schedule, OF assms(1), rotated])
    (auto elim!: tolerate_keeps [where P = wf_schedule, rotated 2] intro: validate_slot_wf)

lemma saved_slots_total:
  assumes "wf_schedule sc" and "moderate saved"
  shows "\<exists>sc'. saved_slots sc saved = Inr sc'"
  unfolding saved_slots_def
proof (rule foldE_total [where P = wf_schedule, OF assms(1)])
  fix d x assume x: "x \<in> set (fields_of saved)" and d: "wf_schedule d"
  obtain slot v where sv: "x = (slot, v)" by (rule prod.exhaust)
  have "moderate v" using x moderate_fields [OF assms(2)] sv by (auto simp: list_all_iff)
  then obtain d' where d': "tolerate d (validate_slot d slot (fields_of v)) = Inr d'"
    using tolerate_total validate_slot_raises [OF _ d moderate_fields] by metis
  moreover have "wf_schedule d'"
    by (rule tolerate_keeps [where P = wf_schedule, OF d _ d']) (rule validate_slot_wf [OF d])
  ultimately show "\<exists>d'. (case x of (slot, v) \<Rightarrow> tolerate d (validate_slot d slot (fields_of v))) = Inr d' \<and> wf_schedule d'"
    by (simp add: sv)
qed

lemma mapE_all: "mapE f xs = Inr ys \<Longrightarrow> (\<And>x y. f x = Inr y \<Longrightarrow> P y) \<Longrightarrow> list_all P ys \<and> length ys = length xs"
  by (induction xs arbitrary: ys) auto

lemma mapE_raises: "mapE f xs = Inl e \<Longrightarrow> \<exists>x\<in>set xs. f x = Inl e"
  by (induction xs) (auto simp: bindE_eq_Inl)

lemma saved_hour_wf: "saved_hour h = Inr l \<Longrightarrow> wf_level l"
  by (auto simp: saved_hour_def intro: level_wf split: json.splits)

lemma saved_hours_wf:
  assumes "wf_schedule sc" and "saved_hours sc saved = Inr sc'"
  shows "wf_schedule sc'"
proof (cases "\<exists>hours. saved = JList hours \<and> length hours = 24")
  case True
  then obtain hours where hours: "saved = JList hours" "length hours = 24" by blast
  show ?thesis
  proof (cases "mapE saved_hour hours")
    case (Inl e)
    then show ?thesis using assms hours by (cases e) (auto simp: saved_hours_def wf_schedule_def)
  next
    case (Inr ls)
    then show ?thesis
      using assms hours mapE_all [where P = wf_level, OF Inr saved_hour_wf]
      by (auto simp: saved_hours_def wf_schedule_def wf_hours_def)
  qed
qed (use assms in \<open>auto simp: saved_hours_def split: json.splits if_splits\<close>)

lemma saved_hours_total:
  assumes "moderate saved"
  shows "\<exists>sc'. saved_hours sc saved = Inr sc'"
proof (cases "\<exists>hours. saved = JList hours \<and> length hours = 24")
  case True
  then obtain hours where hours: "saved = JList hours" "length hours = 24" by blast
  have "(\<exists>m. e = PlanError m) \<or> e = AttributeError" if raised: "mapE saved_hour hours = Inl e" for e
  proof -
    obtain h where h: "h \<in> set hours" "saved_hour h = Inl e" using mapE_raises [OF raised] by blast
    have "moderate h" using h(1) assms hours by (simp add: list_all_iff)
    then have "list_all (\<lambda>(k, x). moderate x) (fields_of h)" by (rule moderate_fields)
    then show ?thesis using h(2) level_raises moderate_get
      by (cases h) (auto simp: saved_hour_def fields_of_def)
  qed
  then show ?thesis using hours by (cases "mapE saved_hour hours") (auto simp: saved_hours_def)
qed (auto simp: saved_hours_def split: json.splits)

text \<open>Lights.\<close>

lemma or_unless [simp]: "or_default (unless_default v x) v = x"
  by (simp add: or_default_def unless_default_def)

lemma with_only [simp]: "with_defaults (only_differing l) = l"
  by (simp add: with_defaults_def only_differing_def)

lemma validate_light_wf:
  assumes "wf_fields (with_defaults k)" and "validate_light k patch = Inr k'"
  shows "wf_kept k'"
proof -
  obtain out where out: "merge LIGHT_RULES (with_defaults k) patch = Inr out"
    and o: "li_min_brightness out \<le> li_max_brightness out" "li_min_kelvin out \<le> li_max_kelvin out"
    and k': "k' = only_differing out"
    using assms(2) by (auto simp: validate_light_def split: if_splits)
  have "wf_fields out" using assms(1) out by (rule light_rules.merge_keeps)
  then show ?thesis using o by (simp add: k' wf_kept_def wf_light_def)
qed

lemma default_light: "with_defaults nothing_kept = LIGHT_DEFAULTS" "wf_fields LIGHT_DEFAULTS"
  by (simp_all add: with_defaults_def nothing_kept_def or_default_def wf_fields_def LIGHT_DEFAULTS_def
      supported_kelvin_def KELVIN_MIN_def KELVIN_MAX_def ROLES_def strip_def)

lemma validate_light_raises:
  assumes "validate_light k patch = Inl e" and "list_all (\<lambda>(k, x). moderate x) patch"
  shows "\<exists>m. e = PlanError m"
proof -
  have "\<exists>m. e = PlanError m" if "merge LIGHT_RULES out patch = Inl e" for out
    using that assms(2)
  proof (induction patch arbitrary: out)
    case (Cons kv patch)
    obtain key v where kv: "kv = (key, v)" by (rule prod.exhaust)
    then have "moderate v" using Cons.prems(2) by simp
    then have m: "v = JInt n \<Longrightarrow> \<not> float_overflows n" for n by auto
    show ?case
    proof (cases "LIGHT_RULES key")
      case (Some rule)
      show ?thesis
      proof (cases "rule v out")
        case (Inl e')
        then show ?thesis using Cons.prems(1) Some kv light_rules.rule_raises [OF Some Inl] m by auto
      next
        case (Inr out')
        then show ?thesis using Cons Some kv by auto
      qed
    qed (use Cons.prems(1) kv in auto)
  qed simp
  then show ?thesis using assms(1) by (auto simp: validate_light_def bindE_eq_Inl split: if_splits)
qed

lemma lights_update: "wf_lights ls \<Longrightarrow> wf_kept k \<Longrightarrow> k \<noteq> nothing_kept \<Longrightarrow> wf_lights (AList.update light_id k ls)"
  using update_values [of "\<lambda>k. wf_kept k \<and> k \<noteq> nothing_kept" ls k light_id]
  by (simp add: wf_lights_def distinct_update)

lemma saved_light_wf: "wf_lights d \<Longrightarrow> saved_light d light_id v = Inr d' \<Longrightarrow> wf_lights d'"
  using validate_light_wf [of nothing_kept] default_light
  by (auto simp: saved_light_def lights_update split: json.splits)

lemma saved_lights_wf: "wf_lights d \<Longrightarrow> saved_lights d saved = Inr d' \<Longrightarrow> wf_lights d'"
  unfolding saved_lights_def
  by (erule foldE_keeps [where P = wf_lights])
    (auto elim!: tolerate_keeps [where P = wf_lights, rotated 2] intro: saved_light_wf)

lemma saved_lights_total:
  assumes "moderate saved"
  shows "\<exists>d'. saved_lights d saved = Inr d'"
  unfolding saved_lights_def
proof (rule foldE_total [where P = "\<lambda>_. True"], rule TrueI)
  fix d x assume x: "x \<in> set (fields_of saved)"
  obtain light_id v where lv: "x = (light_id, v)" by (rule prod.exhaust)
  have "moderate v" using x moderate_fields [OF assms] lv by (auto simp: list_all_iff)
  then have "\<exists>m. e = PlanError m" if "saved_light d light_id v = Inl e" for e
    using that validate_light_raises [of nothing_kept _ e]
    by (auto simp: saved_light_def bindE_eq_Inl split: json.splits)
  then show "\<exists>d'. (case x of (light_id, v) \<Rightarrow> tolerate d (saved_light d light_id v)) = Inr d' \<and> True"
    using tolerate_total by (metis (no_types, lifting) lv old.prod.case)
qed

lemma defaults_wf: "wf_plan defaults"
  by (simp add: wf_plan_def defaults_def wf_follow_def wf_names_def MAX_IGNORE_def wf_schedule_def
      MODES_OF_SCHEDULE_def SLOT_ORDER_def default_slots_def LIGHT_PRIORS_def wf_level_def py_round_def
      BASE_BRIGHTNESS_def BASE_KELVIN_def clamp_kelvin_supported wf_lights_def)

lemma normalise_wf:
  assumes "normalise raw = Inr d"
  shows "wf_plan d"
proof (cases raw)
  case (JObj doc)
  let ?s = "fields_of (jget doc ''schedule'')"
  obtain fo sc1 sc2 sc3 lights resume where
    n: "saved_section validate_follow (pl_follow defaults) (jget doc ''follow'') = Inr fo"
      "saved_section validate_schedule (pl_schedule defaults) (jget doc ''schedule'') = Inr sc1"
      "saved_slots sc1 (jget ?s ''slots'') = Inr sc2" "saved_hours sc2 (jget ?s ''hours'') = Inr sc3"
      "saved_lights (pl_lights defaults) (jget doc ''lights'') = Inr lights"
      and d: "d = \<lparr>pl_follow = fo, pl_schedule = sc3, pl_lights = lights, pl_resume = resume\<rparr>"
    using assms by (auto simp: normalise_def JObj Let_def)
  note def = defaults_wf [unfolded wf_plan_def]
  have "wf_follow fo"
    using n(1) def unfolding saved_section_def validate_follow_def by (blast intro: follow_rules.section_keeps)
  moreover have "wf_schedule sc1"
    using n(2) def unfolding saved_section_def validate_schedule_def by (blast intro: schedule_rules.section_keeps)
  then have "wf_schedule sc3" using n(3,4) saved_slots_wf saved_hours_wf by blast
  moreover have "wf_lights lights" using n(5) def saved_lights_wf by blast
  ultimately show ?thesis by (simp add: wf_plan_def d)
qed (use assms defaults_wf in \<open>simp_all add: normalise_def\<close>)

lemma sections_total:
  assumes "moderate saved"
  shows "\<exists>d. saved_section validate_follow d0 saved = Inr d"
    and "\<exists>d. saved_section validate_schedule s0 saved = Inr d"
proof -
  have m: "\<forall>(key, v)\<in>set (fields_of saved). \<forall>n. v = JInt n \<longrightarrow> \<not> float_overflows n"
    using moderate_fields [OF assms] by (auto simp: list_all_iff)
  show "\<exists>d. saved_section validate_follow d0 saved = Inr d"
    unfolding saved_section_def validate_follow_def by (rule follow_rules.section_total [OF m])
  show "\<exists>d. saved_section validate_schedule s0 saved = Inr d"
    unfolding saved_section_def validate_schedule_def by (rule schedule_rules.section_total [OF m])
qed

lemma normalise_total:
  assumes "moderate raw"
  shows "\<exists>d. normalise raw = Inr d"
proof (cases raw)
  case (JObj doc)
  have get: "moderate (jget doc key)" for key using assms JObj moderate_get by simp
  let ?s = "fields_of (jget doc ''schedule'')"
  have get_s: "moderate (jget ?s key)" for key by (rule moderate_get, rule moderate_fields, rule get)
  obtain fo where fo: "saved_section validate_follow (pl_follow defaults) (jget doc ''follow'') = Inr fo"
    using sections_total(1) [OF get] by blast
  obtain sc1 where sc1: "saved_section validate_schedule (pl_schedule defaults) (jget doc ''schedule'') = Inr sc1"
    using sections_total(2) [OF get] by blast
  have "wf_schedule sc1"
    using sc1 defaults_wf [unfolded wf_plan_def] unfolding saved_section_def validate_schedule_def
    by (blast intro: schedule_rules.section_keeps)
  then obtain sc2 where sc2: "saved_slots sc1 (jget ?s ''slots'') = Inr sc2" using saved_slots_total get_s by blast
  obtain sc3 where sc3: "saved_hours sc2 (jget ?s ''hours'') = Inr sc3" using saved_hours_total [OF get_s] by blast
  obtain lights where li: "saved_lights (pl_lights defaults) (jget doc ''lights'') = Inr lights"
    using saved_lights_total [OF get] by blast
  have "\<exists>r. saved_resume (jget doc ''resume'') = Inr r"
    using get [of "''resume''"] by (auto simp: saved_resume_def split: json.split)
  then show ?thesis using fo sc1 sc2 sc3 li by (auto simp: normalise_def JObj Let_def)
qed (simp_all add: normalise_def)

end
