(* ===== verification/LightStore.thy ===== *)
theory LightStore
  imports LightPlan
begin

text \<open>
  The settings file of the lighting automation (\<open>Store\<close> of \<open>lightplan.py\<close>): the document a plan is
  written as, the cache by file stamp, the pending change of \<open>saving.LatestWriter\<close>, and the operations
  of the Console's pages, each a load, an edit and a save. \<open>repr\<close> is the text Python prints for a float.
\<close>

section \<open>The document\<close>







section \<open>Every value a plan can hold is read back\<close>

text \<open>
  Names as validation leaves them when none was longer than 60 characters: stripped, each once.
\<close>

definition tidy_names :: "string list \<Rightarrow> bool" where
  "tidy_names ns \<longleftrightarrow> list_all (\<lambda>n. strip n = n) ns \<and> distinct ns"










lemma strings_of_map [simp]: "strings_of (map JStr ns) = Some ns"
  by (induction ns) simp_all








lemma light_rules_of [simp]:
  "LIGHT_RULES ''name'' = Some (field clean_name (\<lambda>s d. d\<lparr>li_name := s\<rparr>))"
  "LIGHT_RULES ''role'' = Some (field role (\<lambda>s d. d\<lparr>li_role := s\<rparr>))"
  "LIGHT_RULES ''min_brightness'' = Some (field (rounded ''brightness'') (\<lambda>n d. d\<lparr>li_min_brightness := n\<rparr>))"
  "LIGHT_RULES ''max_brightness'' = Some (field (rounded ''brightness'') (\<lambda>n d. d\<lparr>li_max_brightness := n\<rparr>))"
  "LIGHT_RULES ''min_kelvin'' = Some (field kelvin_step (\<lambda>n d. d\<lparr>li_min_kelvin := n\<rparr>))"
  "LIGHT_RULES ''max_kelvin'' = Some (field kelvin_step (\<lambda>n d. d\<lparr>li_max_kelvin := n\<rparr>))"
  by (simp_all add: LIGHT_RULES_def)





lemma short_names_tidy:
  "list_all (\<lambda>n. length (strip n) \<le> 60) items \<Longrightarrow> tidy_names names \<Longrightarrow> tidy_names (collect_names names items)"
  by (induction items arbitrary: names) (auto simp: tidy_names_def Let_def)

text \<open>
  Names are compared before they are cut to 60 characters, so two long names with a common start are
  stored twice, and reading the file back drops one.
\<close>

lemma long_names_collapse:
  "\<exists>ns. name_list (JList [JStr (replicate 60 CHR ''a'' @ ''b''), JStr (replicate 60 CHR ''a'' @ ''c'')]) = Inr ns \<and>
    length ns = 2 \<and> name_list (JList (map JStr ns)) = Inr [hd ns]"
proof -
  let ?a = "replicate 60 CHR ''a''"
  have s: "strip (?a @ [c]) = ?a @ [c]" if "\<not> is_space c" for c
    by (rule strip_noop) (use that in \<open>simp_all add: is_space_def code_def numeral_eq_Suc\<close>)
  have t: "strip ?a = ?a"
    by (rule strip_noop) (simp_all add: is_space_def code_def)
  have "\<not> is_space CHR ''b''" "\<not> is_space CHR ''c''" by (simp_all add: is_space_def code_def)
  then have "collect_names [] [?a @ ''b'', ?a @ ''c''] = [?a, ?a]" "collect_names [] [?a, ?a] = [?a]"
    using s t by (simp_all add: Let_def del: replicate.simps)
  then show ?thesis by (simp add: name_list_def MAX_IGNORE_def del: replicate.simps collect_names.simps)
qed

section \<open>The store\<close>






section \<open>The pages' operations\<close>













section \<open>The store keeps its promises\<close>













section \<open>Properties\<close>





end
