(* ===== verification/LightControl.thy ===== *)
theory LightControl
  imports Litra PyText "HOL-Library.AList"
begin

text \<open>
  The lighting controller of the Console (\<open>console/lighting.py\<close>): the lights on the bus with what each
  is believed to show, their discovery and reading back, and the writes, which are compare-and-set when
  the caller says what it believes. A light is behind a transport of \<open>Litra\<close>; \<open>now\<close> is the clock at
  the operation and \<open>waits\<close> what the deadlines of a reading say. The two locks make every operation
  here one step; messages to the page and the journal of writes are left out.
\<close>

section \<open>Lights on the bus\<close>

record 't slot =
  sl_model :: light_model
  sl_device :: "'t option"
  sl_error :: "string option"
  sl_power :: "bool option"
  sl_lumen :: "int option"
  sl_kelvin :: "int option"
  sl_last_write :: "rat option"
  sl_last_read :: "rat option"
  sl_identifying :: bool

text \<open>The slots by light id, in the order of the ids; \<open>None\<close> as a time is \<open>-inf\<close>.\<close>

type_synonym 't bus = "(string \<times> 't slot) list"

definition new_slot :: "light_model \<Rightarrow> 't slot" where
  "new_slot m =
     \<lparr>sl_model = m, sl_device = None, sl_error = None, sl_power = None, sl_lumen = None, sl_kelvin = None,
      sl_last_write = None, sl_last_read = None, sl_identifying = False\<rparr>"

definition SETTLE_SECONDS :: rat where "SETTLE_SECONDS = 3 / 2"

text \<open>\<open>now - t < d\<close> and \<open>now - t >= d\<close> for a time that may be \<open>-inf\<close>.\<close>

definition less_than_ago :: "rat \<Rightarrow> rat option \<Rightarrow> rat \<Rightarrow> bool" where
  "less_than_ago now t d \<longleftrightarrow> (case t of None \<Rightarrow> False | Some x \<Rightarrow> now - x < d)"

definition fail_slot :: "string \<Rightarrow> 't slot \<Rightarrow> 't slot" where
  "fail_slot message sl = sl\<lparr>sl_device := None, sl_error := Some message\<rparr>"

definition or_else :: "'a option \<Rightarrow> 'a option \<Rightarrow> 'a option" where
  "or_else x y = (case x of None \<Rightarrow> y | Some _ \<Rightarrow> x)"

definition read_state :: "'t transport \<Rightarrow> rat \<Rightarrow> bool list \<Rightarrow> 't slot \<Rightarrow> 't slot result" where
  "read_state tp now waits sl =
     (case sl_device sl of
        None \<Rightarrow> Inr sl
      | Some t \<Rightarrow>
          (case bindE (read_power tp (sl_model sl) waits t) (\<lambda>(pwr, t1).
                bindE (read_lumen tp (sl_model sl) waits t1) (\<lambda>(lumen, t2).
                bindE (read_kelvin tp (sl_model sl) waits t2) (\<lambda>(kelvin, t3).
                  Inr (pwr, lumen, kelvin, t3)))) of
             Inl (LightingError message) \<Rightarrow> Inr (fail_slot message sl)
           | Inl e \<Rightarrow> Inl e
           | Inr (pwr, lumen, kelvin, t3) \<Rightarrow>
               let sl1 = sl\<lparr>sl_device := Some t3, sl_last_read := Some now\<rparr>
               in Inr (if less_than_ago now (sl_last_write sl) SETTLE_SECONDS then sl1
                       else sl1\<lparr>sl_power := or_else pwr (sl_power sl), sl_lumen := or_else lumen (sl_lumen sl),
                                sl_kelvin := or_else kelvin (sl_kelvin sl)\<rparr>)))"

definition connect :: "'t transport \<Rightarrow> rat \<Rightarrow> bool list \<Rightarrow> 't result \<Rightarrow> 't slot \<Rightarrow> 't slot result" where
  "connect tp now waits opened sl =
     (case opened of
        Inl (LightingError message) \<Rightarrow> Inr (sl\<lparr>sl_error := Some message\<rparr>)
      | Inl e \<Rightarrow> Inl e
      | Inr t \<Rightarrow> read_state tp now waits (sl\<lparr>sl_device := Some t, sl_error := None\<rparr>))"

text \<open>
  \<open>scan\<close> is what the bus shows (a failed scan shows nothing), in the order of the ids; \<open>open_light\<close> opens a device node.
\<close>

definition rescan ::
    "'t transport \<Rightarrow> rat \<Rightarrow> bool list \<Rightarrow> (string \<Rightarrow> 't result) \<Rightarrow> (string \<times> light_model) list result \<Rightarrow>
     't bus \<Rightarrow> 't bus result" where
  "rescan tp now waits open_light scan ctl =
     (let found = (case scan of Inl _ \<Rightarrow> [] | Inr fs \<Rightarrow> fs);
          ctl1 = map (\<lambda>(i, m). (i, case map_of ctl i of None \<Rightarrow> new_slot m | Some sl \<Rightarrow> sl\<lparr>sl_model := m\<rparr>)) found
      in mapE (\<lambda>(i, sl).
           if sl_device sl = None then bindE (connect tp now waits (open_light i) sl) (\<lambda>sl1. Inr (i, sl1))
           else Inr (i, sl)) ctl1)"

definition readback :: "'t transport \<Rightarrow> rat \<Rightarrow> bool list \<Rightarrow> bool \<Rightarrow> rat \<Rightarrow> 't bus \<Rightarrow> 't bus result" where
  "readback tp now waits force readback_seconds ctl =
     mapE (\<lambda>(i, sl).
       if sl_device sl \<noteq> None \<and> (force \<or> \<not> less_than_ago now (sl_last_read sl) readback_seconds) \<and> \<not> sl_identifying sl
       then bindE (read_state tp now waits sl) (\<lambda>sl1. Inr (i, sl1)) else Inr (i, sl)) ctl"

text \<open>What the automation sees of a light.\<close>

record light_view =
  vw_id :: string
  vw_model :: light_model
  vw_connected :: bool
  vw_power :: "bool option"
  vw_lumen :: "int option"
  vw_kelvin :: "int option"
  vw_identifying :: bool

definition view_of :: "string \<times> 't slot \<Rightarrow> light_view" where
  "view_of = (\<lambda>(i, sl).
     \<lparr>vw_id = i, vw_model = sl_model sl, vw_connected = (sl_device sl \<noteq> None), vw_power = sl_power sl,
      vw_lumen = sl_lumen sl, vw_kelvin = sl_kelvin sl, vw_identifying = sl_identifying sl\<rparr>)"

definition lights_view :: "'t bus \<Rightarrow> light_view list" where
  "lights_view ctl = map view_of ctl"

section \<open>Writing\<close>

type_synonym applied = "bool option \<times> int option \<times> int option"

record request =
  rq_id :: string
  rq_power :: "bool option"
  rq_percent :: "rat option"
  rq_kelvin :: "rat option"
  rq_expect :: "applied option"
  rq_verify :: bool

definition LUMEN_EPS :: int where "LUMEN_EPS = 4"
definition KELVIN_EPS :: int where "KELVIN_EPS = 100"

definition apart :: "int option \<Rightarrow> int option \<Rightarrow> int \<Rightarrow> bool" where
  "apart x y eps \<longleftrightarrow> (case (x, y) of (Some a, Some b) \<Rightarrow> eps \<le> \<bar>b - a\<bar> | _ \<Rightarrow> False)"

definition changed :: "applied \<Rightarrow> 't slot \<Rightarrow> bool" where
  "changed expect sl \<longleftrightarrow>
     (case expect of (pwr, lumen, kelvin) \<Rightarrow>
        (case (pwr, sl_power sl) of (Some a, Some b) \<Rightarrow> b \<noteq> a | _ \<Rightarrow> False) \<or>
        apart lumen (sl_lumen sl) LUMEN_EPS \<or> apart kelvin (sl_kelvin sl) KELVIN_EPS)"

definition verify_applied :: "'t transport \<Rightarrow> light_model \<Rightarrow> bool list \<Rightarrow> applied \<Rightarrow> 't \<Rightarrow> (applied \<times> 't) result" where
  "verify_applied tp m waits asked t =
     (case asked of (pwr, lumen, kelvin) \<Rightarrow>
        bindE (case lumen of
                 None \<Rightarrow> Inr (None, t)
               | Some _ \<Rightarrow> bindE (read_lumen tp m waits t) (\<lambda>(shown, t1). Inr (or_else shown lumen, t1))) (\<lambda>(lumen1, t1).
        bindE (case kelvin of
                 None \<Rightarrow> Inr (None, t1)
               | Some _ \<Rightarrow> bindE (read_kelvin tp m waits t1) (\<lambda>(shown, t2). Inr (or_else shown kelvin, t2))) (\<lambda>(kelvin1, t2).
          Inr ((pwr, lumen1, kelvin1), t2))))"

definition slot_write :: "'t transport \<Rightarrow> rat \<Rightarrow> bool list \<Rightarrow> request \<Rightarrow> 't slot \<Rightarrow> (applied \<times> 't slot) result" where
  "slot_write tp now waits rq sl =
     (let m = sl_model sl
      in case sl_device sl of
           None \<Rightarrow> Inl (LightingError ''not connected'')
         | Some t \<Rightarrow>
             bindE (case rq_kelvin rq of
                      None \<Rightarrow> Inr (None, t)
                    | Some k \<Rightarrow> bindE (set_kelvin tp m (py_round k) t) (\<lambda>(kelv, t1). Inr (Some kelv, t1))) (\<lambda>(kelv, t1).
             bindE (case rq_percent rq of
                      None \<Rightarrow> Inr (None, t1)
                    | Some p \<Rightarrow> bindE (set_lumen tp m (percent_to_lumen m p) t1) (\<lambda>(lumen, t2). Inr (Some lumen, t2))) (\<lambda>(lumen, t2).
             bindE (case rq_power rq of None \<Rightarrow> Inr t2 | Some on \<Rightarrow> set_power tp m on t2) (\<lambda>t3.
             bindE (if rq_verify rq then verify_applied tp m waits (rq_power rq, lumen, kelv) t3
                    else Inr ((rq_power rq, lumen, kelv), t3)) (\<lambda>((power1, lumen1, kelv1), t4).
               Inr ((power1, lumen1, kelv1),
                    sl\<lparr>sl_device := Some t4, sl_last_write := Some now, sl_kelvin := or_else kelv1 (sl_kelvin sl),
                       sl_lumen := or_else lumen1 (sl_lumen sl), sl_power := or_else power1 (sl_power sl)\<rparr>))))))"

text \<open>\<open>_targets\<close>: one light by its id, or every light that is connected.\<close>

definition targets :: "string \<Rightarrow> 't bus \<Rightarrow> string list result" where
  "targets target ctl =
     (if target = ''all'' then
        (let ids = map fst (filter (\<lambda>(_, sl). sl_device sl \<noteq> None) ctl)
         in if ids = [] then
              Inl (ActionError
                (case filter (\<lambda>e. e \<noteq> None \<and> e \<noteq> Some []) (map (\<lambda>(_, sl). sl_error sl) ctl) of
                   e # _ \<Rightarrow> the e | [] \<Rightarrow> ''No Litra light is connected.'') 409)
            else Inr ids)
      else case map_of ctl target of
             None \<Rightarrow> Inl (ActionError (''No light called '' @ target @ ''.'') 400)
           | Some sl \<Rightarrow>
               if sl_device sl = None
               then Inl (ActionError (case sl_error sl of Some (c # cs) \<Rightarrow> c # cs | _ \<Rightarrow> lm_name (sl_model sl) @ '' is not connected.'') 409)
               else Inr [target])"

fun write_each ::
    "'t transport \<Rightarrow> rat \<Rightarrow> bool list \<Rightarrow> request \<Rightarrow> string list \<Rightarrow> 't bus \<Rightarrow>
     (string list \<times> applied list) result \<times> 't bus" where
  "write_each tp now waits rq [] ctl = (Inr ([], []), ctl)"
| "write_each tp now waits rq (i # ids) ctl =
     (case map_of ctl i of
        None \<Rightarrow> (Inl KeyError, ctl)
      | Some sl \<Rightarrow>
          if (case rq_expect rq of None \<Rightarrow> False | Some expect \<Rightarrow> changed expect sl) then (Inl Superseded, ctl)
          else (case slot_write tp now waits rq sl of
                  Inr (applied, sl1) \<Rightarrow>
                    (case write_each tp now waits rq ids (AList.update i sl1 ctl) of
                       (Inl e, ctl1) \<Rightarrow> (Inl e, ctl1)
                     | (Inr (failures, outs), ctl1) \<Rightarrow> (Inr (failures, applied # outs), ctl1))
                | Inl (LightingError message) \<Rightarrow>
                    (case write_each tp now waits rq ids (AList.update i (fail_slot message sl) ctl) of
                       (Inl e, ctl1) \<Rightarrow> (Inl e, ctl1)
                     | (Inr (failures, outs), ctl1) \<Rightarrow> (Inr ((lm_name (sl_model sl) @ '': '' @ message) # failures, outs), ctl1))
                | Inl e \<Rightarrow> (Inl e, ctl)))"

definition write_all ::
    "'t transport \<Rightarrow> rat \<Rightarrow> bool list \<Rightarrow> request \<Rightarrow> 't bus \<Rightarrow> (string list \<times> applied list) result \<times> 't bus" where
  "write_all tp now waits rq ctl =
     (case targets (rq_id rq) ctl of
        Inl e \<Rightarrow> (Inl e, ctl)
      | Inr ids \<Rightarrow>
          (case write_each tp now waits rq ids ctl of
             (Inl e, ctl1) \<Rightarrow> (Inl e, ctl1)
           | (Inr (failures, outs), ctl1) \<Rightarrow>
               if failures \<noteq> [] \<and> length failures = length ids then (Inl (ActionError (hd failures) 409), ctl1)
               else (Inr (failures, outs), ctl1)))"

text \<open>\<open>LightingController.write\<close>, the automation's way to a light.\<close>

definition control_write :: "'t transport \<Rightarrow> rat \<Rightarrow> bool list \<Rightarrow> request \<Rightarrow> 't bus \<Rightarrow> applied result \<times> 't bus" where
  "control_write tp now waits rq ctl =
     (case write_all tp now waits rq ctl of
        (Inl e, ctl1) \<Rightarrow> (Inl e, ctl1)
      | (Inr (_, []), ctl1) \<Rightarrow> (Inr (rq_power rq, None, None), ctl1)
      | (Inr (_, applied # _), ctl1) \<Rightarrow> (Inr applied, ctl1))"

text \<open>The page's three controls: no expectation, and no reading back.\<close>

definition act_flag :: "(string \<times> json) list \<Rightarrow> bool result" where
  "act_flag params = (case jget params ''on'' of JBool b \<Rightarrow> Inr b | _ \<Rightarrow> Inl (ActionError ''on must be true or false'' 400))"

definition act_number :: "(string \<times> json) list \<Rightarrow> string \<Rightarrow> rat \<Rightarrow> rat \<Rightarrow> rat result" where
  "act_number params key low high =
     (case jget params key of
        JInt n \<Rightarrow> if 2 ^ 1024 - 2 ^ 970 \<le> \<bar>n\<bar> then Inl OverflowError else Inr (min high (max low (of_int n)))
      | JFloat x _ \<Rightarrow> Inr (min high (max low x))
      | _ \<Rightarrow> Inl (ActionError (key @ '' must be a number'') 400))"

definition act_target :: "(string \<times> json) list \<Rightarrow> string result" where
  "act_target params =
     (case map_of params ''id'' of
        None \<Rightarrow> Inr ''all''
      | Some (JStr s) \<Rightarrow> Inr s
      | Some _ \<Rightarrow> Inl (ActionError (''id must be a light id or '' @ [CHR 0x22] @ ''all'' @ [CHR 0x22]) 400))"

definition console_request :: "string \<Rightarrow> (string \<times> json) list \<Rightarrow> request result" where
  "console_request action params =
     (let rq = \<lparr>rq_id = '''', rq_power = None, rq_percent = None, rq_kelvin = None, rq_expect = None, rq_verify = False\<rparr>
      in bindE (if action = ''lighting.power'' then bindE (act_flag params) (\<lambda>on. Inr (rq\<lparr>rq_power := Some on\<rparr>))
                else if action = ''lighting.brightness''
                then bindE (act_number params ''percent'' 1 100) (\<lambda>p. Inr (rq\<lparr>rq_percent := Some p\<rparr>))
                else if action = ''lighting.temperature''
                then bindE (act_number params ''kelvin'' (of_int KELVIN_MIN) (of_int KELVIN_MAX)) (\<lambda>k. Inr (rq\<lparr>rq_kelvin := Some k\<rparr>))
                else Inl (ActionError ''Unknown action'' 400))
           (\<lambda>rq1. bindE (act_target params) (\<lambda>target. Inr (rq1\<lparr>rq_id := target\<rparr>))))"

definition console_act ::
    "'t transport \<Rightarrow> rat \<Rightarrow> bool list \<Rightarrow> string \<Rightarrow> (string \<times> json) list \<Rightarrow> 't bus \<Rightarrow> string list result \<times> 't bus" where
  "console_act tp now waits action params ctl =
     (case console_request action params of
        Inl e \<Rightarrow> (Inl e, ctl)
      | Inr rq \<Rightarrow>
          (case write_all tp now waits rq ctl of
             (Inl e, ctl1) \<Rightarrow> (Inl e, ctl1)
           | (Inr (failures, _), ctl1) \<Rightarrow> (Inr failures, ctl1)))"

section \<open>What the automation relies on\<close>

text \<open>
  The promises of the lights to their automation: \<open>inv\<close> is what every write keeps and \<open>lit\<close> says that
  a light answers and shines. A write to switch a light off that is not refused because the light changed
  leaves it dark or gone, nothing but a write to switch on lights it, and a write raises an
  \<open>ActionError\<close> only, or \<open>Superseded\<close> when it carries an expectation.
\<close>

locale automated_lights =
  fixes api :: "request \<Rightarrow> 'w \<Rightarrow> applied option result \<times> 'w"
    and inv :: "'w \<Rightarrow> bool"
    and lit :: "'w \<Rightarrow> string \<Rightarrow> bool"
  assumes api_inv: "inv w \<Longrightarrow> rq_id rq \<noteq> ''all'' \<Longrightarrow> api rq w = (r, w') \<Longrightarrow> inv w'"
    and api_off: "inv w \<Longrightarrow> rq_id rq \<noteq> ''all'' \<Longrightarrow> rq_power rq = Some False \<Longrightarrow> api rq w = (r, w') \<Longrightarrow>
      r = Inl Superseded \<or> \<not> lit w' (rq_id rq)"
    and api_dark: "inv w \<Longrightarrow> rq_id rq \<noteq> ''all'' \<Longrightarrow> api rq w = (r, w') \<Longrightarrow> \<not> lit w i \<Longrightarrow>
      rq_power rq \<noteq> Some True \<or> i \<noteq> rq_id rq \<Longrightarrow> \<not> lit w' i"
    and api_raises: "inv w \<Longrightarrow> rq_id rq \<noteq> ''all'' \<Longrightarrow> api rq w = (Inl e, w') \<Longrightarrow>
      (\<exists>m n. e = ActionError m n) \<or> (e = Superseded \<and> rq_expect rq \<noteq> None)"

section \<open>The simulated light behind the bus\<close>

lemma build_report_Inr:
  "build_report m command payload = Inr r \<Longrightarrow> length payload \<le> 16 \<and> (\<forall>b\<in>set payload. 0 \<le> b \<and> b \<le> 255)"
  by (auto simp: build_report_def REPORT_LENGTH_def list_ex_iff not_less split: if_splits)

lemma sim_limit_updates [simp]:
  "sim_limit (s\<lparr>si_on := a\<rparr>) = sim_limit s" "sim_limit (s\<lparr>si_lumen := b\<rparr>) = sim_limit s"
  "sim_limit (s\<lparr>si_kelvin := c\<rparr>) = sim_limit s" "sim_limit (s\<lparr>si_writes := d\<rparr>) = sim_limit s"
  "sim_limit (s\<lparr>si_inbox := e\<rparr>) = sim_limit s"
  by (simp_all add: sim_limit_def cong: option.case_cong)

lemma sim_answer_keeps: "sim_answer s command payload = Inr s' \<Longrightarrow> sim_ok m s' = sim_ok m s \<and> si_on s' = si_on s"
  by (auto simp: sim_answer_def sim_ok_def)

lemma sim_write_keeps:
  assumes ok: "sim_ok m s" and b: "build_report m command payload = Inr r" and "command < 256"
    and w: "sim_write s r = Inr s'"
  shows "sim_ok m s' \<and> (command \<noteq> CMD_SET_POWER \<longrightarrow> si_on s' = si_on s)"
proof -
  have m: "m \<in> ran MODELS" "si_model s = m" "\<not> si_closed s" using ok by (simp_all add: sim_ok_def)
  note range = models_ok [OF m(1)]
  have shape: "length r = REPORT_LENGTH" "unat (r ! 0) = REPORT_ID" "unat (r ! 1) = DEVICE_BYTE"
      "unat (r ! 2) = lm_feature m" "unat (r ! 3) = command"
    using sim_write_report(1-5) [OF m assms(3) _ _ b] build_report_Inr [OF b] by blast+
  let ?s1 = "s\<lparr>si_writes := si_writes s @ [r]\<rparr>"
  have ok1: "sim_ok m ?s1" using ok by (simp add: sim_ok_def)
  let ?word = "push_bit 8 (int (unat (r ! 4))) OR int (unat (r ! 5))"
  have lim: "(case si_ceiling ?s1 of None \<Rightarrow> lm_lumen_max (si_model ?s1) | Some c \<Rightarrow> min (lm_lumen_max (si_model ?s1)) c) = sim_limit s"
    by (simp add: sim_limit_def cong: option.case_cong)
  have l: "0 \<le> sim_limit s" "sim_limit s < 65536"
    using ok range m by (simp add: sim_ok_def) (use range m in \<open>auto simp: sim_limit_def split: option.split\<close>)
  have cases: "sim_write s r =
     (if command = CMD_SET_POWER then Inr (?s1\<lparr>si_on := unat (r ! 4) = 1\<rparr>)
      else if command = CMD_SET_BRIGHTNESS then Inr (?s1\<lparr>si_lumen := min (sim_limit s) (max (lm_lumen_min m) ?word)\<rparr>)
      else if command = CMD_SET_TEMPERATURE then Inr (?s1\<lparr>si_kelvin := clamp_kelvin (of_int ?word)\<rparr>)
      else if command = CMD_GET_POWER then sim_answer ?s1 command [if si_on ?s1 then 1 else 0, 0]
      else if command = CMD_GET_BRIGHTNESS then sim_answer ?s1 command [drop_bit 8 (si_lumen ?s1), si_lumen ?s1 AND 0xFF]
      else if command = CMD_GET_TEMPERATURE then sim_answer ?s1 command [drop_bit 8 (si_kelvin ?s1), si_kelvin ?s1 AND 0xFF]
      else Inr ?s1)"
    unfolding sim_write_def Let_def shape lim using m by simp
  define lum where "lum = min (sim_limit s) (max (lm_lumen_min m) ?word)"
  have lum: "0 \<le> lum" "lum < 65536" using l range by (auto simp: lum_def)
  define kel where "kel = clamp_kelvin (of_int ?word)"
  have kel: "0 \<le> kel" "kel < 65536"
    using clamp_kelvin_supported [of "of_int ?word"] by (simp_all add: kel_def supported_kelvin_def)
  from w [unfolded cases, folded lum_def kel_def] show ?thesis
    using ok lum kel sim_answer_keeps [of ?s1 _ _ s' m] ok1
    by (auto simp: sim_ok_def split: if_splits)
qed

text \<open>What every operation over the transport keeps of the simulated light.\<close>

definition keeps :: "light_model \<Rightarrow> simulated \<Rightarrow> simulated \<Rightarrow> bool" where
  "keeps m s s' \<longleftrightarrow> sim_ok m s \<longrightarrow> sim_ok m s' \<and> si_on s' = si_on s"

lemma keeps_refl [simp]: "keeps m s s" by (simp add: keeps_def)
lemma keeps_trans: "keeps m s s1 \<Longrightarrow> keeps m s1 s2 \<Longrightarrow> keeps m s s2" by (simp add: keeps_def)

lemma sim_ops [simp]: "tp_write sim_transport = sim_write" "tp_read sim_transport = sim_read" "tp_drain sim_transport = sim_drain"
  by (simp_all add: sim_transport_def)

lemma sim_read_keeps: "sim_read s = (r, s') \<Longrightarrow> keeps m s s'"
  by (auto simp: sim_read_def keeps_def sim_ok_def split: list.splits)

lemma report_keeps:
  "build_report m command payload = Inr r \<Longrightarrow> command < 256 \<Longrightarrow> command \<noteq> CMD_SET_POWER \<Longrightarrow> sim_write s r = Inr s' \<Longrightarrow>
    keeps m s s'"
  unfolding keeps_def by (blast dest: sim_write_keeps)

lemma ask_loop_keeps: "ask_loop sim_transport m command waits s = (v, s') \<Longrightarrow> keeps m s s'"
proof (induction waits arbitrary: s)
  case (Cons left waits)
  obtain r s1 where r: "sim_read s = (r, s1)" by (rule prod.exhaust)
  have s1: "keeps m s s1" using r by (rule sim_read_keeps)
  have "s' = s \<or> s' = s1 \<or> ask_loop sim_transport m command waits s1 = (v, s')"
    using Cons.prems r by (auto split: if_splits option.splits)
  then show ?case using s1 Cons.IH keeps_trans by (metis keeps_refl)
qed simp

lemma ask_keeps:
  assumes "ask sim_transport m command waits s = Inr (v, s')" and "command < 256" and "command \<noteq> CMD_SET_POWER"
  shows "keeps m s s'"
proof -
  obtain r s1 where r: "build_report m command [] = Inr r" "sim_write (sim_drain s) r = Inr s1"
      "ask_loop sim_transport m command waits s1 = (v, s')"
    using assms(1) by (auto simp: ask_def)
  have "keeps m s (sim_drain s)" by (simp add: keeps_def sim_drain_def sim_ok_def)
  moreover have "keeps m (sim_drain s) s1" using r(1) assms(2,3) r(2) by (rule report_keeps)
  ultimately show ?thesis using ask_loop_keeps [OF r(3)] by (blast intro: keeps_trans)
qed

lemma reads_keep:
  "read_power sim_transport m waits s = Inr (p, s') \<Longrightarrow> keeps m s s'"
  "read_lumen sim_transport m waits s = Inr (l, s') \<Longrightarrow> keeps m s s'"
  "read_kelvin sim_transport m waits s = Inr (k, s') \<Longrightarrow> keeps m s s'"
  by (auto simp: read_power_def read_lumen_def read_kelvin_def commands dest!: ask_keeps)

lemma sets_keep:
  "set_lumen sim_transport m v s = Inr (l, s') \<Longrightarrow> keeps m s s'"
  "set_kelvin sim_transport m v s = Inr (k, s') \<Longrightarrow> keeps m s s'"
  by (auto simp: set_lumen_def set_kelvin_def report_brightness_def report_temperature_def Let_def commands
      dest!: report_keeps)

lemma power_set: "sim_ok m s \<Longrightarrow> set_power sim_transport m on s = Inr s' \<Longrightarrow> sim_ok m s' \<and> si_on s' = on"
  using sim.takes_power [of m s on] by (auto simp: set_power_def)

lemma verify_keeps:
  assumes "verify_applied sim_transport m waits asked s = Inr (a, s')"
  shows "keeps m s s'"
proof -
  obtain pwr lumen kelvin where asked: "asked = (pwr, lumen, kelvin)" by (cases asked)
  obtain l s1 k where
    l: "(case lumen of None \<Rightarrow> Inr (None, s) | Some _ \<Rightarrow>
      bindE (read_lumen sim_transport m waits s) (\<lambda>(shown, t1). Inr (or_else shown lumen, t1))) = Inr (l, s1)"
    and k: "(case kelvin of None \<Rightarrow> Inr (None, s1) | Some _ \<Rightarrow>
      bindE (read_kelvin sim_transport m waits s1) (\<lambda>(shown, t2). Inr (or_else shown kelvin, t2))) = Inr (k, s')"
    using assms by (auto simp: verify_applied_def asked)
  have "keeps m s s1" using l by (cases lumen) (auto dest: reads_keep)
  moreover have "keeps m s1 s'" using k by (cases kelvin) (auto dest: reads_keep)
  ultimately show ?thesis by (rule keeps_trans)
qed

definition slot_ok :: "simulated slot \<Rightarrow> bool" where
  "slot_ok sl \<longleftrightarrow> (case sl_device sl of None \<Rightarrow> True | Some t \<Rightarrow> sim_ok (sl_model sl) t)"

definition slot_lit :: "simulated slot \<Rightarrow> bool" where
  "slot_lit sl \<longleftrightarrow> (case sl_device sl of None \<Rightarrow> False | Some t \<Rightarrow> si_on t)"

lemma slot_write_effect:
  assumes ok: "slot_ok sl" and w: "slot_write sim_transport now waits rq sl = Inr (a, sl')"
  shows "slot_ok sl' \<and> sl_model sl' = sl_model sl \<and>
    slot_lit sl' = (case rq_power rq of None \<Rightarrow> slot_lit sl | Some on \<Rightarrow> on)"
proof -
  let ?m = "sl_model sl"
  obtain t where t: "sl_device sl = Some t" using w by (cases "sl_device sl") (simp_all add: slot_write_def)
  obtain kelv t1 lumen t2 t3 p1 l1 k1 t4 where
    k: "(case rq_kelvin rq of None \<Rightarrow> Inr (None, t)
      | Some k \<Rightarrow> bindE (set_kelvin sim_transport ?m (py_round k) t) (\<lambda>(kelv, t1). Inr (Some kelv, t1))) = Inr (kelv, t1)"
    and l: "(case rq_percent rq of None \<Rightarrow> Inr (None, t1)
      | Some p \<Rightarrow> bindE (set_lumen sim_transport ?m (percent_to_lumen ?m p) t1) (\<lambda>(lumen, t2). Inr (Some lumen, t2))) = Inr (lumen, t2)"
    and p: "(case rq_power rq of None \<Rightarrow> Inr t2 | Some on \<Rightarrow> set_power sim_transport ?m on t2) = Inr t3"
    and r: "(if rq_verify rq then verify_applied sim_transport ?m waits (rq_power rq, lumen, kelv) t3
        else Inr ((rq_power rq, lumen, kelv), t3)) = Inr ((p1, l1, k1), t4)"
    and sl': "sl' = sl\<lparr>sl_device := Some t4, sl_last_write := Some now, sl_kelvin := or_else k1 (sl_kelvin sl),
        sl_lumen := or_else l1 (sl_lumen sl), sl_power := or_else p1 (sl_power sl)\<rparr>"
    using w unfolding slot_write_def Let_def t option.case bindE_eq_Inr
    by (elim exE conjE) clarsimp
  have "keeps ?m t t1" using k by (auto split: option.splits dest: sets_keep)
  moreover have "keeps ?m t1 t2" using l by (auto split: option.splits dest: sets_keep)
  ultimately have t2: "sim_ok ?m t2 \<and> si_on t2 = si_on t" using ok t by (auto simp: keeps_def slot_ok_def)
  then have t3: "sim_ok ?m t3 \<and> si_on t3 = (case rq_power rq of None \<Rightarrow> si_on t | Some on \<Rightarrow> on)"
    using p by (auto split: option.splits dest: power_set)
  have "keeps ?m t3 t4" using r by (auto split: if_splits dest: verify_keeps)
  then show ?thesis using t3 t by (auto simp: keeps_def slot_ok_def slot_lit_def sl' split: option.splits)
qed

definition control_ok :: "simulated bus \<Rightarrow> bool" where
  "control_ok ctl \<longleftrightarrow> list_all (\<lambda>(_, sl). slot_ok sl) ctl"

definition control_lit :: "simulated bus \<Rightarrow> string \<Rightarrow> bool" where
  "control_lit ctl i \<longleftrightarrow> (case map_of ctl i of None \<Rightarrow> False | Some sl \<Rightarrow> slot_lit sl)"

lemma control_slot: "control_ok ctl \<Longrightarrow> map_of ctl i = Some sl \<Longrightarrow> slot_ok sl"
  by (auto simp: control_ok_def list_all_iff dest: map_of_SomeD)

lemma control_update: "control_ok ctl \<Longrightarrow> slot_ok sl \<Longrightarrow> control_ok (AList.update i sl ctl)"
  unfolding control_ok_def by (induction ctl) auto

lemma lit_update: "control_lit (AList.update i sl ctl) j = (if j = i then slot_lit sl else control_lit ctl j)"
  by (simp add: control_lit_def update_conv')

lemma failed_slot [simp]: "slot_ok (fail_slot e sl)" "\<not> slot_lit (fail_slot e sl)"
  by (simp_all add: fail_slot_def slot_ok_def slot_lit_def)

text \<open>One light, as the automation writes it.\<close>

definition control_api :: "'t transport \<Rightarrow> rat \<Rightarrow> bool list \<Rightarrow> request \<Rightarrow> 't bus \<Rightarrow> applied option result \<times> 't bus" where
  "control_api tp now waits rq ctl =
     (case control_write tp now waits rq ctl of (Inl e, w) \<Rightarrow> (Inl e, w) | (Inr a, w) \<Rightarrow> (Inr (Some a), w))"

lemma control_api_cases:
  assumes "rq_id rq \<noteq> ''all''" and "control_api tp now waits rq ctl = (r, ctl')"
  obtains (refused) "ctl' = ctl" "\<And>sl. map_of ctl (rq_id rq) = Some sl \<Longrightarrow> sl_device sl = None" "\<exists>m n. r = Inl (ActionError m n)"
  | (superseded) sl expect where "ctl' = ctl" "r = Inl Superseded" "map_of ctl (rq_id rq) = Some sl"
      "rq_expect rq = Some expect" "changed expect sl"
  | (failed) sl m where "map_of ctl (rq_id rq) = Some sl" "ctl' = AList.update (rq_id rq) (fail_slot m sl) ctl"
      "\<exists>m n. r = Inl (ActionError m n)"
  | (broken) sl e where "map_of ctl (rq_id rq) = Some sl" "ctl' = ctl" "slot_write tp now waits rq sl = Inl e"
      "r = Inl e" "\<nexists>m. e = LightingError m"
  | (written) sl a sl' where "map_of ctl (rq_id rq) = Some sl" "slot_write tp now waits rq sl = Inr (a, sl')"
      "ctl' = AList.update (rq_id rq) sl' ctl" "r = Inr (Some a)"
      "\<And>expect. rq_expect rq = Some expect \<Longrightarrow> \<not> changed expect sl"
proof (cases "map_of ctl (rq_id rq)")
  case None
  then show thesis using assms by (intro refused) (auto simp: control_api_def control_write_def write_all_def targets_def)
next
  case (Some sl)
  show thesis
  proof (cases "sl_device sl")
    case None
    then show thesis using assms Some
      by (intro refused) (auto simp: control_api_def control_write_def write_all_def targets_def)
  next
    case (Some t)
    note sl = \<open>map_of ctl (rq_id rq) = Some sl\<close>
    have target: "targets (rq_id rq) ctl = Inr [rq_id rq]" using assms(1) Some sl by (simp add: targets_def)
    note api = assms(2) [unfolded control_api_def control_write_def write_all_def target sum.case]
    show thesis
    proof (cases "\<exists>expect. rq_expect rq = Some expect \<and> changed expect sl")
      case True
      then show thesis using api sl by (auto intro: superseded)
    next
      case False
      then have same: "\<not> (case rq_expect rq of None \<Rightarrow> False | Some expect \<Rightarrow> changed expect sl)"
        by (simp split: option.split)
      show thesis
      proof (cases "slot_write tp now waits rq sl")
        case (Inl e)
        show thesis
        proof (cases "\<exists>m. e = LightingError m")
          case True
          then obtain m where "slot_write tp now waits rq sl = Inl (LightingError m)" using Inl by blast
          then show thesis using api sl same by (intro failed [of sl m]) auto
        next
          case no: False
          then show thesis using api sl same Inl by (cases e) (auto intro!: broken)
        qed
      next
        case (Inr p)
        obtain a sl' where p: "p = (a, sl')" by (rule prod.exhaust)
        show thesis
        proof (rule written [of sl a sl'])
          show "map_of ctl (rq_id rq) = Some sl" by (rule sl)
          show "slot_write tp now waits rq sl = Inr (a, sl')" using Inr p by simp
          show "ctl' = AList.update (rq_id rq) sl' ctl" "r = Inr (Some a)" using api sl same Inr p by auto
        qed (use False in blast)
      qed
    qed
  qed
qed

text \<open>A write to a simulated light that is connected does not fail.\<close>

lemma reads_total:
  assumes "sim_ok m s"
  shows "\<exists>v s'. read_lumen sim_transport m waits s = Inr (v, s')" and "\<exists>v s'. read_kelvin sim_transport m waits s = Inr (v, s')"
proof -
  have "\<exists>x. ask sim_transport m command waits s = Inr x" if "command \<in> {CMD_GET_POWER, CMD_GET_BRIGHTNESS, CMD_GET_TEMPERATURE}" for command
  proof -
    obtain r where r: "build_report m command [] = Inr r" by (simp add: build_report_ok)
    obtain a b :: int where "(a, b) = (if command = CMD_GET_POWER then (if si_on s then 1 else 0, 0)
      else if command = CMD_GET_BRIGHTNESS then (drop_bit 8 (si_lumen s), si_lumen s AND 0xFF)
      else (drop_bit 8 (si_kelvin s), si_kelvin s AND 0xFF))" by (metis old.prod.exhaust)
    from sim_gets [OF assms that r this] show ?thesis by (auto simp: ask_def r)
  qed
  then show "\<exists>v s'. read_lumen sim_transport m waits s = Inr (v, s')" "\<exists>v s'. read_kelvin sim_transport m waits s = Inr (v, s')"
    unfolding read_lumen_def read_kelvin_def by (fastforce simp: split_beta)+
qed

lemma sets_total:
  assumes "sim_ok m s"
  shows "\<exists>s'. set_power sim_transport m on s = Inr s'" and "\<exists>l s'. set_lumen sim_transport m v s = Inr (l, s')"
    and "\<exists>k s'. set_kelvin sim_transport m v s = Inr (k, s')"
  using sim.power_set_read [OF assms] sim.lumen_set_read [OF assms] sim.kelvin_set_read [OF assms] by blast+

lemma verify_total:
  assumes "sim_ok m s"
  shows "\<exists>a s'. verify_applied sim_transport m waits asked s = Inr (a, s')"
proof -
  obtain pwr lumen kelvin where asked: "asked = (pwr, lumen, kelvin)" by (cases asked)
  obtain l s1 where l: "(case lumen of None \<Rightarrow> Inr (None, s) | Some _ \<Rightarrow>
      bindE (read_lumen sim_transport m waits s) (\<lambda>(shown, t1). Inr (or_else shown lumen, t1))) = Inr (l, s1)"
    using reads_total(1) [OF assms, of waits] by (cases lumen) auto
  have "keeps m s s1" using l by (cases lumen) (auto dest: reads_keep)
  then have "sim_ok m s1" using assms by (simp add: keeps_def)
  then obtain k s2 where "(case kelvin of None \<Rightarrow> Inr (None, s1) | Some _ \<Rightarrow>
      bindE (read_kelvin sim_transport m waits s1) (\<lambda>(shown, t2). Inr (or_else shown kelvin, t2))) = Inr (k, s2)"
    using reads_total(2) [of m s1 waits] by (cases kelvin) auto
  with l show ?thesis by (auto simp: verify_applied_def asked)
qed

lemma slot_write_raises:
  assumes ok: "slot_ok sl" and w: "slot_write sim_transport now waits rq sl = Inl e"
  shows "\<exists>m. e = LightingError m"
proof (cases "sl_device sl")
  case None
  then show ?thesis using w by (auto simp: slot_write_def)
next
  case (Some t)
  let ?m = "sl_model sl"
  have t: "sim_ok ?m t" using ok Some by (simp add: slot_ok_def)
  obtain kelv t1 where k: "(case rq_kelvin rq of None \<Rightarrow> Inr (None, t)
      | Some k \<Rightarrow> bindE (set_kelvin sim_transport ?m (py_round k) t) (\<lambda>(kelv, t1). Inr (Some kelv, t1))) = Inr (kelv, t1)"
    using sets_total(3) [OF t] by (cases "rq_kelvin rq") fastforce+
  have "keeps ?m t t1" using k by (auto split: option.splits dest: sets_keep)
  then have t1: "sim_ok ?m t1" using t by (simp add: keeps_def)
  obtain lumen t2 where l: "(case rq_percent rq of None \<Rightarrow> Inr (None, t1)
      | Some p \<Rightarrow> bindE (set_lumen sim_transport ?m (percent_to_lumen ?m p) t1) (\<lambda>(lumen, t2). Inr (Some lumen, t2))) = Inr (lumen, t2)"
    using sets_total(2) [OF t1] by (cases "rq_percent rq") fastforce+
  have "keeps ?m t1 t2" using l by (auto split: option.splits dest: sets_keep)
  then have t2: "sim_ok ?m t2" using t1 by (simp add: keeps_def)
  obtain t3 where p: "(case rq_power rq of None \<Rightarrow> Inr t2 | Some on \<Rightarrow> set_power sim_transport ?m on t2) = Inr t3"
    using sets_total(1) [OF t2] by (cases "rq_power rq") auto
  then have t3: "sim_ok ?m t3" using t2 power_set by (auto split: option.splits)
  obtain a t4 where "(if rq_verify rq then verify_applied sim_transport ?m waits (rq_power rq, lumen, kelv) t3
        else Inr ((rq_power rq, lumen, kelv), t3)) = Inr (a, t4)"
    using verify_total [OF t3, of waits "(rq_power rq, lumen, kelv)"] by (cases "rq_verify rq") auto
  with w show ?thesis unfolding slot_write_def Let_def Some option.case k l p bindE_simps prod.case
    by (cases a) simp
qed

lemma control_written:
  assumes ok: "control_ok ctl" and i: "map_of ctl i = Some sl" and w: "slot_write sim_transport now waits rq sl = Inr (a, sl')"
  shows "control_ok (AList.update i sl' ctl)"
    and "control_lit (AList.update i sl' ctl) j =
      (if j = i then (case rq_power rq of None \<Rightarrow> control_lit ctl i | Some on \<Rightarrow> on) else control_lit ctl j)"
proof -
  note e = slot_write_effect [OF control_slot [OF ok i] w]
  show "control_ok (AList.update i sl' ctl)" using control_update [OF ok] e by blast
  have "control_lit ctl i = slot_lit sl" by (simp add: control_lit_def i)
  then show "control_lit (AList.update i sl' ctl) j =
      (if j = i then (case rq_power rq of None \<Rightarrow> control_lit ctl i | Some on \<Rightarrow> on) else control_lit ctl j)"
    using e by (cases "j = i") (simp_all add: lit_update split: option.split)
qed

interpretation control: automated_lights "control_api sim_transport now waits" control_ok control_lit for now waits
proof
  fix w w' :: "simulated bus" and rq r i
  assume ok: "control_ok w" and id: "rq_id rq \<noteq> ''all''" and w: "control_api sim_transport now waits rq w = (r, w')"
  show "control_ok w'"
    using id w by (cases rule: control_api_cases) (use ok in \<open>simp_all add: control_update control_written\<close>)
  show "r = Inl Superseded \<or> \<not> control_lit w' (rq_id rq)" if "rq_power rq = Some False"
    using id w
  proof (cases rule: control_api_cases)
    case refused
    then show ?thesis by (auto simp: control_lit_def slot_lit_def split: option.splits)
  next
    case (broken sl e)
    then show ?thesis using slot_write_raises [OF control_slot [OF ok]] by blast
  next
    case (written sl a sl')
    then show ?thesis using control_written(2) [OF ok written(1,2)] that by simp
  qed (simp_all add: lit_update)
  show "\<not> control_lit w' i" if "\<not> control_lit w i" "rq_power rq \<noteq> Some True \<or> i \<noteq> rq_id rq"
    using id w
  proof (cases rule: control_api_cases)
    case (written sl a sl')
    then show ?thesis using ok that by (auto simp: control_written split: option.split)
  qed (use that in \<open>simp_all add: lit_update\<close>)
  show "(\<exists>m n. e = ActionError m n) \<or> (e = Superseded \<and> rq_expect rq \<noteq> None)" if raised: "control_api sim_transport now waits rq w = (Inl e, w')" for e
    using id raised
  proof (cases rule: control_api_cases)
    case (broken sl e')
    then show ?thesis using slot_write_raises [OF control_slot [OF ok]] by blast
  qed auto
qed

section \<open>Property\<close>

text \<open>
  C9. A write that says what its caller believes is a compare-and-set: when the light shows something
  else it is refused with \<open>Superseded\<close> and nothing changes; when it succeeds the light showed what was
  believed, and what the write returns is from then on what the light is known to show; and no other
  light's slot is ever touched.
\<close>

theorem guarded_write:
  assumes "rq_id rq \<noteq> ''all''" and "map_of ctl (rq_id rq) = Some sl" and "sl_device sl \<noteq> None"
    and "rq_expect rq = Some expect" and "control_write tp now waits rq ctl = (r, ctl')"
  shows "(changed expect sl \<longrightarrow> r = Inl Superseded \<and> ctl' = ctl) \<and>
    (\<forall>pwr lumen kelvin. r = Inr (pwr, lumen, kelvin) \<longrightarrow> \<not> changed expect sl \<and>
      (\<exists>sl'. map_of ctl' (rq_id rq) = Some sl' \<and> sl_power sl' = or_else pwr (sl_power sl) \<and>
        sl_lumen sl' = or_else lumen (sl_lumen sl) \<and> sl_kelvin sl' = or_else kelvin (sl_kelvin sl))) \<and>
    (\<forall>i. i \<noteq> rq_id rq \<longrightarrow> map_of ctl' i = map_of ctl i)"
proof (intro conjI allI impI)
  let ?r = "case r of Inl e \<Rightarrow> Inl e | Inr a \<Rightarrow> Inr (Some a)"
  have api: "control_api tp now waits rq ctl = (?r, ctl')" by (simp add: control_api_def assms(5) split: sum.split)
  have target: "targets (rq_id rq) ctl = Inr [rq_id rq]" using assms(1-3) by (simp add: targets_def)
  show "r = Inl Superseded" "ctl' = ctl" if "changed expect sl"
    using assms(5) that assms(2,4) by (auto simp: control_write_def write_all_def target)
  have kept: "\<not> changed expect sl \<and> (\<exists>sl'. map_of ctl' (rq_id rq) = Some sl' \<and> sl_power sl' = or_else pwr (sl_power sl) \<and>
        sl_lumen sl' = or_else lumen (sl_lumen sl) \<and> sl_kelvin sl' = or_else kelvin (sl_kelvin sl))"
    if r: "r = Inr (pwr, lumen, kelvin)" for pwr lumen kelvin
    using assms(1) api
  proof (cases rule: control_api_cases)
    case (written sl1 a sl')
    have "sl1 = sl" "a = (pwr, lumen, kelvin)" using written(1,4) assms(2) r by simp_all
    then have "sl_power sl' = or_else pwr (sl_power sl) \<and> sl_lumen sl' = or_else lumen (sl_lumen sl) \<and>
        sl_kelvin sl' = or_else kelvin (sl_kelvin sl)"
      using written(2) by (auto simp: slot_write_def Let_def split: option.splits)
    then show ?thesis using written(3,5) assms(4) \<open>sl1 = sl\<close> by (simp add: update_conv')
  qed (use r in auto)
  show "\<not> changed expect sl" "\<exists>sl'. map_of ctl' (rq_id rq) = Some sl' \<and> sl_power sl' = or_else pwr (sl_power sl) \<and>
        sl_lumen sl' = or_else lumen (sl_lumen sl) \<and> sl_kelvin sl' = or_else kelvin (sl_kelvin sl)"
    if "r = Inr (pwr, lumen, kelvin)" for pwr lumen kelvin
    using kept [OF that] by blast+
  show "map_of ctl' i = map_of ctl i" if "i \<noteq> rq_id rq" for i
    using assms(1) api by (cases rule: control_api_cases) (use that in \<open>simp_all add: update_conv'\<close>)
qed

theorem guarded_write_witness:
  "let beam = \<lparr>lm_pid = 0xC901, lm_name = ''Litra Beam'', lm_lumen_min = 30, lm_lumen_max = 400, lm_feature = 4\<rparr>;
       shining = \<lparr>si_model = beam, si_on = True, si_lumen = 300, si_kelvin = 4500, si_ceiling = None, si_writes = [],
                  si_closed = False, si_inbox = []\<rparr>;
       sl = (new_slot beam)\<lparr>sl_device := Some shining, sl_power := Some True, sl_lumen := Some 300\<rparr>;
       rq = \<lparr>rq_id = ''c901-a'', rq_power = None, rq_percent = Some 60, rq_kelvin = None,
             rq_expect = Some (Some True, Some 215, None), rq_verify = True\<rparr>
   in control_write sim_transport 5 [True] rq [(''c901-a'', sl)] = (Inl Superseded, [(''c901-a'', sl)])"
proof -
  define beam where "beam = \<lparr>lm_pid = 0xC901, lm_name = ''Litra Beam'', lm_lumen_min = 30, lm_lumen_max = 400, lm_feature = 4\<rparr>"
  define shining where "shining = \<lparr>si_model = beam, si_on = True, si_lumen = 300, si_kelvin = 4500, si_ceiling = None,
    si_writes = [], si_closed = False, si_inbox = []\<rparr>"
  define sl where "sl = (new_slot beam)\<lparr>sl_device := Some shining, sl_power := Some True, sl_lumen := Some 300\<rparr>"
  define rq where "rq = \<lparr>rq_id = ''c901-a'', rq_power = None, rq_percent = Some (60 :: rat), rq_kelvin = None,
             rq_expect = Some (Some True, Some 215, None), rq_verify = True\<rparr>"
  obtain r ctl' where w: "control_write sim_transport 5 [True] rq [(''c901-a'', sl)] = (r, ctl')" by (rule prod.exhaust)
  have "changed (Some True, Some 215, None) sl" by (simp add: changed_def apart_def sl_def LUMEN_EPS_def)
  with guarded_write [OF _ _ _ _ w, of sl "(Some True, Some 215, None)"]
  have "r = Inl Superseded \<and> ctl' = [(''c901-a'', sl)]" by (simp add: rq_def sl_def)
  then show ?thesis using w unfolding Let_def beam_def [symmetric] shining_def [symmetric] sl_def [symmetric] rq_def [symmetric] by simp
qed

end
