(* ===== verification/LightLevel.thy ===== *)
theory LightLevel
  imports LightPlan
begin

text \<open>
  The schedule of \<open>lightplan.py\<close>: the light_level of the key light at a moment, and what each light makes of
  it. \<open>slot_of n\<close> is the slot of the sun \<open>n\<close> minutes from the moment asked for (\<open>daylight\<close>'s
  astronomy is a parameter). Numbers are exact; \<open>round(x, 1)\<close> is \<open>py_round1\<close>.
\<close>

definition BLEND_MINUTES :: int where "BLEND_MINUTES = 30"

text \<open>\<open>weights[slot] = weights.get(slot, 0) + 1\<close> over the samples.\<close>

fun count_slots :: "(string \<times> nat) list \<Rightarrow> string list \<Rightarrow> (string \<times> nat) list" where
  "count_slots weights [] = weights"
| "count_slots weights (slot # slots) =
     count_slots (AList.update slot ((case map_of weights slot of None \<Rightarrow> 0 | Some n \<Rightarrow> n) + 1) weights) slots"

definition weighted :: "(string \<times> light_level) list \<Rightarrow> (light_level \<Rightarrow> rat) \<Rightarrow> (string \<times> nat) list \<Rightarrow> rat result" where
  "weighted slots part weights =
     bindE (mapE (\<lambda>(s, n). case map_of slots s of None \<Rightarrow> Inl KeyError | Some l \<Rightarrow> Inr (part l * of_nat n)) weights)
       (\<lambda>terms. Inr (sum_list terms / of_nat (sum_list (map snd weights))))"

definition offsets :: "int list" where
  "offsets = map (\<lambda>k. 10 * k - BLEND_MINUTES) [0..6]"

definition sun_level :: "schedule \<Rightarrow> (int \<Rightarrow> string) \<Rightarrow> light_level result" where
  "sun_level sc slot_of =
     (let weights = count_slots [] (map slot_of offsets)
      in bindE (weighted (sc_slots sc) lv_brightness weights) (\<lambda>b.
         bindE (weighted (sc_slots sc) (\<lambda>l. of_int (lv_kelvin l)) weights) (\<lambda>k.
           Inr \<lparr>lv_brightness = py_round1 b, lv_kelvin = clamp_kelvin k\<rparr>)))"

definition clock_level :: "light_level list \<Rightarrow> int \<Rightarrow> int \<Rightarrow> rat \<Rightarrow> light_level result" where
  "clock_level hours hour minute second =
     (let position = (of_int (hour * 60 + minute) + second / 60 - 30) / 60;
          lower = \<lfloor>position\<rfloor>;
          fraction = position - of_int lower
      in if length hours < 24 then Inl IndexError
         else let a = hours ! nat (lower mod 24); b = hours ! nat ((lower + 1) mod 24)
              in Inr \<lparr>lv_brightness = py_round1 (lv_brightness a + (lv_brightness b - lv_brightness a) * fraction),
                      lv_kelvin = clamp_kelvin (of_int (lv_kelvin a) + of_int (lv_kelvin b - lv_kelvin a) * fraction)\<rparr>)"

text \<open>The moment asked for: its slots of the sun and its wall clock.\<close>

record moment =
  mo_slot_of :: "int \<Rightarrow> string"
  mo_hour :: int
  mo_minute :: int
  mo_second :: rat

definition level_at :: "plan \<Rightarrow> moment \<Rightarrow> light_level result" where
  "level_at data mo =
     (case sc_hours (pl_schedule data) of
        Some (h # hs) \<Rightarrow>
          if sc_mode (pl_schedule data) = ''clock''
          then clock_level (h # hs) (mo_hour mo) (mo_minute mo) (mo_second mo)
          else sun_level (pl_schedule data) (mo_slot_of mo)
      | _ \<Rightarrow> sun_level (pl_schedule data) (mo_slot_of mo))"

text \<open>\<open>slot_of n\<close> here counts from midnight of the day.\<close>

definition hours_from_sun :: "plan \<Rightarrow> (int \<Rightarrow> string) \<Rightarrow> light_level list result" where
  "hours_from_sun data slot_of =
     mapE (\<lambda>hour. bindE (sun_level (pl_schedule data) (\<lambda>n. slot_of (hour * 60 + 30 + n))) (\<lambda>l.
             Inr \<lparr>lv_brightness = of_int (py_round (lv_brightness l)), lv_kelvin = lv_kelvin l\<rparr>))
       [0..23]"

definition for_light :: "light_level \<Rightarrow> light \<Rightarrow> rat \<Rightarrow> (rat \<times> int) option" where
  "for_light target light fill_percent =
     (if li_role light = ''manual'' then None
      else let b0 = lv_brightness target * (if li_role light = ''fill'' then fill_percent / 100 else 1);
               b = min (of_int (li_max_brightness light)) (max (of_int (li_min_brightness light)) b0);
               k = min (li_max_kelvin light) (max (li_min_kelvin light) (lv_kelvin target))
           in Some (py_round1 (min 100 (max 1 b)), clamp_kelvin (of_int k)))"

definition fade_needed :: "light_model \<Rightarrow> int option \<Rightarrow> rat \<Rightarrow> int option \<Rightarrow> int \<Rightarrow> bool" where
  "fade_needed m lumen_now percent kelvin_now kelvin =
     (case (lumen_now, kelvin_now) of
        (Some l, Some k) \<Rightarrow>
          15 / 100 * rat_of_int (lm_lumen_max m - lm_lumen_min m) < of_int \<bar>percent_to_lumen m percent - l\<bar> \<or>
          600 \<le> \<bar>kelvin - k\<bar>
      | _ \<Rightarrow> False)"

section \<open>Ranges\<close>

lemma py_round1_bounds:
  assumes "of_int a \<le> x" and "x \<le> of_int b"
  shows "of_int a \<le> py_round1 x" and "py_round1 x \<le> of_int b"
proof -
  have "10 * a \<le> py_round (x * 10)" "py_round (x * 10) \<le> 10 * b"
    using assms by (intro py_round_bounds [of "10 * a" _ "10 * b"]; simp)+
  then have "rat_of_int (10 * a) \<le> of_int (py_round (x * 10))" "rat_of_int (py_round (x * 10)) \<le> of_int (10 * b)"
    by (simp_all only: of_int_le_iff)
  then show "of_int a \<le> py_round1 x" "py_round1 x \<le> of_int b" by (simp_all add: py_round1_def)
qed

definition level_in_range :: "light_level \<Rightarrow> bool" where
  "level_in_range l \<longleftrightarrow> 1 \<le> lv_brightness l \<and> lv_brightness l \<le> 100 \<and> supported_kelvin (lv_kelvin l)"

lemma between:
  fixes a b t :: rat
  assumes "1 \<le> a" "a \<le> 100" "1 \<le> b" "b \<le> 100" "0 \<le> t" "t \<le> 1"
  shows "1 \<le> a + (b - a) * t" and "a + (b - a) * t \<le> 100"
proof -
  have e: "a + (b - a) * t = a * (1 - t) + b * t" by (simp add: algebra_simps)
  have "1 * (1 - t) \<le> a * (1 - t)" "a * (1 - t) \<le> 100 * (1 - t)" "1 * t \<le> b * t" "b * t \<le> 100 * t"
    using assms by (intro mult_right_mono; simp)+
  then show "1 \<le> a + (b - a) * t" "a + (b - a) * t \<le> 100" unfolding e by simp_all
qed

lemma clock_level_range:
  assumes "wf_hours hours" and "clock_level hours h m s = Inr l"
  shows "level_in_range l"
proof -
  define position where "position = (of_int (h * 60 + m) + s / 60 - 30) / (60 :: rat)"
  let ?a = "hours ! nat (\<lfloor>position\<rfloor> mod 24)" and ?b = "hours ! nat ((\<lfloor>position\<rfloor> + 1) mod 24)"
  have len: "length hours = 24" and w: "list_all wf_level hours" using assms(1) by (simp_all add: wf_hours_def)
  have "0 \<le> \<lfloor>position\<rfloor> mod 24" "\<lfloor>position\<rfloor> mod 24 < 24" "0 \<le> (\<lfloor>position\<rfloor> + 1) mod 24" "(\<lfloor>position\<rfloor> + 1) mod 24 < 24"
    by simp_all
  then have "nat (\<lfloor>position\<rfloor> mod 24) < length hours" "nat ((\<lfloor>position\<rfloor> + 1) mod 24) < length hours"
    using len by linarith+
  then have ab: "wf_level ?a" "wf_level ?b" using w by (simp_all add: list_all_length)
  have f: "0 \<le> position - of_int \<lfloor>position\<rfloor>" "position - of_int \<lfloor>position\<rfloor> \<le> 1" by linarith+
  have "1 \<le> py_round1 (lv_brightness ?a + (lv_brightness ?b - lv_brightness ?a) * (position - of_int \<lfloor>position\<rfloor>))"
    "py_round1 (lv_brightness ?a + (lv_brightness ?b - lv_brightness ?a) * (position - of_int \<lfloor>position\<rfloor>)) \<le> 100"
    using ab f between [of "lv_brightness ?a" "lv_brightness ?b" "position - of_int \<lfloor>position\<rfloor>"] py_round1_bounds [of 1 _ 100]
    by (simp_all add: wf_level_def)
  moreover have "\<not> length hours < 24" using len by simp
  from assms(2) [unfolded clock_level_def Let_def position_def [symmetric] if_not_P [OF this]]
  have "lv_brightness l = py_round1 (lv_brightness ?a + (lv_brightness ?b - lv_brightness ?a) * (position - of_int \<lfloor>position\<rfloor>))"
    and "supported_kelvin (lv_kelvin l)"
    by (auto simp only: sum.inject light_level.simps clamp_kelvin_supported)
  ultimately show ?thesis by (simp add: level_in_range_def)
qed

lemma count_slots_total:
  "sum_list (map snd (count_slots w ss)) = sum_list (map snd w) + length ss"
proof (induction ss arbitrary: w)
  case (Cons s ss)
  have "sum_list (map snd (AList.update s ((case map_of w s of None \<Rightarrow> 0 | Some n \<Rightarrow> n) + 1) w)) = sum_list (map snd w) + 1"
    by (induction w) (auto split: option.splits)
  then show ?case by (simp add: Cons.IH del: AList.update.simps)
qed simp

lemma weighted_range:
  assumes "weighted slots part weights = Inr x" and "0 < sum_list (map snd weights)"
    and "\<And>s l. map_of slots s = Some l \<Longrightarrow> 1 \<le> part l \<and> part l \<le> 100"
  shows "1 \<le> x \<and> x \<le> 100"
proof -
  obtain terms where t: "mapE (\<lambda>(s, n). case map_of slots s of None \<Rightarrow> Inl KeyError | Some l \<Rightarrow> Inr (part l * of_nat n)) weights = Inr terms"
    and x: "x = sum_list terms / of_nat (sum_list (map snd weights))"
    using assms(1) by (auto simp: weighted_def)
  have "of_nat (sum_list (map snd weights)) \<le> sum_list terms \<and> sum_list terms \<le> 100 * of_nat (sum_list (map snd weights))"
    using t
  proof (induction weights arbitrary: terms)
    case (Cons w weights)
    obtain s n where w: "w = (s, n)" by (rule prod.exhaust)
    obtain l ts where l: "map_of slots s = Some l" and terms: "terms = part l * of_nat n # ts"
      and ts: "mapE (\<lambda>(s, n). case map_of slots s of None \<Rightarrow> Inl KeyError | Some l \<Rightarrow> Inr (part l * of_nat n)) weights = Inr ts"
      using Cons.prems w by (auto split: option.splits)
    have "1 * of_nat n \<le> part l * of_nat n" "part l * of_nat n \<le> 100 * of_nat n"
      using assms(3) [OF l] by (intro mult_right_mono; simp)+
    with Cons.IH [OF ts] show ?case by (simp add: w terms distrib_left)
  qed simp
  then show ?thesis using assms(2) by (simp add: x field_simps)
qed

lemma sun_level_range:
  assumes "wf_schedule sc" and "sun_level sc slot_of = Inr l"
  shows "level_in_range l"
proof -
  let ?w = "count_slots [] (map slot_of offsets)"
  obtain b k where b: "weighted (sc_slots sc) lv_brightness ?w = Inr b"
    and l: "l = \<lparr>lv_brightness = py_round1 b, lv_kelvin = clamp_kelvin k\<rparr>"
    using assms(2) by (auto simp: sun_level_def Let_def)
  have "0 < sum_list (map snd ?w)" unfolding count_slots_total by (simp add: offsets_def)
  moreover have "1 \<le> lv_brightness l \<and> lv_brightness l \<le> 100" if "map_of (sc_slots sc) s = Some l" for s l
    using assms(1) map_of_SomeD [OF that] by (auto simp: wf_schedule_def list_all_iff wf_level_def)
  ultimately have "1 \<le> b \<and> b \<le> 100" by (rule weighted_range [OF b])
  then show ?thesis using py_round1_bounds [of 1 b 100] by (simp add: l level_in_range_def clamp_kelvin_supported)
qed

lemma level_at_range:
  assumes "wf_plan data" and "level_at data mo = Inr l"
  shows "level_in_range l"
proof -
  have sc: "wf_schedule (pl_schedule data)" using assms(1) by (simp add: wf_plan_def)
  then show ?thesis using assms(2) sun_level_range [OF sc] clock_level_range
    by (auto simp: level_at_def wf_schedule_def split: option.splits list.splits if_splits)
qed

text \<open>With the five slots the sun has, there is always a level.\<close>

lemma count_slots_keys: "fst ` set (count_slots w ss) = fst ` set w \<union> set ss"
  by (induction ss arbitrary: w) (auto simp: dom_update)

lemma weighted_total:
  assumes "\<And>s n. (s, n) \<in> set weights \<Longrightarrow> map_of slots s \<noteq> None"
  shows "\<exists>x. weighted slots part weights = Inr x"
proof -
  have "\<exists>ts. mapE (\<lambda>(s, n). case map_of slots s of None \<Rightarrow> Inl KeyError | Some l \<Rightarrow> Inr (part l * rat_of_nat n)) weights = Inr ts"
    using assms by (induction weights) fastforce+
  then show ?thesis by (auto simp: weighted_def)
qed

lemma sun_level_total:
  assumes "wf_schedule sc" and "\<And>n. slot_of n \<in> set SLOT_ORDER"
  shows "\<exists>l. sun_level sc slot_of = Inr l"
proof -
  have "map_of (sc_slots sc) s \<noteq> None" if "(s, n) \<in> set (count_slots [] (map slot_of offsets))" for s n
  proof -
    have "s \<in> fst ` set (count_slots [] (map slot_of offsets))" using that by force
    then have "s \<in> set SLOT_ORDER" using assms(2) unfolding count_slots_keys by auto
    then show ?thesis using assms(1) by (simp add: wf_schedule_def map_of_eq_None_iff flip: set_map)
  qed
  then have "\<exists>x. weighted (sc_slots sc) part (count_slots [] (map slot_of offsets)) = Inr x" for part
    by (rule weighted_total)
  from this [of lv_brightness] this [of "\<lambda>l. of_int (lv_kelvin l)"] show ?thesis
    by (auto simp: sun_level_def Let_def)
qed

lemma level_at_total:
  assumes "wf_plan data" and "\<And>n. mo_slot_of mo n \<in> set SLOT_ORDER"
  shows "\<exists>l. level_at data mo = Inr l"
proof -
  have sc: "wf_schedule (pl_schedule data)" using assms(1) by (simp add: wf_plan_def)
  then show ?thesis using sun_level_total [OF sc assms(2)]
    by (auto simp: level_at_def wf_schedule_def wf_hours_def clock_level_def Let_def split: option.splits list.splits)
qed

text \<open>A table sampled from the sun is a table the settings accept.\<close>

lemma hours_from_sun_wf:
  assumes "wf_plan data" and "hours_from_sun data slot_of = Inr hs"
  shows "wf_hours hs"
proof -
  have sc: "wf_schedule (pl_schedule data)" using assms(1) by (simp add: wf_plan_def)
  have "wf_level \<lparr>lv_brightness = of_int (py_round (lv_brightness l)), lv_kelvin = lv_kelvin l\<rparr>" if "level_in_range l" for l
    using that py_round_bounds [of 1 "lv_brightness l" 100] by (simp add: wf_level_def level_in_range_def)
  then have "list_all wf_level hs \<and> length hs = length [0..23 :: int]"
    using assms(2) unfolding hours_from_sun_def
    by (intro mapE_all [where P = wf_level]) (use sun_level_range [OF sc] in auto)
  then show ?thesis by (simp add: wf_hours_def)
qed

lemma for_light_clamped:
  assumes "wf_light light" and "for_light target light fill = Some (b, k)"
  shows "of_int (li_min_brightness light) \<le> b \<and> b \<le> of_int (li_max_brightness light) \<and>
    li_min_kelvin light \<le> k \<and> k \<le> li_max_kelvin light \<and> supported_kelvin k \<and> li_role light \<noteq> ''manual''"
proof -
  let ?lo = "li_min_brightness light" and ?hi = "li_max_brightness light"
  have w: "1 \<le> ?lo" "?lo \<le> ?hi" "?hi \<le> 100" "li_min_kelvin light \<le> li_max_kelvin light"
      "supported_kelvin (li_min_kelvin light)" "supported_kelvin (li_max_kelvin light)"
    using assms(1) by (auto simp: wf_light_def wf_fields_def)
  let ?b0 = "lv_brightness target * (if li_role light = ''fill'' then fill / 100 else 1)"
  let ?b = "min (of_int ?hi) (max (of_int ?lo) ?b0)"
  let ?k = "min (li_max_kelvin light) (max (li_min_kelvin light) (lv_kelvin target))"
  have role: "li_role light \<noteq> ''manual''" and b: "b = py_round1 (min 100 (max 1 ?b))" and k: "k = clamp_kelvin (of_int ?k)"
    using assms(2) by (auto simp: for_light_def Let_def split: if_splits)
  have "rat_of_int 1 \<le> of_int ?lo" "rat_of_int ?lo \<le> of_int ?hi" "rat_of_int ?hi \<le> of_int 100"
    using w(1-3) by (simp_all only: of_int_le_iff)
  then have c: "of_int ?lo \<le> ?b" "?b \<le> of_int ?hi" and "min 100 (max 1 ?b) = ?b" by auto
  then have "b = py_round1 ?b" by (simp only: b)
  then have bb: "of_int ?lo \<le> b" "b \<le> of_int ?hi" using py_round1_bounds [OF c] by simp_all
  have "clamp_kelvin (of_int (li_min_kelvin light)) \<le> k" "k \<le> clamp_kelvin (of_int (li_max_kelvin light))"
    unfolding k using w(4) by (intro clamp_kelvin_mono; simp)+
  then show ?thesis
    using bb role w clamp_kelvin_noop by (simp add: k clamp_kelvin_supported)
qed

lemma light_settings_wf:
  assumes "wf_plan data"
  shows "wf_light (light_settings data light_id)"
proof (cases "map_of (pl_lights data) light_id")
  case None
  then have "light_settings data light_id = LIGHT_DEFAULTS"
    by (simp add: light_settings_def stored_light_def default_light)
  then show ?thesis using default_light(2) by (simp add: wf_light_def LIGHT_DEFAULTS_def KELVIN_MIN_def KELVIN_MAX_def)
next
  case (Some k)
  then show ?thesis using assms map_of_SomeD [OF Some]
    by (auto simp: light_settings_def stored_light_def wf_plan_def wf_lights_def list_all_iff wf_kept_def)
qed

text \<open>
  From whatever settings file was read, at every moment of every day, the schedule has a level in the
  lights' range, and what a light is told stays between the light's own limits, at a temperature the
  light knows; only a light whose role is manual is told nothing.
\<close>

theorem schedule_respects_limits:
  assumes "normalise raw = Inr data" and "\<And>n. mo_slot_of mo n \<in> set SLOT_ORDER"
  shows "\<exists>l. level_at data mo = Inr l \<and> level_in_range l \<and>
    (let light = light_settings data light_id
     in case for_light l light fill of
          None \<Rightarrow> li_role light = ''manual''
        | Some (b, k) \<Rightarrow> of_int (li_min_brightness light) \<le> b \<and> b \<le> of_int (li_max_brightness light) \<and>
            li_min_kelvin light \<le> k \<and> k \<le> li_max_kelvin light \<and> supported_kelvin k \<and> li_role light \<noteq> ''manual'')"
proof -
  have wf: "wf_plan data" using assms(1) by (rule normalise_wf)
  obtain l where l: "level_at data mo = Inr l" using level_at_total [OF wf assms(2)] by blast
  have "case for_light l (light_settings data light_id) fill of
      None \<Rightarrow> li_role (light_settings data light_id) = ''manual'' | Some _ \<Rightarrow> True"
    by (auto simp: for_light_def Let_def)
  then show ?thesis
    using l level_at_range [OF wf l] for_light_clamped [OF light_settings_wf [OF wf, of light_id], of l fill]
    by (fastforce simp: Let_def split: option.splits)
qed

theorem schedule_respects_limits_witness:
  "\<exists>l. level_at defaults \<lparr>mo_slot_of = \<lambda>_. ''night'', mo_hour = 23, mo_minute = 0, mo_second = 0\<rparr> = Inr l \<and> level_in_range l"
proof -
  have "normalise JNull = Inr defaults" by (simp add: normalise_def)
  from schedule_respects_limits [OF this, of "\<lparr>mo_slot_of = \<lambda>_. ''night'', mo_hour = 23, mo_minute = 0, mo_second = 0\<rparr>"]
  show ?thesis by (auto simp: SLOT_ORDER_def)
qed

end
