(* ===== verification/LightAuto.thy ===== *)
theory LightAuto
  imports LightControl LightLevel
begin

text \<open>
  The lighting automation of \<open>lightauto.py\<close>: what a tick of the engine observes, the hard rule, camera
  follow, the schedule, and the writes they make through the lights' interface. The state is the record
  of \<open>Automation\<close>'s fields, what a tick learns from outside (clocks, the camera, the Director, the
  journal of writes) an environment. Every step returns what it raised and the state it left, so that a
  tick that ends early leaves what it did. The lines of the status page are left out.
\<close>

section \<open>State\<close>

text \<open>What the engine remembers of one light; \<open>None\<close> as a time is \<open>-inf\<close> or \<open>None\<close> as in the code.\<close>

record run =
  ru_power :: "bool option"
  ru_lumen :: "int option"
  ru_kelvin :: "int option"
  ru_wrote :: "rat option"
  ru_ours :: bool
  ru_held_at :: "rat option"
  ru_session :: nat
  ru_lumen_floor :: "int option"
  ru_lumen_ceiling :: "int option"
  ru_kelvin_floor :: "int option"
  ru_kelvin_ceiling :: "int option"
  ru_off_tried :: "rat option"
  ru_hand_on_at :: "rat option"

definition new_run :: run where
  "new_run =
     \<lparr>ru_power = None, ru_lumen = None, ru_kelvin = None, ru_wrote = None, ru_ours = False, ru_held_at = None,
      ru_session = 0, ru_lumen_floor = None, ru_lumen_ceiling = None, ru_kelvin_floor = None,
      ru_kelvin_ceiling = None, ru_off_tried = None, ru_hand_on_at = None\<rparr>"

text \<open>\<open>au_session\<close> is the id of the running camera session; \<open>au_director\<close> the cached answer and its time.\<close>

record 'w auto =
  au_lights :: 'w
  au_runs :: "(string \<times> run) list"
  au_session :: "nat option"
  au_session_count :: nat
  au_active_since :: "rat option"
  au_last_active :: rat
  au_idle_since :: "rat option"
  au_seen_resume :: rat
  au_director :: "rat option \<times> bool"
  au_events :: "(string \<times> string) list"

text \<open>
  What one tick learns from outside. \<open>en_apps_use\<close> is the answer of the second poll of
  \<open>_camera_open\<close> (\<open>None\<close>: it raised), \<open>en_journal\<close> the recent entries for a light and \<open>en_stopped i\<close>
  whether the engine was asked to stop before step \<open>i\<close> of a fade.
\<close>

record env =
  en_now :: rat
  en_hour :: int
  en_active :: bool
  en_apps_use :: "bool option"
  en_director :: bool
  en_level :: light_level
  en_journal :: "string \<Rightarrow> (string \<times> json) list list"
  en_stopped :: "nat \<Rightarrow> bool"
  en_hard_off :: bool

definition SETTLE :: rat where "SETTLE = 2"
definition NO_CAMERA_OFF_SECONDS :: rat where "NO_CAMERA_OFF_SECONDS = 240"
definition NIGHT_OFF_SECONDS :: rat where "NIGHT_OFF_SECONDS = 60"
definition HAND_ON_SECONDS :: rat where "HAND_ON_SECONDS = 30 * 60"
definition HAND_ON_NIGHT_SECONDS :: rat where "HAND_ON_NIGHT_SECONDS = 5 * 60"
definition OFF_RETRY_SECONDS :: rat where "OFF_RETRY_SECONDS = 30"
definition DIRECTOR_CHECK_SECONDS :: rat where "DIRECTOR_CHECK_SECONDS = 10"
definition EVENTS_KEPT :: nat where "EVENTS_KEPT = 30"

definition is_night :: "int \<Rightarrow> bool" where
  "is_night hour \<longleftrightarrow> 22 \<le> hour \<or> hour < 7"

type_synonym 'w step = "'w auto \<Rightarrow> unit result \<times> 'w auto"
type_synonym 'w lights_api = "request \<Rightarrow> 'w \<Rightarrow> applied option result \<times> 'w"

definition seq_do :: "'w step \<Rightarrow> 'w step \<Rightarrow> 'w step" where
  "seq_do a b s = (case a s of (Inl e, s1) \<Rightarrow> (Inl e, s1) | (Inr _, s1) \<Rightarrow> b s1)"

fun each :: "('x \<Rightarrow> 'w step) \<Rightarrow> 'x list \<Rightarrow> 'w step" where
  "each f [] s = (Inr (), s)"
| "each f (x # xs) s = seq_do (f x) (each f xs) s"

definition get_run :: "'w auto \<Rightarrow> string \<Rightarrow> run" where
  "get_run s i = (case map_of (au_runs s) i of None \<Rightarrow> new_run | Some r \<Rightarrow> r)"

definition put_run :: "string \<Rightarrow> run \<Rightarrow> 'w auto \<Rightarrow> 'w auto" where
  "put_run i r s = s\<lparr>au_runs := AList.update i r (au_runs s)\<rparr>"

definition log_event :: "string \<Rightarrow> string \<Rightarrow> 'w auto \<Rightarrow> 'w auto" where
  "log_event kind who s = s\<lparr>au_events := take EVENTS_KEPT ((kind, who) # au_events s)\<rparr>"

definition forget_gone :: "light_view list \<Rightarrow> 'w auto \<Rightarrow> 'w auto" where
  "forget_gone views s = s\<lparr>au_runs := filter (\<lambda>(i, _). i \<in> vw_id ` set views) (au_runs s)\<rparr>"

section \<open>Who owns brightness and colour\<close>

definition director_active :: "env \<Rightarrow> 'w auto \<Rightarrow> bool \<times> 'w auto" where
  "director_active en s =
     (if less_than_ago (en_now en) (fst (au_director s)) DIRECTOR_CHECK_SECONDS
      then (snd (au_director s), s)
      else (en_director en, s\<lparr>au_director := (Some (en_now en), en_director en)\<rparr>))"

datatype owner = Director | Schedule | Nobody

definition owner_of :: "env \<Rightarrow> plan \<Rightarrow> 'w auto \<Rightarrow> owner \<times> 'w auto" where
  "owner_of en data s =
     (let (active, s1) = director_active en s
      in (if active then Director else if sc_enabled (pl_schedule data) then Schedule else Nobody, s1))"

section \<open>Writing\<close>

definition learn :: "int \<Rightarrow> int \<Rightarrow> int \<Rightarrow> int option \<Rightarrow> int option \<Rightarrow> int option \<times> int option" where
  "learn asked shown eps flr ceil =
     (if eps \<le> asked - shown then (flr, Some shown)
      else if eps \<le> shown - asked then (Some shown, ceil)
      else (case flr of Some f \<Rightarrow> if shown < f then None else flr | None \<Rightarrow> None,
            case ceil of Some c \<Rightarrow> if c < shown then None else ceil | None \<Rightarrow> None))"

definition into_limits :: "int \<Rightarrow> int option \<Rightarrow> int option \<Rightarrow> int" where
  "into_limits v flr ceil =
     (let v1 = (case ceil of Some c \<Rightarrow> min v c | None \<Rightarrow> v)
      in case flr of Some f \<Rightarrow> max v1 f | None \<Rightarrow> v1)"

definition after_write :: "light_model \<Rightarrow> rat \<Rightarrow> request \<Rightarrow> applied option \<Rightarrow> run \<Rightarrow> run" where
  "after_write m now rq applied run =
     (let (shown_lumen, shown_kelvin) = (case applied of None \<Rightarrow> (None, None) | Some (_, l, k) \<Rightarrow> (l, k));
          r1 = run\<lparr>ru_wrote := Some now\<rparr>;
          r2 = (case rq_power rq of None \<Rightarrow> r1 | Some on \<Rightarrow> r1\<lparr>ru_power := Some on\<rparr>);
          r3 = (case rq_percent rq of
                  None \<Rightarrow> r2
                | Some p \<Rightarrow>
                    let asked = percent_to_lumen m p
                    in (case shown_lumen of
                          None \<Rightarrow> r2\<lparr>ru_lumen := Some asked\<rparr>
                        | Some shown \<Rightarrow>
                            let (f, c) = learn asked shown LUMEN_EPS (ru_lumen_floor r2) (ru_lumen_ceiling r2)
                            in r2\<lparr>ru_lumen := Some shown, ru_lumen_floor := f, ru_lumen_ceiling := c\<rparr>))
      in (case rq_kelvin rq of
            None \<Rightarrow> r3
          | Some k \<Rightarrow>
              let asked = clamp_kelvin k
              in (case shown_kelvin of
                    None \<Rightarrow> r3\<lparr>ru_kelvin := Some asked\<rparr>
                  | Some shown \<Rightarrow>
                      let (f, c) = learn asked shown KELVIN_EPS (ru_kelvin_floor r3) (ru_kelvin_ceiling r3)
                      in r3\<lparr>ru_kelvin := Some shown, ru_kelvin_floor := f, ru_kelvin_ceiling := c\<rparr>)))"

text \<open>\<open>rq\<close> comes without an expectation: what the engine believes is put in unless \<open>force\<close> is set.\<close>

definition write_light :: "'w lights_api \<Rightarrow> env \<Rightarrow> light_view \<Rightarrow> bool \<Rightarrow> request \<Rightarrow> 'w step" where
  "write_light api en v force rq s =
     (let i = vw_id v; run = get_run s i;
          expect = (if force then None else Some (ru_power run, ru_lumen run, ru_kelvin run));
          (r, w) = api (rq\<lparr>rq_id := i, rq_expect := expect\<rparr>) (au_lights s);
          s1 = s\<lparr>au_lights := w\<rparr>
      in case r of
           Inl Superseded \<Rightarrow> (Inl Superseded, put_run i (run\<lparr>ru_wrote := None\<rparr>) s1)
         | Inl e \<Rightarrow> (Inl e, put_run i run s1)
         | Inr applied \<Rightarrow> (Inr (), put_run i (after_write (vw_model v) (en_now en) rq applied run) s1))"

definition ask_for :: "bool option \<Rightarrow> rat option \<Rightarrow> rat option \<Rightarrow> bool \<Rightarrow> request" where
  "ask_for pwr percent kelvin verify =
     \<lparr>rq_id = '''', rq_power = pwr, rq_percent = percent, rq_kelvin = kelvin, rq_expect = None, rq_verify = verify\<rparr>"

text \<open>
  The steps \<open>i\<close> of a fade; \<open>kelvins\<close> is \<open>None\<close> when the temperature to fade from is not known, which the
  arithmetic of the first step raises on.
\<close>

fun fade_steps :: "'w lights_api \<Rightarrow> env \<Rightarrow> light_view \<Rightarrow> nat \<Rightarrow> rat \<Rightarrow> rat \<Rightarrow> (rat \<times> rat) option \<Rightarrow> nat list \<Rightarrow> 'w step" where
  "fade_steps api en v steps x0 x1 kelvins [] s = (Inr (), s)"
| "fade_steps api en v steps x0 x1 kelvins (i # is) s =
     (if en_stopped en i then (Inr (), s)
      else case kelvins of
             None \<Rightarrow> (Inl TypeError, s)
           | Some (k0, k1) \<Rightarrow>
               let fraction = of_nat i / of_nat steps
               in seq_do
                    (write_light api en v False
                      (ask_for None (Some (x0 + (x1 - x0) * fraction)) (Some (k0 + (k1 - k0) * fraction)) (i = steps)))
                    (fade_steps api en v steps x0 x1 kelvins is) s)"

definition fade_count :: "int \<Rightarrow> nat" where
  "fade_count seconds = nat (max 2 (min 80 (py_round (of_int seconds / (1 / 4)))))"

definition fade :: "'w lights_api \<Rightarrow> env \<Rightarrow> light_view \<Rightarrow> rat \<Rightarrow> rat \<Rightarrow> (rat \<times> rat) option \<Rightarrow> int \<Rightarrow> 'w step" where
  "fade api en v x0 x1 kelvins seconds =
     (let steps = fade_count seconds in fade_steps api en v steps x0 x1 kelvins [1..<Suc steps])"

section \<open>Changes by hand\<close>

definition PERSON_WRITERS :: "string list" where "PERSON_WRITERS = ['''', ''person'', ''console'']"

text \<open>The numbers of a journal entry, \<open>True\<close> being 1; the journal writes its writers as strings.\<close>

definition entry_number :: "json \<Rightarrow> rat option" where
  "entry_number v =
     (case v of JBool b \<Rightarrow> Some (if b then 1 else 0) | JInt n \<Rightarrow> Some (of_int n) | JFloat x _ \<Rightarrow> Some x | _ \<Rightarrow> None)"

definition entry_writer :: "(string \<times> json) list \<Rightarrow> string" where
  "entry_writer e = (case jget e ''writer'' of JStr s \<Rightarrow> s | _ \<Rightarrow> '''')"

definition explains :: "string \<Rightarrow> rat \<Rightarrow> rat \<Rightarrow> (string \<times> json) list \<Rightarrow> bool" where
  "explains key v eps e \<longleftrightarrow>
     entry_writer e \<notin> set PERSON_WRITERS \<and> entry_writer e \<noteq> ''engine'' \<and>
     (case entry_number (jget e key) of
        None \<Rightarrow> False
      | Some x \<Rightarrow> if key = ''power'' then x = v else \<bar>x - v\<bar> < eps)"

text \<open>The newest entry that explains each field that is given; the empty list is the empty string.\<close>

fun explained :: "(string \<times> json) list list \<Rightarrow> (string \<times> rat option \<times> rat) list \<Rightarrow> string list option" where
  "explained entries [] = Some []"
| "explained entries ((key, v, eps) # rest) =
     (case v of
        None \<Rightarrow> explained entries rest
      | Some x \<Rightarrow>
          (case find (explains key x eps) (rev entries) of
             None \<Rightarrow> None
           | Some e \<Rightarrow> map_option ((#) (entry_writer e)) (explained entries rest)))"

definition written_by_software :: "(string \<times> json) list list \<Rightarrow> bool option \<Rightarrow> int option \<Rightarrow> int option \<Rightarrow> string list" where
  "written_by_software entries pwr lumen kelvin =
     (case explained entries
        [(''power'', map_option (\<lambda>b. if b then 1 else 0) pwr, 0),
         (''lumen'', map_option of_int lumen, of_int LUMEN_EPS),
         (''kelvin'', map_option of_int kelvin, of_int KELVIN_EPS)] of
        None \<Rightarrow> []
      | Some writers \<Rightarrow> remdups writers)"

definition moved :: "int option \<Rightarrow> int option \<Rightarrow> int \<Rightarrow> bool" where
  "moved shown known eps \<longleftrightarrow> apart known shown eps"

definition observe_one :: "env \<Rightarrow> light_view \<Rightarrow> 'w auto \<Rightarrow> 'w auto" where
  "observe_one en v s0 =
     (let i = vw_id v; run = get_run s0 i; s = put_run i run s0;
          shown = run\<lparr>ru_power := vw_power v, ru_lumen := vw_lumen v, ru_kelvin := vw_kelvin v\<rparr>
      in case vw_power v of
           None \<Rightarrow> s
         | Some on \<Rightarrow>
             if vw_identifying v then s
             else if ru_power run = None then put_run i shown s
             else if less_than_ago (en_now en) (ru_wrote run) SETTLE then s
             else if ru_power run \<noteq> Some on then
               (if written_by_software (en_journal en i) (Some on) None None \<noteq> []
                then put_run i (shown\<lparr>ru_ours := ru_ours run \<and> on\<rparr>) (log_event ''software'' i s)
                else let held = shown\<lparr>ru_held_at := None, ru_hand_on_at := if on then Some (en_now en) else None\<rparr>
                     in if on then put_run i held (log_event ''manual'' i s)
                        else put_run i (held\<lparr>ru_ours := False\<rparr>) (if ru_ours run then log_event ''manual'' i s else s))
             else if \<not> on then put_run i (run\<lparr>ru_lumen := vw_lumen v, ru_kelvin := vw_kelvin v\<rparr>) s
             else if moved (vw_lumen v) (ru_lumen run) LUMEN_EPS \<or> moved (vw_kelvin v) (ru_kelvin run) KELVIN_EPS then
               (let seen = run\<lparr>ru_lumen := vw_lumen v, ru_kelvin := vw_kelvin v\<rparr>
                in if written_by_software (en_journal en i) None
                        (if moved (vw_lumen v) (ru_lumen run) LUMEN_EPS then vw_lumen v else None)
                        (if moved (vw_kelvin v) (ru_kelvin run) KELVIN_EPS then vw_kelvin v else None) \<noteq> []
                   then put_run i seen (log_event ''software'' i s)
                   else put_run i (seen\<lparr>ru_held_at := Some (en_now en)\<rparr>) (log_event ''manual'' i s))
             else s)"

definition observe :: "env \<Rightarrow> light_view list \<Rightarrow> 'w auto \<Rightarrow> 'w auto" where
  "observe en views s = fold (observe_one en) views s"

definition resume_one :: "light_view \<Rightarrow> 'w auto \<Rightarrow> 'w auto" where
  "resume_one v s =
     (if vw_identifying v \<or> vw_power v = None then s
      else put_run (vw_id v)
             ((get_run s (vw_id v))\<lparr>ru_power := vw_power v, ru_lumen := vw_lumen v, ru_kelvin := vw_kelvin v, ru_wrote := None\<rparr>) s)"

definition release_holds :: "'w auto \<Rightarrow> 'w auto" where
  "release_holds s = s\<lparr>au_runs := map (\<lambda>(i, r). (i, r\<lparr>ru_held_at := None\<rparr>)) (au_runs s)\<rparr>"

definition resume :: "light_view list \<Rightarrow> 'w auto \<Rightarrow> 'w auto" where
  "resume views s =
     (let s1 = fold resume_one views (release_holds s)
      in if list_ex (\<lambda>(_, r). ru_held_at r \<noteq> None) (au_runs s) then log_event ''resume'' '''' s1 else s1)"

section \<open>The hard rule\<close>

definition camera_open :: "env \<Rightarrow> plan \<Rightarrow> bool" where
  "camera_open en data =
     (if en_active en then True
      else if fo_apps (pl_follow data) then False
      else case en_apps_use en of None \<Rightarrow> True | Some active \<Rightarrow> active)"

text \<open>Whether the hard rule is due for a light: from when it counts and how long it waits.\<close>

definition off_due :: "env \<Rightarrow> rat \<Rightarrow> run \<Rightarrow> bool" where
  "off_due en idle run =
     (let night = is_night (en_hour en);
          (since, limit) =
            (case ru_hand_on_at run of
               Some h \<Rightarrow>
                 if idle \<le> h then (h, if night then HAND_ON_NIGHT_SECONDS else HAND_ON_SECONDS)
                 else (idle, if night then NIGHT_OFF_SECONDS else NO_CAMERA_OFF_SECONDS)
             | None \<Rightarrow> (idle, if night then NIGHT_OFF_SECONDS else NO_CAMERA_OFF_SECONDS))
      in \<not> en_now en - since < limit)"

definition hard_off_one :: "'w lights_api \<Rightarrow> env \<Rightarrow> rat \<Rightarrow> light_view \<Rightarrow> 'w step" where
  "hard_off_one api en idle v s0 =
     (let i = vw_id v; run = get_run s0 i; s = put_run i run s0
      in if vw_power v \<noteq> Some True \<or> vw_identifying v \<or> less_than_ago (en_now en) (ru_off_tried run) OFF_RETRY_SECONDS
         then (Inr (), s)
         else if \<not> off_due en idle run then (Inr (), s)
         else (case write_light api en v True (ask_for (Some False) None None False)
                      (put_run i (run\<lparr>ru_off_tried := Some (en_now en)\<rparr>) s) of
                 (Inl (ActionError _ _), s1) \<Rightarrow> (Inr (), log_event ''error'' i s1)
               | (Inl Superseded, s1) \<Rightarrow> (Inr (), log_event ''error'' i s1)
               | (Inl e, s1) \<Rightarrow> (Inl e, s1)
               | (Inr _, s1) \<Rightarrow>
                   (Inr (), log_event ''hard-off'' i
                     (put_run i ((get_run s1 i)\<lparr>ru_ours := False, ru_held_at := None, ru_hand_on_at := None\<rparr>) s1))))"

definition hard_off :: "'w lights_api \<Rightarrow> env \<Rightarrow> plan \<Rightarrow> light_view list \<Rightarrow> 'w step" where
  "hard_off api en data views s =
     (if \<not> en_hard_off en then (Inr (), s)
      else if camera_open en data then (Inr (), s\<lparr>au_idle_since := None\<rparr>)
      else let idle = (case au_idle_since s of None \<Rightarrow> en_now en | Some t \<Rightarrow> t)
           in each (hard_off_one api en idle) views (s\<lparr>au_idle_since := Some idle\<rparr>))"

section \<open>Camera follow\<close>

text \<open>\<open>except Superseded: ... except ActionError: ...\<close> around a body of writes.\<close>

definition guarded :: "'w step \<Rightarrow> ('w auto \<Rightarrow> 'w auto) \<Rightarrow> ('w auto \<Rightarrow> 'w auto) \<Rightarrow> ('w auto \<Rightarrow> 'w auto) \<Rightarrow> 'w step" where
  "guarded body superseded failed finished s =
     (case body s of
        (Inl Superseded, s1) \<Rightarrow> (Inr (), superseded s1)
      | (Inl (ActionError _ _), s1) \<Rightarrow> (Inr (), failed s1)
      | (Inl e, s1) \<Rightarrow> (Inl e, s1)
      | (Inr _, s1) \<Rightarrow> (Inr (), finished s1))"

definition skip :: "'w step" where "skip s = (Inr (), s)"

definition set_run :: "string \<Rightarrow> (run \<Rightarrow> run) \<Rightarrow> 'w auto \<Rightarrow> 'w auto" where
  "set_run i f s = put_run i (f (get_run s i)) s"

definition begin_session :: "'w auto \<Rightarrow> 'w auto" where
  "begin_session s =
     log_event ''camera-on'' ''''
       (release_holds (s\<lparr>au_session_count := au_session_count s + 1, au_session := Some (au_session_count s + 1)\<rparr>))"

definition enroll_writes :: "'w lights_api \<Rightarrow> env \<Rightarrow> light_view \<Rightarrow> (rat \<times> int) option \<Rightarrow> int \<Rightarrow> 'w step" where
  "enroll_writes api en v goal fade_s =
     (case goal of
        None \<Rightarrow> write_light api en v False (ask_for (Some True) None None True)
      | Some (percent, kelvin) \<Rightarrow>
          if 0 < fade_s then
            seq_do (write_light api en v False (ask_for None (Some 1) (Some (of_int kelvin)) True))
            (seq_do (write_light api en v False (ask_for (Some True) None None True))
              (fade api en v 1 percent (Some (of_int kelvin, of_int kelvin)) fade_s))
          else write_light api en v False (ask_for (Some True) (Some percent) (Some (of_int kelvin)) True))"

definition enroll :: "'w lights_api \<Rightarrow> env \<Rightarrow> plan \<Rightarrow> light_view \<Rightarrow> 'w step" where
  "enroll api en data v s0 =
     (let i = vw_id v; run = get_run s0 i; s = put_run i run s0
      in case au_session s of
           None \<Rightarrow> (Inr (), s)
         | Some session \<Rightarrow>
             if ru_session run = session \<or> vw_identifying v then (Inr (), s)
             else let s1 = set_run i (\<lambda>r. r\<lparr>ru_session := session\<rparr>) s; light = light_settings data i
                  in if li_role light = ''manual'' then (Inr (), s1)
                     else if vw_power v \<noteq> Some False then (Inr (), set_run i (\<lambda>r. r\<lparr>ru_ours := False\<rparr>) s1)
                     else let (owner, s2) = owner_of en data s1;
                              goal = (if owner = Schedule
                                      then for_light (en_level en) light (of_int (sc_fill_percent (pl_schedule data))) else None)
                          in guarded (enroll_writes api en v goal (sc_fade_seconds (pl_schedule data)))
                               (set_run i (\<lambda>r. r\<lparr>ru_session := 0\<rparr>))
                               (log_event ''error'' i)
                               (\<lambda>s3. log_event ''on'' i (set_run i (\<lambda>r. r\<lparr>ru_ours := True\<rparr>) s3))
                               s2)"

definition switch_off_writes :: "'w lights_api \<Rightarrow> env \<Rightarrow> int \<Rightarrow> light_view \<Rightarrow> 'w step" where
  "switch_off_writes api en fade_s v =
     (let percent = map_option (lumen_to_percent (vw_model v)) (vw_lumen v)
      in seq_do (case percent of
                   Some p \<Rightarrow>
                     if 0 < fade_s \<and> 1 < p
                     then fade api en v (of_int p) 1 (map_option (\<lambda>k. (of_int k, of_int k)) (vw_kelvin v)) fade_s
                     else skip
                 | None \<Rightarrow> skip)
         (seq_do (write_light api en v False (ask_for (Some False) None None True))
           (case percent of Some p \<Rightarrow> write_light api en v False (ask_for None (Some (of_int p)) None True) | None \<Rightarrow> skip)))"

definition switch_off :: "'w lights_api \<Rightarrow> env \<Rightarrow> int \<Rightarrow> light_view \<Rightarrow> 'w step" where
  "switch_off api en fade_s v = guarded (switch_off_writes api en fade_s v) id (log_event ''error'' (vw_id v)) id"

definition leaves_session :: "'w lights_api \<Rightarrow> env \<Rightarrow> plan \<Rightarrow> bool \<Rightarrow> light_view \<Rightarrow> 'w step" where
  "leaves_session api en data off v s0 =
     (let i = vw_id v; run = get_run s0 i; s = put_run i run s0
      in if \<not> ru_ours run then (Inr (), s)
         else let s1 = set_run i (\<lambda>r. r\<lparr>ru_ours := False\<rparr>) s
              in if \<not> off \<or> vw_power v \<noteq> Some True \<or> ru_held_at run \<noteq> None then (Inr (), s1)
                 else switch_off api en (sc_fade_seconds (pl_schedule data)) v s1)"

definition kept_on :: "bool \<Rightarrow> 'w auto \<Rightarrow> light_view \<Rightarrow> bool" where
  "kept_on off s v \<longleftrightarrow>
     off \<and> ru_ours (get_run s (vw_id v)) \<and> vw_power v = Some True \<and> ru_held_at (get_run s (vw_id v)) \<noteq> None"

definition end_session :: "'w lights_api \<Rightarrow> env \<Rightarrow> plan \<Rightarrow> light_view list \<Rightarrow> bool \<Rightarrow> 'w step" where
  "end_session api en data views off s =
     seq_do (each (leaves_session api en data off) views)
       (\<lambda>s1. (Inr (), fold (\<lambda>v. log_event ''kept'' (vw_id v)) (filter (kept_on off s) views) (log_event ''camera-off'' '''' s1)))
       (s\<lparr>au_session := None\<rparr>)"

definition track_use :: "env \<Rightarrow> 'w auto \<Rightarrow> 'w auto" where
  "track_use en s =
     (if en_active en
      then s\<lparr>au_last_active := en_now en,
             au_active_since := (case au_active_since s of None \<Rightarrow> Some (en_now en) | Some t \<Rightarrow> Some t)\<rparr>
      else s\<lparr>au_active_since := None\<rparr>)"

definition turn_session :: "'w lights_api \<Rightarrow> env \<Rightarrow> plan \<Rightarrow> light_view list \<Rightarrow> 'w step" where
  "turn_session api en data views s =
     (let f = pl_follow data
      in case au_session s of
           None \<Rightarrow>
             (Inr (), (case au_active_since s of
                         Some t \<Rightarrow>
                           if en_active en \<and> of_int (fo_start_delay_seconds f) \<le> en_now en - t then begin_session s else s
                       | None \<Rightarrow> s))
         | Some _ \<Rightarrow>
             if en_active en then (Inr (), s)
             else if of_int (fo_grace_seconds f) \<le> en_now en - au_last_active s
             then end_session api en data views (fo_turn_off f) s
             else (Inr (), s))"

definition enroll_all :: "'w lights_api \<Rightarrow> env \<Rightarrow> plan \<Rightarrow> light_view list \<Rightarrow> 'w step" where
  "enroll_all api en data views s =
     (if au_session s = None then (Inr (), s) else each (enroll api en data) views s)"

definition follow_camera :: "'w lights_api \<Rightarrow> env \<Rightarrow> plan \<Rightarrow> light_view list \<Rightarrow> 'w step" where
  "follow_camera api en data views s =
     (if \<not> fo_enabled (pl_follow data) then
        seq_do (if au_session s = None then skip else end_session api en data views False)
          (\<lambda>s1. (Inr (), s1\<lparr>au_active_since := None\<rparr>)) s
      else seq_do (turn_session api en data views) (enroll_all api en data views) (track_use en s))"

section \<open>The schedule\<close>

definition hold_over :: "env \<Rightarrow> plan \<Rightarrow> run \<Rightarrow> bool" where
  "hold_over en data run \<longleftrightarrow>
     (case ru_held_at run of
        None \<Rightarrow> False
      | Some t \<Rightarrow> let minutes = sc_hold_minutes (pl_schedule data)
                  in minutes \<noteq> 0 \<and> of_int (minutes * 60) \<le> en_now en - t)"

definition hold_checked :: "env \<Rightarrow> plan \<Rightarrow> light_view \<Rightarrow> 'w auto \<Rightarrow> 'w auto" where
  "hold_checked en data v s =
     (let i = vw_id v; run = get_run s i
      in if hold_over en data run then log_event ''resume'' i (put_run i (run\<lparr>ru_held_at := None\<rparr>) s)
         else put_run i run s)"

text \<open>What to write to a light, with what it shows now; \<open>None\<close> is a \<open>continue\<close> of the loop.\<close>

definition schedule_goal :: "env \<Rightarrow> plan \<Rightarrow> light_level option \<Rightarrow> light_view \<Rightarrow> run \<Rightarrow> (rat \<times> int \<times> int \<times> int) option" where
  "schedule_goal en data lvl v run =
     (let light = light_settings data (vw_id v); m = vw_model v
      in case (lvl, vw_lumen v, vw_kelvin v) of
           (Some l, Some lumen_now, Some kelvin_now) \<Rightarrow>
             if li_role light = ''manual'' \<or> vw_power v \<noteq> Some True \<or> ru_held_at run \<noteq> None \<or> vw_identifying v \<or>
                less_than_ago (en_now en) (ru_wrote run) SETTLE
             then None
             else (case for_light l light (of_int (sc_fill_percent (pl_schedule data))) of
                     None \<Rightarrow> None
                   | Some (percent, kelvin) \<Rightarrow>
                       let lumen = into_limits (percent_to_lumen m percent) (ru_lumen_floor run) (ru_lumen_ceiling run);
                           aimed = into_limits kelvin (ru_kelvin_floor run) (ru_kelvin_ceiling run)
                       in if \<bar>lumen - lumen_now\<bar> < LUMEN_EPS \<and> \<bar>aimed - kelvin_now\<bar> < KELVIN_EPS then None
                          else Some (percent, kelvin, lumen_now, kelvin_now))
         | _ \<Rightarrow> None)"

definition schedule_writes :: "'w lights_api \<Rightarrow> env \<Rightarrow> light_view \<Rightarrow> int \<Rightarrow> rat \<times> int \<times> int \<times> int \<Rightarrow> 'w step" where
  "schedule_writes api en v fade_s goal =
     (case goal of (percent, kelvin, lumen_now, kelvin_now) \<Rightarrow>
        if 0 < fade_s \<and> fade_needed (vw_model v) (Some lumen_now) percent (Some kelvin_now) kelvin
        then fade api en v (of_int (lumen_to_percent (vw_model v) lumen_now)) percent
               (Some (of_int kelvin_now, of_int kelvin)) fade_s
        else write_light api en v False (ask_for None (Some percent) (Some (of_int kelvin)) True))"

definition schedule_one :: "'w lights_api \<Rightarrow> env \<Rightarrow> plan \<Rightarrow> light_level option \<Rightarrow> light_view \<Rightarrow> 'w step" where
  "schedule_one api en data lvl v s0 =
     (let s = hold_checked en data v s0
      in case schedule_goal en data lvl v (get_run s (vw_id v)) of
           None \<Rightarrow> (Inr (), s)
         | Some goal \<Rightarrow>
             guarded (schedule_writes api en v (sc_fade_seconds (pl_schedule data)) goal) id
               (log_event ''error'' (vw_id v)) id s)"

definition follow_schedule :: "'w lights_api \<Rightarrow> env \<Rightarrow> plan \<Rightarrow> light_view list \<Rightarrow> 'w step" where
  "follow_schedule api en data views s =
     (let (owner, s1) = owner_of en data s
      in each (schedule_one api en data (if owner = Schedule then Some (en_level en) else None)) views s1)"

section \<open>One tick\<close>

text \<open>\<open>seen\<close> is \<open>lights_view\<close>; the views of a tick are taken once, at its start.\<close>

definition tick_views :: "('w \<Rightarrow> light_view list) \<Rightarrow> 'w auto \<Rightarrow> light_view list" where
  "tick_views seen s = filter vw_connected (seen (au_lights s))"

definition before_rule :: "env \<Rightarrow> plan \<Rightarrow> light_view list \<Rightarrow> 'w auto \<Rightarrow> 'w auto" where
  "before_rule en data views s =
     observe en views
       (forget_gone views
         (if au_seen_resume s < pl_resume data then resume views (s\<lparr>au_seen_resume := pl_resume data\<rparr>) else s))"

definition tick :: "'w lights_api \<Rightarrow> ('w \<Rightarrow> light_view list) \<Rightarrow> env \<Rightarrow> plan \<Rightarrow> 'w step" where
  "tick api seen en data s =
     (let views = tick_views seen s
      in seq_do (hard_off api en data views)
           (seq_do (follow_camera api en data views) (follow_schedule api en data views))
           (before_rule en data views s))"

end
