(* ===== verification/LightRule.thy ===== *)
theory LightRule
  imports LightAuto
begin

text \<open>
  What the lighting automation keeps: the hard rule (no camera, no light), proved for every way to the
  lights that keeps the promises of \<open>automated_lights\<close>, and which lights the schedule and the end of a
  camera session may write to.
\<close>

named_theorems darkness \<open>steps that light no light\<close>

lemma lights_of_updates [simp]:
  "au_lights (put_run i r s) = au_lights s" "au_lights (log_event k who s) = au_lights s"
  "au_lights (set_run i f s) = au_lights s" "au_lights (release_holds s) = au_lights s"
  "au_lights (forget_gone views s) = au_lights s" "au_lights (begin_session s) = au_lights s"
  "au_lights (resume_one v s) = au_lights s" "au_lights (track_use en s) = au_lights s"
  "au_lights (snd (director_active en s)) = au_lights s"
  by (simp_all add: put_run_def log_event_def set_run_def release_holds_def forget_gone_def begin_session_def
      resume_one_def track_use_def director_active_def)

lemma lights_of_owner [simp]: "au_lights (snd (owner_of en data s)) = au_lights s"
  by (simp add: owner_of_def split_beta Let_def)

lemma lights_of_observe_one [simp]: "au_lights (observe_one en v s) = au_lights s"
  by (simp add: observe_one_def Let_def split: option.split)

lemma lights_of_hold [simp]: "au_lights (hold_checked en data v s) = au_lights s"
  by (simp add: hold_checked_def Let_def)

lemma fold_keeps: "(\<And>x s. x \<in> set xs \<Longrightarrow> g (f x s) = g s) \<Longrightarrow> g (fold f xs s) = g s"
  by (induction xs arbitrary: s) simp_all

lemma lights_of_before [simp]: "au_lights (before_rule en data views s) = au_lights s"
  by (simp add: before_rule_def observe_def resume_def Let_def fold_keeps)

lemma idle_of_updates [simp]:
  "au_idle_since (put_run i r s) = au_idle_since s" "au_idle_since (log_event k who s) = au_idle_since s"
  "au_idle_since (release_holds s) = au_idle_since s" "au_idle_since (forget_gone views s) = au_idle_since s"
  "au_idle_since (resume_one v s) = au_idle_since s"
  by (simp_all add: put_run_def log_event_def release_holds_def forget_gone_def resume_one_def)

lemma idle_of_observe_one [simp]: "au_idle_since (observe_one en v s) = au_idle_since s"
  by (simp add: observe_one_def Let_def split: option.split)

lemma idle_of_before [simp]: "au_idle_since (before_rule en data views s) = au_idle_since s"
  by (simp add: before_rule_def observe_def resume_def Let_def fold_keeps)

lemma get_put [simp]: "get_run (put_run i r s) j = (if j = i then r else get_run s j)"
  by (simp add: get_run_def put_run_def update_conv')

lemma get_event [simp]: "get_run (log_event k who s) j = get_run s j"
  by (simp add: get_run_def log_event_def)

lemma get_updates [simp]: "get_run (s\<lparr>au_lights := w\<rparr>) j = get_run s j" "get_run (s\<lparr>au_idle_since := t\<rparr>) j = get_run s j"
  by (simp_all add: get_run_def)

lemma get_write_light:
  "write_light api en v force rq s = (r, s') \<Longrightarrow> j \<noteq> vw_id v \<Longrightarrow> get_run s' j = get_run s j"
  by (auto simp: write_light_def Let_def split: prod.splits sum.splits exn.splits)

section \<open>No camera, no light\<close>

context automated_lights
begin

text \<open>A step that keeps the lights' invariant and a dark light \<open>i\<close> dark.\<close>

definition dark :: "string \<Rightarrow> 'w step \<Rightarrow> bool" where
  "dark i f \<longleftrightarrow> (\<forall>s r s'. inv (au_lights s) \<longrightarrow> f s = (r, s') \<longrightarrow>
     inv (au_lights s') \<and> (\<not> lit (au_lights s) i \<longrightarrow> \<not> lit (au_lights s') i))"

lemma darkI:
  "(\<And>s r s'. inv (au_lights s) \<Longrightarrow> f s = (r, s') \<Longrightarrow>
    inv (au_lights s') \<and> (\<not> lit (au_lights s) i \<longrightarrow> \<not> lit (au_lights s') i)) \<Longrightarrow> dark i f"
  by (simp add: dark_def)

lemma darkD:
  "dark i f \<Longrightarrow> f s = (r, s') \<Longrightarrow> inv (au_lights s) \<Longrightarrow>
    inv (au_lights s') \<and> (\<not> lit (au_lights s) i \<longrightarrow> \<not> lit (au_lights s') i)"
  by (simp add: dark_def)

lemma dark_seq [darkness]: "dark i a \<Longrightarrow> dark i b \<Longrightarrow> dark i (seq_do a b)"
  by (rule darkI) (auto simp: seq_do_def split: prod.splits sum.splits dest!: darkD)

lemma dark_each: "(\<And>x. x \<in> set xs \<Longrightarrow> dark i (f x)) \<Longrightarrow> dark i (each f xs)"
proof (induction xs)
  case (Cons x xs)
  have "each f (x # xs) = seq_do (f x) (each f xs)" by (rule ext) simp
  then show ?case using Cons by (simp add: dark_seq)
qed (simp add: dark_def)

lemma dark_pure [darkness]: "(\<And>s. au_lights (g s) = au_lights s) \<Longrightarrow> dark i (\<lambda>s. (Inr (), g s))"
  by (rule darkI) auto

lemma dark_skip [darkness]: "dark i skip"
  by (rule darkI) (auto simp: skip_def)

lemma dark_guarded:
  "dark i body \<Longrightarrow> (\<And>s. au_lights (g1 s) = au_lights s) \<Longrightarrow> (\<And>s. au_lights (g2 s) = au_lights s) \<Longrightarrow>
    (\<And>s. au_lights (g3 s) = au_lights s) \<Longrightarrow> dark i (guarded body g1 g2 g3)"
  by (rule darkI) (auto simp: guarded_def split: prod.splits sum.splits exn.splits dest!: darkD)

lemma write_light_lights:
  "write_light api en v force rq s = (r, s') \<Longrightarrow> \<exists>r0. api (rq\<lparr>rq_id := vw_id v,
      rq_expect := (if force then None else Some (ru_power (get_run s (vw_id v)), ru_lumen (get_run s (vw_id v)), ru_kelvin (get_run s (vw_id v))))\<rparr>)
    (au_lights s) = (r0, au_lights s') \<and> (r0 = Inl Superseded \<longleftrightarrow> r = Inl Superseded)"
  by (auto simp: write_light_def Let_def split: prod.splits sum.splits exn.splits)

lemma dark_write [darkness]:
  assumes "vw_id v \<noteq> ''all''" and "rq_power rq \<noteq> Some True \<or> vw_id v \<noteq> i"
  shows "dark i (write_light api en v force rq)"
proof (rule darkI)
  fix s r s' assume inv: "inv (au_lights s)" and w: "write_light api en v force rq s = (r, s')"
  let ?rq = "rq\<lparr>rq_id := vw_id v, rq_expect := (if force then None else
    Some (ru_power (get_run s (vw_id v)), ru_lumen (get_run s (vw_id v)), ru_kelvin (get_run s (vw_id v))))\<rparr>"
  obtain r0 where r0: "api ?rq (au_lights s) = (r0, au_lights s')" using write_light_lights [OF w] by blast
  have "inv (au_lights s')" by (rule api_inv [OF inv _ r0]) (use assms(1) in simp)
  moreover have "\<not> lit (au_lights s') i" if "\<not> lit (au_lights s) i"
    by (rule api_dark [OF inv _ r0 that]) (use assms in auto)
  ultimately show "inv (au_lights s') \<and> (\<not> lit (au_lights s) i \<longrightarrow> \<not> lit (au_lights s') i)" by blast
qed

lemma dark_fade_steps: "vw_id v \<noteq> ''all'' \<Longrightarrow> dark i (fade_steps api en v steps x0 x1 kelvins is)"
proof (induction "is")
  case (Cons k ks)
  let ?f = "of_nat k / of_nat steps :: rat"
  have w: "dark i (seq_do (write_light api en v False (ask_for None (Some (x0 + (x1 - x0) * ?f)) (Some (k0 + (k1 - k0) * ?f)) (k = steps)))
      (fade_steps api en v steps x0 x1 kelvins ks))" for k0 k1
    using Cons by (intro darkness) (simp_all add: ask_for_def)
  show ?case
    by (rule darkI) (use w darkD in \<open>fastforce simp: Let_def split: if_splits option.splits prod.splits\<close>)
qed (simp add: dark_def)

lemma dark_fade [darkness]: "vw_id v \<noteq> ''all'' \<Longrightarrow> dark i (fade api en v x0 x1 kelvins seconds)"
  using dark_fade_steps by (simp add: fade_def Let_def)

lemma dark_when: "(\<And>s. dark i (f s)) \<Longrightarrow> dark i (\<lambda>s. f s s)"
  unfolding dark_def by blast

lemma dark_after: "(\<And>s. au_lights (g s) = au_lights s) \<Longrightarrow> dark i f \<Longrightarrow> dark i (\<lambda>s. f (g s))"
  by (rule darkI) (metis darkD)

lemma dark_if [darkness]: "(b \<Longrightarrow> dark i f) \<Longrightarrow> (\<not> b \<Longrightarrow> dark i g) \<Longrightarrow> dark i (if b then f else g)"
  by simp

section \<open>Steps that do not light a light that was seen on\<close>

lemma dark_enroll_writes:
  "vw_id v \<noteq> ''all'' \<Longrightarrow> vw_id v \<noteq> i \<Longrightarrow> dark i (enroll_writes api en v goal fade_s)"
  by (auto simp: enroll_writes_def split: option.split intro!: darkness)

lemma dark_enroll:
  assumes "vw_id v \<noteq> ''all''" and "vw_id v = i \<longrightarrow> vw_power v = Some True"
  shows "dark i (enroll api en data v)"
proof (rule darkI)
  fix s0 r s' assume inv: "inv (au_lights s0)" and e: "enroll api en data v s0 = (r, s')"
  let ?s = "put_run (vw_id v) (get_run s0 (vw_id v)) s0"
  show "inv (au_lights s') \<and> (\<not> lit (au_lights s0) i \<longrightarrow> \<not> lit (au_lights s') i)"
  proof (cases "au_lights s' = au_lights s0")
    case False
    then have off: "vw_power v = Some False"
      using e by (auto simp: enroll_def Let_def split: option.splits if_splits prod.splits)
    obtain session where session: "au_session ?s = Some session"
      using e False by (cases "au_session ?s") (auto simp: enroll_def Let_def)
    let ?s1 = "set_run (vw_id v) (\<lambda>r. r\<lparr>ru_session := session\<rparr>) ?s"
    obtain owner s2 where o: "owner_of en data ?s1 = (owner, s2)" by (rule prod.exhaust)
    have s2: "au_lights s2 = au_lights s0" using lights_of_owner [of en data ?s1] by (simp add: o)
    have "vw_id v \<noteq> i" using assms(2) off by auto
    then have d: "dark i (guarded (enroll_writes api en v goal fade_s) (set_run (vw_id v) (\<lambda>r. r\<lparr>ru_session := 0\<rparr>))
        (log_event ''error'' (vw_id v)) (\<lambda>s3. log_event ''on'' (vw_id v) (set_run (vw_id v) (\<lambda>r. r\<lparr>ru_ours := True\<rparr>) s3)))"
      for goal fade_s
      using assms(1) by (intro dark_guarded dark_enroll_writes) simp_all
    obtain goal where g: "guarded (enroll_writes api en v goal (sc_fade_seconds (pl_schedule data)))
        (set_run (vw_id v) (\<lambda>r. r\<lparr>ru_session := 0\<rparr>)) (log_event ''error'' (vw_id v))
        (\<lambda>s3. log_event ''on'' (vw_id v) (set_run (vw_id v) (\<lambda>r. r\<lparr>ru_ours := True\<rparr>) s3)) s2 = (r, s')"
      using e False session o by (auto simp: enroll_def Let_def split: if_splits)
    show ?thesis using darkD [OF d g] inv s2 by simp
  qed (use inv in simp)
qed

lemma dark_switch_off: "vw_id v \<noteq> ''all'' \<Longrightarrow> dark i (switch_off api en fade_s v)"
  unfolding switch_off_def switch_off_writes_def Let_def
  by (auto intro!: dark_guarded darkness simp: ask_for_def split: option.split)

lemma dark_leaves: "vw_id v \<noteq> ''all'' \<Longrightarrow> dark i (leaves_session api en data off v)"
  by (rule darkI) (use darkD [OF dark_switch_off] in \<open>fastforce simp: leaves_session_def Let_def split: if_splits\<close>)

lemma dark_end_session:
  assumes "\<And>v. v \<in> set views \<Longrightarrow> vw_id v \<noteq> ''all''"
  shows "dark i (end_session api en data views off)"
proof -
  have "dark i (seq_do (each (leaves_session api en data off) views)
      (\<lambda>s1. (Inr (), fold (\<lambda>v. log_event ''kept'' (vw_id v)) (filter (kept_on off s) views) (log_event ''camera-off'' [] s1))))" for s
    by (intro dark_seq dark_each dark_leaves dark_pure assms) (simp_all add: fold_keeps)
  then have "dark i (\<lambda>t. seq_do (each (leaves_session api en data off) views)
      (\<lambda>s1. (Inr (), fold (\<lambda>v. log_event ''kept'' (vw_id v)) (filter (kept_on off s) views) (log_event ''camera-off'' [] s1)))
      (t\<lparr>au_session := None\<rparr>))" for s
    by (rule dark_after [rotated]) simp
  from dark_when [OF this] show ?thesis by (simp add: end_session_def [abs_def])
qed

lemma dark_follow:
  assumes "\<And>v. v \<in> set views \<Longrightarrow> vw_id v \<noteq> ''all'' \<and> (vw_id v = i \<longrightarrow> vw_power v = Some True)"
  shows "dark i (follow_camera api en data views)"
proof -
  have e: "dark i (end_session api en data views off)" for off using assms by (intro dark_end_session) blast
  have t: "dark i (turn_session api en data views)"
    by (rule darkI) (use darkD [OF e] in \<open>fastforce simp: turn_session_def Let_def split: option.splits if_splits\<close>)
  have "dark i (each (enroll api en data) views)" using assms by (intro dark_each dark_enroll) blast+
  then have n: "dark i (enroll_all api en data views)"
    by (intro darkI) (auto simp: enroll_all_def dest: darkD split: if_splits)
  have tn: "dark i (seq_do (turn_session api en data views) (enroll_all api en data views))" using t n by (rule dark_seq)
  have off: "dark i (seq_do (if b then skip else end_session api en data views False) (\<lambda>s1. (Inr (), s1\<lparr>au_active_since := None\<rparr>)))" for b
    using e by (intro darkness) simp_all
  show ?thesis
  proof (rule darkI)
    fix s r s' assume inv: "inv (au_lights s)" and f: "follow_camera api en data views s = (r, s')"
    show "inv (au_lights s') \<and> (\<not> lit (au_lights s) i \<longrightarrow> \<not> lit (au_lights s') i)"
    proof (cases "fo_enabled (pl_follow data)")
      case True
      then have "seq_do (turn_session api en data views) (enroll_all api en data views) (track_use en s) = (r, s')"
        using f by (simp add: follow_camera_def)
      from darkD [OF tn this] inv show ?thesis by simp
    next
      case False
      then show ?thesis using f darkD [OF off] inv by (simp add: follow_camera_def)
    qed
  qed
qed

lemma dark_schedule_one:
  assumes "vw_id v \<noteq> ''all''"
  shows "dark i (schedule_one api en data lvl v)"
proof -
  have w: "dark i (guarded (schedule_writes api en v fade_s goal) id (log_event ''error'' (vw_id v)) id)" for fade_s goal
    using assms unfolding schedule_writes_def
    by (cases goal) (auto intro!: dark_guarded darkness simp: ask_for_def)
  show ?thesis
  proof (rule darkI)
    fix s r s' assume inv: "inv (au_lights s)" and e: "schedule_one api en data lvl v s = (r, s')"
    let ?s = "hold_checked en data v s"
    show "inv (au_lights s') \<and> (\<not> lit (au_lights s) i \<longrightarrow> \<not> lit (au_lights s') i)"
    proof (cases "schedule_goal en data lvl v (get_run ?s (vw_id v))")
      case None
      then show ?thesis using e inv by (auto simp: schedule_one_def Let_def)
    next
      case (Some goal)
      then show ?thesis using e darkD [OF w, of _ goal ?s r s'] inv by (simp add: schedule_one_def Let_def)
    qed
  qed
qed

lemma dark_schedule:
  assumes "\<And>v. v \<in> set views \<Longrightarrow> vw_id v \<noteq> ''all''"
  shows "dark i (follow_schedule api en data views)"
proof (rule darkI)
  fix s r s' assume inv: "inv (au_lights s)" and e: "follow_schedule api en data views s = (r, s')"
  obtain owner s1 where o: "owner_of en data s = (owner, s1)" by (rule prod.exhaust)
  have s1: "au_lights s1 = au_lights s" using lights_of_owner [of en data s] by (simp add: o)
  have "dark i (each (schedule_one api en data lvl) views)" for lvl using assms by (intro dark_each dark_schedule_one)
  from darkD [OF this, of _ s1 r s'] e inv show "inv (au_lights s') \<and> (\<not> lit (au_lights s) i \<longrightarrow> \<not> lit (au_lights s') i)"
    by (simp add: follow_schedule_def o s1)
qed

section \<open>The rule\<close>

lemma forced_write:
  assumes inv: "inv (au_lights s)" and id: "vw_id v \<noteq> ''all''" and pwr: "rq_power rq = Some False"
    and w: "write_light api en v True rq s = (r, s')"
  shows "\<not> lit (au_lights s') (vw_id v)" and "(\<exists>m n. r = Inl (ActionError m n)) \<or> r = Inr ()"
proof -
  let ?rq = "rq\<lparr>rq_id := vw_id v, rq_expect := None\<rparr>"
  obtain r0 where r0: "api ?rq (au_lights s) = (r0, au_lights s')" "r0 = Inl Superseded \<longleftrightarrow> r = Inl Superseded"
    using write_light_lights [OF w] by auto
  have raises: "(\<exists>m n. e = ActionError m n)" if "r0 = Inl e" for e
    using api_raises [OF inv _ r0(1) [unfolded that]] id by simp
  then have "r0 \<noteq> Inl Superseded" by fastforce
  then show "\<not> lit (au_lights s') (vw_id v)"
    using api_off [OF inv _ _ r0(1)] id pwr by simp
  show "(\<exists>m n. r = Inl (ActionError m n)) \<or> r = Inr ()"
  proof (cases r0)
    case (Inl e)
    then obtain m n where "e = ActionError m n" using raises by blast
    then show ?thesis using w Inl r0(1) by (auto simp: write_light_def Let_def)
  next
    case (Inr a)
    then show ?thesis using w r0(1) by (auto simp: write_light_def Let_def)
  qed
qed

lemma hard_off_one_effect:
  assumes inv: "inv (au_lights s)" and id: "vw_id v \<noteq> ''all''" and h: "hard_off_one api en idle v s = (r, s')"
  shows "r = Inr ()" and "inv (au_lights s')" and "\<not> lit (au_lights s) i \<Longrightarrow> \<not> lit (au_lights s') i"
    and "j \<noteq> vw_id v \<Longrightarrow> get_run s' j = get_run s j"
    and "vw_power v = Some True \<Longrightarrow> \<not> vw_identifying v \<Longrightarrow>
      \<not> less_than_ago (en_now en) (ru_off_tried (get_run s (vw_id v))) OFF_RETRY_SECONDS \<Longrightarrow>
      off_due en idle (get_run s (vw_id v)) \<Longrightarrow> \<not> lit (au_lights s') (vw_id v)"
proof -
  let ?i = "vw_id v" and ?run = "get_run s (vw_id v)"
  let ?t = "put_run ?i (?run\<lparr>ru_off_tried := Some (en_now en)\<rparr>) (put_run ?i ?run s)"
  let ?rq = "ask_for (Some False) None None False"
  define acts where "acts \<longleftrightarrow> vw_power v = Some True \<and> \<not> vw_identifying v \<and>
    \<not> less_than_ago (en_now en) (ru_off_tried ?run) OFF_RETRY_SECONDS \<and> off_due en idle ?run"
  obtain r1 s1 where w: "write_light api en v True ?rq ?t = (r1, s1)" by (rule prod.exhaust)
  have t: "inv (au_lights ?t)" using inv by simp
  note f = forced_write [OF t id _ w, unfolded ask_for_def, simplified]
  have d: "inv (au_lights s1) \<and> (\<not> lit (au_lights s) i \<longrightarrow> \<not> lit (au_lights s1) i)" for i
    using darkD [OF dark_write [OF id, of ?rq i] w t] by (simp add: ask_for_def)
  have e: "r = Inr () \<and> au_lights s' = au_lights s1 \<and> (\<forall>j. j \<noteq> ?i \<longrightarrow> get_run s' j = get_run s j)" if "acts"
    using h that f(2) w get_write_light [OF w] by (auto simp: hard_off_one_def Let_def acts_def ask_for_def)
  have n: "r = Inr () \<and> s' = put_run ?i ?run s" if "\<not> acts"
    using h that by (auto simp: hard_off_one_def Let_def acts_def split: if_splits)
  show "r = Inr ()" "inv (au_lights s')" "\<not> lit (au_lights s) i \<Longrightarrow> \<not> lit (au_lights s') i"
      "j \<noteq> vw_id v \<Longrightarrow> get_run s' j = get_run s j"
    using e n d inv by (cases acts; simp)+
  show "vw_power v = Some True \<Longrightarrow> \<not> vw_identifying v \<Longrightarrow>
      \<not> less_than_ago (en_now en) (ru_off_tried ?run) OFF_RETRY_SECONDS \<Longrightarrow> off_due en idle ?run \<Longrightarrow>
      \<not> lit (au_lights s') ?i"
    using e f(1) by (simp add: acts_def)
qed

lemma hard_off_each:
  assumes "inv (au_lights s)" and "\<forall>v\<in>set views. vw_id v \<noteq> ''all''" and "each (hard_off_one api en idle) views s = (r, s')"
  shows "r = Inr () \<and> inv (au_lights s') \<and> (\<forall>i. \<not> lit (au_lights s) i \<longrightarrow> \<not> lit (au_lights s') i)"
  using assms
proof (induction views arbitrary: s)
  case (Cons v views)
  obtain r1 s1 where h: "hard_off_one api en idle v s = (r1, s1)" by (rule prod.exhaust)
  have id: "vw_id v \<noteq> ''all''" using Cons.prems(2) by simp
  note e = hard_off_one_effect [OF Cons.prems(1) id h]
  have "each (hard_off_one api en idle) views s1 = (r, s')" using Cons.prems(3) h e(1) by (simp add: seq_do_def)
  with Cons.IH [of s1] Cons.prems(2) e(2,3) show ?case by simp
qed simp

lemma hard_off_reaches:
  assumes "inv (au_lights s)" and "\<forall>v\<in>set views. vw_id v \<noteq> ''all''" and "distinct (map vw_id views)" and "v \<in> set views"
    and "each (hard_off_one api en idle) views s = (r, s')"
    and on: "vw_power v = Some True" "\<not> vw_identifying v"
    and due: "\<not> less_than_ago (en_now en) (ru_off_tried (get_run s (vw_id v))) OFF_RETRY_SECONDS"
      "off_due en idle (get_run s (vw_id v))"
  shows "\<not> lit (au_lights s') (vw_id v)"
  using assms(1-5) due
proof (induction views arbitrary: s)
  case (Cons x views)
  obtain r1 s1 where h: "hard_off_one api en idle x s = (r1, s1)" by (rule prod.exhaust)
  have id: "vw_id x \<noteq> ''all''" using Cons.prems(2) by simp
  note e = hard_off_one_effect [OF Cons.prems(1) id h]
  have rest: "each (hard_off_one api en idle) views s1 = (r, s')" using Cons.prems(5) h e(1) by (simp add: seq_do_def)
  show ?case
  proof (cases "v = x")
    case True
    then have "\<not> lit (au_lights s1) (vw_id v)" using e(5) on Cons.prems(6,7) by simp
    then show ?thesis using hard_off_each [OF e(2) _ rest] Cons.prems(2) by simp
  next
    case False
    then have v: "v \<in> set views" "vw_id v \<noteq> vw_id x" using Cons.prems(3,4) by (auto simp: image_iff)
    show ?thesis
      by (rule Cons.IH [OF e(2) _ _ v(1) rest]) (use Cons.prems(2,3,6,7) e(4) v(2) in simp_all)
  qed
qed simp

lemma hard_rule:
  assumes inv: "inv (au_lights s)" and views: "views = tick_views seen s"
    and ids: "\<forall>v\<in>set views. vw_id v \<noteq> ''all''" "distinct (map vw_id views)"
    and rule: "en_hard_off en" "\<not> camera_open en data" "au_idle_since s = Some t0"
    and v: "v \<in> set views" "vw_power v = Some True" "\<not> vw_identifying v"
    and run: "run = get_run (before_rule en data views s) (vw_id v)"
    and due: "\<not> less_than_ago (en_now en) (ru_off_tried run) OFF_RETRY_SECONDS" "off_due en t0 run"
  shows "\<not> lit (au_lights (snd (tick api seen en data s))) (vw_id v)"
proof -
  let ?s1 = "before_rule en data views s" and ?i = "vw_id v"
  obtain r2 s2 where h: "hard_off api en data views ?s1 = (r2, s2)" by (rule prod.exhaust)
  have each: "each (hard_off_one api en t0) views (?s1\<lparr>au_idle_since := Some t0\<rparr>) = (r2, s2)"
    using h rule by (simp add: hard_off_def)
  have inv1: "inv (au_lights (?s1\<lparr>au_idle_since := Some t0\<rparr>))" using inv by simp
  have off: "\<not> lit (au_lights s2) ?i"
    by (rule hard_off_reaches [OF inv1 ids v(1) each v(2,3)]) (use due run in simp_all)
  note s2 = hard_off_each [OF inv1 ids(1) each]
  have id: "x \<in> set views \<Longrightarrow> vw_id x \<noteq> ''all'' \<and> (vw_id x = ?i \<longrightarrow> vw_power x = Some True)" for x
    using ids v(1,2) by (metis distinct_map inj_onD)
  have "dark ?i (seq_do (follow_camera api en data views) (follow_schedule api en data views))"
    using id by (intro dark_seq dark_follow dark_schedule) blast+
  from darkD [OF this] s2 off
  have "\<not> lit (au_lights s3) ?i" if "seq_do (follow_camera api en data views) (follow_schedule api en data views) s2 = (r3, s3)" for r3 s3
    using that by blast
  moreover have "snd (tick api seen en data s) =
      snd (seq_do (follow_camera api en data views) (follow_schedule api en data views) s2)"
    using h s2 by (simp add: tick_def Let_def views [symmetric] seq_do_def [of "hard_off api en data views"])
  ultimately show ?thesis by (metis prod.collapse)
qed

end

text \<open>
  C4. With no camera user, and none for the time the hard rule allows, every tick leaves a light that was
  seen on dark or unreachable, whatever holds, roles, the schedule and the camera session say; only a
  light a person switched on a moment ago, one that could not be switched off within the last half
  minute, and one that is being identified are passed over.
\<close>

theorem no_camera_no_light:
  assumes "control_ok (au_lights s)" and "views = tick_views lights_view s"
    and "\<forall>v\<in>set views. vw_id v \<noteq> ''all''" and "distinct (map vw_id views)"
    and "en_hard_off en" and "\<not> camera_open en data" and "au_idle_since s = Some idle"
    and "v \<in> set views" and "vw_power v = Some True" and "\<not> vw_identifying v"
    and "run = get_run (before_rule en data views s) (vw_id v)"
    and "idle + (if is_night (en_hour en) then 60 else 240) \<le> en_now en"
    and "\<And>h. ru_hand_on_at run = Some h \<Longrightarrow> h + (if is_night (en_hour en) then 300 else 1800) \<le> en_now en"
    and "\<And>t. ru_off_tried run = Some t \<Longrightarrow> t + 30 \<le> en_now en"
  shows "\<not> control_lit (au_lights (snd (tick (control_api sim_transport now waits) lights_view en data s))) (vw_id v)"
proof -
  have "\<not> less_than_ago (en_now en) (ru_off_tried run) OFF_RETRY_SECONDS"
    using assms(14) by (auto simp: less_than_ago_def OFF_RETRY_SECONDS_def split: option.split)
  moreover have "off_due en idle run"
    using assms(12,13)
    by (auto simp: off_due_def Let_def HAND_ON_SECONDS_def HAND_ON_NIGHT_SECONDS_def NO_CAMERA_OFF_SECONDS_def
        NIGHT_OFF_SECONDS_def split: option.split if_splits)
  ultimately show ?thesis by (rule control.hard_rule [OF assms(1-11)])
qed

theorem no_camera_no_light_witness:
  "let beam = \<lparr>lm_pid = 0xC901, lm_name = ''Litra Beam'', lm_lumen_min = 30, lm_lumen_max = 400, lm_feature = 4\<rparr>;
       shining = \<lparr>si_model = beam, si_on = True, si_lumen = 300, si_kelvin = 4500, si_ceiling = None, si_writes = [],
                  si_closed = False, si_inbox = []\<rparr>;
       sl = (new_slot beam)\<lparr>sl_device := Some shining, sl_power := Some True, sl_lumen := Some 300, sl_kelvin := Some 4500\<rparr>;
       s = \<lparr>au_lights = [(''c901-a'', sl)], au_runs = [(''c901-a'', new_run\<lparr>ru_held_at := Some 800\<rparr>)], au_session = None,
            au_session_count = 0, au_active_since = None, au_last_active = 0, au_idle_since = Some 500,
            au_seen_resume = 0, au_director = (None, False), au_events = []\<rparr>;
       en = \<lparr>en_now = 900, en_hour = 12, en_active = False, en_apps_use = None, en_director = False,
             en_level = \<lparr>lv_brightness = 50, lv_kelvin = 4800\<rparr>, en_journal = (\<lambda>_. []), en_stopped = (\<lambda>_. False),
             en_hard_off = True\<rparr>
   in \<not> control_lit (au_lights (snd (tick (control_api sim_transport 900 [True]) lights_view en defaults s))) ''c901-a''"
proof -
  define beam where "beam = \<lparr>lm_pid = 0xC901, lm_name = ''Litra Beam'', lm_lumen_min = 30, lm_lumen_max = 400, lm_feature = 4\<rparr>"
  define shining where "shining = \<lparr>si_model = beam, si_on = True, si_lumen = 300, si_kelvin = 4500, si_ceiling = None,
    si_writes = [], si_closed = False, si_inbox = []\<rparr>"
  define sl where "sl = (new_slot beam)\<lparr>sl_device := Some shining, sl_power := Some True, sl_lumen := Some 300, sl_kelvin := Some 4500\<rparr>"
  define s where "s = \<lparr>au_lights = [(''c901-a'', sl)], au_runs = [(''c901-a'', new_run\<lparr>ru_held_at := Some 800\<rparr>)], au_session = None,
            au_session_count = 0, au_active_since = None, au_last_active = 0, au_idle_since = Some 500,
            au_seen_resume = 0, au_director = (None, False), au_events = []\<rparr>"
  define en where "en = \<lparr>en_now = 900, en_hour = 12, en_active = False, en_apps_use = None, en_director = False,
             en_level = \<lparr>lv_brightness = 50, lv_kelvin = 4800\<rparr>, en_journal = (\<lambda>_. []), en_stopped = (\<lambda>_. False),
             en_hard_off = True\<rparr>"
  have "MODELS 0xC901 = Some beam" by (simp add: MODELS_def beam_def)
  then have m: "beam \<in> ran MODELS" by (rule ranI)
  have ok: "control_ok (au_lights s)"
    using m by (simp add: s_def control_ok_def slot_ok_def sl_def shining_def new_slot_def sim_ok_def sim_limit_def beam_def)
  define v where "v = \<lparr>vw_id = ''c901-a'', vw_model = beam, vw_connected = True, vw_power = Some True, vw_lumen = Some 300,
    vw_kelvin = Some 4500, vw_identifying = False\<rparr>"
  have views: "[v] = tick_views lights_view s"
    by (simp add: tick_views_def lights_view_def view_of_def s_def sl_def new_slot_def v_def)
  have run: "ru_hand_on_at (get_run (before_rule en defaults [v] s) (vw_id v)) = None"
    "ru_off_tried (get_run (before_rule en defaults [v] s) (vw_id v)) = None"
    by (simp_all add: before_rule_def observe_def observe_one_def Let_def forget_gone_def get_run_def put_run_def
        s_def v_def new_run_def defaults_def)
  have facts: "en_hard_off en" "\<not> camera_open en defaults" "au_idle_since s = Some 500" "en_now en = 900" "\<not> is_night (en_hour en)"
      "vw_id v \<noteq> ''all''" "vw_power v = Some True" "\<not> vw_identifying v"
    by (simp_all add: v_def en_def camera_open_def defaults_def s_def is_night_def)
  have "\<not> control_lit (au_lights (snd (tick (control_api sim_transport 900 [True]) lights_view en defaults s))) (vw_id v)"
    by (rule no_camera_no_light [OF ok views _ _ _ _ _ _ _ _ HOL.refl, where idle = 500]) (simp_all add: facts run)
  then show ?thesis
    unfolding Let_def beam_def [symmetric] shining_def [symmetric] sl_def [symmetric] s_def [symmetric] en_def [symmetric]
    by (simp add: v_def)
qed

end
