(* ===== verification/LightTouch.thy ===== *)
theory LightTouch
  imports LightRule
begin

text \<open>
  Which lights the automation may write to, and how. The lights are put behind a log of the requests
  they are sent; a step of one light sends requests to that light only and leaves what the engine
  remembers of the others alone.
\<close>

definition logging :: "'w lights_api \<Rightarrow> (request list \<times> 'w) lights_api" where
  "logging api rq w = (case w of (sent, w0) \<Rightarrow> (case api rq w0 of (r, w1) \<Rightarrow> (r, (sent @ [rq], w1))))"

abbreviation sent :: "(request list \<times> 'w) auto \<Rightarrow> request list" where
  "sent s \<equiv> fst (au_lights s)"

text \<open>\<open>acts i P f\<close>: the step \<open>f\<close> touches light \<open>i\<close> only, with requests that satisfy \<open>P\<close>.\<close>

definition others_kept :: "string \<Rightarrow> 'w auto \<Rightarrow> 'w auto \<Rightarrow> bool" where
  "others_kept i s s' \<longleftrightarrow> (\<forall>j. j \<noteq> i \<longrightarrow> get_run s' j = get_run s j)"

definition acts :: "string \<Rightarrow> (request \<Rightarrow> bool) \<Rightarrow> (request list \<times> 'w) step \<Rightarrow> bool" where
  "acts i P f \<longleftrightarrow> (\<forall>s r s'. f s = (r, s') \<longrightarrow> others_kept i s s' \<and>
     (\<exists>new. sent s' = sent s @ new \<and> list_all (\<lambda>rq. rq_id rq = i \<and> P rq) new))"

named_theorems acting \<open>steps of one light\<close>

lemma others_kept_refl [simp]: "others_kept i s s" by (simp add: others_kept_def)

lemma others_kept_trans: "others_kept i s s1 \<Longrightarrow> others_kept i s1 s2 \<Longrightarrow> others_kept i s s2"
  by (simp add: others_kept_def)

lemma actsI:
  "(\<And>s r s'. f s = (r, s') \<Longrightarrow> others_kept i s s' \<and>
     (\<exists>new. sent s' = sent s @ new \<and> list_all (\<lambda>rq. rq_id rq = i \<and> P rq) new)) \<Longrightarrow> acts i P f"
  by (simp add: acts_def)

lemma actsD:
  "acts i P f \<Longrightarrow> f s = (r, s') \<Longrightarrow> others_kept i s s' \<and>
     (\<exists>new. sent s' = sent s @ new \<and> list_all (\<lambda>rq. rq_id rq = i \<and> P rq) new)"
  by (simp add: acts_def)

lemma acts_seq [acting]:
  assumes "acts i P a" and "acts i P b"
  shows "acts i P (seq_do a b)"
proof (rule actsI)
  fix s r s' assume ab: "seq_do a b s = (r, s')"
  obtain r1 s1 where a: "a s = (r1, s1)" by (rule prod.exhaust)
  note d = actsD [OF assms(1) a]
  show "others_kept i s s' \<and> (\<exists>new. sent s' = sent s @ new \<and> list_all (\<lambda>rq. rq_id rq = i \<and> P rq) new)"
  proof (cases r1)
    case (Inl e)
    then show ?thesis using ab a d by (simp add: seq_do_def)
  next
    case (Inr u)
    then have "b s1 = (r, s')" using ab a by (simp add: seq_do_def)
    from actsD [OF assms(2) this] d show ?thesis
      by (auto intro: others_kept_trans simp: list_all_append)
  qed
qed

lemma acts_skip [acting]: "acts i P skip"
  by (rule actsI) (simp add: skip_def)

lemma acts_if [acting]: "(b \<Longrightarrow> acts i P f) \<Longrightarrow> (\<not> b \<Longrightarrow> acts i P g) \<Longrightarrow> acts i P (if b then f else g)"
  by simp

lemma acts_write [acting]:
  assumes "\<And>expect. P (rq\<lparr>rq_id := vw_id v, rq_expect := Some expect\<rparr>)"
  shows "acts (vw_id v) P (write_light (logging api) en v False rq)"
proof (rule actsI)
  fix s r s' assume w: "write_light (logging api) en v False rq s = (r, s')"
  have "\<exists>new. sent s' = sent s @ new \<and> list_all (\<lambda>rq. rq_id rq = vw_id v \<and> P rq) new"
    using w assms by (auto simp: write_light_def logging_def Let_def split: prod.splits sum.splits exn.splits)
  then show "others_kept (vw_id v) s s' \<and> (\<exists>new. sent s' = sent s @ new \<and> list_all (\<lambda>rq. rq_id rq = vw_id v \<and> P rq) new)"
    using get_write_light [OF w] by (simp add: others_kept_def)
qed

lemma acts_fade [acting]:
  assumes "\<And>p k ver expect. P ((ask_for None (Some p) (Some k) ver)\<lparr>rq_id := vw_id v, rq_expect := Some expect\<rparr>)"
  shows "acts (vw_id v) P (fade (logging api) en v x0 x1 kelvins seconds)"
proof -
  have "acts (vw_id v) P (fade_steps (logging api) en v steps x0 x1 kelvins is)" for steps "is"
  proof (induction "is")
    case (Cons k ks)
    let ?f = "of_nat k / of_nat steps :: rat"
    have w: "acts (vw_id v) P (seq_do
        (write_light (logging api) en v False (ask_for None (Some (x0 + (x1 - x0) * ?f)) (Some (k0 + (k1 - k0) * ?f)) (k = steps)))
        (fade_steps (logging api) en v steps x0 x1 kelvins ks))" for k0 k1
      using assms Cons by (intro acting)
    show ?case
    proof (rule actsI)
      fix s r s' assume e: "fade_steps (logging api) en v steps x0 x1 kelvins (k # ks) s = (r, s')"
      show "others_kept (vw_id v) s s' \<and> (\<exists>new. sent s' = sent s @ new \<and> list_all (\<lambda>rq. rq_id rq = vw_id v \<and> P rq) new)"
      proof (cases "en_stopped en k \<or> kelvins = None")
        case True
        then show ?thesis using e by (auto split: if_splits)
      next
        case False
        then obtain k0 k1 where "kelvins = Some (k0, k1)" by auto
        then show ?thesis using e False actsD [OF w, of k0 k1 s r s'] by (simp add: Let_def)
      qed
    qed
  qed (simp add: acts_def)
  then show ?thesis by (simp add: fade_def Let_def)
qed

lemma acts_guarded:
  assumes "acts i P body"
    and "\<And>s. au_lights (g1 s) = au_lights s \<and> others_kept i s (g1 s)"
    and "\<And>s. au_lights (g2 s) = au_lights s \<and> others_kept i s (g2 s)"
    and "\<And>s. au_lights (g3 s) = au_lights s \<and> others_kept i s (g3 s)"
  shows "acts i P (guarded body g1 g2 g3)"
proof (rule actsI)
  fix s r s' assume g: "guarded body g1 g2 g3 s = (r, s')"
  obtain r1 s1 where b: "body s = (r1, s1)" by (rule prod.exhaust)
  have "au_lights s' = au_lights s1 \<and> others_kept i s1 s'"
    using g b assms(2-4) by (auto simp: guarded_def split: sum.splits exn.splits)
  then show "others_kept i s s' \<and> (\<exists>new. sent s' = sent s @ new \<and> list_all (\<lambda>rq. rq_id rq = i \<and> P rq) new)"
    using actsD [OF assms(1) b] others_kept_trans by metis
qed

lemma others_kept_updates [simp]:
  "others_kept i s (log_event k who s)" "others_kept i s (put_run i r s)" "others_kept i s (set_run i g s)"
  by (simp_all add: others_kept_def set_run_def)

section \<open>A step per light\<close>

text \<open>A loop over the lights whose step acts on its light when \<open>Q\<close> allows it, which only the light itself decides.\<close>

lemma each_acts:
  assumes "\<And>v s r s'. f v s = (r, s') \<Longrightarrow> others_kept (vw_id v) s s' \<and>
      (\<exists>new. sent s' = sent s @ new \<and> list_all (\<lambda>rq. rq_id rq = vw_id v \<and> P rq) new \<and> (new \<noteq> [] \<longrightarrow> Q s v))"
    and "\<And>s s1 v. get_run s1 (vw_id v) = get_run s (vw_id v) \<Longrightarrow> Q s1 v = Q s v"
    and "distinct (map vw_id views)" and "each f views s = (r, s')"
  shows "\<exists>new. sent s' = sent s @ new \<and> (\<forall>rq\<in>set new. P rq \<and> (\<exists>v\<in>set views. rq_id rq = vw_id v \<and> Q s v))"
  using assms(3,4)
proof (induction views arbitrary: s)
  case (Cons v views)
  obtain r1 s1 where one: "f v s = (r1, s1)" by (rule prod.exhaust)
  obtain new1 where new1: "others_kept (vw_id v) s s1" "sent s1 = sent s @ new1"
      "list_all (\<lambda>rq. rq_id rq = vw_id v \<and> P rq) new1" "new1 \<noteq> [] \<longrightarrow> Q s v"
    using assms(1) [OF one] by blast
  have first: "\<forall>rq\<in>set new1. P rq \<and> (\<exists>x\<in>set (v # views). rq_id rq = vw_id x \<and> Q s x)"
    using new1(3,4) by (auto simp: list_all_iff)
  show ?case
  proof (cases r1)
    case (Inl e)
    then have "s' = s1" using Cons.prems(2) one by (simp add: seq_do_def)
    then show ?thesis using new1(2) first by auto
  next
    case (Inr u)
    then have rest: "each f views s1 = (r, s')" using Cons.prems(2) one by (simp add: seq_do_def)
    have same: "Q s1 x = Q s x" if "x \<in> set views" for x
    proof -
      have "vw_id x \<noteq> vw_id v" using Cons.prems(1) that by (auto simp: image_iff)
      then show ?thesis using new1(1) by (intro assms(2)) (simp add: others_kept_def)
    qed
    obtain new2 where new2: "sent s' = sent s1 @ new2"
        "\<forall>rq\<in>set new2. P rq \<and> (\<exists>x\<in>set views. rq_id rq = vw_id x \<and> Q s1 x)"
      using Cons.IH [OF _ rest] Cons.prems(1) by auto
    have "\<forall>rq\<in>set (new1 @ new2). P rq \<and> (\<exists>x\<in>set (v # views). rq_id rq = vw_id x \<and> Q s x)"
      using first new2(2) same by fastforce
    then show ?thesis using new1(2) new2(1) by (intro exI [of _ "new1 @ new2"]) simp
  qed
qed simp

section \<open>The schedule\<close>




section \<open>The end of a camera session\<close>

definition leaves :: "'w auto \<Rightarrow> bool \<Rightarrow> light_view \<Rightarrow> bool" where
  "leaves s off v \<longleftrightarrow>
     off \<and> vw_power v = Some True \<and> ru_ours (get_run s (vw_id v)) \<and> ru_held_at (get_run s (vw_id v)) = None"

definition guarded_off :: "request \<Rightarrow> bool" where
  "guarded_off rq \<longleftrightarrow> rq_power rq \<noteq> Some True \<and> rq_expect rq \<noteq> None"

lemma leaves_session_acts:
  assumes "leaves_session (logging api) en data off v s = (r, s')"
  shows "others_kept (vw_id v) s s' \<and> (\<exists>new. sent s' = sent s @ new \<and>
    list_all (\<lambda>rq. rq_id rq = vw_id v \<and> guarded_off rq) new \<and> (new \<noteq> [] \<longrightarrow> leaves s off v))"
proof (cases "leaves s off v")
  case True
  let ?t = "set_run (vw_id v) (\<lambda>r. r\<lparr>ru_ours := False\<rparr>) (put_run (vw_id v) (get_run s (vw_id v)) s)"
  have "acts (vw_id v) guarded_off (switch_off (logging api) en fade_s v)" for fade_s
    unfolding switch_off_def switch_off_writes_def Let_def
    by (auto intro!: acts_guarded acting simp: ask_for_def guarded_off_def split: option.split)
  moreover have "switch_off (logging api) en (sc_fade_seconds (pl_schedule data)) v ?t = (r, s')"
    using assms True by (simp add: leaves_session_def leaves_def Let_def)
  moreover have "others_kept (vw_id v) s ?t" by (simp add: others_kept_def set_run_def)
  ultimately show ?thesis using True others_kept_trans by (fastforce dest: actsD)
next
  case False
  then have "others_kept (vw_id v) s s' \<and> sent s' = sent s"
    using assms by (auto simp: leaves_session_def leaves_def Let_def others_kept_def set_run_def split: if_splits)
  then show ?thesis by simp
qed

section \<open>Properties\<close>

text \<open>A light the engine lit for the session, seen on, and lights that take what they are told.\<close>

definition lit_view :: light_view where
  "lit_view = \<lparr>vw_id = ''c901-a'', vw_model = \<lparr>lm_pid = 0xC901, lm_name = ''Litra Beam'', lm_lumen_min = 30,
     lm_lumen_max = 400, lm_feature = 4\<rparr>, vw_connected = True, vw_power = Some True, vw_lumen = Some 300,
     vw_kelvin = Some 4500, vw_identifying = False\<rparr>"

definition lit_state :: "(request list \<times> unit) auto" where
  "lit_state = \<lparr>au_lights = ([], ()), au_runs = [(''c901-a'', new_run\<lparr>ru_ours := True\<rparr>)], au_session = Some 1,
     au_session_count = 1, au_active_since = None, au_last_active = 0, au_idle_since = Some 500,
     au_seen_resume = 0, au_director = (None, False), au_events = []\<rparr>"

definition noon :: env where
  "noon = \<lparr>en_now = 900, en_hour = 12, en_active = False, en_apps_use = None, en_director = False,
     en_level = \<lparr>lv_brightness = 50, lv_kelvin = 4800\<rparr>, en_journal = (\<lambda>_. []), en_stopped = (\<lambda>_. False),
     en_hard_off = True\<rparr>"

definition takes_all :: "unit lights_api" where
  "takes_all rq w = (Inr None, w)"



text \<open>
  The end of a camera session puts out only lights the engine itself switched on for it: a light
  that was on before, one a person changed during the session and one that is not on get no request at
  all; without the setting to turn lights off none does; and no request of it lights a light or is
  forced on a light that changed meanwhile.
\<close>

theorem session_end_spares_other_lights:
  assumes "distinct (map vw_id views)" and "end_session (logging api) en data views off s = (r, s')"
  shows "\<exists>new. sent s' = sent s @ new \<and>
    (\<forall>rq\<in>set new. guarded_off rq \<and> (\<exists>v\<in>set views. rq_id rq = vw_id v \<and> leaves s off v))"
proof -
  let ?s = "s\<lparr>au_session := None\<rparr>"
  obtain r1 s1 where each: "each (leaves_session (logging api) en data off) views ?s = (r1, s1)" by (rule prod.exhaust)
  have "\<exists>new. sent s1 = sent ?s @ new \<and>
      (\<forall>rq\<in>set new. guarded_off rq \<and> (\<exists>v\<in>set views. rq_id rq = vw_id v \<and> leaves ?s off v))"
    by (rule each_acts [OF _ _ assms(1) each]) (rule leaves_session_acts, simp_all add: leaves_def)
  moreover have "sent s' = sent s1"
    using assms(2) each by (auto simp: end_session_def seq_do_def fold_keeps split: sum.splits)
  ultimately show ?thesis by (simp add: leaves_def get_run_def)
qed

theorem session_end_spares_other_lights_witness:
  "\<exists>new. sent (snd (end_session (logging takes_all) noon defaults [lit_view] True lit_state)) = sent lit_state @ new \<and>
    (\<forall>rq\<in>set new. guarded_off rq \<and> rq_id rq = ''c901-a'' \<and> leaves lit_state True lit_view)"
proof -
  have "distinct (map vw_id [lit_view])" by simp
  moreover obtain r s' where e: "end_session (logging takes_all) noon defaults [lit_view] True lit_state = (r, s')"
    by (rule prod.exhaust)
  moreover have "vw_id lit_view = ''c901-a''" by (simp add: lit_view_def)
  ultimately show ?thesis
    using session_end_spares_other_lights [of "[lit_view]" takes_all noon defaults True lit_state r s'] by fastforce
qed

end
