(* ===== verification/Sinks.thy ===== *)
theory Sinks
  imports PyNum "HOL-Library.AList"
begin

text \<open>
  The sinks of \<open>stream/sinks.py\<close>: the bounded byte queue, \<open>PipeSink\<close> (an ffmpeg fed through its
  stdin, started again with a backoff) and \<open>FileSink\<close> (a recording). Each operation holds the sink's
  lock, so it is one step; the writer thread, the exit callback of a child and its progress lines are
  steps of their own, in any order. Times are exact rationals; the messages to the page are left out.
\<close>

section \<open>What the relay relies on\<close>

text \<open>
  \<open>write_to s d\<close> is the sink's answer and next state. A sink that refused is shut, and a shut sink
  refuses everything until it is opened again.
\<close>

locale relay_sink =
  fixes write_to :: "'s \<Rightarrow> 'd \<Rightarrow> bool \<times> 's"
    and shut :: "'s \<Rightarrow> bool"
  assumes refused: "\<not> fst (write_to s d) \<Longrightarrow> shut (snd (write_to s d))"
    and shut_refuses: "shut s \<Longrightarrow> \<not> fst (write_to s d)"
begin

fun write_on :: "'s \<Rightarrow> 'd list \<Rightarrow> bool list \<times> 's" where
  "write_on s [] = ([], s)"
| "write_on s (d # ds) = (let (b, s1) = write_to s d; (bs, s2) = write_on s1 ds in (b # bs, s2))"

lemma shut_for_good: "shut s \<Longrightarrow> fst (write_on s ds) = replicate (length ds) False"
proof (induction ds arbitrary: s)
  case (Cons d ds)
  have "\<not> fst (write_to s d)" using Cons.prems by (rule shut_refuses)
  moreover from this have "shut (snd (write_to s d))" by (rule refused)
  ultimately show ?case using Cons.IH by (simp add: case_prod_beta Let_def)
qed simp

text \<open>The answers of a sink that is not opened meanwhile: accepted, accepted, ..., and then never again.\<close>

lemma refusal_is_final:
  "\<exists>k\<le>length ds. fst (write_on s ds) = replicate k True @ replicate (length ds - k) False"
proof (induction ds arbitrary: s)
  case (Cons d ds)
  show ?case
  proof (cases "fst (write_to s d)")
    case True
    from Cons.IH obtain k where "k \<le> length ds"
        "fst (write_on (snd (write_to s d)) ds) = replicate k True @ replicate (length ds - k) False"
      by blast
    with True show ?thesis by (intro exI [of _ "Suc k"]) (simp add: case_prod_beta Let_def)
  next
    case False
    then have "fst (write_on s (d # ds)) = replicate 0 True @ replicate (length (d # ds) - 0) False"
      using shut_for_good [OF refused [OF False]] by (simp add: case_prod_beta Let_def)
    then show ?thesis by (intro exI [of _ 0]) simp
  qed
qed simp

end

section \<open>The queue\<close>

record byte_queue =
  bq_limit :: nat
  bq_items :: "bytes list"
  bq_size :: nat
  bq_closed :: bool

definition new_queue :: "nat \<Rightarrow> byte_queue" where
  "new_queue limit = \<lparr>bq_limit = limit, bq_items = [], bq_size = 0, bq_closed = False\<rparr>"

definition queue_put :: "byte_queue \<Rightarrow> bytes \<Rightarrow> bool \<times> byte_queue" where
  "queue_put q data =
     (if bq_closed q then (False, q)
      else if bq_limit q < bq_size q + length data then (False, q)
      else (True, q\<lparr>bq_items := bq_items q @ [data], bq_size := bq_size q + length data\<rparr>))"

definition queue_clear :: "byte_queue \<Rightarrow> byte_queue" where
  "queue_clear q = q\<lparr>bq_items := [], bq_size := 0\<rparr>"

text \<open>\<open>get\<close> once the wait is over: the next item, or nothing.\<close>

definition queue_get :: "byte_queue \<Rightarrow> bytes option \<times> byte_queue" where
  "queue_get q =
     (case bq_items q of
        [] \<Rightarrow> (None, q)
      | data # rest \<Rightarrow> (Some data, q\<lparr>bq_items := rest, bq_size := bq_size q - length data\<rparr>))"

definition queue_close :: "byte_queue \<Rightarrow> byte_queue" where
  "queue_close q = q\<lparr>bq_closed := True\<rparr>"

definition queue_ok :: "nat \<Rightarrow> byte_queue \<Rightarrow> bool" where
  "queue_ok limit q \<longleftrightarrow> bq_limit q = limit \<and> bq_size q = sum_list (map length (bq_items q)) \<and> bq_size q \<le> limit"

lemma queue_ok_intros [simp, intro]:
  "queue_ok limit (new_queue limit)"
  "queue_ok limit q \<Longrightarrow> queue_ok limit (snd (queue_put q data))"
  "queue_ok limit q \<Longrightarrow> queue_ok limit (queue_clear q)"
  "queue_ok limit q \<Longrightarrow> queue_ok limit (snd (queue_get q))"
  "queue_ok limit q \<Longrightarrow> queue_ok limit (queue_close q)"
  by (auto simp: queue_ok_def new_queue_def queue_put_def queue_clear_def queue_get_def queue_close_def split: list.split)

section \<open>PipeSink\<close>

datatype sink_state = SinkIdle | SinkConnecting | SinkLive | SinkBackoff | SinkFailed | SinkStopped

definition QUEUE_BYTES :: nat where "QUEUE_BYTES = 6 * 1024 * 1024"
definition BACKOFF :: "rat list" where "BACKOFF = [1, 2, 4, 8, 15, 30]"
definition STABLE_SECONDS :: rat where "STABLE_SECONDS = 30"
definition FSYNC_SECONDS :: rat where "FSYNC_SECONDS = 1"

text \<open>
  One opening of the sink: its queue, the child behind it, whether the writer thread still runs, and
  what the child was written. \<open>cn_header\<close> and \<open>cn_asked\<close> only record what the relay sent here, with
  the keyframe flag of each cluster; no operation reads them.
\<close>

record connection =
  cn_queue :: byte_queue
  cn_stopping :: bool
  cn_writing :: bool
  cn_got :: "bytes list"
  cn_header :: bytes
  cn_asked :: "(bytes \<times> bool) list"

record pipe_sink =
  ps_limit :: nat
  ps_conns :: "connection list"
  ps_child :: "nat option"
  ps_queue :: "nat option"
  ps_failures :: nat
  ps_not_before :: rat
  ps_resync :: bool
  ps_closing :: bool
  ps_state :: sink_state
  ps_restarts :: nat
  ps_dropped :: nat
  ps_accepted :: nat
  ps_net :: int
  ps_error :: string
  ps_speed :: rat
  ps_last_progress :: rat
  ps_connected_at :: rat
  ps_ever_live :: bool

definition new_pipe :: "nat \<Rightarrow> pipe_sink" where
  "new_pipe limit =
     \<lparr>ps_limit = limit, ps_conns = [], ps_child = None, ps_queue = None, ps_failures = 0, ps_not_before = 0,
      ps_resync = False, ps_closing = False, ps_state = SinkIdle, ps_restarts = 0, ps_dropped = 0, ps_accepted = 0,
      ps_net = 0, ps_error = '''', ps_speed = 0, ps_last_progress = 0, ps_connected_at = 0, ps_ever_live = False\<rparr>"

definition at_conn :: "nat option \<Rightarrow> (connection \<Rightarrow> connection) \<Rightarrow> pipe_sink \<Rightarrow> pipe_sink" where
  "at_conn i f s = (case i of None \<Rightarrow> s | Some k \<Rightarrow> s\<lparr>ps_conns := (ps_conns s)[k := f (ps_conns s ! k)]\<rparr>)"

definition with_queue :: "(byte_queue \<Rightarrow> byte_queue) \<Rightarrow> connection \<Rightarrow> connection" where
  "with_queue f c = c\<lparr>cn_queue := f (cn_queue c)\<rparr>"

definition teardown :: "pipe_sink \<Rightarrow> pipe_sink" where
  "teardown s =
     at_conn (ps_child s) (\<lambda>c. c\<lparr>cn_stopping := True\<rparr>)
       (at_conn (ps_queue s) (with_queue queue_close) (s\<lparr>ps_child := None, ps_queue := None\<rparr>))"

text \<open>\<open>_fail\<close>; \<open>now\<close> is the clock it reads.\<close>

definition pipe_fail :: "rat \<Rightarrow> string \<Rightarrow> pipe_sink \<Rightarrow> pipe_sink" where
  "pipe_fail now reason s =
     s\<lparr>ps_not_before := now + BACKOFF ! min (ps_failures s) (length BACKOFF - 1), ps_failures := ps_failures s + 1,
       ps_restarts := ps_restarts s + 1, ps_error := reason, ps_state := SinkBackoff, ps_speed := 0\<rparr>"

text \<open>\<open>spawned\<close>: the reason when the child could not be started, else nothing; \<open>late\<close> is the clock \<open>_fail\<close> reads.\<close>

definition pipe_open :: "rat \<Rightarrow> rat \<Rightarrow> bytes \<Rightarrow> string option \<Rightarrow> pipe_sink \<Rightarrow> unit result \<times> pipe_sink" where
  "pipe_open now late header spawned s =
     (if ps_closing s then (Inl (OSError ''the sink is shut down''), s)
      else if now < ps_not_before s then (Inl (OSError ''waiting before it reconnects''), s)
      else
        let s1 = teardown s; k = length (ps_conns s1);
            c = \<lparr>cn_queue = new_queue (ps_limit s1), cn_stopping = False, cn_writing = False, cn_got = [],
                 cn_header = header, cn_asked = []\<rparr>;
            s2 = s1\<lparr>ps_conns := ps_conns s1 @ [c], ps_queue := Some k, ps_resync := False\<rparr>
        in case spawned of
             Some reason \<Rightarrow>
               (Inl (OSError (''cannot start ffmpeg: '' @ reason)), pipe_fail late (''cannot start ffmpeg: '' @ reason) s2)
           | None \<Rightarrow>
               (Inr (), at_conn (Some k) (\<lambda>c. (with_queue (\<lambda>q. snd (queue_put q header)) c)\<lparr>cn_writing := True\<rparr>)
                  (s2\<lparr>ps_child := Some k, ps_state := SinkConnecting, ps_connected_at := 0\<rparr>)))"

definition pipe_write :: "pipe_sink \<Rightarrow> bytes \<times> nat \<times> bool \<Rightarrow> bool \<times> pipe_sink" where
  "pipe_write s = (\<lambda>(data, video_blocks, keyframe).
     if ps_queue s = None \<or> ps_child s = None \<or> ps_closing s then (False, s)
     else
       let s0 = at_conn (ps_queue s) (\<lambda>c. c\<lparr>cn_asked := cn_asked c @ [(data, keyframe)]\<rparr>) s
       in if ps_resync s \<and> \<not> keyframe then (True, s0\<lparr>ps_dropped := ps_dropped s + video_blocks\<rparr>)
          else
            let s1 = s0\<lparr>ps_resync := False\<rparr>; q = cn_queue (ps_conns s1 ! the (ps_queue s1))
            in case queue_put q data of
                 (True, q1) \<Rightarrow>
                   (True, (at_conn (ps_queue s1) (with_queue (\<lambda>_. q1)) s1)\<lparr>ps_accepted := ps_accepted s + length data\<rparr>)
               | (False, _) \<Rightarrow>
                   (True, (at_conn (ps_queue s1) (with_queue queue_clear) s1)
                      \<lparr>ps_dropped := ps_dropped s + video_blocks, ps_resync := True\<rparr>))"

definition pipe_close :: "pipe_sink \<Rightarrow> pipe_sink" where
  "pipe_close s =
     (let s1 = teardown (s\<lparr>ps_closing := False\<rparr>)
      in if ps_state s1 = SinkFailed \<or> ps_state s1 = SinkBackoff then s1 else s1\<lparr>ps_state := SinkIdle\<rparr>)"

definition pipe_shutdown :: "pipe_sink \<Rightarrow> pipe_sink" where
  "pipe_shutdown s = (teardown (s\<lparr>ps_closing := True\<rparr>))\<lparr>ps_state := SinkStopped\<rparr>"

text \<open>One turn of the writer thread of opening \<open>k\<close>; \<open>ok\<close>: the write to the child's stdin did not raise.\<close>

definition writer_turn :: "nat \<Rightarrow> bool \<Rightarrow> pipe_sink \<Rightarrow> pipe_sink" where
  "writer_turn k ok s =
     (if k < length (ps_conns s) \<and> cn_writing (ps_conns s ! k)
      then at_conn (Some k) (\<lambda>c.
        case queue_get (cn_queue c) of
          (None, _) \<Rightarrow> if bq_closed (cn_queue c) then c\<lparr>cn_writing := False\<rparr> else c
        | (Some data, q) \<Rightarrow>
            if ok then c\<lparr>cn_queue := q, cn_got := cn_got c @ [data]\<rparr> else c\<lparr>cn_queue := q, cn_writing := False\<rparr>) s
      else s)"

text \<open>
  The exit callback. It has no child of its own: it looks at the sink's current one, whichever child's
  exit it reports. \<open>now\<close> and \<open>late\<close> are the two clocks it reads.
\<close>

definition pipe_exited :: "rat \<Rightarrow> rat \<Rightarrow> string \<Rightarrow> pipe_sink \<Rightarrow> pipe_sink" where
  "pipe_exited now late reason s =
     (case ps_child s of
        None \<Rightarrow> s
      | Some k \<Rightarrow>
          if cn_stopping (ps_conns s ! k) then s
          else
            let lasted = (if ps_connected_at s \<noteq> 0 then now - ps_connected_at s else 0);
                s1 = (at_conn (ps_queue s) (with_queue queue_close) (s\<lparr>ps_child := None\<rparr>))\<lparr>ps_queue := None\<rparr>;
                s2 = (if STABLE_SECONDS \<le> lasted then s1\<lparr>ps_failures := 0\<rparr> else s1)
            in pipe_fail late reason s2)"

text \<open>A progress report of the child: the bytes that left so far and the speed, when they could be read.\<close>

definition pipe_progress :: "rat \<Rightarrow> int \<Rightarrow> rat option \<Rightarrow> pipe_sink \<Rightarrow> pipe_sink" where
  "pipe_progress now total_size speed s =
     (if 0 < total_size then
        let s1 = (if ps_state s = SinkConnecting
                  then s\<lparr>ps_state := SinkLive, ps_ever_live := True, ps_connected_at := now\<rparr> else s)
        in s1\<lparr>ps_net := total_size, ps_last_progress := now,
              ps_speed := (case speed of None \<Rightarrow> ps_speed s1 | Some x \<Rightarrow> x)\<rparr>
      else s)"

section \<open>Every order of events\<close>

datatype pipe_input =
    PipeOpen rat rat bytes "string option"
  | PipeWrite bytes nat bool
  | PipeClose
  | PipeShutdown
  | WriterTurn nat bool
  | PipeExited rat rat string
  | PipeProgress rat int "rat option"

fun pipe_step :: "pipe_input \<Rightarrow> pipe_sink \<Rightarrow> pipe_sink" where
  "pipe_step (PipeOpen now late header spawned) s = snd (pipe_open now late header spawned s)"
| "pipe_step (PipeWrite data n key) s = snd (pipe_write s (data, n, key))"
| "pipe_step PipeClose s = pipe_close s"
| "pipe_step PipeShutdown s = pipe_shutdown s"
| "pipe_step (WriterTurn k ok) s = writer_turn k ok s"
| "pipe_step (PipeExited now late reason) s = pipe_exited now late reason s"
| "pipe_step (PipeProgress now total_size speed) s = pipe_progress now total_size speed s"

definition pipe_run :: "nat \<Rightarrow> pipe_input list \<Rightarrow> pipe_sink" where
  "pipe_run limit is = fold pipe_step is (new_pipe limit)"

text \<open>
  \<open>rejoins asked n sel\<close>: of the clusters a sink was asked to write, those at the positions \<open>sel\<close>, from
  \<open>n\<close> on, are in order, and where one was left out the next is a keyframe.
\<close>

fun rejoins :: "(bytes \<times> bool) list \<Rightarrow> nat \<Rightarrow> nat list \<Rightarrow> bool" where
  "rejoins asked n [] \<longleftrightarrow> True"
| "rejoins asked n (i # sel) \<longleftrightarrow>
     n \<le> i \<and> i < length asked \<and> (i = n \<or> snd (asked ! i)) \<and> rejoins asked (Suc i) sel"

definition reached :: "nat \<Rightarrow> nat list \<Rightarrow> nat" where
  "reached n sel = (if sel = [] then n else Suc (last sel))"

lemma reached_simps [simp]:
  "reached n [] = n"
  "reached n (i # sel) = reached (Suc i) sel"
  "reached n (sel @ [i]) = Suc i"
  by (simp_all add: reached_def)

lemma rejoins_append: "rejoins asked n (xs @ ys) \<longleftrightarrow> rejoins asked n xs \<and> rejoins asked (reached n xs) ys"
  by (induction xs arbitrary: n) auto

lemma rejoins_grow: "rejoins asked n sel \<Longrightarrow> rejoins (asked @ [a]) n sel"
  by (induction sel arbitrary: n) (auto simp: nth_append)

lemma rejoins_take: "rejoins asked n sel \<Longrightarrow> rejoins asked n (take k sel)"
  using rejoins_append [of asked n "take k sel" "drop k sel"] by simp

lemma rejoins_bound: "rejoins asked n sel \<Longrightarrow> n \<le> length asked \<Longrightarrow> reached n sel \<le> length asked"
  by (induction sel arbitrary: n) auto

lemma rejoins_snoc:
  assumes "rejoins asked 0 sel" and "reached 0 sel = length asked \<or> key"
  shows "rejoins (asked @ [(d, key)]) 0 (sel @ [length asked])"
  using rejoins_bound [OF assms(1)] rejoins_grow [OF assms(1)] assms(2) by (auto simp: rejoins_append)

lemma rejoins_in: "rejoins asked n sel \<Longrightarrow> i \<in> set sel \<Longrightarrow> i < length asked"
  by (induction sel arbitrary: n) auto

definition picked :: "(bytes \<times> bool) list \<Rightarrow> nat list \<Rightarrow> bytes list" where
  "picked asked sel = map (\<lambda>i. fst (asked ! i)) sel"

lemma picked_simps [simp]:
  "picked asked [] = []"
  "picked asked (xs @ ys) = picked asked xs @ picked asked ys"
  "picked (asked @ [a]) [length asked] = [fst a]"
  "take m (picked asked sel) = picked asked (take m sel)"
  by (simp_all add: picked_def take_map)

lemma picked_grow [simp]: "rejoins asked n sel \<Longrightarrow> picked (asked @ [a]) sel = picked asked sel"
  unfolding picked_def using rejoins_in by (auto simp: nth_append)

text \<open>What the child of an opening got or will get, while its writer thread runs.\<close>

definition delivered :: "connection \<Rightarrow> bytes list" where
  "delivered c = cn_got c @ (if cn_writing c then bq_items (cn_queue c) else [])"

definition stream_ok :: "connection \<Rightarrow> bool \<Rightarrow> bool" where
  "stream_ok c in_step \<longleftrightarrow>
     (\<exists>hs sel. hs \<in> {[], [cn_header c]} \<and> delivered c = hs @ picked (cn_asked c) sel \<and> rejoins (cn_asked c) 0 sel \<and>
        (in_step \<and> cn_writing c \<longrightarrow> reached 0 sel = length (cn_asked c)))"

lemma stream_okI:
  "hs \<in> {[], [cn_header c]} \<Longrightarrow> delivered c = hs @ picked (cn_asked c) sel \<Longrightarrow> rejoins (cn_asked c) 0 sel \<Longrightarrow>
    (in_step \<Longrightarrow> cn_writing c \<Longrightarrow> reached 0 sel = length (cn_asked c)) \<Longrightarrow> stream_ok c in_step"
  by (auto simp: stream_ok_def)

lemma stream_okE:
  assumes "stream_ok c in_step"
  obtains hs sel where "hs \<in> {[], [cn_header c]}" "delivered c = hs @ picked (cn_asked c) sel"
    "rejoins (cn_asked c) 0 sel" "in_step \<Longrightarrow> cn_writing c \<Longrightarrow> reached 0 sel = length (cn_asked c)"
  using assms by (auto simp: stream_ok_def)

lemma stream_ok_weaken: "stream_ok c True \<Longrightarrow> stream_ok c b"
  by (auto simp: stream_ok_def)

text \<open>A cluster is queued, left out, or makes the queue drop what waits.\<close>

lemma stream_ok_queued:
  assumes "stream_ok c b" and "b \<or> key" and "queue_put (cn_queue c) data = (True, q)"
  shows "stream_ok (c\<lparr>cn_asked := cn_asked c @ [(data, key)], cn_queue := q\<rparr>) True"
  using assms(1)
proof (rule stream_okE)
  fix hs sel
  assume s: "hs \<in> {[], [cn_header c]}" "delivered c = hs @ picked (cn_asked c) sel" "rejoins (cn_asked c) 0 sel"
      "b \<Longrightarrow> cn_writing c \<Longrightarrow> reached 0 sel = length (cn_asked c)"
  have items: "bq_items q = bq_items (cn_queue c) @ [data]"
    using assms(3) by (auto simp: queue_put_def split: if_splits)
  let ?sel = "if cn_writing c then sel @ [length (cn_asked c)] else sel"
  have "rejoins (cn_asked c @ [(data, key)]) 0 ?sel"
    using s(3,4) assms(2) rejoins_snoc rejoins_grow by auto
  with s items show ?thesis
    by (intro stream_okI [of hs _ ?sel]) (auto simp: delivered_def)
qed

lemma stream_ok_left_out:
  assumes "stream_ok c b"
  shows "stream_ok (c\<lparr>cn_asked := cn_asked c @ [a]\<rparr>) False"
  using assms
proof (rule stream_okE)
  fix hs sel
  assume "hs \<in> {[], [cn_header c]}" "delivered c = hs @ picked (cn_asked c) sel" "rejoins (cn_asked c) 0 sel"
  then show ?thesis by (intro stream_okI [of hs _ sel]) (auto simp: delivered_def rejoins_grow)
qed

lemma stream_ok_take:
  assumes "stream_ok c b" and "delivered c' = take m (delivered c)" and "cn_header c' = cn_header c"
    and "cn_asked c' = cn_asked c"
  shows "stream_ok c' False"
  using assms(1)
proof (rule stream_okE)
  fix hs sel
  assume s: "hs \<in> {[], [cn_header c]}" "delivered c = hs @ picked (cn_asked c) sel" "rejoins (cn_asked c) 0 sel"
  have "take m hs \<in> {[], [cn_header c]}" using s(1) by (cases m) auto
  then show ?thesis
    using s assms by (intro stream_okI [of "take m hs" _ "take (m - length hs) sel"]) (auto simp: rejoins_take)
qed

lemma queue_fields [simp]:
  "bq_items (queue_close q) = bq_items q" "bq_closed (queue_close q)"
  "bq_items (queue_clear q) = []" "bq_closed (queue_clear q) = bq_closed q"
  "bq_closed (snd (queue_put q d)) = bq_closed q" "bq_closed (snd (queue_get q)) = bq_closed q"
  by (simp_all add: queue_close_def queue_clear_def queue_put_def queue_get_def split: list.split)

definition conns_ok :: "pipe_sink \<Rightarrow> (nat \<Rightarrow> bool) \<Rightarrow> bool" where
  "conns_ok s in_step \<longleftrightarrow>
     (\<forall>k<length (ps_conns s). queue_ok (ps_limit s) (cn_queue (ps_conns s ! k)) \<and> stream_ok (ps_conns s ! k) (in_step k))"

definition pipe_inv :: "pipe_sink \<Rightarrow> bool" where
  "pipe_inv s \<longleftrightarrow>
     conns_ok s (\<lambda>k. ps_queue s = Some k \<and> \<not> ps_resync s) \<and>
     (\<forall>k. ps_queue s = Some k \<longrightarrow> k < length (ps_conns s) \<and> \<not> bq_closed (cn_queue (ps_conns s ! k))) \<and>
     (\<forall>k. ps_child s = Some k \<longrightarrow> ps_queue s = Some k \<and> \<not> cn_stopping (ps_conns s ! k))"

lemma at_conn_fields [simp]:
  "ps_child (at_conn k f s) = ps_child s" "ps_queue (at_conn k f s) = ps_queue s"
  "ps_resync (at_conn k f s) = ps_resync s" "ps_limit (at_conn k f s) = ps_limit s"
  "ps_closing (at_conn k f s) = ps_closing s" "ps_state (at_conn k f s) = ps_state s"
  "ps_failures (at_conn k f s) = ps_failures s" "ps_not_before (at_conn k f s) = ps_not_before s"
  "ps_dropped (at_conn k f s) = ps_dropped s" "ps_accepted (at_conn k f s) = ps_accepted s"
  "length (ps_conns (at_conn k f s)) = length (ps_conns s)"
  by (simp_all add: at_conn_def split: option.split)

lemma at_conn_nth:
  "j < length (ps_conns s) \<Longrightarrow> ps_conns (at_conn k f s) ! j = (if k = Some j then f (ps_conns s ! j) else ps_conns s ! j)"
  by (auto simp: at_conn_def nth_list_update split: option.split)

lemma stream_ok_mono: "stream_ok c b \<Longrightarrow> (b' \<Longrightarrow> b) \<Longrightarrow> stream_ok c b'"
  by (elim stream_okE) (auto intro: stream_okI)

lemma stream_ok_same:
  "stream_ok c b \<Longrightarrow> delivered c' = delivered c \<Longrightarrow> cn_writing c' = cn_writing c \<Longrightarrow>
    cn_header c' = cn_header c \<Longrightarrow> cn_asked c' = cn_asked c \<Longrightarrow> stream_ok c' b"
  by (simp add: stream_ok_def)

lemma stream_ok_stopped:
  "stream_ok c b \<Longrightarrow> delivered c' = delivered c \<Longrightarrow> \<not> cn_writing c' \<Longrightarrow>
    cn_header c' = cn_header c \<Longrightarrow> cn_asked c' = cn_asked c \<Longrightarrow> stream_ok c' b'"
  by (auto simp: stream_ok_def)

lemma conns_ok_at_conn:
  assumes "conns_ok s P"
    and "\<And>j. k = Some j \<Longrightarrow> queue_ok (ps_limit s) (cn_queue (ps_conns s ! j)) \<Longrightarrow> stream_ok (ps_conns s ! j) (P j) \<Longrightarrow>
      queue_ok (ps_limit s) (cn_queue (f (ps_conns s ! j))) \<and> stream_ok (f (ps_conns s ! j)) (Q j)"
    and "\<And>j. k \<noteq> Some j \<Longrightarrow> Q j \<Longrightarrow> P j"
  shows "conns_ok (at_conn k f s) Q"
  unfolding conns_ok_def
proof (intro allI impI)
  fix j assume "j < length (ps_conns (at_conn k f s))"
  then have j: "j < length (ps_conns s)" by simp
  then have ok: "queue_ok (ps_limit s) (cn_queue (ps_conns s ! j))" "stream_ok (ps_conns s ! j) (P j)"
    using assms(1) by (simp_all add: conns_ok_def)
  show "queue_ok (ps_limit (at_conn k f s)) (cn_queue (ps_conns (at_conn k f s) ! j)) \<and>
      stream_ok (ps_conns (at_conn k f s) ! j) (Q j)"
  proof (cases "k = Some j")
    case True
    then show ?thesis using assms(2) [OF True ok] j by (simp add: at_conn_nth)
  next
    case False
    then show ?thesis using ok stream_ok_mono [OF ok(2)] assms(3) j by (simp add: at_conn_nth)
  qed
qed

lemma teardown_inv:
  assumes "pipe_inv s"
  shows "pipe_inv (teardown s)" and "ps_child (teardown s) = None" and "ps_queue (teardown s) = None"
proof -
  let ?s1 = "at_conn (ps_queue s) (with_queue queue_close) (s\<lparr>ps_child := None, ps_queue := None\<rparr>)"
  have "conns_ok (s\<lparr>ps_child := None, ps_queue := None\<rparr>) (\<lambda>k. ps_queue s = Some k \<and> \<not> ps_resync s)"
    using assms by (simp add: pipe_inv_def conns_ok_def)
  then have "conns_ok ?s1 (\<lambda>k. False)"
    by (rule conns_ok_at_conn)
       (auto simp: with_queue_def elim!: stream_ok_same [OF stream_ok_mono] simp: delivered_def)
  then have "conns_ok (at_conn (ps_child s) (\<lambda>c. c\<lparr>cn_stopping := True\<rparr>) ?s1) (\<lambda>k. False)"
    by (rule conns_ok_at_conn) (auto elim!: stream_ok_same simp: delivered_def)
  then show "pipe_inv (teardown s)" by (simp add: pipe_inv_def teardown_def conns_ok_def)
  show "ps_child (teardown s) = None" "ps_queue (teardown s) = None" by (simp_all add: teardown_def)
qed

lemma pipe_fail_inv [simp]: "pipe_inv (pipe_fail now reason s) = pipe_inv s"
  by (simp add: pipe_fail_def pipe_inv_def conns_ok_def)

lemma pipe_close_inv: "pipe_inv s \<Longrightarrow> pipe_inv (pipe_close s)"
  using teardown_inv(1) [of "s\<lparr>ps_closing := False\<rparr>"]
  by (auto simp: pipe_close_def Let_def pipe_inv_def conns_ok_def)

lemma pipe_shutdown_inv: "pipe_inv s \<Longrightarrow> pipe_inv (pipe_shutdown s)"
  using teardown_inv(1) [of "s\<lparr>ps_closing := True\<rparr>"]
  by (auto simp: pipe_shutdown_def pipe_inv_def conns_ok_def)

lemma pipe_progress_inv: "pipe_inv s \<Longrightarrow> pipe_inv (pipe_progress now total_size speed s)"
  by (auto simp: pipe_progress_def Let_def pipe_inv_def conns_ok_def)

lemma pipe_exited_inv:
  assumes "pipe_inv s"
  shows "pipe_inv (pipe_exited now late reason s)"
proof (cases "ps_child s = None \<or> (\<exists>k. ps_child s = Some k \<and> cn_stopping (ps_conns s ! k))")
  case True
  then show ?thesis using assms by (auto simp: pipe_exited_def)
next
  case False
  define s1 where "s1 = at_conn (ps_queue s) (with_queue queue_close) (s\<lparr>ps_child := None\<rparr>)"
  have "conns_ok (s\<lparr>ps_child := None\<rparr>) (\<lambda>k. ps_queue s = Some k \<and> \<not> ps_resync s)"
    using assms by (simp add: pipe_inv_def conns_ok_def)
  then have "conns_ok s1 (\<lambda>k. False)"
    unfolding s1_def by (rule conns_ok_at_conn)
       (auto simp: with_queue_def elim!: stream_ok_same [OF stream_ok_mono] simp: delivered_def)
  then have "pipe_inv (s1\<lparr>ps_queue := None\<rparr>)" "pipe_inv (s1\<lparr>ps_queue := None, ps_failures := 0\<rparr>)"
    by (simp_all add: pipe_inv_def conns_ok_def s1_def)
  with False show ?thesis
    by (auto simp: pipe_exited_def Let_def s1_def)
qed

lemma pipe_open_inv:
  assumes "pipe_inv s"
  shows "pipe_inv (snd (pipe_open now late header spawned s))"
proof (cases "ps_closing s \<or> now < ps_not_before s")
  case True
  with assms show ?thesis by (auto simp: pipe_open_def)
next
  case False
  define s1 where "s1 = teardown s"
  define k where "k = length (ps_conns s1)"
  define c where "c = \<lparr>cn_queue = new_queue (ps_limit s1), cn_stopping = False, cn_writing = False, cn_got = [],
    cn_header = header, cn_asked = []\<rparr>"
  define s2 where "s2 = s1\<lparr>ps_conns := ps_conns s1 @ [c], ps_queue := Some k, ps_resync := False\<rparr>"
  note t = teardown_inv [OF assms, folded s1_def]
  have c: "stream_ok c b" "queue_ok (ps_limit s1) (cn_queue c)" for b
    by (auto intro!: stream_okI [of "[]" _ "[]"] simp: c_def delivered_def)
  have "conns_ok s2 (\<lambda>j. j = k)"
    using t(1,3) c by (auto simp: s2_def k_def pipe_inv_def conns_ok_def nth_append less_Suc_eq)
  moreover have "(\<lambda>j. ps_queue s2 = Some j \<and> \<not> ps_resync s2) = (\<lambda>j. j = k)" by (auto simp: s2_def)
  ultimately have inv2: "pipe_inv s2"
    using t(2) by (simp add: pipe_inv_def) (simp add: s2_def k_def c_def new_queue_def)
  define s3 where "s3 = s2\<lparr>ps_child := Some k, ps_state := SinkConnecting, ps_connected_at := 0\<rparr>"
  define f :: "connection \<Rightarrow> connection"
    where "f = (\<lambda>c. (with_queue (\<lambda>q. snd (queue_put q header)) c)\<lparr>cn_writing := True\<rparr>)"
  have put: "bq_items (snd (queue_put (new_queue n) header)) \<in> {[], [header]}" for n
    by (simp add: queue_put_def new_queue_def)
  have fc: "queue_ok (ps_limit s1) (cn_queue (f c))" "stream_ok (f c) True" "\<not> bq_closed (cn_queue (f c))"
      "\<not> cn_stopping (f c)"
    using put [of "ps_limit s1"]
    by (auto simp: f_def with_queue_def c_def delivered_def new_queue_def
        intro: stream_okI [of "[header]" _ "[]"] stream_okI [of "[]" _ "[]"] queue_ok_intros(1,2) [unfolded new_queue_def])
  have at_k: "ps_conns s3 ! k = c" "k < length (ps_conns s3)" by (simp_all add: s3_def s2_def k_def)
  have "conns_ok s3 (\<lambda>j. ps_queue s2 = Some j \<and> \<not> ps_resync s2)"
    using inv2 by (simp add: s3_def pipe_inv_def conns_ok_def)
  moreover have "ps_queue s2 = Some k" "ps_resync s2 = False" "ps_limit s3 = ps_limit s1" by (simp_all add: s2_def s3_def)
  ultimately have "conns_ok (at_conn (Some k) f s3) (\<lambda>j. ps_queue s2 = Some j \<and> \<not> ps_resync s2)"
    using fc at_k by (intro conns_ok_at_conn) auto
  then have "pipe_inv (at_conn (Some k) f s3)"
    using fc at_conn_nth [OF at_k(2), of "Some k" f] at_k by (simp add: pipe_inv_def) (simp add: s3_def s2_def)
  with inv2 False show ?thesis
    by (auto simp: pipe_open_def Let_def s1_def [symmetric] c_def [symmetric] k_def [symmetric] s2_def [symmetric]
        s3_def [symmetric] f_def [symmetric] split: option.split)
qed

lemma writer_turn_inv:
  assumes "pipe_inv s"
  shows "pipe_inv (writer_turn k ok s)"
proof (cases "k < length (ps_conns s) \<and> cn_writing (ps_conns s ! k)")
  case True
  define f :: "connection \<Rightarrow> connection" where "f = (\<lambda>c. case queue_get (cn_queue c) of
      (None, _) \<Rightarrow> if bq_closed (cn_queue c) then c\<lparr>cn_writing := False\<rparr> else c
    | (Some data, q) \<Rightarrow> if ok then c\<lparr>cn_queue := q, cn_got := cn_got c @ [data]\<rparr> else c\<lparr>cn_queue := q, cn_writing := False\<rparr>)"
  have step: "stream_ok (f c) b" if "stream_ok c b" "cn_writing c" for c b
  proof (cases "bq_items (cn_queue c)")
    case Nil
    with that show ?thesis
      by (cases "bq_closed (cn_queue c)")
         (auto simp: f_def queue_get_def delivered_def intro: stream_ok_stopped [OF that(1)])
  next
    case (Cons d rest)
    show ?thesis
    proof (cases ok)
      case True
      with Cons that show ?thesis
        by (intro stream_ok_same [OF that(1)]) (auto simp: f_def queue_get_def delivered_def)
    next
      case False
      with Cons that have "stream_ok (f c) False"
        by (intro stream_ok_take [OF that(1), of _ "length (cn_got c)"]) (auto simp: f_def queue_get_def delivered_def)
      with False Cons show ?thesis by (auto simp: f_def queue_get_def intro: stream_ok_stopped)
    qed
  qed
  have q: "queue_ok l (cn_queue (f c))" if "queue_ok l (cn_queue c)" for c l
    using queue_ok_intros(4) [OF that] that by (cases "queue_get (cn_queue c)") (auto simp: f_def split: option.split)
  have closed: "bq_closed (cn_queue (f c)) = bq_closed (cn_queue c)" "cn_stopping (f c) = cn_stopping c" for c
    by (auto simp: f_def queue_get_def split: list.split)
  have "conns_ok (at_conn (Some k) f s) (\<lambda>k. ps_queue s = Some k \<and> \<not> ps_resync s)"
    using assms True step q unfolding pipe_inv_def conns_ok_def by (auto simp: at_conn_nth)
  with assms have "pipe_inv (at_conn (Some k) f s)"
    by (auto simp: pipe_inv_def at_conn_nth closed)
  with True show ?thesis by (simp add: writer_turn_def f_def)
next
  case False
  with assms show ?thesis by (auto simp: writer_turn_def)
qed

lemma pipe_write_inv:
  assumes "pipe_inv s"
  shows "pipe_inv (snd (pipe_write s (data, n, key)))"
proof (cases "ps_queue s = None \<or> ps_child s = None \<or> ps_closing s")
  case True
  then show ?thesis using assms by (auto simp: pipe_write_def)
next
  case False
  then obtain k where k: "ps_queue s = Some k" "k < length (ps_conns s)" "ps_child s = Some k"
    using assms by (auto simp: pipe_inv_def)
  define c where "c = ps_conns s ! k"
  have conns: "conns_ok s (\<lambda>j. ps_queue s = Some j \<and> \<not> ps_resync s)" using assms by (simp add: pipe_inv_def)
  then have c: "queue_ok (ps_limit s) (cn_queue c)" "stream_ok c (\<not> ps_resync s)"
    using k by (auto simp: conns_ok_def c_def)
  have known: "\<not> bq_closed (cn_queue c)" "\<not> cn_stopping c" using assms k by (auto simp: pipe_inv_def c_def)
  let ?asked = "c\<lparr>cn_asked := cn_asked c @ [(data, key)]\<rparr>"
  have update: "pipe_inv s'"
    if "ps_conns s' = (ps_conns s)[k := c']" "queue_ok (ps_limit s) (cn_queue c')" "stream_ok c' (\<not> ps_resync s')"
      "\<not> bq_closed (cn_queue c')" "\<not> cn_stopping c'" "ps_limit s' = ps_limit s" "ps_queue s' = Some k" "ps_child s' = Some k"
    for s' c'
    using that conns k stream_ok_mono
    unfolding pipe_inv_def conns_ok_def by (auto simp: nth_list_update)
  show ?thesis
  proof (cases "ps_resync s \<and> \<not> key")
    case True
    have "stream_ok ?asked False" using c(2) by (rule stream_ok_left_out)
    then show ?thesis
      using True False k c known
      by (intro update [of _ ?asked]) (auto simp: pipe_write_def Let_def at_conn_def c_def)
  next
    case sent: False
    obtain ok q where put: "queue_put (cn_queue c) data = (ok, q)" by (rule prod.exhaust)
    have q: "queue_ok (ps_limit s) q" "bq_closed q = bq_closed (cn_queue c)"
      using queue_ok_intros(2) [OF c(1), of data] put queue_fields(5) [of "cn_queue c" data] by simp_all
    show ?thesis
    proof (cases ok)
      case True
      have "stream_ok (?asked\<lparr>cn_queue := q\<rparr>) True"
        using stream_ok_queued [OF c(2), of key data q] sent put True by auto
      then show ?thesis
        using True False sent k q known put
        by (intro update [of _ "?asked\<lparr>cn_queue := q\<rparr>"])
           (auto simp: pipe_write_def Let_def at_conn_def with_queue_def c_def)
    next
      case full: False
      let ?c = "?asked\<lparr>cn_queue := queue_clear (cn_queue c)\<rparr>"
      have "stream_ok ?c False"
        by (rule stream_ok_take [OF stream_ok_left_out [OF c(2)], of _ "length (cn_got c)"]) (simp_all add: delivered_def)
      then show ?thesis
        using full False sent k c known put
        by (intro update [of _ ?c])
           (auto simp: pipe_write_def Let_def at_conn_def with_queue_def c_def)
    qed
  qed
qed

lemma pipe_step_inv: "pipe_inv s \<Longrightarrow> pipe_inv (pipe_step i s)"
  by (cases i) (simp_all add: pipe_open_inv pipe_write_inv pipe_close_inv pipe_shutdown_inv writer_turn_inv
      pipe_exited_inv pipe_progress_inv)

lemma pipe_step_limit: "ps_limit (pipe_step i s) = ps_limit s"
  by (cases i)
     (auto simp: pipe_open_def pipe_write_def pipe_close_def pipe_shutdown_def writer_turn_def pipe_exited_def
        pipe_progress_def teardown_def pipe_fail_def Let_def split: option.split prod.split bool.split)

lemma pipe_run_inv: "pipe_inv (pipe_run limit is) \<and> ps_limit (pipe_run limit is) = limit"
proof -
  have "pipe_inv s \<Longrightarrow> pipe_inv (fold pipe_step is s) \<and> ps_limit (fold pipe_step is s) = ps_limit s" for s
    by (induction "is" arbitrary: s) (simp_all add: pipe_step_inv pipe_step_limit)
  moreover have "pipe_inv (new_pipe limit)" "ps_limit (new_pipe limit) = limit"
    by (simp_all add: new_pipe_def pipe_inv_def conns_ok_def)
  ultimately show ?thesis by (simp add: pipe_run_def)
qed

definition pipe_shut :: "pipe_sink \<Rightarrow> bool" where
  "pipe_shut s \<longleftrightarrow> ps_queue s = None \<or> ps_child s = None \<or> ps_closing s"

interpretation pipe: relay_sink pipe_write pipe_shut
  by unfold_locales
    (auto simp: pipe_write_def pipe_shut_def Let_def split: prod.split bool.split if_splits)

text \<open>
  C18. What a destination's ffmpeg reads on its stdin is playable again after every gap, whatever the
  relay, the writer thread, the exits and the progress reports do in whatever order: at most the header,
  then clusters the relay sent to this opening, in order, and wherever some were left out the next one
  starts at a keyframe. And no queue ever holds more than its limit.
\<close>

theorem pipe_rejoins_at_keyframes:
  assumes "k < length (ps_conns (pipe_run limit is))" and "c = ps_conns (pipe_run limit is) ! k"
  shows "(\<exists>hs sel. hs \<in> {[], [cn_header c]} \<and> cn_got c = hs @ map (\<lambda>i. fst (cn_asked c ! i)) sel \<and>
      rejoins (cn_asked c) 0 sel) \<and>
    sum_list (map length (bq_items (cn_queue c))) \<le> limit"
proof -
  from pipe_run_inv [of limit "is"] assms have ok: "queue_ok limit (cn_queue c)" "\<exists>b. stream_ok c b"
    by (auto simp: pipe_inv_def conns_ok_def)
  then obtain b where "stream_ok c b" by blast
  then have "stream_ok (c\<lparr>cn_writing := False\<rparr>) False"
    by (rule stream_ok_take [of _ _ _ "length (cn_got c)"]) (simp_all add: delivered_def)
  with ok(1) show ?thesis by (auto simp: stream_ok_def delivered_def picked_def queue_ok_def)
qed

text \<open>A limit of five bytes: the fourth byte of the second cluster does not fit, so what waits is dropped.\<close>

definition overflow_run :: "pipe_input list" where
  "overflow_run =
     [PipeOpen 1 1 [9] None, WriterTurn 0 True, PipeWrite [1, 1, 1] 1 True, PipeWrite [2, 2, 2] 1 False,
      PipeWrite [3] 1 False, PipeWrite [4] 1 True, WriterTurn 0 True]"

lemmas pipe_ops = pipe_run_def new_pipe_def pipe_open_def pipe_write_def writer_turn_def pipe_close_def
  pipe_shutdown_def pipe_exited_def pipe_fail_def teardown_def at_conn_def with_queue_def new_queue_def queue_put_def
  queue_get_def queue_clear_def queue_close_def Let_def

theorem pipe_rejoins_at_keyframes_witness:
  "let c = ps_conns (pipe_run 5 overflow_run) ! 0
   in cn_got c = [[9], [4]] \<and> rejoins (cn_asked c) 0 [3] \<and>
      (\<exists>hs sel. hs \<in> {[], [cn_header c]} \<and> cn_got c = hs @ map (\<lambda>i. fst (cn_asked c ! i)) sel \<and>
        rejoins (cn_asked c) 0 sel)"
proof -
  have "0 < length (ps_conns (pipe_run 5 overflow_run))" by (simp add: overflow_run_def pipe_ops)
  from pipe_rejoins_at_keyframes [OF this HOL.refl] show ?thesis
    by (simp add: Let_def) (simp add: overflow_run_def pipe_ops)
qed

text \<open>
  The header is in the same queue as the clusters: when a queue overflows before the writer thread
  took the header out, the header is dropped with the rest and ffmpeg is fed clusters without one.
\<close>

lemma overflow_drops_the_header:
  assumes "length h + length d \<le> limit" and "limit < length h + length d + length e" and "length f \<le> limit"
  shows "cn_got (ps_conns (pipe_run limit
      [PipeOpen 1 1 h None, PipeWrite d 1 True, PipeWrite e 1 False, PipeWrite f 1 True, WriterTurn 0 True]) ! 0) = [f]"
  using assms by (simp add: pipe_ops)



section \<open>FileSink\<close>

text \<open>
  A recording. The directory is the list of its files by name; \<open>fk_stem\<close> and \<open>fk_suffix\<close> are the parts of
  the first file's name. What the operating system does enters as a value: a write reports how many
  bytes it took (a raw file takes what it can) or an error.
\<close>

datatype file_io = Took nat | Refused string

record file_sink =
  fk_stem :: string
  fk_suffix :: string
  fk_file :: "string option"
  fk_segment :: nat
  fk_last_sync :: rat
  fk_written :: nat
  fk_dropped :: nat
  fk_state :: sink_state
  fk_error :: string
  fk_paths :: "string list"
  fk_disk :: "(string \<times> bytes) list"




definition close_locked :: "file_sink \<Rightarrow> file_sink" where
  "close_locked s = s\<lparr>fk_file := None\<rparr>"

definition file_fail :: "string \<Rightarrow> file_sink \<Rightarrow> file_sink" where
  "file_fail reason s =
     s\<lparr>fk_state := SinkFailed, fk_error := ''cannot write '' @ fk_stem s @ fk_suffix s @ '': '' @ reason\<rparr>"


definition content :: "file_sink \<Rightarrow> string \<Rightarrow> bytes" where
  "content s path = (case map_of (fk_disk s) path of None \<Rightarrow> [] | Some b \<Rightarrow> b)"

text \<open>\<open>sync\<close>: the reason when the once-a-second fsync raised, else nothing.\<close>

definition file_write :: "file_sink \<Rightarrow> (bytes \<times> nat) \<times> rat \<times> file_io \<times> string option \<Rightarrow> bool \<times> file_sink" where
  "file_write s = (\<lambda>((data, video_blocks), now, io, sync).
     case fk_file s of
       None \<Rightarrow> (False, s)
     | Some path \<Rightarrow>
         let gone = (\<lambda>reason s. file_fail reason (close_locked (s\<lparr>fk_dropped := fk_dropped s + video_blocks\<rparr>)))
         in case io of
              Refused reason \<Rightarrow> (False, gone reason s)
            | Took n \<Rightarrow>
                let s1 = s\<lparr>fk_disk := AList.update path (content s path @ take n data) (fk_disk s),
                           fk_written := fk_written s + length data\<rparr>
                in if FSYNC_SECONDS \<le> now - fk_last_sync s1
                   then (case sync of
                           Some reason \<Rightarrow> (False, gone reason s1)
                         | None \<Rightarrow> (True, s1\<lparr>fk_last_sync := now\<rparr>))
                   else (True, s1))"

definition file_close :: "file_sink \<Rightarrow> file_sink" where
  "file_close s = (let s1 = close_locked s in if fk_state s1 \<noteq> SinkFailed then s1\<lparr>fk_state := SinkIdle\<rparr> else s1)"

definition file_shutdown :: "file_sink \<Rightarrow> file_sink" where
  "file_shutdown s = (let s1 = close_locked s in if fk_state s1 \<noteq> SinkFailed then s1\<lparr>fk_state := SinkStopped\<rparr> else s1)"




lemma content_update: "content (s\<lparr>fk_disk := AList.update path b (fk_disk s)\<rparr>) p = (if p = path then b else content s p)"
  by (auto simp: content_def update_conv')







text \<open>A raw write that took only a part of a cluster is not noticed: the sink accepts and counts the whole.\<close>

lemma short_write_unnoticed:
  assumes "fk_file s = Some path" and "m < length data" and "now - fk_last_sync s < FSYNC_SECONDS"
  shows "let (b, s') = file_write s ((data, n), now, Took m, sync)
    in b \<and> content s' path = content s path @ take m data \<and> fk_written s' = fk_written s + length data"
  using assms by (simp add: file_write_def content_def Let_def update_conv')

end
