(* ===== verification/Replay.thy ===== *)
theory Replay
  imports Sinks RelayData
begin

text \<open>
  \<open>ReplaySink\<close> of \<open>stream/replay.py\<close>: the last seconds of the program in memory, bounded by a window and
  by a byte cap, and the clips written from it. Each operation holds the sink's lock. \<open>now\<close> is the clock
  an operation reads; writing a clip's file (a temporary file, a remux by ffmpeg) is the value \<open>written\<close>.
\<close>

section \<open>The buffer\<close>

definition MIN_SECONDS :: int where "MIN_SECONDS = 5"
definition MAX_SECONDS :: int where "MAX_SECONDS = 600"

record group =
  gr_at :: rat
  gr_chunks :: "bytes list"
  gr_size :: nat
  gr_frames :: nat

text \<open>
  What the relay wrote: the cluster, its number of video blocks, whether it starts at a keyframe, and when. \<open>rp_fed\<close>
  only records it (since the last \<open>open\<close>); no operation reads it.
\<close>

type_synonym fed = "bytes \<times> nat \<times> bool \<times> rat"

record replay =
  rp_seconds :: int
  rp_max_bytes :: nat
  rp_header :: bytes
  rp_groups :: "group list"
  rp_bytes :: nat
  rp_peak :: nat
  rp_evicted :: nat
  rp_state :: sink_state
  rp_saved :: "string list"
  rp_fed :: "fed list"

definition new_replay :: "int \<Rightarrow> int \<Rightarrow> replay result" where
  "new_replay seconds max_bytes =
     (if \<not> (MIN_SECONDS \<le> seconds \<and> seconds \<le> MAX_SECONDS)
      then Inl (ReplayError ''The replay length must be from 5 to 600 seconds.'' 400)
      else if max_bytes < 1024 * 1024 then Inl (ReplayError ''The replay memory limit must be at least 1 MB.'' 400)
      else Inr \<lparr>rp_seconds = seconds, rp_max_bytes = nat max_bytes, rp_header = [], rp_groups = [], rp_bytes = 0,
                rp_peak = 0, rp_evicted = 0, rp_state = SinkIdle, rp_saved = [], rp_fed = []\<rparr>)"

definition replay_open :: "bytes \<Rightarrow> replay \<Rightarrow> replay" where
  "replay_open header s =
     s\<lparr>rp_groups := [], rp_header := header, rp_bytes := length header, rp_state := SinkLive, rp_fed := []\<rparr>"

definition replay_drop :: "replay \<Rightarrow> replay" where
  "replay_drop s = s\<lparr>rp_groups := tl (rp_groups s), rp_bytes := rp_bytes s - gr_size (hd (rp_groups s))\<rparr>"

function trim_window :: "rat \<Rightarrow> replay \<Rightarrow> replay" where
  "trim_window now s =
     (if 1 < length (rp_groups s) \<and> of_int (rp_seconds s) \<le> now - gr_at (rp_groups s ! 1)
      then trim_window now (replay_drop s) else s)"
  by pat_completeness auto
termination
  by (relation "measure (\<lambda>(now, s). length (rp_groups s))") (auto simp: replay_drop_def)

function trim_cap :: "replay \<Rightarrow> replay" where
  "trim_cap s =
     (if 1 < length (rp_groups s) \<and> rp_max_bytes s < rp_bytes s
      then trim_cap ((replay_drop s)\<lparr>rp_evicted := rp_evicted s + 1\<rparr>) else s)"
  by pat_completeness auto
termination
  by (relation "measure (\<lambda>s. length (rp_groups s))") (auto simp: replay_drop_def)

declare trim_window.simps [simp del] trim_cap.simps [simp del]

definition trim :: "rat \<Rightarrow> replay \<Rightarrow> replay" where
  "trim now s =
     (let s1 = trim_cap (trim_window now s)
      in if length (rp_groups s1) = 1 \<and> rp_max_bytes s1 < rp_bytes s1
         then (replay_drop s1)\<lparr>rp_evicted := rp_evicted s1 + 1\<rparr> else s1)"

definition onto_last :: "bytes \<Rightarrow> nat \<Rightarrow> group list \<Rightarrow> group list" where
  "onto_last data n gs =
     (let g = last gs
      in butlast gs @ [g\<lparr>gr_chunks := gr_chunks g @ [data], gr_size := gr_size g + length data, gr_frames := gr_frames g + n\<rparr>])"

definition replay_write :: "replay \<Rightarrow> fed \<Rightarrow> bool \<times> replay" where
  "replay_write s0 = (\<lambda>(data, video_blocks, keyframe, now).
     if rp_state s0 \<noteq> SinkLive then (False, s0)
     else
       let s = s0\<lparr>rp_fed := rp_fed s0 @ [(data, video_blocks, keyframe, now)]\<rparr>
       in if rp_groups s = [] \<and> \<not> keyframe then (True, s)
          else
            let gs = (if keyframe then rp_groups s @ [\<lparr>gr_at = now, gr_chunks = [], gr_size = 0, gr_frames = 0\<rparr>]
                      else rp_groups s);
                s1 = trim now (s\<lparr>rp_groups := onto_last data video_blocks gs, rp_bytes := rp_bytes s + length data\<rparr>)
            in (True, s1\<lparr>rp_peak := max (rp_peak s1) (rp_bytes s1)\<rparr>))"

definition replay_close :: "replay \<Rightarrow> replay" where
  "replay_close s = (if rp_state s \<noteq> SinkFailed then s\<lparr>rp_state := SinkIdle\<rparr> else s)"

definition replay_shutdown :: "replay \<Rightarrow> replay" where
  "replay_shutdown s = s\<lparr>rp_groups := [], rp_bytes := 0, rp_state := SinkStopped\<rparr>"

section \<open>Clips\<close>

definition depth_seconds :: "rat \<Rightarrow> replay \<Rightarrow> rat" where
  "depth_seconds now s = (if rp_groups s = [] then 0 else py_round1 (now - gr_at (hd (rp_groups s))))"

text \<open>The latest group that starts at least \<open>wanted\<close> seconds back, else the first.\<close>

definition clip_start :: "rat \<Rightarrow> int \<Rightarrow> group list \<Rightarrow> nat" where
  "clip_start now wanted gs =
     (case find (\<lambda>i. of_int wanted \<le> now - gr_at (gs ! i)) (rev [0..<length gs]) of None \<Rightarrow> 0 | Some i \<Rightarrow> i)"

record clip =
  cl_file :: string
  cl_seconds :: rat
  cl_asked :: int
  cl_short :: bool
  cl_bytes :: nat
  cl_frames :: nat

text \<open>The clip's content and its report; \<open>written\<close> says what became of the content on disk.\<close>

definition save_clip ::
    "rat \<Rightarrow> string \<Rightarrow> int option \<Rightarrow> (bytes \<Rightarrow> nat result) \<Rightarrow> replay \<Rightarrow> (bytes \<times> clip) result \<times> replay" where
  "save_clip now path seconds written s =
     (let wanted = (case seconds of None \<Rightarrow> rp_seconds s | Some w \<Rightarrow> w)
      in if \<not> (MIN_SECONDS \<le> wanted \<and> wanted \<le> rp_seconds s)
         then (Inl (ReplayError ''A clip can be from 5 seconds to the length of the buffer.'' 400), s)
         else if rp_state s \<noteq> SinkLive \<or> rp_groups s = []
         then (Inl (ReplayError ''Nothing is buffered yet: wait for the stream to produce a keyframe.'' 409), s)
         else
           let chosen = drop (clip_start now wanted (rp_groups s)) (rp_groups s);
               len = now - gr_at (hd chosen);
               payload = rp_header s @ concat (concat (map gr_chunks chosen))
           in case written payload of
                Inl e \<Rightarrow> (Inl e, s)
              | Inr n \<Rightarrow>
                  (Inr (payload, \<lparr>cl_file = path, cl_seconds = py_round1 len, cl_asked = wanted,
                     cl_short = (len + 1 / 1000 < of_int wanted), cl_bytes = n, cl_frames = sum_list (map gr_frames chosen)\<rparr>),
                   s\<lparr>rp_saved := rp_saved s @ [path]\<rparr>))"

interpretation replaying: relay_sink replay_write "\<lambda>s. rp_state s \<noteq> SinkLive"
  by unfold_locales (auto simp: replay_write_def Let_def split: if_splits)

section \<open>What the buffer holds\<close>

definition fed_data :: "fed \<Rightarrow> bytes" where "fed_data c = fst c"
definition fed_key :: "fed \<Rightarrow> bool" where "fed_key c = fst (snd (snd c))"
definition fed_at :: "fed \<Rightarrow> rat" where "fed_at c = snd (snd (snd c))"

definition group_holds :: "group \<Rightarrow> fed list \<Rightarrow> bool" where
  "group_holds g cs \<longleftrightarrow>
     cs \<noteq> [] \<and> fed_key (hd cs) \<and> (\<forall>c\<in>set (tl cs). \<not> fed_key c) \<and> gr_at g = fed_at (hd cs) \<and>
     gr_chunks g = map fed_data cs \<and> gr_size g = sum_list (map (\<lambda>c. length (fed_data c)) cs)"

definition ring :: "replay \<Rightarrow> bool" where
  "ring s \<longleftrightarrow>
     (\<exists>pre css. rp_fed s = pre @ concat css \<and> list_all2 group_holds (rp_groups s) css) \<and>
     rp_bytes s = length (rp_header s) + sum_list (map gr_size (rp_groups s))"

lemma ring_fields [simp]:
  "ring (s\<lparr>rp_peak := p\<rparr>) = ring s" "ring (s\<lparr>rp_evicted := p\<rparr>) = ring s" "ring (s\<lparr>rp_saved := q\<rparr>) = ring s"
  by (simp_all add: ring_def)

lemma ring_drop:
  assumes "ring s" and "rp_groups s \<noteq> []"
  shows "ring (replay_drop s)"
proof -
  obtain g gs where gs: "rp_groups s = g # gs" using assms(2) by (cases "rp_groups s") auto
  with assms(1) obtain pre cs css where "rp_fed s = pre @ cs @ concat css" "list_all2 group_holds gs css"
    by (auto simp: ring_def list_all2_Cons1)
  then have "\<exists>pre css. rp_fed s = pre @ concat css \<and> list_all2 group_holds gs css"
    by (intro exI [of _ "pre @ cs"] exI [of _ css]) simp
  with assms(1) gs show ?thesis by (simp add: ring_def replay_drop_def)
qed

text \<open>What trimming keeps of a buffer: everything but the groups, the bytes and the counter.\<close>

definition trimmed :: "replay \<Rightarrow> replay \<Rightarrow> bool" where
  "trimmed s s' \<longleftrightarrow>
     (ring s \<longrightarrow> ring s') \<and> rp_header s' = rp_header s \<and> rp_fed s' = rp_fed s \<and> rp_state s' = rp_state s \<and>
     rp_max_bytes s' = rp_max_bytes s \<and> rp_seconds s' = rp_seconds s \<and> rp_peak s' = rp_peak s \<and>
     rp_saved s' = rp_saved s"

lemma trimmed_refl [simp]: "trimmed s s"
  by (simp add: trimmed_def)

lemma trimmed_drop: "rp_groups s \<noteq> [] \<Longrightarrow> trimmed s (replay_drop s)"
  using ring_drop by (simp add: trimmed_def replay_drop_def)

lemma trimmed_evicted: "trimmed s s' \<Longrightarrow> trimmed s (s'\<lparr>rp_evicted := n\<rparr>)"
  by (simp add: trimmed_def)

lemma trimmed_trans: "trimmed s s1 \<Longrightarrow> trimmed s1 s2 \<Longrightarrow> trimmed s s2"
  by (simp add: trimmed_def)

lemma trim_window_trimmed: "trimmed s (trim_window now s)"
proof (induction now s rule: trim_window.induct)
  case (1 now s)
  show ?case
  proof (cases "1 < length (rp_groups s) \<and> of_int (rp_seconds s) \<le> now - gr_at (rp_groups s ! 1)")
    case True
    then have "rp_groups s \<noteq> []" by auto
    then show ?thesis
      using trimmed_trans [OF trimmed_drop 1 [OF True]] True by (subst trim_window.simps) simp
  next
    case False
    then show ?thesis by (subst trim_window.simps) auto
  qed
qed

lemma trim_cap_trimmed: "trimmed s (trim_cap s) \<and> (length (rp_groups (trim_cap s)) \<le> 1 \<or> rp_bytes (trim_cap s) \<le> rp_max_bytes s)"
proof (induction s rule: trim_cap.induct)
  case (1 s)
  let ?s1 = "(replay_drop s)\<lparr>rp_evicted := rp_evicted s + 1\<rparr>"
  show ?case
  proof (cases "1 < length (rp_groups s) \<and> rp_max_bytes s < rp_bytes s")
    case True
    then have "rp_groups s \<noteq> []" by auto
    then have "trimmed s ?s1" by (intro trimmed_evicted trimmed_drop)
    moreover from this have "rp_max_bytes ?s1 = rp_max_bytes s" by (simp add: trimmed_def)
    ultimately show ?thesis
      using "1.IH" [OF True] True trimmed_trans [of s ?s1 "trim_cap ?s1"]
      by (subst (1 2 3) trim_cap.simps) simp
  next
    case False
    then show ?thesis by (subst (1 2 3) trim_cap.simps) auto
  qed
qed

lemma trim_trimmed: "trimmed s (trim now s) \<and> (rp_groups (trim now s) = [] \<or> rp_bytes (trim now s) \<le> rp_max_bytes s)"
proof -
  let ?s1 = "trim_cap (trim_window now s)"
  have t: "trimmed s ?s1" "length (rp_groups ?s1) \<le> 1 \<or> rp_bytes ?s1 \<le> rp_max_bytes s"
    using trim_cap_trimmed [of "trim_window now s"] trim_window_trimmed [of s now] trimmed_trans
    by (auto simp: trimmed_def)
  show ?thesis
  proof (cases "length (rp_groups ?s1) = 1 \<and> rp_max_bytes ?s1 < rp_bytes ?s1")
    case True
    then obtain g where g: "rp_groups ?s1 = [g]" by (auto simp: length_Suc_conv)
    then have "trimmed s ((replay_drop ?s1)\<lparr>rp_evicted := rp_evicted ?s1 + 1\<rparr>)"
      by (intro trimmed_evicted trimmed_trans [OF t(1)] trimmed_drop) simp
    with True g show ?thesis by (simp add: trim_def Let_def replay_drop_def)
  next
    case False
    with t show ?thesis by (auto simp: trim_def Let_def trimmed_def le_Suc_eq)
  qed
qed

lemma onto_last_holds:
  assumes "list_all2 group_holds gs css" and "gs \<noteq> []" and "\<not> fed_key c"
  shows "list_all2 group_holds (onto_last (fed_data c) n gs) (butlast css @ [last css @ [c]])"
proof -
  obtain gs' g where gs: "gs = gs' @ [g]" using assms(2) by (cases gs rule: rev_cases) auto
  with assms(1) obtain css' cs where css: "css = css' @ [cs]" "list_all2 group_holds gs' css'" "group_holds g cs"
    by (auto simp: list_all2_append1 list_all2_Cons1)
  then have "group_holds (g\<lparr>gr_chunks := gr_chunks g @ [fed_data c], gr_size := gr_size g + length (fed_data c),
      gr_frames := gr_frames g + n\<rparr>) (cs @ [c])"
    using assms(3) by (auto simp: group_holds_def)
  with css gs show ?thesis by (simp add: onto_last_def Let_def list_all2_appendI)
qed

lemma onto_last_size: "gs \<noteq> [] \<Longrightarrow> sum_list (map gr_size (onto_last d n gs)) = sum_list (map gr_size gs) + length d"
  by (cases gs rule: rev_cases) (simp_all add: onto_last_def Let_def)

definition replay_inv :: "replay \<Rightarrow> bool" where
  "replay_inv s \<longleftrightarrow>
     (rp_state s = SinkLive \<longrightarrow> ring s) \<and> length (rp_header s) \<le> rp_max_bytes s \<and>
     rp_bytes s \<le> rp_max_bytes s \<and> rp_peak s \<le> rp_max_bytes s"

lemma ring_ignored:
  assumes "ring s" and "rp_groups s = []"
  shows "ring (s\<lparr>rp_fed := rp_fed s @ [c]\<rparr>)"
  using assms by (auto simp: ring_def intro!: exI [of _ "rp_fed s @ [c]"] exI [of _ "[]"])

lemma ring_extended:
  assumes "ring s" and "fed_key c \<or> rp_groups s \<noteq> []"
    and "gs = (if fed_key c then rp_groups s @ [\<lparr>gr_at = fed_at c, gr_chunks = [], gr_size = 0, gr_frames = 0\<rparr>]
      else rp_groups s)"
  shows "ring (s\<lparr>rp_fed := rp_fed s @ [c], rp_groups := onto_last (fed_data c) n gs,
    rp_bytes := rp_bytes s + length (fed_data c)\<rparr>)"
proof -
  obtain pre css where r: "rp_fed s = pre @ concat css" "list_all2 group_holds (rp_groups s) css"
    and bytes: "rp_bytes s = length (rp_header s) + sum_list (map gr_size (rp_groups s))"
    using assms(1) by (auto simp: ring_def)
  have nonempty: "gs \<noteq> []" using assms(2,3) by auto
  have "\<exists>css'. concat css' = concat css @ [c] \<and> list_all2 group_holds (onto_last (fed_data c) n gs) css'"
  proof (cases "fed_key c")
    case True
    with assms(3) have "onto_last (fed_data c) n gs = rp_groups s @
        [\<lparr>gr_at = fed_at c, gr_chunks = [fed_data c], gr_size = length (fed_data c), gr_frames = n\<rparr>]"
      by (simp add: onto_last_def)
    with True r(2) show ?thesis
      by (intro exI [of _ "css @ [[c]]"]) (simp add: list_all2_appendI group_holds_def)
  next
    case False
    with assms(3) have gs: "gs = rp_groups s" by simp
    have "css \<noteq> []" using r(2) nonempty gs by auto
    then have "concat (butlast css @ [last css @ [c]]) = concat css @ [c]"
      by (cases css rule: rev_cases) auto
    with onto_last_holds [OF r(2) _ False, of n] nonempty gs show ?thesis by metis
  qed
  then obtain css' where css': "concat css' = concat css @ [c]" "list_all2 group_holds (onto_last (fed_data c) n gs) css'"
    by blast
  have "sum_list (map gr_size gs) = sum_list (map gr_size (rp_groups s))" using assms(3) by simp
  with css' r bytes show ?thesis
    by (auto simp: ring_def onto_last_size [OF nonempty] intro!: exI [of _ pre] exI [of _ css'])
qed

lemma write_inv:
  assumes "replay_inv s"
  shows "replay_inv (snd (replay_write s (data, n, key, now))) \<and>
    rp_max_bytes (snd (replay_write s (data, n, key, now))) = rp_max_bytes s"
proof (cases "rp_state s = SinkLive \<and> (rp_groups s \<noteq> [] \<or> key)")
  case True
  let ?c = "(data, n, key, now)"
  define gs where "gs = (if key then rp_groups s @ [\<lparr>gr_at = now, gr_chunks = [], gr_size = 0, gr_frames = 0\<rparr>] else rp_groups s)"
  define s1 where "s1 = s\<lparr>rp_fed := rp_fed s @ [?c], rp_groups := onto_last data n gs, rp_bytes := rp_bytes s + length data\<rparr>"
  have "ring s1"
    using assms True ring_extended [of s ?c gs n]
    by (auto simp: replay_inv_def s1_def gs_def fed_data_def fed_key_def fed_at_def)
  moreover have t: "trimmed s1 (trim now s1)" "rp_groups (trim now s1) = [] \<or> rp_bytes (trim now s1) \<le> rp_max_bytes s1"
    using trim_trimmed by blast+
  ultimately have ring: "ring (trim now s1)" and same: "rp_header (trim now s1) = rp_header s"
      "rp_max_bytes (trim now s1) = rp_max_bytes s" "rp_state (trim now s1) = rp_state s" "rp_peak (trim now s1) = rp_peak s"
    by (auto simp: trimmed_def s1_def)
  have "rp_bytes (trim now s1) \<le> rp_max_bytes s"
    using t(2) ring assms same by (auto simp: s1_def replay_inv_def ring_def)
  moreover have "replay_write s ?c = (True, (trim now s1)\<lparr>rp_peak := max (rp_peak (trim now s1)) (rp_bytes (trim now s1))\<rparr>)"
    using True by (auto simp: replay_write_def Let_def s1_def gs_def)
  ultimately show ?thesis using ring same assms by (simp add: replay_inv_def)
next
  case False
  then show ?thesis
    using assms ring_ignored by (auto simp: replay_write_def Let_def replay_inv_def)
qed


section \<open>Runs\<close>

datatype replay_input =
    ReplayOpen bytes
  | ReplayWrite fed
  | ReplayClose
  | ReplayShutdown
  | ReplaySave rat string "int option" "bytes \<Rightarrow> nat result"

fun replay_step :: "replay_input \<Rightarrow> replay \<Rightarrow> replay" where
  "replay_step (ReplayOpen header) s = replay_open header s"
| "replay_step (ReplayWrite c) s = snd (replay_write s c)"
| "replay_step ReplayClose s = replay_close s"
| "replay_step ReplayShutdown s = replay_shutdown s"
| "replay_step (ReplaySave now path seconds written) s = snd (save_clip now path seconds written s)"

definition small_headers :: "nat \<Rightarrow> replay_input list \<Rightarrow> bool" where
  "small_headers m is \<longleftrightarrow> list_all (\<lambda>i. case i of ReplayOpen header \<Rightarrow> length header \<le> m | _ \<Rightarrow> True) is"

lemma replay_step_inv:
  assumes "replay_inv s" and "small_headers (rp_max_bytes s) [i]"
  shows "replay_inv (replay_step i s) \<and> rp_max_bytes (replay_step i s) = rp_max_bytes s"
proof (cases i)
  case (ReplayOpen header)
  then show ?thesis
    using assms by (auto simp: replay_inv_def replay_open_def ring_def small_headers_def intro!: exI [of _ "[]"])
next
  case (ReplayWrite c)
  obtain data n key now where "c = (data, n, key, now)" by (metis surj_pair)
  with ReplayWrite show ?thesis using write_inv [OF assms(1), of data n key now] by simp
next
  case (ReplaySave now path seconds written)
  then show ?thesis
    using assms(1) by (auto simp: save_clip_def Let_def replay_inv_def split: sum.split)
qed (use assms(1) in \<open>auto simp: replay_close_def replay_shutdown_def replay_inv_def\<close>)

lemma replay_run_inv:
  assumes "replay_inv s" and "small_headers (rp_max_bytes s) is"
  shows "replay_inv (fold replay_step is s) \<and> rp_max_bytes (fold replay_step is s) = rp_max_bytes s"
  using assms
proof (induction "is" arbitrary: s)
  case (Cons i "is")
  then have "replay_inv (replay_step i s) \<and> rp_max_bytes (replay_step i s) = rp_max_bytes s"
    by (intro replay_step_inv) (simp_all add: small_headers_def)
  with Cons.IH [of "replay_step i s"] Cons.prems show ?case by (simp add: small_headers_def)
qed simp

lemma new_replay_inv: "new_replay seconds max_bytes = Inr s \<Longrightarrow> replay_inv s"
  by (auto simp: new_replay_def replay_inv_def split: if_splits)

text \<open>
  C19. The memory cap of the replay buffer holds whatever bitrate arrives: after every operation the
  bytes held, and the peak it reports, are within the cap (as long as the stream's header alone is),
  and while it is live the figure is exactly the header and the clusters it holds.
\<close>

theorem replay_within_cap:
  assumes "new_replay seconds max_bytes = Inr s0" and "small_headers (rp_max_bytes s0) is"
    and "s = fold replay_step is s0"
  shows "rp_bytes s \<le> rp_max_bytes s0 \<and> rp_peak s \<le> rp_max_bytes s0 \<and>
    (rp_state s = SinkLive \<longrightarrow> rp_bytes s = length (rp_header s) + length (concat (concat (map gr_chunks (rp_groups s)))))"
proof -
  have inv: "replay_inv s" "rp_max_bytes s = rp_max_bytes s0"
    using replay_run_inv [OF new_replay_inv [OF assms(1)] assms(2)] assms(3) by simp_all
  have "sum_list (map gr_size gs) = length (concat (concat (map gr_chunks gs)))" if "list_all2 group_holds gs css" for gs css
    using that by (induction rule: list_all2_induct) (auto simp: group_holds_def length_concat comp_def)
  then have "ring s \<Longrightarrow> rp_bytes s = length (rp_header s) + length (concat (concat (map gr_chunks (rp_groups s))))"
    by (auto simp: ring_def)
  with inv show ?thesis by (auto simp: replay_inv_def)
qed

lemma clip_start_spec:
  assumes "gs \<noteq> []"
  shows "clip_start now wanted gs < length gs"
    and "clip_start now wanted gs < j \<Longrightarrow> j < length gs \<Longrightarrow> now - gr_at (gs ! j) < of_int wanted"
    and "of_int wanted \<le> now - gr_at (gs ! clip_start now wanted gs) \<or> clip_start now wanted gs = 0"
proof -
  let ?P = "\<lambda>i. of_int wanted \<le> now - gr_at (gs ! i)"
  have find: "(case find P (rev [0..<n]) of None \<Rightarrow> \<forall>i<n. \<not> P i | Some i \<Rightarrow> i < n \<and> P i \<and> (\<forall>j. i < j \<and> j < n \<longrightarrow> \<not> P j))"
    for P and n :: nat
    by (induction n) (auto split: option.splits simp: less_Suc_eq)
  show "clip_start now wanted gs < length gs"
    using find [of "length gs" ?P] assms by (auto simp: clip_start_def split: option.splits)
  show "now - gr_at (gs ! j) < of_int wanted" if "clip_start now wanted gs < j" "j < length gs"
    using find [of "length gs" ?P] that by (fastforce simp: clip_start_def split: option.splits)
  show "?P (clip_start now wanted gs) \<or> clip_start now wanted gs = 0"
    using find [of "length gs" ?P] by (auto simp: clip_start_def split: option.splits)
qed

lemma holds_nth: "list_all2 group_holds gs css \<Longrightarrow> i < length gs \<Longrightarrow> group_holds (gs ! i) (css ! i)"
  by (simp add: list_all2_nthD)

lemma keyframes_of_groups:
  assumes "list_all2 group_holds gs css" and "c \<in> set (tl (concat css))" and "fed_key c"
  shows "\<exists>i. 0 < i \<and> i < length gs \<and> gr_at (gs ! i) = fed_at c"
proof -
  obtain cs rest where css: "css = cs # rest" using assms(2) by (cases css) auto
  with assms(1) obtain g gs' where gs: "gs = g # gs'" "group_holds g cs" "list_all2 group_holds gs' rest"
    by (auto simp: list_all2_Cons2)
  from gs(2) have "c \<in> set (tl cs) \<or> c \<in> set (concat rest)"
    using assms(2) css by (auto simp: group_holds_def)
  with gs(2) assms(3) have "c \<in> set (concat rest)" by (auto simp: group_holds_def)
  then obtain ds where "ds \<in> set rest" "c \<in> set ds" by auto
  then obtain i where i: "i < length rest" "c \<in> set (rest ! i)" by (metis in_set_conv_nth)
  have len: "length gs' = length rest" using gs(3) by (rule list_all2_lengthD)
  then have holds: "group_holds (gs' ! i) (rest ! i)" using gs(3) i(1) holds_nth by metis
  then have "c = hd (rest ! i)"
    using i(2) assms(3) by (cases "rest ! i") (auto simp: group_holds_def)
  with holds have "gr_at (gs' ! i) = fed_at c" by (simp add: group_holds_def)
  with len i(1) gs(1) show ?thesis by (intro exI [of _ "Suc i"]) simp
qed

lemma saved_clip:
  assumes "replay_inv s"
    and "save_clip now path (Some wanted) written s = (Inr (payload, clip), s')"
  shows "\<exists>pre past. rp_fed s = pre @ past \<and> payload = rp_header s @ concat (map fed_data past) \<and>
    past \<noteq> [] \<and> fed_key (hd past) \<and> (\<forall>c\<in>set (tl past). fed_key c \<longrightarrow> now - fed_at c < of_int wanted) \<and>
    (of_int wanted \<le> now - fed_at (hd past) \<or> payload = rp_header s @ concat (concat (map gr_chunks (rp_groups s)))) \<and>
    cl_short clip = (now - fed_at (hd past) + 1 / 1000 < of_int wanted)"
proof -
  have live: "rp_state s = SinkLive" "rp_groups s \<noteq> []"
    using assms(2) by (auto simp: save_clip_def Let_def split: if_splits)
  with assms(1) obtain pre css where fed: "rp_fed s = pre @ concat css" and holds: "list_all2 group_holds (rp_groups s) css"
    by (auto simp: replay_inv_def ring_def)
  define k where "k = clip_start now wanted (rp_groups s)"
  define past where "past = concat (drop k css)"
  note k = clip_start_spec [OF live(2), where now = now and wanted = wanted, folded k_def]
  have rest: "list_all2 group_holds (drop k (rp_groups s)) (drop k css)" using holds by simp
  obtain g gs where g: "drop k (rp_groups s) = g # gs" using k(1) by (metis Cons_nth_drop_Suc)
  with rest obtain cs css' where cs: "drop k css = cs # css'" "group_holds g cs" by (auto simp: list_all2_Cons1)
  have g_at: "gr_at g = fed_at (hd past)" "past \<noteq> []" "fed_key (hd past)"
    using cs by (auto simp: past_def group_holds_def)
  have g_nth: "g = rp_groups s ! k" using g k(1) by (metis nth_via_drop)
  have chunks: "concat (map gr_chunks gs) = map fed_data (concat cs)" if "list_all2 group_holds gs cs" for gs cs
    using that by (induction rule: list_all2_induct) (auto simp: group_holds_def)
  have report: "payload = rp_header s @ concat (concat (map gr_chunks (drop k (rp_groups s))))"
      "cl_short clip = (now - gr_at g + 1 / 1000 < of_int wanted)"
    using assms(2) live g by (auto simp: save_clip_def Let_def k_def split: if_splits sum.splits)
  have later: "\<forall>c\<in>set (tl past). fed_key c \<longrightarrow> now - fed_at c < of_int wanted"
  proof (intro ballI impI)
    fix c assume "c \<in> set (tl past)" "fed_key c"
    then obtain i where "0 < i" "i < length (drop k (rp_groups s))" "gr_at (drop k (rp_groups s) ! i) = fed_at c"
      using keyframes_of_groups [OF rest] unfolding past_def by blast
    with k(2) [of "k + i"] k(1) show "now - fed_at c < of_int wanted" by simp
  qed
  have "concat css = concat (take k css) @ past"
    unfolding past_def by (metis append_take_drop_id concat_append)
  with fed have "rp_fed s = (pre @ concat (take k css)) @ past" by simp
  moreover have "payload = rp_header s @ concat (map fed_data past)"
    using report(1) chunks [OF rest] by (simp add: past_def)
  moreover have "of_int wanted \<le> now - fed_at (hd past) \<or> payload = rp_header s @ concat (concat (map gr_chunks (rp_groups s)))"
    using k(3) g_at(1) g_nth report(1) by auto
  ultimately show ?thesis using g_at later report(2) by metis
qed

text \<open>
  A clip is the end of what was written: the header and, in order and without a gap, every cluster
  since the last opening from some keyframe on. It reaches back at least the length asked for, or it is
  all the buffer holds; no later keyframe reaches back that far, so a clip is never more than one group
  longer than asked; and it is reported short exactly when it is (by a millisecond).
\<close>

theorem clip_is_the_recent_past:
  assumes "new_replay seconds max_bytes = Inr s0" and "small_headers (rp_max_bytes s0) is"
    and "s = fold replay_step is s0"
    and "save_clip now path (Some wanted) written s = (Inr (payload, clip), s')"
  shows "\<exists>pre past. rp_fed s = pre @ past \<and> payload = rp_header s @ concat (map fed_data past) \<and>
    past \<noteq> [] \<and> fed_key (hd past) \<and> (\<forall>c\<in>set (tl past). fed_key c \<longrightarrow> now - fed_at c < of_int wanted) \<and>
    (of_int wanted \<le> now - fed_at (hd past) \<or> payload = rp_header s @ concat (concat (map gr_chunks (rp_groups s)))) \<and>
    cl_short clip = (now - fed_at (hd past) + 1 / 1000 < of_int wanted)"
  using replay_run_inv [OF new_replay_inv [OF assms(1)] assms(2)] assms(3) saved_clip [OF _ assms(4)] by simp

text \<open>Three groups of pictures four seconds apart.\<close>

definition three_groups :: "replay_input list" where
  "three_groups =
     [ReplayOpen [9], ReplayWrite ([1], 1, True, 0), ReplayWrite ([2], 1, False, 1), ReplayWrite ([3], 1, True, 4),
      ReplayWrite ([4], 1, False, 5), ReplayWrite ([5], 1, True, 8)]"

definition small_replay :: replay where
  "small_replay =
     \<lparr>rp_seconds = 5, rp_max_bytes = 1048576, rp_header = [], rp_groups = [], rp_bytes = 0, rp_peak = 0,
      rp_evicted = 0, rp_state = SinkIdle, rp_saved = [], rp_fed = []\<rparr>"

lemma small_replay: "new_replay 5 1048576 = Inr small_replay"
  by (simp add: new_replay_def MIN_SECONDS_def MAX_SECONDS_def small_replay_def)

lemma three_groups_small: "small_headers (rp_max_bytes small_replay) three_groups"
  by (simp add: small_headers_def three_groups_def small_replay_def)

lemma untrimmed:
  "rp_groups s = [g] \<or> (\<exists>h gs. rp_groups s = g # h # gs \<and> now - gr_at h < of_int (rp_seconds s)) \<Longrightarrow>
    rp_bytes s \<le> rp_max_bytes s \<Longrightarrow> trim now s = s"
proof -
  assume a: "rp_groups s = [g] \<or> (\<exists>h gs. rp_groups s = g # h # gs \<and> now - gr_at h < of_int (rp_seconds s))"
    "rp_bytes s \<le> rp_max_bytes s"
  then have "trim_window now s = s" by (subst trim_window.simps) auto
  moreover have "trim_cap s = s" using a(2) by (subst trim_cap.simps) auto
  ultimately show "trim now s = s" using a(2) by (simp add: trim_def)
qed

lemma kept_write:
  assumes "rp_state s = SinkLive" and "rp_groups s \<noteq> [] \<or> key"
    and "gs = onto_last data n (if key then rp_groups s @ [\<lparr>gr_at = now, gr_chunks = [], gr_size = 0, gr_frames = 0\<rparr>] else rp_groups s)"
    and "gs = [g] \<or> (\<exists>h hs. gs = g # h # hs \<and> now - gr_at h < of_int (rp_seconds s))"
    and "rp_bytes s + length data \<le> rp_max_bytes s"
  shows "snd (replay_write s (data, n, key, now)) =
    s\<lparr>rp_fed := rp_fed s @ [(data, n, key, now)], rp_groups := gs, rp_bytes := rp_bytes s + length data,
      rp_peak := max (rp_peak s) (rp_bytes s + length data)\<rparr>"
proof -
  let ?s = "s\<lparr>rp_fed := rp_fed s @ [(data, n, key, now)], rp_groups := gs, rp_bytes := rp_bytes s + length data\<rparr>"
  have "trim now ?s = ?s" using assms(4,5) by (intro untrimmed) simp_all
  then show ?thesis using assms(1-3) by (auto simp: replay_write_def Let_def)
qed

lemma three_groups_state:
  "fold replay_step three_groups small_replay =
     small_replay\<lparr>rp_header := [9], rp_bytes := 6, rp_peak := 6, rp_state := SinkLive,
       rp_groups := [\<lparr>gr_at = 0, gr_chunks = [[1], [2]], gr_size = 2, gr_frames = 2\<rparr>,
         \<lparr>gr_at = 4, gr_chunks = [[3], [4]], gr_size = 2, gr_frames = 2\<rparr>,
         \<lparr>gr_at = 8, gr_chunks = [[5]], gr_size = 1, gr_frames = 1\<rparr>],
       rp_fed := [([1], 1, True, 0), ([2], 1, False, 1), ([3], 1, True, 4), ([4], 1, False, 5), ([5], 1, True, 8)]\<rparr>"
proof -
  let ?s0 = "replay_open [9] small_replay"
  define s1 where "s1 = snd (replay_write ?s0 ([1], 1, True, 0))"
  have s1: "s1 = small_replay\<lparr>rp_header := [9], rp_bytes := 2, rp_peak := 2, rp_state := SinkLive,
      rp_groups := [\<lparr>gr_at = 0, gr_chunks = [[1]], gr_size = 1, gr_frames = 1\<rparr>], rp_fed := [([1], 1, True, 0)]\<rparr>"
    unfolding s1_def by (subst kept_write [OF _ _ HOL.refl]) (simp_all add: replay_open_def small_replay_def onto_last_def)
  define s2 where "s2 = snd (replay_write s1 ([2], 1, False, 1))"
  have s2: "s2 = small_replay\<lparr>rp_header := [9], rp_bytes := 3, rp_peak := 3, rp_state := SinkLive,
      rp_groups := [\<lparr>gr_at = 0, gr_chunks = [[1], [2]], gr_size = 2, gr_frames = 2\<rparr>],
      rp_fed := [([1], 1, True, 0), ([2], 1, False, 1)]\<rparr>"
    unfolding s2_def s1 by (subst kept_write [OF _ _ HOL.refl]) (simp_all add: small_replay_def onto_last_def)
  define s3 where "s3 = snd (replay_write s2 ([3], 1, True, 4))"
  have s3: "s3 = small_replay\<lparr>rp_header := [9], rp_bytes := 4, rp_peak := 4, rp_state := SinkLive,
      rp_groups := [\<lparr>gr_at = 0, gr_chunks = [[1], [2]], gr_size = 2, gr_frames = 2\<rparr>,
        \<lparr>gr_at = 4, gr_chunks = [[3]], gr_size = 1, gr_frames = 1\<rparr>],
      rp_fed := [([1], 1, True, 0), ([2], 1, False, 1), ([3], 1, True, 4)]\<rparr>"
    unfolding s3_def s2 by (subst kept_write [OF _ _ HOL.refl]) (simp_all add: small_replay_def onto_last_def)
  define s4 where "s4 = snd (replay_write s3 ([4], 1, False, 5))"
  have s4: "s4 = small_replay\<lparr>rp_header := [9], rp_bytes := 5, rp_peak := 5, rp_state := SinkLive,
      rp_groups := [\<lparr>gr_at = 0, gr_chunks = [[1], [2]], gr_size = 2, gr_frames = 2\<rparr>,
        \<lparr>gr_at = 4, gr_chunks = [[3], [4]], gr_size = 2, gr_frames = 2\<rparr>],
      rp_fed := [([1], 1, True, 0), ([2], 1, False, 1), ([3], 1, True, 4), ([4], 1, False, 5)]\<rparr>"
    unfolding s4_def s3 by (subst kept_write [OF _ _ HOL.refl]) (simp_all add: small_replay_def onto_last_def)
  have "snd (replay_write s4 ([5], 1, True, 8)) = small_replay\<lparr>rp_header := [9], rp_bytes := 6, rp_peak := 6, rp_state := SinkLive,
       rp_groups := [\<lparr>gr_at = 0, gr_chunks = [[1], [2]], gr_size = 2, gr_frames = 2\<rparr>,
         \<lparr>gr_at = 4, gr_chunks = [[3], [4]], gr_size = 2, gr_frames = 2\<rparr>,
         \<lparr>gr_at = 8, gr_chunks = [[5]], gr_size = 1, gr_frames = 1\<rparr>],
       rp_fed := [([1], 1, True, 0), ([2], 1, False, 1), ([3], 1, True, 4), ([4], 1, False, 5), ([5], 1, True, 8)]\<rparr>"
    unfolding s4 by (subst kept_write [OF _ _ HOL.refl]) (simp_all add: small_replay_def onto_last_def)
  then show ?thesis
    by (simp only: three_groups_def fold.simps comp_def id_def replay_step.simps
        s1_def [symmetric] s2_def [symmetric] s3_def [symmetric] s4_def [symmetric])
qed

theorem replay_within_cap_witness:
  "rp_bytes (fold replay_step three_groups small_replay) = 6 \<and>
   rp_bytes (fold replay_step three_groups small_replay) \<le> 1048576 \<and>
   rp_peak (fold replay_step three_groups small_replay) \<le> 1048576"
  using replay_within_cap [OF small_replay three_groups_small HOL.refl] three_groups_state
  by (simp add: small_replay_def)

theorem clip_is_the_recent_past_witness:
  "\<exists>clip s' pre past. save_clip 10 ''a.mkv'' (Some 5) (\<lambda>b. Inr (length b)) (fold replay_step three_groups small_replay) =
       (Inr ([9, 3, 4, 5], clip), s') \<and>
     rp_fed (fold replay_step three_groups small_replay) = pre @ past \<and>
     [9, 3, 4, 5] = [9] @ concat (map fed_data past) \<and> past \<noteq> [] \<and> fed_key (hd past)"
proof -
  let ?s = "fold replay_step three_groups small_replay"
  have "fst (save_clip 10 ''a.mkv'' (Some 5) (\<lambda>b. Inr (length b)) ?s) =
      Inr ([9, 3, 4, 5], \<lparr>cl_file = ''a.mkv'', cl_seconds = py_round1 6, cl_asked = 5, cl_short = False, cl_bytes = 4, cl_frames = 3\<rparr>)"
    unfolding three_groups_state
    by (simp add: save_clip_def small_replay_def clip_start_def MIN_SECONDS_def Let_def upt_rec numeral_3_eq_3)
  then obtain clip s' where save: "save_clip 10 ''a.mkv'' (Some 5) (\<lambda>b. Inr (length b)) ?s = (Inr ([9, 3, 4, 5], clip), s')"
    by (metis prod.collapse)
  from clip_is_the_recent_past [OF small_replay three_groups_small HOL.refl this]
  obtain pre past where "rp_fed ?s = pre @ past" "[9, 3, 4, 5] = rp_header ?s @ concat (map fed_data past)"
      "past \<noteq> []" "fed_key (hd past)" by blast
  moreover have "rp_header ?s = [9]" unfolding three_groups_state by simp
  ultimately show ?thesis using save by metis
qed

section \<open>A clip plays\<close>





end
