(* ===== verification/CameraUse.thy ===== *)
theory CameraUse
  imports PyText
begin

text \<open>
  \<open>camerause.py\<close>: who uses the camera, read from \<open>/proc\<close>. The kernel's files are the fields of one
  record; the scan, the recognition of the program's own handles by ancestry and the sentence for the
  status line are functions of it.
\<close>

section \<open>What /proc shows\<close>

text \<open>
  \<open>pf_pids\<close>: the numeric names, nothing when the directory cannot be listed. \<open>pf_fds\<close>: the links of a
  process's descriptors, \<open>None\<close> when they cannot be listed or read. \<open>pf_comm\<close>, \<open>pf_stat\<close> and
  \<open>pf_cmdline\<close> are file contents, \<open>None\<close> for an \<open>OSError\<close>; \<open>pf_real\<close> is \<open>os.path.realpath\<close>.
\<close>

record proc_fs =
  pf_pids :: "nat list"
  pf_fds :: "nat \<Rightarrow> string option list option"
  pf_comm :: "nat \<Rightarrow> string option"
  pf_stat :: "nat \<Rightarrow> string option"
  pf_cmdline :: "nat \<Rightarrow> string option"
  pf_real :: "string \<Rightarrow> string"

definition read_proc :: "string option \<Rightarrow> string" where
  "read_proc content = (case content of None \<Rightarrow> '''' | Some s \<Rightarrow> strip s)"

definition argv_of :: "proc_fs \<Rightarrow> nat \<Rightarrow> string list" where
  "argv_of fs pid =
     (case pf_cmdline fs pid of
        None \<Rightarrow> []
      | Some raw \<Rightarrow> filter (\<lambda>p. p \<noteq> []) (split_on (CHR 0x00) raw))"

text \<open>\<open>text.rpartition(")")[2]\<close>.\<close>

definition after_last :: "char \<Rightarrow> string \<Rightarrow> string" where
  "after_last c s = rev (takeWhile (\<lambda>x. x \<noteq> c) (rev s))"

definition ppid :: "proc_fs \<Rightarrow> nat \<Rightarrow> int" where
  "ppid fs pid =
     (let parts = words (after_last (CHR '')'') (read_proc (pf_stat fs pid)))
      in if length parts < 2 then 0 else case int_of_text (parts ! 1) of None \<Rightarrow> 0 | Some n \<Rightarrow> n)"

section \<open>The program's own handles\<close>

definition HELPER_COMM :: "string list" where
  "HELPER_COMM = [''ffmpeg'', ''ffprobe'', ''ffplay'', ''mpv'', ''gst-launch-1.0'', ''gst-launch-1'', ''vlc'']"

definition ANCESTRY_DEPTH :: nat where "ANCESTRY_DEPTH = 8"

definition base_name :: "string \<Rightarrow> string" where
  "base_name path = last (split_on (CHR ''/'') path)"

definition is_streamstack_command :: "string list \<Rightarrow> bool" where
  "is_streamstack_command argv =
     (list_ex (\<lambda>a. starts_with ''streamstack'' (base_name a)) (take 4 argv) \<or>
      list_ex (\<lambda>i. argv ! i = ''-m'' \<and> i + 1 < length argv \<and> starts_with ''streamstack'' (argv ! (i + 1)))
        [0..<min 4 (length argv)])"

fun ancestor_loop :: "proc_fs \<Rightarrow> nat \<Rightarrow> int \<Rightarrow> bool" where
  "ancestor_loop fs 0 parent = False"
| "ancestor_loop fs (Suc n) parent =
     (if parent \<le> 1 then False
      else if is_streamstack_command (argv_of fs (nat parent)) then True
      else ancestor_loop fs n (ppid fs (nat parent)))"

definition is_plumbing :: "proc_fs \<Rightarrow> nat \<Rightarrow> nat \<Rightarrow> string \<Rightarrow> bool" where
  "is_plumbing fs own pid comm =
     (if pid = own \<or> is_streamstack_command (argv_of fs pid) then True
      else if comm \<notin> set HELPER_COMM then False
      else ancestor_loop fs ANCESTRY_DEPTH (ppid fs pid))"

section \<open>Names\<close>

definition APP_NAMES :: "(string \<times> string) list" where
  "APP_NAMES =
     [(''ms-teams'', ''Teams''), (''teams-for-linux'', ''Teams''), (''teams'', ''Teams''), (''zoom'', ''Zoom''),
      (''slack'', ''Slack''), (''discord'', ''Discord''), (''skype'', ''Skype''), (''webex'', ''Webex''),
      (''signal'', ''Signal''), (''telegram'', ''Telegram''), (''firefox'', ''Firefox''), (''chrome'', ''Chrome''),
      (''chromium'', ''Chromium''), (''brave'', ''Brave''), (''msedge'', ''Edge''), (''vivaldi'', ''Vivaldi''),
      (''opera'', ''Opera''), (''cheese'', ''Cheese''), (''guvcview'', ''guvcview''), (''kamoso'', ''Kamoso''),
      (''webcamoid'', ''Webcamoid''), (''ffmpeg'', ''ffmpeg''), (''vlc'', ''VLC''), (''mpv'', ''mpv'')]"

definition BROWSERS :: "string list" where
  "BROWSERS = [''Firefox'', ''Chrome'', ''Chromium'', ''Brave'', ''Edge'', ''Vivaldi'', ''Opera'']"

definition friendly :: "string \<Rightarrow> string" where
  "friendly comm =
     (case find (\<lambda>(needle, name). contains needle (lower comm)) APP_NAMES of
        None \<Rightarrow> comm
      | Some (_, name) \<Rightarrow> if name \<in> set BROWSERS then name @ '' in a browser tab'' else name)"

record consumer =
  co_pid :: nat
  co_comm :: string
  co_device :: string

definition consumer_app :: "consumer \<Rightarrow> string" where
  "consumer_app c = friendly (co_comm c)"

text \<open>\<open>dict.fromkeys\<close> keeps the first of equal names; \<open>_join\<close> raises for no items.\<close>

fun first_of_each :: "'a list \<Rightarrow> 'a list" where
  "first_of_each [] = []"
| "first_of_each (x # xs) = x # filter (\<lambda>y. y \<noteq> x) (first_of_each xs)"

definition join_names :: "string list \<Rightarrow> string" where
  "join_names items =
     (if length items = 1 then hd items else join_with '', '' (butlast items) @ '' and '' @ last items)"

definition usage_reason :: "consumer list \<Rightarrow> string" where
  "usage_reason consumers =
     (let names = first_of_each (map consumer_app consumers)
      in if names = [] then '''' else join_names names @ '' opened the camera'')"

section \<open>The scan\<close>

text \<open>The first descriptor of a process that is a wanted device, in the order they are listed.\<close>

definition held_device :: "string list \<Rightarrow> string option list \<Rightarrow> string option" where
  "held_device wanted fds = List.find (\<lambda>d. d \<in> set wanted) (map the (filter (\<lambda>d. d \<noteq> None) fds))"

definition scan_pid :: "proc_fs \<Rightarrow> nat \<Rightarrow> string list \<Rightarrow> string list \<Rightarrow> nat \<Rightarrow> consumer list" where
  "scan_pid fs own wanted skip pid =
     (case pf_fds fs pid of
        None \<Rightarrow> []
      | Some fds \<Rightarrow>
          (case held_device wanted fds of
             None \<Rightarrow> []
           | Some device \<Rightarrow>
               let comm = read_proc (pf_comm fs pid)
               in if comm \<in> set skip \<or> friendly comm \<in> set skip then []
                  else if is_plumbing fs own pid comm then []
                  else [\<lparr>co_pid = pid, co_comm = comm, co_device = device\<rparr>]))"

definition scan_proc :: "proc_fs \<Rightarrow> nat \<Rightarrow> string list \<Rightarrow> string list \<Rightarrow> consumer list" where
  "scan_proc fs own devices ignore =
     (let wanted = map (pf_real fs) devices @ devices
      in if wanted = [] then [] else concat (map (scan_pid fs own wanted ignore) (sort (pf_pids fs))))"

text \<open>\<open>CameraWatcher.poll\<close>, with the three settings it reads.\<close>

definition poll_camera :: "proc_fs \<Rightarrow> nat \<Rightarrow> bool \<Rightarrow> string list \<Rightarrow> string list \<Rightarrow> string list \<Rightarrow> consumer list" where
  "poll_camera fs own apps extra ignore devices =
     (if \<not> apps then [] else scan_proc fs own (devices @ extra) ignore)"

text \<open>\<open>watched_devices\<close>; the settings are a dict, a missing name raises \<open>KeyError\<close>.\<close>

definition setting_true :: "string \<Rightarrow> bool" where
  "setting_true v \<longleftrightarrow> lower (strip v) \<in> set [''1'', ''true'', ''yes'', ''on'']"

definition setting :: "(string \<Rightarrow> string option) \<Rightarrow> string \<Rightarrow> string result" where
  "setting cfg key = (case cfg key of None \<Rightarrow> Inl KeyError | Some v \<Rightarrow> Inr v)"

definition watched_devices :: "(string \<Rightarrow> string option) \<Rightarrow> string list result" where
  "watched_devices cfg =
     bindE (setting cfg ''STREAMSTACK_PROGRAM_DEVICE'') (\<lambda>program.
     bindE (setting cfg ''STREAMSTACK_CAMERA_EXTERNAL'') (\<lambda>external.
     bindE (if setting_true external then Inr [program]
            else bindE (setting cfg ''STREAMSTACK_CAMERA_DEVICE'') (\<lambda>camera. Inr [program, camera])) (\<lambda>devices.
     Inr (filter (\<lambda>d. d \<noteq> []) devices))))"

section \<open>What a scan finds\<close>

text \<open>The chain of parents of a process, and the program's own handles said without the loop.\<close>

fun ancestor :: "proc_fs \<Rightarrow> nat \<Rightarrow> nat \<Rightarrow> int" where
  "ancestor fs pid 0 = ppid fs pid"
| "ancestor fs pid (Suc n) = ppid fs (nat (ancestor fs pid n))"

definition started_by_streamstack :: "proc_fs \<Rightarrow> nat \<Rightarrow> bool" where
  "started_by_streamstack fs pid \<longleftrightarrow>
     (\<exists>k < ANCESTRY_DEPTH. (\<forall>j \<le> k. 1 < ancestor fs pid j) \<and> is_streamstack_command (argv_of fs (nat (ancestor fs pid k))))"

lemma ancestor_loop_iff:
  "ancestor_loop fs n (ancestor fs pid m) \<longleftrightarrow>
     (\<exists>k < n. (\<forall>j \<le> k. 1 < ancestor fs pid (m + j)) \<and> is_streamstack_command (argv_of fs (nat (ancestor fs pid (m + k)))))"
proof (induction n arbitrary: m)
  case (Suc n)
  let ?up = "\<lambda>k. 1 < ancestor fs pid (m + k)"
  let ?own = "\<lambda>k. is_streamstack_command (argv_of fs (nat (ancestor fs pid (m + k))))"
  have IH: "ancestor_loop fs n (ancestor fs pid (Suc m)) \<longleftrightarrow> (\<exists>k<n. (\<forall>j\<le>k. ?up (Suc j)) \<and> ?own (Suc k))"
    using Suc.IH [of "Suc m"] by simp
  have "(\<exists>k<Suc n. (\<forall>j\<le>k. ?up j) \<and> ?own k) \<longleftrightarrow>
      ?up 0 \<and> ?own 0 \<or> (\<exists>k<n. (\<forall>j\<le>Suc k. ?up j) \<and> ?own (Suc k))"
    by (auto simp: less_Suc_eq_0_disj)
  moreover have "(\<forall>j\<le>Suc k. ?up j) \<longleftrightarrow> ?up 0 \<and> (\<forall>j\<le>k. ?up (Suc j))" for k
    by (metis Suc_le_mono bot_nat_0.extremum not0_implies_Suc)
  ultimately show ?case using IH by auto
qed simp

lemma is_plumbing_iff:
  "is_plumbing fs own pid comm \<longleftrightarrow>
     pid = own \<or> is_streamstack_command (argv_of fs pid) \<or> comm \<in> set HELPER_COMM \<and> started_by_streamstack fs pid"
  using ancestor_loop_iff [of fs ANCESTRY_DEPTH pid 0] by (simp add: is_plumbing_def started_by_streamstack_def)

lemma held_device_None: "held_device wanted fds = None \<longleftrightarrow> (\<forall>d. Some d \<in> set fds \<longrightarrow> d \<notin> set wanted)"
  by (auto simp: held_device_def find_None_iff)

definition uses_camera :: "proc_fs \<Rightarrow> nat \<Rightarrow> string list \<Rightarrow> string list \<Rightarrow> nat \<Rightarrow> bool" where
  "uses_camera fs own devices ignore pid \<longleftrightarrow>
     (\<exists>fds d. pf_fds fs pid = Some fds \<and> Some d \<in> set fds \<and> d \<in> pf_real fs ` set devices \<union> set devices) \<and>
     (let comm = read_proc (pf_comm fs pid)
      in comm \<notin> set ignore \<and> friendly comm \<notin> set ignore \<and>
         pid \<noteq> own \<and> \<not> is_streamstack_command (argv_of fs pid) \<and>
         \<not> (comm \<in> set HELPER_COMM \<and> started_by_streamstack fs pid))"

lemma scan_pid_pids:
  "map co_pid (scan_pid fs own (map (pf_real fs) devices @ devices) ignore pid) =
     (if uses_camera fs own devices ignore pid then [pid] else [])"
proof -
  let ?wanted = "map (pf_real fs) devices @ devices"
  have "(\<exists>d. Some d \<in> set fds \<and> d \<in> pf_real fs ` set devices \<union> set devices) \<longleftrightarrow> held_device ?wanted fds \<noteq> None" for fds
    by (auto simp: held_device_None)
  then show ?thesis
    by (auto simp: scan_pid_def uses_camera_def is_plumbing_iff Let_def split: option.splits)
qed

lemma concat_single_if: "concat (map (\<lambda>x. if P x then [x] else []) xs) = filter P xs"
  by (induction xs) auto

text \<open>
  C32. The scan reports exactly the processes that use the camera, once each and in order of their
  numbers: those with a watched device open that the person does not ignore and that are not the
  program's own, a helper such as ffmpeg counting as its own exactly when a streamstack command is among
  its next eight ancestors. One started from a terminal is a user.
\<close>

theorem scan_finds_the_users:
  "map co_pid (scan_proc fs own devices ignore) = filter (uses_camera fs own devices ignore) (sort (pf_pids fs))"
proof (cases "devices = []")
  case True
  then show ?thesis by (simp add: scan_proc_def uses_camera_def)
next
  case False
  then show ?thesis
    by (simp add: scan_proc_def map_concat comp_def scan_pid_pids concat_single_if)
qed

end
