(* ===== verification/CallState.thy ===== *)
theory CallState
  imports CameraUse
begin

text \<open>
  \<open>callstate.py\<close>: is a call in progress? The evidence of call apps (who holds the camera, who captures
  audio, what their windows say), the detector that steadies it and the monitor that tells listeners.
  The texts of \<open>pactl\<close> and \<open>wmctrl\<close> enter as what they print.
\<close>

section \<open>Call apps\<close>

definition CALL_APPS :: "(string \<times> string \<times> bool) list" where
  "CALL_APPS =
     [(''ms-teams'', ''Teams'', False), (''teams-for-linux'', ''Teams'', False), (''teams'', ''Teams'', False),
      (''zoom'', ''Zoom'', False), (''slack'', ''Slack'', False), (''discord'', ''Discord'', False),
      (''skype'', ''Skype'', False), (''webex'', ''Webex'', False), (''ciscocollabhost'', ''Webex'', False),
      (''msedge'', ''Edge'', True), (''microsoft-edge'', ''Edge'', True), (''chromium'', ''Chromium'', True),
      (''chrome'', ''Chrome'', True), (''firefox'', ''Firefox'', True), (''brave'', ''Brave'', True),
      (''vivaldi'', ''Vivaldi'', True), (''opera'', ''Opera'', True)]"

text \<open>The label and whether it is a browser.\<close>

fun app_name :: "string option list \<Rightarrow> (string \<times> bool) option" where
  "app_name [] = None"
| "app_name (raw # names) =
     (let lowered = lower (case raw of None \<Rightarrow> '''' | Some s \<Rightarrow> s)
      in if lowered = [] \<or> starts_with ''streamstack'' lowered then app_name names
         else case find (\<lambda>(needle, _). contains needle lowered) CALL_APPS of
                Some (_, label, browser) \<Rightarrow> Some (label, browser)
              | None \<Rightarrow> app_name names)"

section \<open>Window titles\<close>

text \<open>The patterns of \<open>TITLE_SERVICES\<close>, on the title in lower case; \<open>\<bslash>b\<close> is a change of \<open>word_char\<close>.\<close>

definition word_char :: "char \<Rightarrow> bool" where
  "word_char c \<longleftrightarrow>
     code c \<in> {48..57} \<union> {65..90} \<union> {97..122} \<union> {95} \<union>
       {0xAA, 0xB2, 0xB3, 0xB5, 0xB9, 0xBA, 0xBC, 0xBD, 0xBE} \<union> ({0xC0..0xFF} - {0xD7, 0xF7})"

definition ends_word :: "string \<Rightarrow> bool" where
  "ends_word s \<longleftrightarrow> s = [] \<or> \<not> word_char (hd s)"

fun whole_word :: "bool \<Rightarrow> string \<Rightarrow> string \<Rightarrow> bool" where
  "whole_word prev w [] = False"
| "whole_word prev w (c # s) =
     (\<not> prev \<and> starts_with w (c # s) \<and> ends_word (drop (length w) (c # s)) \<or> whole_word (word_char c) w s)"

fun meet_dash :: "bool \<Rightarrow> string \<Rightarrow> bool" where
  "meet_dash prev [] = False"
| "meet_dash prev (c # s) =
     (\<not> prev \<and> starts_with ''meet'' (c # s) \<and>
        (case drop 4 (c # s) of sp # dash # _ \<Rightarrow> is_space sp \<and> dash = CHR ''-'' | _ \<Rightarrow> False) \<or>
      meet_dash (word_char c) s)"

fun word_then :: "bool \<Rightarrow> string \<Rightarrow> string \<Rightarrow> string \<Rightarrow> bool" where
  "word_then prev w v [] = False"
| "word_then prev w v (c # s) =
     (let rest = drop (length w) (c # s)
      in \<not> prev \<and> starts_with w (c # s) \<and> ends_word rest \<and> whole_word True v (takeWhile (\<lambda>x. code x \<noteq> 10) rest) \<or>
         word_then (word_char c) w v s)"

definition title_service :: "string \<Rightarrow> string option" where
  "title_service title =
     (let t = lower title
      in if whole_word False ''google meet'' t \<or> contains ''meet.google.com'' t \<or>
            starts_with ''meet'' t \<and> ends_word (drop 4 t) \<or> meet_dash False t then Some ''Google Meet''
         else if whole_word False ''microsoft teams'' t \<or> whole_word False ''teams.microsoft'' t \<or>
            whole_word False ''teams.live'' t then Some ''Teams''
         else if whole_word False ''zoom'' t then Some ''Zoom''
         else if whole_word False ''webex'' t then Some ''Webex''
         else if word_then False ''slack'' ''huddle'' t \<or> word_then False ''huddle'' ''slack'' t then Some ''Slack''
         else None)"

text \<open>The windows of \<open>wmctrl -lp\<close> by app; an empty line names no window.\<close>

definition digit_text :: "string \<Rightarrow> bool" where
  "digit_text s \<longleftrightarrow> s \<noteq> [] \<and> list_all (\<lambda>c. is_digit c \<or> code c \<in> {0xB2, 0xB3, 0xB9}) s"

definition append_at :: "'k \<Rightarrow> 'v \<Rightarrow> ('k \<times> 'v list) list \<Rightarrow> ('k \<times> 'v list) list" where
  "append_at k v kvs =
     (if k \<in> set (map fst kvs) then map (\<lambda>(l, vs). (l, if l = k then vs @ [v] else vs)) kvs else kvs @ [(k, [v])])"

definition add_window :: "(string \<Rightarrow> string option) \<Rightarrow> string \<Rightarrow> (string \<times> string list) list \<Rightarrow> (string \<times> string list) list" where
  "add_window comm line titles =
     (let parts = split_max 4 line
      in if length parts < 5 \<or> \<not> digit_text (parts ! 2) then titles
         else case app_name [Some (read_proc (comm (parts ! 2)))] of
                None \<Rightarrow> titles
              | Some (label, _) \<Rightarrow> append_at label (parts ! 4) titles)"

definition read_window_titles :: "(string \<Rightarrow> string option) \<Rightarrow> string option \<Rightarrow> (string \<times> string list) list" where
  "read_window_titles comm out =
     (case out of None \<Rightarrow> [] | Some text \<Rightarrow> fold (add_window comm) (split_where is_line_end text) [])"

section \<open>Evidence\<close>

record capture_stream =
  cs_app :: string
  cs_process :: string
  cs_pid :: "nat option"
  cs_corked :: bool
  cs_muted :: bool

definition stream_live :: "capture_stream \<Rightarrow> bool" where
  "stream_live s \<longleftrightarrow> \<not> (cs_corked s \<or> cs_muted s)"

record evidence =
  ev_app :: string
  ev_browser :: bool
  ev_camera :: bool
  ev_streams :: "capture_stream list"
  ev_titles :: "string list"

definition evidence_service :: "evidence \<Rightarrow> string" where
  "evidence_service e = (case List.map_filter title_service (ev_titles e) of [] \<Rightarrow> ev_app e | service # _ \<Rightarrow> service)"

record external_mute =
  xm_muted :: bool
  xm_source :: string
  xm_at :: rat

text \<open>
  \<open>_int\<close>: a superscript digit passes \<open>isdigit\<close> and makes \<open>int\<close> raise; \<open>str(props.get(key) or "")\<close> is
  \<open>property_text\<close>.
\<close>

definition pid_of :: "json \<Rightarrow> nat option result" where
  "pid_of v =
     (let text = strip (if v = JNull then '''' else str_json v)
      in if \<not> digit_text text then Inr None
         else case int_of_text text of None \<Rightarrow> Inl ValueError | Some n \<Rightarrow> Inr (Some (nat n)))"

definition property_text :: "(string \<times> json) list \<Rightarrow> string \<Rightarrow> string" where
  "property_text props key = (if truthy (jget props key) then str_json (jget props key) else '''')"

text \<open>One entry of the list; \<open>None\<close> for one that is skipped.\<close>

definition source_output :: "json \<Rightarrow> capture_stream option result" where
  "source_output obj =
     (case obj of
        JObj kvs \<Rightarrow>
          (let props = (case jget kvs ''properties'' of JObj ps \<Rightarrow> ps | _ \<Rightarrow> []);
               binary = property_text props ''application.process.binary'';
               name = property_text props ''application.name''
           in if lower (str_json (case map_of props ''stream.capture.sink'' of None \<Rightarrow> JStr '''' | Some v \<Rightarrow> v)) = ''true''
              then Inr None
              else case app_name [Some binary, Some name] of
                     None \<Rightarrow> Inr None
                   | Some (label, _) \<Rightarrow>
                       bindE (pid_of (jget props ''application.process.id'')) (\<lambda>pid.
                         Inr (Some \<lparr>cs_app = label, cs_process = (if binary = [] then name else binary), cs_pid = pid,
                           cs_corked = truthy (jget kvs ''corked''), cs_muted = truthy (jget kvs ''mute'')\<rparr>)))
      | _ \<Rightarrow> Inr None)"

text \<open>\<open>data\<close>: the parsed text, \<open>None\<close> when it is not JSON.\<close>

definition parse_source_outputs :: "json option \<Rightarrow> capture_stream list result" where
  "parse_source_outputs data =
     (case data of
        Some (JList objs) \<Rightarrow> bindE (mapE source_output objs) (\<lambda>found. Inr (List.map_filter id found))
      | _ \<Rightarrow> Inr [])"

text \<open>\<open>out\<close>: \<open>None\<close> when \<open>pactl\<close> could not be run or failed.\<close>

definition read_capture_streams :: "json option option \<Rightarrow> (capture_stream list \<times> bool) result" where
  "read_capture_streams out =
     (case out of
        None \<Rightarrow> Inr ([], False)
      | Some data \<Rightarrow> bindE (parse_source_outputs data) (\<lambda>streams. Inr (streams, True)))"

text \<open>The dict \<open>by_app\<close> of \<open>merge_evidence\<close>, in the order its keys were put in.\<close>

type_synonym app_entry = "bool \<times> bool \<times> capture_stream list"

definition in_entry :: "string \<Rightarrow> bool \<Rightarrow> (app_entry \<Rightarrow> app_entry) \<Rightarrow> (string \<times> app_entry) list \<Rightarrow> (string \<times> app_entry) list" where
  "in_entry label browser f by_app =
     (let by_app1 = (if label \<in> set (map fst by_app) then by_app else by_app @ [(label, (browser, False, []))])
      in map (\<lambda>(l, e). (l, if l = label then f e else e)) by_app1)"

definition add_consumer :: "consumer \<Rightarrow> (string \<times> app_entry) list \<Rightarrow> (string \<times> app_entry) list" where
  "add_consumer c by_app =
     (case app_name [Some (co_comm c)] of
        None \<Rightarrow> by_app
      | Some (label, browser) \<Rightarrow> in_entry label browser (\<lambda>(b, _, ss). (b, True, ss)) by_app)"

definition add_stream :: "capture_stream \<Rightarrow> (string \<times> app_entry) list \<Rightarrow> (string \<times> app_entry) list" where
  "add_stream s by_app =
     in_entry (cs_app s) (case app_name [Some (cs_process s), Some (cs_app s)] of None \<Rightarrow> False | Some (_, b) \<Rightarrow> b)
       (\<lambda>(b, cam, ss). (b, cam, ss @ [s])) by_app"

definition merge_evidence :: "consumer list \<Rightarrow> capture_stream list \<Rightarrow> (string \<times> string list) list \<Rightarrow> evidence list" where
  "merge_evidence camera streams titles =
     map (\<lambda>(label, (browser, cam, ss)).
         \<lparr>ev_app = label, ev_browser = browser, ev_camera = cam, ev_streams = ss,
          ev_titles = (case map_of titles label of None \<Rightarrow> [] | Some ts \<Rightarrow> ts)\<rparr>)
       (sort_key fst (fold add_stream streams (fold add_consumer camera [])))"

record gathered =
  ga_apps :: "evidence list"
  ga_audio_ok :: bool
  ga_video_ok :: bool

text \<open>\<open>scanned\<close>: what the scan of the devices found, \<open>None\<close> when it raised \<open>OSError\<close>.\<close>

definition gather ::
    "string list \<Rightarrow> consumer list option \<Rightarrow> json option option \<Rightarrow> (string \<times> string list) list \<Rightarrow> gathered result" where
  "gather devices scanned pactl titles =
     (let (consumers, video_ok) =
            (if devices = [] then ([], True) else case scanned of Some found \<Rightarrow> (found, True) | None \<Rightarrow> ([], False))
      in bindE (read_capture_streams pactl) (\<lambda>(streams, audio_ok).
           let hints = (if consumers \<noteq> [] \<or> streams \<noteq> [] then titles else [])
           in Inr \<lparr>ga_apps = merge_evidence consumers streams hints, ga_audio_ok = audio_ok, ga_video_ok = video_ok\<rparr>))"

section \<open>The detector\<close>

datatype call_state = CallIdle | CallJoining | CallInCall
datatype mic_state = MicNone | MicOpen | MicMuted

record call_snapshot =
  sn_state :: call_state
  sn_service :: "string option"
  sn_app :: "string option"
  sn_apps :: "string list"
  sn_camera :: bool
  sn_mic :: mic_state
  sn_since :: "rat option"
  sn_reason :: string
  sn_external :: "external_mute option"

definition no_call :: "rat option \<Rightarrow> call_snapshot" where
  "no_call since =
     \<lparr>sn_state = CallIdle, sn_service = None, sn_app = None, sn_apps = [], sn_camera = False, sn_mic = MicNone,
      sn_since = since, sn_reason = '''', sn_external = None\<rparr>"

definition call_active :: "call_snapshot \<Rightarrow> bool" where "call_active s \<longleftrightarrow> sn_state s \<noteq> CallIdle"
definition in_call :: "call_snapshot \<Rightarrow> bool" where "in_call s \<longleftrightarrow> sn_state s = CallInCall"
definition call_muted :: "call_snapshot \<Rightarrow> bool" where "call_muted s \<longleftrightarrow> sn_mic s = MicMuted"

definition mic_state_of :: "evidence list \<Rightarrow> external_mute option \<Rightarrow> mic_state" where
  "mic_state_of apps external =
     (case external of
        Some x \<Rightarrow> if xm_muted x then MicMuted else MicOpen
      | None \<Rightarrow> if list_ex stream_live (concat (map ev_streams apps)) then MicOpen else MicMuted)"

definition call_reason :: "call_state \<Rightarrow> evidence list \<Rightarrow> string option \<Rightarrow> string" where
  "call_reason state apps service =
     (if state = CallIdle then ''''
      else
        let holds = (if list_ex ev_camera apps then [''the camera''] else []) @
              (if list_ex (\<lambda>a. ev_streams a \<noteq> []) apps then [''a microphone stream''] else []);
            names = map ev_app apps;
            who = join_names names;
            who1 = (case service of
                None \<Rightarrow> who
              | Some s \<Rightarrow> if s \<noteq> [] \<and> s \<notin> set names then s @ '' in '' @ who else who)
        in who1 @ '' has '' @ join_with '' and '' holds @ '' open'')"

definition SETTLE_S :: rat where "SETTLE_S = 4"
definition LEAVE_HOLD_S :: rat where "LEAVE_HOLD_S = 3"
definition EXTERNAL_FRESH_S :: rat where "EXTERNAL_FRESH_S = 15"

record call_detector =
  cd_settle_s :: rat
  cd_leave_s :: rat
  cd_snap :: call_snapshot
  cd_capture_since :: "rat option"
  cd_gone_since :: "rat option"

definition new_call_detector :: "rat \<Rightarrow> rat \<Rightarrow> call_detector" where
  "new_call_detector settle leave =
     \<lparr>cd_settle_s = settle, cd_leave_s = leave, cd_snap = no_call None, cd_capture_since = None, cd_gone_since = None\<rparr>"

definition quiet :: "rat \<Rightarrow> call_detector \<Rightarrow> call_detector" where
  "quiet now d =
     (if sn_state (cd_snap d) = CallIdle then d
      else
        let gone = (case cd_gone_since d of None \<Rightarrow> now | Some t \<Rightarrow> t); d1 = d\<lparr>cd_gone_since := Some gone\<rparr>
        in if now - gone < cd_leave_s d then d1
           else d1\<lparr>cd_capture_since := None, cd_gone_since := None, cd_snap := no_call (Some now)\<rparr>)"

definition call_update :: "evidence list \<Rightarrow> external_mute option \<Rightarrow> rat \<Rightarrow> call_detector \<Rightarrow> call_detector" where
  "call_update apps external now d =
     (let external1 = (case external of Some x \<Rightarrow> if EXTERNAL_FRESH_S < now - xm_at x then None else Some x | None \<Rightarrow> None);
          previous = cd_snap d
      in if apps = [] then quiet now d
         else
           let capture = (if list_ex (\<lambda>a. ev_streams a \<noteq> []) apps
                  then Some (case cd_capture_since d of None \<Rightarrow> now | Some t \<Rightarrow> t) else None);
               held = (case capture of None \<Rightarrow> False | Some t \<Rightarrow> cd_settle_s d \<le> now - t);
               state = (if held \<or> sn_state previous = CallInCall then CallInCall else CallJoining);
               primary = (case find (\<lambda>a. ev_streams a \<noteq> []) apps of Some a \<Rightarrow> a | None \<Rightarrow> hd apps);
               service = evidence_service primary;
               since = (if sn_state previous = state \<and> sn_since previous \<noteq> None then sn_since previous else Some now)
           in d\<lparr>cd_gone_since := None, cd_capture_since := capture,
                cd_snap := \<lparr>sn_state = state, sn_service = Some service, sn_app = Some (ev_app primary),
                  sn_apps = map ev_app apps, sn_camera = list_ex ev_camera apps, sn_mic = mic_state_of apps external1,
                  sn_since = since, sn_reason = call_reason state apps (Some service), sn_external = external1\<rparr>\<rparr>)"

definition call_reset :: "rat \<Rightarrow> call_detector \<Rightarrow> call_detector" where
  "call_reset now d = d\<lparr>cd_capture_since := None, cd_gone_since := None, cd_snap := no_call (Some now)\<rparr>"

text \<open>One look, for a guard: a detector with no settling and no hold.\<close>

definition current_call :: "gathered result \<Rightarrow> call_snapshot result" where
  "current_call found = bindE found (\<lambda>g. Inr (cd_snap (call_update (ga_apps g) None 0 (new_call_detector 0 0))))"

section \<open>The monitor\<close>

record call_monitor =
  cm_detector :: call_detector
  cm_external :: "external_mute option"
  cm_health :: "bool \<times> bool"

definition new_monitor :: "call_detector \<Rightarrow> call_monitor" where
  "new_monitor d = \<lparr>cm_detector = d, cm_external = None, cm_health = (True, True)\<rparr>"

definition monitor_snapshot :: "call_monitor \<Rightarrow> call_snapshot" where
  "monitor_snapshot m = cd_snap (cm_detector m)"

definition call_changed :: "call_snapshot \<Rightarrow> call_snapshot \<Rightarrow> bool" where
  "call_changed before after \<longleftrightarrow>
     (sn_state before, sn_service before, sn_mic before, sn_camera before) \<noteq>
     (sn_state after, sn_service after, sn_mic after, sn_camera after)"

text \<open>What the listeners are told, if anything, and the new monitor.\<close>

definition told :: "call_snapshot \<Rightarrow> call_snapshot \<Rightarrow> (call_snapshot \<times> call_snapshot) option" where
  "told before after = (if call_changed before after then Some (before, after) else None)"

definition report_mute :: "bool option \<Rightarrow> string \<Rightarrow> rat \<Rightarrow> call_monitor \<Rightarrow> call_monitor" where
  "report_mute muted source now m =
     m\<lparr>cm_external := map_option (\<lambda>b. \<lparr>xm_muted = b, xm_source = source, xm_at = now\<rparr>) muted\<rparr>"

definition poll_once :: "gathered result \<Rightarrow> rat \<Rightarrow> call_monitor \<Rightarrow> (call_snapshot \<times> call_snapshot) option \<times> call_monitor" where
  "poll_once found now m =
     (case found of
        Inl _ \<Rightarrow> (None, m)
      | Inr g \<Rightarrow>
          let before = monitor_snapshot m; d = call_update (ga_apps g) (cm_external m) now (cm_detector m)
          in (told before (cd_snap d), m\<lparr>cm_detector := d, cm_health := (ga_audio_ok g, ga_video_ok g)\<rparr>))"

definition monitor_reset :: "rat \<Rightarrow> call_monitor \<Rightarrow> (call_snapshot \<times> call_snapshot) option \<times> call_monitor" where
  "monitor_reset now m =
     (let d = call_reset now (cm_detector m)
      in (told (monitor_snapshot m) (cd_snap d), m\<lparr>cm_detector := d, cm_external := None\<rparr>))"

section \<open>One entry per app\<close>

declare app_name.simps [simp del]

definition consumer_label :: "consumer \<Rightarrow> string option" where
  "consumer_label c = map_option fst (app_name [Some (co_comm c)])"

definition app_labels :: "consumer list \<Rightarrow> capture_stream list \<Rightarrow> string set" where
  "app_labels camera streams = {l. \<exists>c\<in>set camera. consumer_label c = Some l} \<union> cs_app ` set streams"

text \<open>The camera flag and the streams of a label, and what \<open>by_app\<close> is a table of.\<close>

definition label_entry :: "consumer list \<Rightarrow> capture_stream list \<Rightarrow> string \<Rightarrow> bool \<times> capture_stream list" where
  "label_entry camera streams l = (\<exists>c\<in>set camera. consumer_label c = Some l, filter (\<lambda>s. cs_app s = l) streams)"

definition table_of :: "string set \<Rightarrow> (string \<Rightarrow> bool \<times> capture_stream list) \<Rightarrow> (string \<times> app_entry) list \<Rightarrow> bool" where
  "table_of K F kvs \<longleftrightarrow> distinct (map fst kvs) \<and> fst ` set kvs = K \<and> (\<forall>l e. (l, e) \<in> set kvs \<longrightarrow> snd e = F l)"

lemma table_in_entry:
  assumes "table_of K F kvs" and "\<And>e. snd (f e) = g (snd e)" and "l \<notin> K \<Longrightarrow> F l = (False, [])"
  shows "table_of (insert l K) (F(l := g (F l))) (in_entry l b f kvs)"
proof -
  define kvs1 where "kvs1 = (if l \<in> set (map fst kvs) then kvs else kvs @ [(l, (b, False, []))])"
  let ?new = "map (\<lambda>(k, e). (k, if k = l then f e else e)) kvs1"
  have k: "distinct (map fst kvs1)" "fst ` set kvs1 = insert l K" "\<And>k e. (k, e) \<in> set kvs1 \<Longrightarrow> snd e = F k"
    using assms(1,3) by (auto simp: kvs1_def table_of_def split: if_splits)
  have keys: "map fst ?new = map fst kvs1" by auto
  have "snd e = (F(l := g (F l))) k" if "(k, e) \<in> set ?new" for k e
  proof -
    from that obtain e0 where "(k, e0) \<in> set kvs1" "e = (if k = l then f e0 else e0)" by auto
    then show ?thesis using k(3) assms(2) by auto
  qed
  moreover have "distinct (map fst ?new)" "fst ` set ?new = insert l K"
    using keys k(1,2) by (simp_all only: list.set_map [symmetric])
  moreover have "in_entry l b f kvs = ?new" by (simp add: in_entry_def kvs1_def)
  ultimately show ?thesis by (simp only: table_of_def) simp
qed

lemma add_consumer_table:
  assumes "table_of (app_labels cs []) (label_entry cs []) by_app"
  shows "table_of (app_labels (cs @ [c]) []) (label_entry (cs @ [c]) []) (add_consumer c by_app)"
proof (cases "app_name [Some (co_comm c)]")
  case None
  then have "consumer_label c = None" by (simp add: consumer_label_def)
  then show ?thesis
    using assms None by (simp add: add_consumer_def app_labels_def label_entry_def [abs_def] bex_Un)
next
  case (Some p)
  then obtain l b where p: "app_name [Some (co_comm c)] = Some (l, b)" by (cases p) auto
  then have l: "consumer_label c = Some l" by (simp add: consumer_label_def)
  have "table_of (insert l (app_labels cs [])) ((label_entry cs [])(l := (True, snd (label_entry cs [] l))))
      (in_entry l b (\<lambda>(b, _, ss). (b, True, ss)) by_app)"
    by (rule table_in_entry [OF assms, where g = "\<lambda>(_, ss). (True, ss)", simplified case_prod_beta'])
      (auto simp: app_labels_def label_entry_def)
  moreover have "insert l (app_labels cs []) = app_labels (cs @ [c]) []" by (auto simp: app_labels_def l)
  moreover have "(label_entry cs [])(l := (True, snd (label_entry cs [] l))) = label_entry (cs @ [c]) []"
    by (auto simp: label_entry_def l)
  ultimately show ?thesis by (simp add: add_consumer_def p)
qed

lemma add_stream_table:
  assumes "table_of (app_labels cs ss) (label_entry cs ss) by_app"
  shows "table_of (app_labels cs (ss @ [s])) (label_entry cs (ss @ [s])) (add_stream s by_app)"
proof -
  let ?l = "cs_app s"
  have none: "label_entry cs ss ?l = (False, [])" if "?l \<notin> app_labels cs ss"
    using that unfolding app_labels_def label_entry_def by (auto simp: filter_empty_conv) (metis image_eqI)
  have "table_of (insert ?l (app_labels cs ss))
      ((label_entry cs ss)(?l := (fst (label_entry cs ss ?l), snd (label_entry cs ss ?l) @ [s])))
      (in_entry ?l b (\<lambda>(b, cam, ss). (b, cam, ss @ [s])) by_app)" for b
    by (rule table_in_entry [OF assms, where g = "\<lambda>(cam, ss). (cam, ss @ [s])", simplified case_prod_beta'])
      (auto simp: none)
  moreover have "insert ?l (app_labels cs ss) = app_labels cs (ss @ [s])" by (auto simp: app_labels_def)
  moreover have "(label_entry cs ss)(?l := (fst (label_entry cs ss ?l), snd (label_entry cs ss ?l) @ [s])) =
      label_entry cs (ss @ [s])"
    by (auto simp: label_entry_def)
  ultimately show ?thesis by (simp add: add_stream_def)
qed

lemma evidence_table:
  "table_of (app_labels camera streams) (label_entry camera streams) (fold add_stream streams (fold add_consumer camera []))"
proof -
  have "table_of (app_labels camera []) (label_entry camera []) (fold add_consumer camera [])"
    by (induction camera rule: rev_induct) (simp_all add: add_consumer_table, simp add: table_of_def app_labels_def)
  then show ?thesis by (induction streams rule: rev_induct) (simp_all add: add_stream_table)
qed

lemma finite_labels: "finite (app_labels camera streams)"
proof -
  have "{l. \<exists>c\<in>set camera. consumer_label c = Some l} \<subseteq> (the \<circ> consumer_label) ` set camera" by force
  then show ?thesis by (simp add: app_labels_def finite_subset)
qed

text \<open>
  Evidence is one entry for each call app that holds the camera or captures audio, in the order of
  their names, however many processes an app has: its camera flag is set exactly when one of its
  processes is a camera user, its streams are exactly its own. A process that is no call app makes none.
\<close>

theorem evidence_by_app:
  "map ev_app (merge_evidence camera streams titles) = sorted_list_of_set (app_labels camera streams) \<and>
   map (\<lambda>e. (ev_camera e, ev_streams e)) (merge_evidence camera streams titles) =
     map (\<lambda>l. (\<exists>c\<in>set camera. consumer_label c = Some l, filter (\<lambda>s. cs_app s = l) streams))
       (sorted_list_of_set (app_labels camera streams))"
proof -
  let ?by = "fold add_stream streams (fold add_consumer camera [])"
  note ok = evidence_table [of camera streams]
  have "map fst (sort_key fst ?by) = sorted_list_of_set (app_labels camera streams)"
    using ok finite_labels by (intro sorted_distinct_set_unique) (auto simp: table_of_def distinct_map)
  moreover have "map ev_app (merge_evidence camera streams titles) = map fst (sort_key fst ?by)"
    by (auto simp: merge_evidence_def)
  moreover have "map (\<lambda>e. (ev_camera e, ev_streams e)) (merge_evidence camera streams titles) =
      map (label_entry camera streams) (map fst (sort_key fst ?by))"
    using ok by (auto simp: merge_evidence_def table_of_def split: prod.splits)
  ultimately show ?thesis by (simp add: label_entry_def [abs_def])
qed

section \<open>The end of a call\<close>

lemma call_update_nil [simp]: "call_update [] x now d = quiet now d"
  by (simp add: call_update_def)

lemma call_update_active:
  assumes "apps \<noteq> []"
  shows "sn_state (cd_snap (call_update apps x now d)) \<noteq> CallIdle" "cd_gone_since (call_update apps x now d) = None"
    "cd_leave_s (call_update apps x now d) = cd_leave_s d" "cd_settle_s (call_update apps x now d) = cd_settle_s d"
  using assms by (simp_all add: call_update_def Let_def)

lemma quiet_idle: "sn_state (cd_snap d) = CallIdle \<Longrightarrow> fold (\<lambda>(t, x). quiet t) ts d = d"
  by (induction ts) (auto simp: quiet_def)

lemma quiet_keeps [simp]: "cd_leave_s (quiet now d) = cd_leave_s d" "cd_settle_s (quiet now d) = cd_settle_s d"
  by (simp_all add: quiet_def Let_def)

lemma quiet_spell:
  assumes "sn_state (cd_snap d) \<noteq> CallIdle" and "cd_gone_since d = Some g" and "sorted (map fst ts)"
  shows "cd_snap (fold (\<lambda>(t, x). quiet t) ts d) = cd_snap d \<and> (\<forall>t x. (t, x) \<in> set ts \<longrightarrow> t - g < cd_leave_s d) \<or>
    sn_state (cd_snap (fold (\<lambda>(t, x). quiet t) ts d)) = CallIdle \<and> (\<exists>t x. (t, x) \<in> set ts \<and> cd_leave_s d \<le> t - g)"
  using assms
proof (induction ts arbitrary: d)
  case (Cons tx ts)
  obtain t x where tx: "tx = (t, x)" by (cases tx)
  show ?case
  proof (cases "t - g < cd_leave_s d")
    case True
    then have q: "quiet t d = d\<lparr>cd_gone_since := Some g\<rparr>" using Cons.prems by (simp add: quiet_def)
    show ?thesis using Cons.IH [of "quiet t d"] Cons.prems True by (auto simp: tx q)
  next
    case False
    then have "sn_state (cd_snap (quiet t d)) = CallIdle" using Cons.prems by (simp add: quiet_def no_call_def)
    then show ?thesis using False quiet_idle [of "quiet t d" ts] by (auto simp: tx)
  qed
qed simp

lemma looks: "(\<lambda>(t, x). call_update [] x t) = (\<lambda>(t, x). quiet t)"
  by (auto simp: fun_eq_iff)

text \<open>
  C33. A gap in the evidence ends a call exactly when it has lasted the leave hold: after a look that saw
  a call app, looks in order of time that see none leave the snapshot as it was while the time since the
  first of them is shorter than the hold, and make it idle once it is not.
\<close>

theorem call_outlives_short_gaps:
  assumes "apps \<noteq> []" and "sorted (map fst ts)" and "ts \<noteq> []" and "d = call_update apps x t0 d0"
  shows "if fst (last ts) - fst (hd ts) < cd_leave_s d0
    then cd_snap (fold (\<lambda>(t, x). call_update [] x t) ts d) = cd_snap d
    else sn_state (cd_snap (fold (\<lambda>(t, x). call_update [] x t) ts d)) = CallIdle"
proof -
  note active = call_update_active [OF assms(1), of x t0 d0, folded assms(4)]
  obtain t y us where ts: "ts = (t, y) # us" using assms(3) by (cases ts) auto
  have all: "s \<le> fst (last ts)" if "(s, z) \<in> set ts" for s z
  proof -
    from that obtain i where "i < length ts" "ts ! i = (s, z)" by (auto simp: in_set_conv_nth)
    then show ?thesis
      using sorted_nth_mono [OF assms(2), of i "length ts - 1"] assms(3) by (auto simp: last_conv_nth)
  qed
  show ?thesis
  proof (cases "0 < cd_leave_s d0")
    case True
    have q: "quiet t d = d\<lparr>cd_gone_since := Some t\<rparr>" using active True by (simp add: quiet_def)
    have "sorted (map fst us)" using assms(2) by (simp add: ts)
    with q consider
        (kept) "cd_snap (fold (\<lambda>(t, x). quiet t) us (quiet t d)) = cd_snap d" "\<And>s z. (s, z) \<in> set us \<Longrightarrow> s - t < cd_leave_s d0"
      | (ended) s z where "sn_state (cd_snap (fold (\<lambda>(t, x). quiet t) us (quiet t d))) = CallIdle" "(s, z) \<in> set us" "cd_leave_s d0 \<le> s - t"
      using quiet_spell [of "quiet t d" t us] active by auto
    then show ?thesis
    proof cases
      case kept
      have "fst (last ts) - t < cd_leave_s d0"
        using kept(2) [of "fst (last us)" "snd (last us)"] True by (cases "us = []") (simp_all add: ts)
      then show ?thesis unfolding looks using kept(1) by (simp add: ts)
    next
      case ended
      have "s \<le> fst (last ts)" using all [of s z] ended(2) by (simp add: ts)
      then have "\<not> fst (last ts) - t < cd_leave_s d0" using ended(3) by linarith
      then show ?thesis unfolding looks using ended(1) by (simp add: ts)
    qed
  next
    case False
    then have idle: "sn_state (cd_snap (quiet t d)) = CallIdle" using active by (simp add: quiet_def no_call_def)
    have "t \<le> fst (last ts)" using all [of t y] by (simp add: ts)
    then show ?thesis unfolding looks using False quiet_idle [OF idle, of us] idle by (simp add: ts)
  qed
qed

section \<open>What being in a call means\<close>













text \<open>Teams with a microphone, seen at seconds 0, 2 and 5; then nothing for two seconds.\<close>

definition teams_seen :: evidence where
  "teams_seen = \<lparr>ev_app = ''Teams'', ev_browser = False, ev_camera = True,
     ev_streams = [\<lparr>cs_app = ''Teams'', cs_process = ''teams'', cs_pid = Some 7, cs_corked = False, cs_muted = True\<rparr>], ev_titles = []\<rparr>"


theorem call_outlives_short_gaps_witness:
  "cd_snap (fold (\<lambda>(t, x). call_update [] x t) [(6, None), (8, None)] (call_update [teams_seen] None 5 (new_call_detector SETTLE_S LEAVE_HOLD_S))) =
     cd_snap (call_update [teams_seen] None 5 (new_call_detector SETTLE_S LEAVE_HOLD_S)) \<and>
   sn_state (cd_snap (fold (\<lambda>(t, x). call_update [] x t) [(6, None), (9, None)] (call_update [teams_seen] None 5 (new_call_detector SETTLE_S LEAVE_HOLD_S)))) = CallIdle"
  using call_outlives_short_gaps [of "[teams_seen]" "[(6, None), (8, None)]" _ None 5 "new_call_detector SETTLE_S LEAVE_HOLD_S", OF _ _ _ HOL.refl]
    call_outlives_short_gaps [of "[teams_seen]" "[(6, None), (9, None)]" _ None 5 "new_call_detector SETTLE_S LEAVE_HOLD_S", OF _ _ _ HOL.refl]
  by (simp add: new_call_detector_def LEAVE_HOLD_S_def)

end
