(* ===== verification/ConsoleParams.thy ===== *)
theory ConsoleParams
  imports PyText PyNum LatestWriter
begin

text \<open>
  What the Console's controllers share: the checks of an action's parameters (\<open>number_param\<close> and
  \<open>bool_param\<close> of \<open>console/audio.py\<close>) and saving the settings in effect (\<open>_save\<close> of each controller).
  The interface \<open>settings_file\<close> is what a controller's document and its reader promise each other.
\<close>

section \<open>Parameters\<close>

text \<open>\<open>float(n)\<close> and \<open>math.isfinite(n)\<close> raise for a whole number too large for a double.\<close>

definition too_large :: "int \<Rightarrow> bool" where
  "too_large n \<longleftrightarrow> 2 ^ 1024 - 2 ^ 970 \<le> \<bar>n\<bar>"

text \<open>\<open>number_param\<close> without \<open>clamped\<close>; the limits come with the text they are printed as.\<close>

definition number_param :: "(string \<times> json) list \<Rightarrow> string \<Rightarrow> rat \<times> string \<Rightarrow> rat \<times> string \<Rightarrow> rat result" where
  "number_param params key = (\<lambda>(low, low_text) (high, high_text).
     let inside = (\<lambda>x. if low \<le> x \<and> x \<le> high then Inr x
           else Inl (ActionError (key @ '' must be between '' @ low_text @ '' and '' @ high_text) 400))
     in case jget params key of
          JInt n \<Rightarrow> if too_large n then Inl OverflowError else inside (of_int n)
        | JFloat x _ \<Rightarrow> inside x
        | _ \<Rightarrow> Inl (ActionError (key @ '' must be a number'') 400))"

definition bool_param :: "(string \<times> json) list \<Rightarrow> string \<Rightarrow> bool result" where
  "bool_param params key =
     (case jget params key of JBool b \<Rightarrow> Inr b | _ \<Rightarrow> Inl (ActionError (key @ '' must be true or false'') 400))"

text \<open>A parameter that may be left out.\<close>

definition optional :: "(string \<times> json) list \<Rightarrow> string \<Rightarrow> 'a result \<Rightarrow> 'a option result" where
  "optional params key check = (if key \<in> set (map fst params) then bindE check (\<lambda>x. Inr (Some x)) else Inr None)"

definition unknown_keys :: "string list \<Rightarrow> (string \<times> json) list \<Rightarrow> string list" where
  "unknown_keys known params = sort (filter (\<lambda>k. k \<notin> set known) (map fst params))"

lemma number_param_range: "number_param params key (low, a) (high, b) = Inr x \<Longrightarrow> low \<le> x \<and> x \<le> high"
  by (auto simp: number_param_def Let_def split: json.splits if_splits)

lemma optional_Inr: "optional params key check = Inr (Some x) \<Longrightarrow> check = Inr x"
  by (auto simp: optional_def split: if_splits)

lemma py_round1_inside:
  assumes "of_int a / 10 \<le> x" and "x \<le> of_int b / 10"
  shows "of_int a / 10 \<le> py_round1 x \<and> py_round1 x \<le> of_int b / 10"
proof -
  have "of_int a \<le> x * 10" "x * 10 \<le> of_int b" using assms by simp_all
  from py_round_bounds [OF this] show ?thesis by (simp add: py_round1_def divide_right_mono)
qed

section \<open>Saving\<close>

text \<open>
  Publish the settings and save them at once; \<open>failed\<close> is the text of the \<open>OSError\<close> of the write. The
  settings stay in effect either way.
\<close>

definition save_now :: "bool \<Rightarrow> string option \<Rightarrow> 's \<Rightarrow> 's writer \<Rightarrow> unit result \<times> 's writer" where
  "save_now saves failed settings w =
     (if \<not> saves then (Inr (), w)
      else
        let w1 = publish settings w
        in ((case failed of None \<Rightarrow> Inr ()
             | Some exc \<Rightarrow> Inl (ActionError (''The setting is in effect but could not be saved: '' @ exc) 409)),
            (case flush_read w1 of None \<Rightarrow> w1 | Some (_, version) \<Rightarrow> flush_finish version w1)))"

lemma save_now_clean: "lw_value w = None \<Longrightarrow> lw_value (snd (save_now saves failed settings w)) = None"
  by (simp add: save_now_def Let_def publish_def flush_read_def flush_finish_def)

locale settings_file =
  fixes doc :: "'s \<Rightarrow> (string \<times> json) list"
    and reads :: "(string \<times> json) list \<Rightarrow> 's result"
    and usable :: "'s \<Rightarrow> bool"
  assumes read_back: "usable s \<Longrightarrow> reads (doc s) = Inr s"
    and read_usable: "reads saved = Inr s \<Longrightarrow> usable s"
begin

text \<open>The file after a list of changes, each with whether its write succeeded.\<close>

fun file_after :: "(string \<times> json) list \<Rightarrow> ('s \<times> bool) list \<Rightarrow> (string \<times> json) list" where
  "file_after f [] = f"
| "file_after f ((s, ok) # cs) = file_after (if ok then doc s else f) cs"

definition last_saved :: "('s \<times> bool) list \<Rightarrow> 's option" where
  "last_saved cs = (case filter snd cs of [] \<Rightarrow> None | saved \<Rightarrow> Some (fst (last saved)))"

lemma restart:
  assumes "\<forall>(s, ok)\<in>set cs. usable s"
  shows "reads (file_after f cs) = (case last_saved cs of None \<Rightarrow> reads f | Some s \<Rightarrow> Inr s)"
  using assms
proof (induction cs arbitrary: f)
  case (Cons c cs)
  obtain s ok where c: "c = (s, ok)" by (cases c)
  have "reads (if ok then doc s else f) = (if ok then Inr s else reads f)"
    using Cons.prems by (simp add: c read_back)
  then show ?case using Cons by (auto simp: c last_saved_def split: list.splits)
qed (simp add: last_saved_def)

end

text \<open>
  A controller over such a file: \<open>change\<close> is its action on the settings, with what it is given and the
  text of the error of the write, if it fails.
\<close>

locale settings_controller = settings_file doc reads usable
  for doc :: "'s \<Rightarrow> (string \<times> json) list" and reads :: "(string \<times> json) list \<Rightarrow> 's result" and usable :: "'s \<Rightarrow> bool" +
  fixes change :: "'p \<Rightarrow> string option \<Rightarrow> 'c \<Rightarrow> unit result \<times> 'c"
    and current :: "'c \<Rightarrow> 's"
    and waiting :: "'c \<Rightarrow> 's writer"
    and saves :: "'c \<Rightarrow> bool"
  assumes change_usable: "usable (current c) \<Longrightarrow> usable (current (snd (change p failed c)))"
    and refused: "fst (change p None c) = Inl e \<Longrightarrow> snd (change p None c) = c"
    and change_clean: "lw_value (waiting c) = None \<Longrightarrow> lw_value (waiting (snd (change p failed c))) = None"
    and change_saves: "saves (snd (change p failed c)) = saves c"
begin

text \<open>Actions on the settings, with the file: a write that succeeds puts the document there.\<close>

definition session :: "('p \<times> string option) list \<Rightarrow> 'c \<times> (string \<times> json) list \<Rightarrow> 'c \<times> (string \<times> json) list" where
  "session = fold (\<lambda>(p, failed) (c, f).
     case change p failed c of
       (Inl _, c1) \<Rightarrow> (c1, f)
     | (Inr _, c1) \<Rightarrow> (c1, if saves c1 then doc (current c1) else f))"

lemma session_survives:
  assumes "session acts (c0, f0) = (c, f)" and "reads f0 = Inr (current c0)" and "lw_value (waiting c0) = None"
    and "saves c0" and "\<forall>(p, failed)\<in>set acts. failed = None"
  shows "reads f = Inr (current c) \<and> lw_value (waiting c) = None"
  using assms
proof (induction acts arbitrary: c0 f0)
  case (Cons a acts)
  obtain p where a: "a = (p, None)" using Cons.prems(5) by (cases a) auto
  obtain r c1 where change: "change p None c0 = (r, c1)" by (rule prod.exhaust)
  have c1: "usable (current c1)" "lw_value (waiting c1) = None" "saves c1"
    using change_usable [of c0 p None] change_clean [of c0 p None] change_saves [of p None c0]
      Cons.prems(2-4) read_usable by (auto simp: change)
  have "\<exists>f1. session (a # acts) (c0, f0) = session acts (c1, f1) \<and> reads f1 = Inr (current c1)"
  proof (cases r)
    case (Inl e)
    then have "c1 = c0" using refused [of p c0 e] by (simp add: change)
    then show ?thesis using Inl Cons.prems(2) by (auto simp: session_def a change)
  next
    case (Inr u)
    then show ?thesis using c1 read_back by (auto simp: session_def a change)
  qed
  then show ?case using Cons c1 by auto
qed (simp add: session_def)

end

end
