(* ===== verification/SafeJoin.thy ===== *)
theory SafeJoin
  imports CallState ConsoleParams
begin

text \<open>
  \<open>console/safejoin.py\<close>: when a call app takes the camera the Console can hold privacy and the mute
  until the person goes live. A handler is a function of what it reads (clocks, the rig's snapshot, how
  its commands end) that returns what it did, in order, and the new state; the lock makes each one step.
  The last part puts the controller beside the rig and the person, and behind the call monitor.
\<close>

section \<open>Settings\<close>

datatype join_mode = JoinOff | JoinWarn | JoinSafe

definition MODES_TEXT :: "(string \<times> join_mode) list" where
  "MODES_TEXT = [(''off'', JoinOff), (''warn'', JoinWarn), (''safe'', JoinSafe)]"

definition RELEASE_LOW :: rat where "RELEASE_LOW = 0"
definition RELEASE_HIGH :: rat where "RELEASE_HIGH = 600"
definition EVENTS_MAX :: nat where "EVENTS_MAX = 20"
definition HOLD_SETTLE_S :: rat where "HOLD_SETTLE_S = 2"
definition HOLD_POLL_S :: rat where "HOLD_POLL_S = 1 / 4"

record join_settings =
  js_mode :: join_mode
  js_release :: rat

definition default_join :: join_settings where
  "default_join = \<lparr>js_mode = JoinWarn, js_release = 0\<rparr>"

definition read_join_settings :: "(string \<times> json) list \<Rightarrow> join_settings result" where
  "read_join_settings saved =
     (let s = (case jget saved ''mode'' of
            JStr m \<Rightarrow> (case map_of MODES_TEXT m of Some mode \<Rightarrow> default_join\<lparr>js_mode := mode\<rparr> | None \<Rightarrow> default_join)
          | _ \<Rightarrow> default_join);
          clamp = (\<lambda>x. max RELEASE_LOW (min RELEASE_HIGH x))
      in case jget saved ''auto_release_s'' of
           JInt n \<Rightarrow> if too_large n then Inl OverflowError else Inr (s\<lparr>js_release := clamp (of_int n)\<rparr>)
         | JFloat x _ \<Rightarrow> Inr (s\<lparr>js_release := clamp x\<rparr>)
         | _ \<Rightarrow> Inr s)"

section \<open>The controller\<close>

datatype desk_part = Privacy | Mic

record join_event =
  je_at :: string
  je_service :: string
  je_mode :: join_mode
  je_did :: "string list"
  je_kept :: "string list"
  je_notes :: "string list"

text \<open>\<open>sj_bound\<close>, \<open>sj_notifies\<close>, \<open>sj_saves\<close>: whether the rig is bound, \<open>notify\<close> given, a path given.\<close>

record safe_join =
  sj_bound :: bool
  sj_notifies :: bool
  sj_saves :: bool
  sj_writer :: "join_settings writer"
  sj_settings :: join_settings
  sj_events :: "join_event list"
  sj_in_call :: bool
  sj_handled :: bool
  sj_held :: "desk_part \<Rightarrow> bool"
  sj_service :: "string option"
  sj_since :: "rat option"
  sj_since_wall :: "rat option"
  sj_next_poll :: rat

definition new_join :: "bool \<Rightarrow> bool \<Rightarrow> bool \<Rightarrow> join_settings \<Rightarrow> safe_join" where
  "new_join bound notifies saves settings =
     \<lparr>sj_bound = bound, sj_notifies = notifies, sj_saves = saves, sj_writer = new_writer, sj_settings = settings,
      sj_events = [], sj_in_call = False, sj_handled = False, sj_held = (\<lambda>_. False), sj_service = None,
      sj_since = None, sj_since_wall = None, sj_next_poll = 0\<rparr>"

text \<open>
  What a handler reads: the rig's snapshot (\<open>None\<close>: reading it raised), how a command ends (\<open>Some\<close>
  the text of the exception), the clocks, and the wall clock as the two formats print it.
\<close>

record join_env =
  en_view :: "json option"
  en_run :: "desk_part \<Rightarrow> bool \<Rightarrow> string option"
  en_clock :: rat
  en_wall :: rat
  en_iso :: string
  en_hms :: string

datatype join_effect = Ran desk_part bool bool | Told string string

fun dig :: "json \<Rightarrow> string list \<Rightarrow> json" where
  "dig node [] = node"
| "dig node (key # path) = (case node of JObj kvs \<Rightarrow> dig (jget kvs key) path | _ \<Rightarrow> JNull)"

definition state_now :: "join_env \<Rightarrow> safe_join \<Rightarrow> json" where
  "state_now en s = (if \<not> sj_bound s then JObj [] else case en_view en of None \<Rightarrow> JObj [] | Some v \<Rightarrow> v)"

definition part_path :: "desk_part \<Rightarrow> string list" where
  "part_path part = (case part of Privacy \<Rightarrow> [''video'', ''privacy''] | Mic \<Rightarrow> [''audio'', ''mic'', ''muted''])"

definition tell :: "safe_join \<Rightarrow> string \<Rightarrow> string \<Rightarrow> join_effect list" where
  "tell s level text = (if sj_notifies s then [Told level text] else [])"

text \<open>\<open>_do\<close>: whether the command worked, the list \<open>did\<close> and what was run.\<close>

definition run_part ::
    "join_env \<Rightarrow> safe_join \<Rightarrow> desk_part \<Rightarrow> bool \<Rightarrow> string \<Rightarrow> string list \<Rightarrow> bool \<times> string list \<times> join_effect list" where
  "run_part en s part on label did =
     (if \<not> sj_bound s then (False, did, [])
      else case en_run en part on of
             Some exc \<Rightarrow> (False, did @ [label @ '' failed: '' @ exc], [Ran part on False])
           | None \<Rightarrow> (True, did @ [label], [Ran part on True]))"

definition record_event :: "join_env \<Rightarrow> string \<Rightarrow> join_mode \<Rightarrow> string list \<Rightarrow> string list \<Rightarrow> safe_join \<Rightarrow> safe_join" where
  "record_event en service mode did kept s =
     s\<lparr>sj_events := take EVENTS_MAX
         (\<lparr>je_at = en_iso en, je_service = service, je_mode = mode, je_did = did, je_kept = kept, je_notes = []\<rparr> # sj_events s)\<rparr>"

definition add_note :: "join_env \<Rightarrow> string \<Rightarrow> safe_join \<Rightarrow> safe_join" where
  "add_note en text s =
     (case sj_events s of
        [] \<Rightarrow> s
      | e # es \<Rightarrow> s\<lparr>sj_events := e\<lparr>je_notes := je_notes e @ [en_hms en @ '' '' @ text]\<rparr> # es\<rparr>)"

definition holding :: "safe_join \<Rightarrow> bool" where
  "holding s \<longleftrightarrow> sj_held s Privacy \<or> sj_held s Mic"

definition or_text :: "string \<Rightarrow> string \<Rightarrow> string" where
  "or_text s t = (if s = [] then t else s)"

definition engage :: "join_env \<Rightarrow> call_snapshot \<Rightarrow> safe_join \<Rightarrow> join_effect list \<times> safe_join" where
  "engage en call s =
     (let mode = js_mode (sj_settings s);
          service = or_text (case sn_service call of None \<Rightarrow> '''' | Some t \<Rightarrow> t) ''A call app''
      in if mode = JoinOff then ([], s)
         else if mode = JoinWarn then
           (tell s ''warn'' (service @ '' has the camera. You are on air: check privacy and the microphone.''),
            record_event en service mode [] [] s)
         else
           let state = state_now en s;
               (kept1, privacy, did1, fx1) =
                 (if dig state (part_path Privacy) = JBool True then ([''privacy was already on''], False, [], [])
                  else let (ok, did, fx) = run_part en s Privacy True ''privacy on'' [] in ([], ok, did, fx));
               (kept, mute, did, fx2) =
                 (if dig state (part_path Mic) = JBool True then (kept1 @ [''the microphone was already muted''], False, did1, [])
                  else if dig state [''audio'', ''mic'', ''present''] = JBool False
                  then (kept1 @ [''no microphone to mute''], False, did1, [])
                  else let (ok, did, fx) = run_part en s Mic True ''microphone muted'' did1 in (kept1, ok, did, fx));
               s1 = s\<lparr>sj_held := case_desk_part privacy mute, sj_service := Some service, sj_since := Some (en_clock en),
                  sj_since_wall := Some (en_wall en), sj_next_poll := en_clock en + HOLD_SETTLE_S\<rparr>;
               s2 = record_event en service mode did kept s1
           in (fx1 @ fx2 @
               (if holding s2 then tell s ''warn'' (service @ '' has the camera. You are not on air: press Go live.'')
                else tell s ''info'' (service @ '' has the camera. '' @ or_text (join_with ''; '' kept) ''Nothing to hold'' @ ''.'')),
               s2))"

text \<open>\<open>_release\<close> also returns the list \<open>did\<close>.\<close>

definition release_hold :: "join_env \<Rightarrow> string \<Rightarrow> safe_join \<Rightarrow> string list \<times> join_effect list \<times> safe_join" where
  "release_hold en why s =
     (let state = state_now en s;
          (did1, fx1) =
            (if sj_held s Privacy \<and> dig state (part_path Privacy) \<noteq> JBool False
             then snd (run_part en s Privacy False ''privacy off'' []) else ([], []));
          (did, fx2) =
            (if sj_held s Mic \<and> dig state (part_path Mic) \<noteq> JBool False
             then snd (run_part en s Mic False ''microphone unmuted'' did1) else (did1, []))
      in (did, fx1 @ fx2,
          add_note en (''Released: '' @ or_text (join_with '', '' did) ''nothing left to release'' @ '' ('' @ why @ '').'')
            (s\<lparr>sj_held := (\<lambda>_. False), sj_since := None, sj_since_wall := None\<rparr>)))"

definition call_ended :: "join_env \<Rightarrow> safe_join \<Rightarrow> join_effect list \<times> safe_join" where
  "call_ended en s =
     (let s1 = s\<lparr>sj_in_call := False, sj_handled := False\<rparr>
      in if holding s1 then snd (release_hold en ''the call ended'' s1) else ([], s1))"

definition on_call :: "join_env \<Rightarrow> call_snapshot \<Rightarrow> safe_join \<Rightarrow> join_effect list \<times> safe_join" where
  "on_call en after s =
     (if \<not> call_active after then (if sj_in_call s then call_ended en s else ([], s))
      else
        let s1 = (if sj_in_call s then s else s\<lparr>sj_in_call := True, sj_handled := False\<rparr>)
        in if sn_camera after \<and> \<not> sj_handled s1 then engage en after (s1\<lparr>sj_handled := True\<rparr>) else ([], s1))"

text \<open>
  \<open>on_meters\<close> and its second critical section; the state is read between the two, which are one step here.
\<close>

definition notice_release :: "join_env \<Rightarrow> safe_join \<Rightarrow> join_effect list \<times> safe_join" where
  "notice_release en s =
     (let state = state_now en s;
          gone = (\<lambda>part. sj_held s part \<and> dig state (part_path part) = JBool False);
          by_hand = (if gone Privacy then [''privacy''] else []) @ (if gone Mic then [''the microphone''] else []);
          s1 = s\<lparr>sj_held := (\<lambda>part. sj_held s part \<and> \<not> gone part)\<rparr>
      in if \<not> holding s then ([], s)
         else if by_hand = [] then ([], s1)
         else
           let s2 = add_note en (''You released '' @ join_with '' and '' by_hand @ '' yourself.'') s1
           in if holding s2 then ([], s2)
              else (tell s2 ''ok'' ''You are on air.'', s2\<lparr>sj_since := None, sj_since_wall := None\<rparr>))"

definition on_meters :: "join_env \<Rightarrow> rat \<Rightarrow> safe_join \<Rightarrow> join_effect list \<times> safe_join" where
  "on_meters en now s =
     (if \<not> holding s \<or> now < sj_next_poll s then ([], s)
      else
        let s1 = s\<lparr>sj_next_poll := now + HOLD_POLL_S\<rparr>; timer = js_release (sj_settings s)
        in if timer \<noteq> 0 \<and> (case sj_since s1 of None \<Rightarrow> False | Some t \<Rightarrow> timer \<le> now - t)
           then snd (release_hold en ''the timer ran out'' s1)
           else notice_release en s1)"

section \<open>Actions\<close>

definition go_live :: "join_env \<Rightarrow> safe_join \<Rightarrow> string \<times> join_effect list \<times> safe_join" where
  "go_live en s =
     (if \<not> holding s then (''Nothing is held: you are on air.'', [], s)
      else
        let (did, fx, s1) = release_hold en ''Go live'' s
        in (if did \<noteq> [] then ''You are on air.'' else ''Nothing to release.'',
            fx @ tell s1 ''ok'' ''You are on air.'', s1\<lparr>sj_handled := True\<rparr>))"

definition mode_param :: "(string \<times> json) list \<Rightarrow> join_mode result" where
  "mode_param params =
     (case (case jget params ''mode'' of JStr m \<Rightarrow> map_of MODES_TEXT m | _ \<Rightarrow> None) of
        Some mode \<Rightarrow> Inr mode
      | None \<Rightarrow> Inl (ActionError ''mode must be one of off, warn, safe'' 400))"

definition release_param :: "(string \<times> json) list \<Rightarrow> rat result" where
  "release_param params =
     bindE (number_param params ''auto_release_s'' (RELEASE_LOW, ''0'') (RELEASE_HIGH, ''600'')) (\<lambda>x. Inr (py_round1 x))"

definition join_changes :: "(string \<times> json) list \<Rightarrow> (join_mode option \<times> rat option) result" where
  "join_changes params =
     (let unknown = unknown_keys [''mode'', ''auto_release_s''] params
      in if unknown \<noteq> [] then Inl (ActionError (''unknown safe join setting '' @ repr_string (hd unknown)) 400)
         else if params = [] then Inl (ActionError ''nothing to change'' 400)
         else
           bindE (optional params ''mode'' (mode_param params)) (\<lambda>mode.
           bindE (optional params ''auto_release_s'' (release_param params)) (\<lambda>timer. Inr (mode, timer))))"

text \<open>\<open>failed\<close>: how the write of the settings ends; the setting is in effect either way.\<close>

definition join_set :: "(string \<times> json) list \<Rightarrow> string option \<Rightarrow> safe_join \<Rightarrow> unit result \<times> safe_join" where
  "join_set params failed s =
     (case join_changes params of
        Inl e \<Rightarrow> (Inl e, s)
      | Inr (mode, timer) \<Rightarrow>
          let new = \<lparr>js_mode = (case mode of None \<Rightarrow> js_mode (sj_settings s) | Some m \<Rightarrow> m),
                     js_release = (case timer of None \<Rightarrow> js_release (sj_settings s) | Some t \<Rightarrow> t)\<rparr>;
              (res, w) = save_now (sj_saves s) failed new (sj_writer s)
          in (res, s\<lparr>sj_settings := new, sj_writer := w\<rparr>))"

definition join_act ::
    "join_env \<Rightarrow> string \<Rightarrow> (string \<times> json) list \<Rightarrow> string option \<Rightarrow> safe_join \<Rightarrow>
     string option result \<times> join_effect list \<times> safe_join" where
  "join_act en action params saved s =
     (if action = ''safejoin.set'' then
        (case join_set params saved s of (Inl e, s1) \<Rightarrow> (Inl e, [], s1) | (Inr _, s1) \<Rightarrow> (Inr None, [], s1))
      else if action = ''safejoin.go_live'' then
        (case go_live en s of (text, fx, s1) \<Rightarrow> (Inr (Some text), fx, s1))
      else (Inl (ActionError (''unknown safe join action '' @ repr_string action) 400), [], s))"

text \<open>The part of \<open>state()\<close> that is not a constant or a setting.\<close>

record join_view =
  jv_holding :: bool
  jv_held :: "desk_part \<Rightarrow> bool"
  jv_service :: "string option"
  jv_since :: "rat option"
  jv_release_in :: "rat option"
  jv_events :: "join_event list"

definition join_state :: "rat \<Rightarrow> safe_join \<Rightarrow> join_view" where
  "join_state now s =
     (let timer = js_release (sj_settings s);
          left = (case sj_since s of
              None \<Rightarrow> None
            | Some t \<Rightarrow> if timer \<noteq> 0 \<and> holding s then Some (max 0 (py_round1 (timer - (now - t)))) else None)
      in \<lparr>jv_holding = holding s, jv_held = sj_held s, jv_service = (if holding s then sj_service s else None),
          jv_since = (if holding s then sj_since_wall s else None), jv_release_in = left, jv_events = sj_events s\<rparr>)"

section \<open>What a handler does\<close>

definition took :: "desk_part \<Rightarrow> join_effect \<Rightarrow> bool" where
  "took part fx \<longleftrightarrow> (\<exists>ok. fx = Ran part True ok)"

definition takes :: "desk_part \<Rightarrow> join_effect list \<Rightarrow> nat" where
  "takes part fx = length (filter (took part) fx)"

lemma takes_simps [simp]:
  "takes part [] = 0" "takes part (fx @ gx) = takes part fx + takes part gx"
  "takes part (Ran p b ok # fx) = (if p = part \<and> b then 1 else 0) + takes part fx"
  "takes part (Told level text # fx) = takes part fx"
  "takes part (tell s level text) = 0"
  by (auto simp: takes_def took_def tell_def)

lemma run_part_simps:
  "fst (run_part en s part on label did) = (sj_bound s \<and> en_run en part on = None)"
  "snd (snd (run_part en s part on label did)) = (if sj_bound s then [Ran part on (en_run en part on = None)] else [])"
  by (auto simp: run_part_def split: option.splits)

lemma add_note_keeps [simp]:
  "sj_bound (add_note en text s) = sj_bound s" "sj_held (add_note en text s) = sj_held s"
  "sj_in_call (add_note en text s) = sj_in_call s" "sj_handled (add_note en text s) = sj_handled s"
  "sj_settings (add_note en text s) = sj_settings s" "sj_notifies (add_note en text s) = sj_notifies s"
  "holding (add_note en text s) = holding s" "sj_since (add_note en text s) = sj_since s"
  by (auto simp: add_note_def holding_def split: list.splits)

lemma release_keeps [simp]:
  "sj_bound (snd (snd (release_hold en why s))) = sj_bound s"
  "sj_held (snd (snd (release_hold en why s))) = (\<lambda>_. False)"
  "sj_in_call (snd (snd (release_hold en why s))) = sj_in_call s"
  "sj_handled (snd (snd (release_hold en why s))) = sj_handled s"
  "takes part (fst (snd (release_hold en why s))) = 0"
  by (auto simp: release_hold_def Let_def case_prod_beta run_part_simps)

lemma not_holding: "\<not> holding s \<Longrightarrow> sj_held s = (\<lambda>_. False)"
  by (auto simp: holding_def fun_eq_iff) (metis desk_part.exhaust)

text \<open>What a release runs.\<close>

definition released :: "join_env \<Rightarrow> safe_join \<Rightarrow> desk_part \<Rightarrow> bool" where
  "released en s part \<longleftrightarrow> sj_held s part \<and> dig (state_now en s) (part_path part) \<noteq> JBool False"


lemma engage_keeps [simp]:
  "sj_bound (snd (engage en call s)) = sj_bound s" "sj_in_call (snd (engage en call s)) = sj_in_call s"
  "sj_handled (snd (engage en call s)) = sj_handled s"
  by (auto simp: engage_def Let_def case_prod_beta record_event_def)

text \<open>The parts an engagement takes, and which of them it then holds.\<close>

definition engaged :: "join_env \<Rightarrow> safe_join \<Rightarrow> desk_part \<Rightarrow> bool" where
  "engaged en s part \<longleftrightarrow>
     sj_bound s \<and> js_mode (sj_settings s) = JoinSafe \<and> dig (state_now en s) (part_path part) \<noteq> JBool True \<and>
     (part = Mic \<longrightarrow> dig (state_now en s) [''audio'', ''mic'', ''present''] \<noteq> JBool False)"

lemma engage_held:
  assumes "sj_held s = (\<lambda>_. False)"
  shows "sj_held (snd (engage en call s)) part = (engaged en s part \<and> en_run en part True = None)"
proof (cases "js_mode (sj_settings s)")
  case JoinSafe
  then show ?thesis
    by (cases part) (auto simp: engage_def Let_def case_prod_beta record_event_def run_part_simps engaged_def)
qed (use assms in \<open>auto simp: engage_def record_event_def engaged_def Let_def\<close>)

definition commands :: "join_effect list \<Rightarrow> join_effect list" where
  "commands fx = filter (\<lambda>f. case f of Ran _ _ _ \<Rightarrow> True | Told _ _ \<Rightarrow> False) fx"

lemma commands_simps [simp]:
  "commands [] = []" "commands (fx @ gx) = commands fx @ commands gx" "commands (tell s level text) = []"
  "commands (Ran p b ok # fx) = Ran p b ok # commands fx" "commands (Told level text # fx) = commands fx"
  by (simp_all add: commands_def tell_def)

lemma engage_commands:
  "commands (fst (engage en call s)) =
     (if engaged en s Privacy then [Ran Privacy True (en_run en Privacy True = None)] else []) @
     (if engaged en s Mic then [Ran Mic True (en_run en Mic True = None)] else [])"
proof (cases "js_mode (sj_settings s)")
  case JoinSafe
  then show ?thesis
    by (auto simp: engage_def Let_def case_prod_beta run_part_simps engaged_def)
qed (auto simp: engage_def engaged_def Let_def)

lemma takes_commands: "takes part (commands fx) = takes part fx"
proof (induction fx)
  case (Cons f fx)
  then show ?case by (cases f) simp_all
qed simp

lemma engage_takes: "takes part (fst (engage en call s)) \<le> 1"
  using takes_commands [of part "fst (engage en call s)"] unfolding engage_commands
  by (cases part) (simp_all split: if_splits)

section \<open>Once per call\<close>

datatype join_input =
    CallChange join_env call_snapshot
  | MeterFrame join_env rat
  | Act join_env string "(string \<times> json) list" "string option"

fun join_step :: "join_input \<Rightarrow> safe_join \<Rightarrow> join_effect list \<times> safe_join" where
  "join_step (CallChange en after) s = on_call en after s"
| "join_step (MeterFrame en now) s = on_meters en now s"
| "join_step (Act en action params saved) s = snd (join_act en action params saved s)"

fun join_run :: "join_input list \<Rightarrow> safe_join \<Rightarrow> join_effect list \<times> safe_join" where
  "join_run [] s = ([], s)"
| "join_run (i # is) s = (let (fx, s1) = join_step i s; (gx, s2) = join_run is s1 in (fx @ gx, s2))"

text \<open>No input ends the call.\<close>

definition same_call :: "join_input list \<Rightarrow> bool" where
  "same_call is \<longleftrightarrow> list_all (\<lambda>i. case i of CallChange _ after \<Rightarrow> call_active after | _ \<Rightarrow> True) is"

lemma join_set_keeps [simp]:
  "sj_bound (snd (join_set params saved s)) = sj_bound s" "sj_held (snd (join_set params saved s)) = sj_held s"
  "sj_in_call (snd (join_set params saved s)) = sj_in_call s" "sj_handled (snd (join_set params saved s)) = sj_handled s"
  by (auto simp: join_set_def Let_def split: sum.splits prod.splits)

lemma go_live_keeps [simp]:
  "sj_bound (snd (snd (go_live en s))) = sj_bound s"
  "sj_held (snd (snd (go_live en s))) = (\<lambda>_. False)"
  "sj_in_call (snd (snd (go_live en s))) = sj_in_call s"
  "sj_handled (snd (snd (go_live en s))) = (sj_handled s \<or> holding s)"
  "takes part (fst (snd (go_live en s))) = 0"
  using not_holding [of s] by (simp_all add: go_live_def case_prod_beta)

lemma notice_keeps [simp]:
  "sj_bound (snd (notice_release en s)) = sj_bound s" "sj_in_call (snd (notice_release en s)) = sj_in_call s"
  "sj_handled (snd (notice_release en s)) = sj_handled s" "commands (fst (notice_release en s)) = []"
  by (simp_all add: notice_release_def Let_def)

lemma notice_held:
  "sj_held (snd (notice_release en s)) = (\<lambda>part. sj_held s part \<and> dig (state_now en s) (part_path part) \<noteq> JBool False)"
  using not_holding [of s] by (auto simp: notice_release_def Let_def fun_eq_iff)

lemma on_meters_keeps [simp]:
  "sj_bound (snd (on_meters en now s)) = sj_bound s" "sj_in_call (snd (on_meters en now s)) = sj_in_call s"
  "sj_handled (snd (on_meters en now s)) = sj_handled s" "takes part (fst (on_meters en now s)) = 0"
  using takes_commands [of part "fst (notice_release en (s\<lparr>sj_next_poll := now + HOLD_POLL_S\<rparr>))"]
  by (simp_all add: on_meters_def Let_def)

lemma act_cases:
  "snd (join_act en action params saved s) =
     (if action = ''safejoin.set'' then ([], snd (join_set params saved s))
      else if action = ''safejoin.go_live'' then snd (go_live en s) else ([], s))"
  by (simp add: join_act_def case_prod_beta split: prod.split sum.split)

lemma act_keeps:
  "takes part (fst (snd (join_act en action params saved s))) = 0"
  "sj_in_call (snd (snd (join_act en action params saved s))) = sj_in_call s"
  "sj_handled s \<Longrightarrow> sj_handled (snd (snd (join_act en action params saved s)))"
  "sj_bound (snd (snd (join_act en action params saved s))) = sj_bound s"
  by (simp_all add: act_cases)

lemma handled_takes_nothing:
  assumes "sj_in_call s" and "sj_handled s" and "same_call is"
  shows "takes part (fst (join_run is s)) = 0"
  using assms
proof (induction "is" arbitrary: s)
  case (Cons i "is")
  have "takes part (fst (join_step i s)) = 0 \<and> sj_in_call (snd (join_step i s)) \<and> sj_handled (snd (join_step i s))"
    using Cons.prems by (cases i) (auto simp: on_call_def same_call_def act_keeps)
  moreover have "same_call is" using Cons.prems(3) by (simp add: same_call_def)
  ultimately show ?case using Cons.IH by (simp add: case_prod_beta Let_def)
qed simp

text \<open>
  C26. Safe join acts once per call: as long as the call goes on, whatever else happens and whatever the
  camera does, privacy and the mute are each taken at most once, and not at all when the call had its
  decision before.
\<close>

theorem acts_once_per_call:
  assumes "same_call is"
  shows "takes part (fst (join_run is s)) \<le> (if sj_in_call s \<and> sj_handled s then 0 else 1)"
  using assms
proof (induction "is" arbitrary: s)
  case (Cons i "is")
  have rest: "same_call is" using Cons.prems by (simp add: same_call_def)
  show ?case
  proof (cases "sj_in_call s \<and> sj_handled s")
    case True
    then show ?thesis using handled_takes_nothing [of s "i # is" part] Cons.prems by simp
  next
    case False
    show ?thesis
    proof (cases "\<exists>en after. i = CallChange en after \<and> sn_camera after")
      case True
      then obtain en after where i: "i = CallChange en after" "sn_camera after" by blast
      define s1 where "s1 = (if sj_in_call s then s else s\<lparr>sj_in_call := True, sj_handled := False\<rparr>)"
      have step: "join_step i s = engage en after (s1\<lparr>sj_handled := True\<rparr>)"
        using i Cons.prems False by (auto simp: on_call_def same_call_def s1_def)
      have "sj_in_call s1" by (simp add: s1_def)
      then show ?thesis
        using handled_takes_nothing [OF _ _ rest, of "snd (engage en after (s1\<lparr>sj_handled := True\<rparr>))" part]
          engage_takes [of part en after "s1\<lparr>sj_handled := True\<rparr>"] False
        by (auto simp: step case_prod_beta Let_def)
    next
      case no_camera: False
      have "takes part (fst (join_step i s)) = 0"
        using no_camera Cons.prems by (cases i) (auto simp: on_call_def same_call_def act_keeps)
      then show ?thesis
        using Cons.IH [OF rest, of "snd (join_step i s)"] False by (auto simp: case_prod_beta Let_def split: if_splits)
    qed
  qed
qed simp

section \<open>The desk: the rig, the person and the controller\<close>

text \<open>
  \<open>dk_on\<close>: privacy and the mute of the rig as they are; \<open>dk_wish\<close>: as the person last set them, which
  nothing in the program stores; \<open>dk_mic\<close>: a microphone is there.
\<close>

record desk =
  dk_on :: "desk_part \<Rightarrow> bool"
  dk_wish :: "desk_part \<Rightarrow> bool"
  dk_mic :: bool
  dk_join :: safe_join

definition new_desk :: "(desk_part \<Rightarrow> bool) \<Rightarrow> bool \<Rightarrow> safe_join \<Rightarrow> desk" where
  "new_desk on mic s = \<lparr>dk_on = on, dk_wish = on, dk_mic = mic, dk_join = s\<rparr>"

definition desk_view :: "desk \<Rightarrow> json" where
  "desk_view d =
     JObj [(''video'', JObj [(''privacy'', JBool (dk_on d Privacy))]),
           (''audio'', JObj [(''mic'', JObj [(''present'', JBool (dk_mic d)), (''muted'', JBool (dk_on d Mic))])])]"

text \<open>A command that worked sets its part; one that failed leaves it.\<close>

definition obey :: "join_effect \<Rightarrow> (desk_part \<Rightarrow> bool) \<Rightarrow> (desk_part \<Rightarrow> bool)" where
  "obey fx on = (case fx of Ran part b True \<Rightarrow> on(part := b) | _ \<Rightarrow> on)"

datatype desk_input = Console join_input | PersonSets desk_part bool | MicPlugged bool

definition seen_by :: "json \<Rightarrow> join_input \<Rightarrow> join_input" where
  "seen_by v i =
     (case i of
        CallChange en after \<Rightarrow> CallChange (en\<lparr>en_view := Some v\<rparr>) after
      | MeterFrame en now \<Rightarrow> MeterFrame (en\<lparr>en_view := Some v\<rparr>) now
      | Act en action params saved \<Rightarrow> Act (en\<lparr>en_view := Some v\<rparr>) action params saved)"

definition desk_step :: "desk_input \<Rightarrow> desk \<Rightarrow> desk" where
  "desk_step i d =
     (case i of
        Console j \<Rightarrow>
          let (fx, s) = join_step (seen_by (desk_view d) j) (dk_join d)
          in d\<lparr>dk_on := fold obey fx (dk_on d), dk_join := s\<rparr>
      | PersonSets part b \<Rightarrow> d\<lparr>dk_on := (dk_on d)(part := b), dk_wish := (dk_wish d)(part := b)\<rparr>
      | MicPlugged b \<Rightarrow> d\<lparr>dk_mic := b\<rparr>)"




definition desk_ok :: "desk \<Rightarrow> bool" where
  "desk_ok d \<longleftrightarrow> sj_bound (dk_join d) \<and>
     (\<forall>part. if sj_held (dk_join d) part then \<not> dk_wish d part else dk_on d part = dk_wish d part) \<and>
     (holding (dk_join d) \<longrightarrow> sj_in_call (dk_join d) \<and> sj_handled (dk_join d))"

lemma desk_view_parts [simp]:
  "dig (desk_view d) (part_path part) = JBool (dk_on d part)"
  "dig (desk_view d) [''audio'', ''mic'', ''present''] = JBool (dk_mic d)"
  by (cases part) (simp_all add: desk_view_def part_path_def jget_def)

lemma obey_simps [simp]:
  "fold obey (tell s level text) on = on" "obey (Told level text) on = on"
  "obey (Ran part b ok) on = (if ok then on(part := b) else on)"
  by (simp_all add: obey_def tell_def)

lemma obey_commands: "fold obey (commands fx) on = fold obey fx on"
proof (induction fx arbitrary: on)
  case (Cons f fx)
  then show ?case by (cases f) simp_all
qed simp

lemma state_now_view [simp]: "sj_bound s \<Longrightarrow> state_now (en\<lparr>en_view := Some v\<rparr>) s = v"
  by (simp add: state_now_def)



lemma desk_okD:
  assumes "desk_ok d"
  shows "sj_bound (dk_join d)" "\<And>part. sj_held (dk_join d) part \<Longrightarrow> \<not> dk_wish d part"
    "\<And>part. \<not> sj_held (dk_join d) part \<Longrightarrow> dk_on d part = dk_wish d part"
    "holding (dk_join d) \<Longrightarrow> sj_in_call (dk_join d)" "holding (dk_join d) \<Longrightarrow> sj_handled (dk_join d)"
  using assms by (simp_all add: desk_ok_def split: if_splits)








lemma desk_step_console:
  "desk_step (Console j) d =
     d\<lparr>dk_on := fold obey (fst (join_step (seen_by (desk_view d) j) (dk_join d))) (dk_on d),
       dk_join := snd (join_step (seen_by (desk_view d) j) (dk_join d))\<rparr>"
  by (simp add: desk_step_def case_prod_beta Let_def)

text \<open>
  C34. The first moment a call app has the camera is off air: in the mode "safe", when the commands work,
  the change that shows a call with the camera, before the call had its decision, leaves privacy on and
  the microphone muted or absent, and the next change of the same call does not alter the desk.
\<close>

theorem joins_off_air:
  assumes "desk_ok d" and "js_mode (sj_settings (dk_join d)) = JoinSafe"
    and "call_active after" and "sn_camera after" and "call_active after'"
    and "\<not> (sj_in_call (dk_join d) \<and> sj_handled (dk_join d))"
    and "\<And>part. en_run en part True = None"
    and "d1 = desk_step (Console (CallChange en after)) d"
  shows "dk_on d1 Privacy \<and> (dk_on d1 Mic \<or> \<not> dk_mic d1) \<and>
    dk_on (desk_step (Console (CallChange en' after')) d1) = dk_on d1"
proof -
  let ?s = "dk_join d" and ?en = "en\<lparr>en_view := Some (desk_view d)\<rparr>"
  define s1 where "s1 = (if sj_in_call ?s then ?s else ?s\<lparr>sj_in_call := True, sj_handled := False\<rparr>)\<lparr>sj_handled := True\<rparr>"
  note d = desk_okD [OF assms(1)]
  have none: "sj_held ?s = (\<lambda>_. False)" using assms(6) d(4,5) by (intro not_holding) auto
  have s1: "sj_held s1 = (\<lambda>_. False)" "sj_bound s1" "sj_in_call s1" "sj_handled s1" "js_mode (sj_settings s1) = JoinSafe"
    using none d(1) assms(2) by (auto simp: s1_def)
  have step: "join_step (seen_by (desk_view d) (CallChange en after)) ?s = engage ?en after s1"
    using assms(3,4,6) by (auto simp: seen_by_def on_call_def s1_def Let_def)
  then have d1: "dk_on d1 = fold obey (fst (engage ?en after s1)) (dk_on d)" "dk_join d1 = snd (engage ?en after s1)"
    "dk_mic d1 = dk_mic d"
    by (simp_all add: assms(8) desk_step_console)
  have engaged: "engaged ?en s1 Privacy \<longleftrightarrow> \<not> dk_on d Privacy" "engaged ?en s1 Mic \<longleftrightarrow> \<not> dk_on d Mic \<and> dk_mic d"
    using s1 desk_view_parts(2) [of d] by (auto simp: engaged_def simp del: dig.simps)
  have "dk_on d1 Privacy \<and> (dk_on d1 Mic \<or> \<not> dk_mic d1)"
    unfolding d1 obey_commands [of "fst (engage ?en after s1)", symmetric] engage_commands engaged
    using assms(7) by auto
  moreover have "join_step (seen_by (desk_view d1) (CallChange en' after')) (dk_join d1) = ([], dk_join d1)"
    using assms(5) s1 by (simp add: seen_by_def on_call_def d1)
  ultimately show ?thesis by (simp add: desk_step_console)
qed

section \<open>Behind the monitor\<close>

text \<open>The controller hears of a call only from the monitor's listeners; \<open>attach\<close> shows it the call already on.\<close>

datatype watch_input = Poll join_env "gathered result" rat | ResetCall join_env rat | Other join_input

definition watch_step :: "watch_input \<Rightarrow> call_monitor \<times> safe_join \<Rightarrow> call_monitor \<times> safe_join" where
  "watch_step i = (\<lambda>(m, s).
     case i of
       Poll en found now \<Rightarrow>
         (case poll_once found now m of
            (None, m1) \<Rightarrow> (m1, s)
          | (Some (_, after), m1) \<Rightarrow> (m1, snd (on_call en after s)))
     | ResetCall en now \<Rightarrow>
         (case monitor_reset now m of
            (None, m1) \<Rightarrow> (m1, s)
          | (Some (_, after), m1) \<Rightarrow> (m1, snd (on_call en after s)))
     | Other j \<Rightarrow> (m, case j of CallChange _ _ \<Rightarrow> s | _ \<Rightarrow> snd (join_step j s)))"

definition attach_call :: "join_env \<Rightarrow> call_monitor \<Rightarrow> safe_join \<Rightarrow> call_monitor \<times> safe_join" where
  "attach_call en m s = (m, snd (on_call en (monitor_snapshot m) s))"

definition follows :: "call_monitor \<times> safe_join \<Rightarrow> bool" where
  "follows = (\<lambda>(m, s).
     sj_in_call s = call_active (monitor_snapshot m) \<and>
     (call_active (monitor_snapshot m) \<and> sn_camera (monitor_snapshot m) \<longrightarrow> sj_handled s) \<and>
     (holding s \<longrightarrow> sj_in_call s \<and> sj_handled s))"

lemma on_call_follows:
  assumes "holding s \<longrightarrow> sj_in_call s \<and> sj_handled s"
  shows "sj_in_call (snd (on_call en after s)) = call_active after"
    and "call_active after \<and> sn_camera after \<longrightarrow> sj_handled (snd (on_call en after s))"
    and "holding (snd (on_call en after s)) \<longrightarrow> sj_in_call (snd (on_call en after s)) \<and> sj_handled (snd (on_call en after s))"
  using assms by (auto simp: on_call_def call_ended_def Let_def holding_def)

lemma told_follows:
  assumes "follows (m, s)" and "told (monitor_snapshot m) (monitor_snapshot m1) = None"
  shows "follows (m1, s)"
  using assms by (auto simp: follows_def told_def call_changed_def call_active_def split: if_splits)

lemma changed_follows:
  assumes "follows (m, s)" and "told (monitor_snapshot m) (monitor_snapshot m1) = Some (before, after)"
  shows "follows (m1, snd (on_call en after s))"
proof -
  have "after = monitor_snapshot m1" using assms(2) by (auto simp: told_def split: if_splits)
  moreover have "holding s \<longrightarrow> sj_in_call s \<and> sj_handled s" using assms(1) by (auto simp: follows_def)
  ultimately show ?thesis using on_call_follows [where s = s and en = en and after = after] by (auto simp: follows_def)
qed

lemma poll_told:
  "\<exists>m1. poll_once found now m = (told (monitor_snapshot m) (monitor_snapshot m1), m1)"
  by (cases found) (auto simp: poll_once_def Let_def monitor_snapshot_def told_def call_changed_def)

lemma reset_told:
  "\<exists>m1. monitor_reset now m = (told (monitor_snapshot m) (monitor_snapshot m1), m1)"
  by (auto simp: monitor_reset_def Let_def monitor_snapshot_def)

lemma step_follows:
  assumes "follows ms"
  shows "follows (watch_step i ms)"
proof -
  obtain m s where ms: "ms = (m, s)" by (cases ms)
  have hold: "holding s \<longrightarrow> sj_in_call s \<and> sj_handled s" using assms by (auto simp: ms follows_def)
  show ?thesis
  proof (cases i)
    case (Poll en found now)
    obtain m1 where "poll_once found now m = (told (monitor_snapshot m) (monitor_snapshot m1), m1)"
      using poll_told by blast
    then show ?thesis
      using told_follows [of m s m1] changed_follows [of m s m1] assms
      by (cases "told (monitor_snapshot m) (monitor_snapshot m1)") (auto simp: watch_step_def Poll ms)
  next
    case (ResetCall en now)
    obtain m1 where "monitor_reset now m = (told (monitor_snapshot m) (monitor_snapshot m1), m1)"
      using reset_told by blast
    then show ?thesis
      using told_follows [of m s m1] changed_follows [of m s m1] assms
      by (cases "told (monitor_snapshot m) (monitor_snapshot m1)") (auto simp: watch_step_def ResetCall ms)
  next
    case (Other j)
    define s1 where "s1 = (case j of CallChange _ _ \<Rightarrow> s | _ \<Rightarrow> snd (join_step j s))"
    have "sj_in_call s1 = sj_in_call s" "sj_handled s \<longrightarrow> sj_handled s1"
      by (cases j; simp add: s1_def act_keeps)+
    moreover have "holding s1 \<longrightarrow> holding s"
      by (cases j) (auto simp: s1_def act_cases on_meters_def Let_def holding_def notice_held split: if_splits)
    moreover have "watch_step i ms = (m, s1)" by (simp add: watch_step_def Other ms s1_def)
    ultimately show ?thesis using assms by (auto simp: follows_def ms)
  qed
qed

text \<open>
  C21. No change of a call is missed although listeners are told of some changes only: after the
  controller was attached, and after any polls, failed probes, resets, meter frames and actions, it is
  in a call exactly when the monitor's call is active, it has decided when the call has the camera, and
  it holds nothing when there is no call.
\<close>

theorem safe_join_follows_the_monitor:
  "\<exists>m s. fold watch_step is (attach_call en m0 (new_join bound notifies saves settings)) = (m, s) \<and>
     sj_in_call s = call_active (monitor_snapshot m) \<and>
     (call_active (monitor_snapshot m) \<and> sn_camera (monitor_snapshot m) \<longrightarrow> sj_handled s) \<and>
     (\<not> call_active (monitor_snapshot m) \<longrightarrow> \<not> holding s)"
proof -
  have "follows (fold watch_step is ms)" if "follows ms" for ms
    using that by (induction "is" arbitrary: ms) (simp_all add: step_follows)
  moreover have "follows (attach_call en m0 (new_join bound notifies saves settings))"
    using on_call_follows [where s = "new_join bound notifies saves settings" and en = en and after = "monitor_snapshot m0"]
    by (auto simp: attach_call_def follows_def new_join_def holding_def)
  ultimately have "follows (fold watch_step is (attach_call en m0 (new_join bound notifies saves settings)))" by blast
  then show ?thesis by (cases "fold watch_step is (attach_call en m0 (new_join bound notifies saves settings))")
      (auto simp: follows_def)
qed

section \<open>A call at a desk\<close>

text \<open>Every command works; a call app has just taken the camera; the desk is in the mode "safe".\<close>

definition all_works :: join_env where
  "all_works = \<lparr>en_view = None, en_run = (\<lambda>_ _. None), en_clock = 10, en_wall = 10, en_iso = '''', en_hms = ''''\<rparr>"

definition teams_has_camera :: call_snapshot where
  "teams_has_camera = (no_call (Some 10))\<lparr>sn_state := CallJoining, sn_service := Some ''Teams'', sn_camera := True\<rparr>"

definition safe_controller :: safe_join where
  "safe_controller = new_join True True False \<lparr>js_mode = JoinSafe, js_release = 0\<rparr>"

definition open_desk :: desk where
  "open_desk = new_desk (\<lambda>_. False) True safe_controller"


lemma teams_calls [simp]: "call_active teams_has_camera" "sn_camera teams_has_camera" "\<not> call_active (no_call t)"
  by (simp_all add: teams_has_camera_def call_active_def no_call_def)

lemma all_works_run [simp]: "en_run all_works part b = None"
  by (simp add: all_works_def)

lemma safe_controller_simps [simp]:
  "sj_bound safe_controller" "sj_held safe_controller = (\<lambda>_. False)" "\<not> sj_in_call safe_controller"
  "js_mode (sj_settings safe_controller) = JoinSafe"
  by (simp_all add: safe_controller_def new_join_def)

lemma open_desk_simps [simp]:
  "dk_join open_desk = safe_controller" "dk_on open_desk = (\<lambda>_. False)" "dk_wish open_desk = (\<lambda>_. False)" "dk_mic open_desk"
  by (simp_all add: open_desk_def new_desk_def)

lemma open_desk_ok: "desk_ok open_desk"
  by (simp add: desk_ok_def holding_def)

theorem acts_once_per_call_witness:
  "takes Privacy (fst (join_run [CallChange all_works teams_has_camera, CallChange all_works teams_has_camera] safe_controller)) \<le> 1"
  using acts_once_per_call [of "[CallChange all_works teams_has_camera, CallChange all_works teams_has_camera]" Privacy safe_controller]
  by (simp add: same_call_def)

theorem joins_off_air_witness:
  "dk_on (desk_step (Console (CallChange all_works teams_has_camera)) open_desk) Privacy \<and>
   dk_on (desk_step (Console (CallChange all_works teams_has_camera)) open_desk) Mic"
  using joins_off_air [OF open_desk_ok _ teams_calls(1,2) teams_calls(1) _ _ HOL.refl, of all_works all_works]
  by (simp add: desk_step_console)


theorem safe_join_follows_the_monitor_witness:
  "\<exists>m s. fold watch_step [Poll all_works (Inr \<lparr>ga_apps = [teams_seen], ga_audio_ok = True, ga_video_ok = True\<rparr>) 10]
       (attach_call all_works (new_monitor (new_call_detector SETTLE_S LEAVE_HOLD_S)) safe_controller) = (m, s) \<and>
     sj_in_call s \<and> sj_handled s"
proof -
  let ?d = "new_call_detector SETTLE_S LEAVE_HOLD_S"
  let ?fin = "fold watch_step [Poll all_works (Inr \<lparr>ga_apps = [teams_seen], ga_audio_ok = True, ga_video_ok = True\<rparr>) 10]
      (attach_call all_works (new_monitor ?d) safe_controller)"
  have "monitor_snapshot (fst ?fin) = cd_snap (call_update [teams_seen] None 10 ?d)"
    by (auto simp: watch_step_def poll_once_def Let_def monitor_snapshot_def attach_call_def new_monitor_def split: option.splits)
  moreover have "call_active (cd_snap (call_update [teams_seen] None 10 ?d))" "sn_camera (cd_snap (call_update [teams_seen] None 10 ?d))"
    by (simp_all add: call_update_def Let_def call_active_def teams_seen_def)
  moreover obtain m s where "?fin = (m, s)" "sj_in_call s = call_active (monitor_snapshot m)"
      "call_active (monitor_snapshot m) \<and> sn_camera (monitor_snapshot m) \<longrightarrow> sj_handled s"
    using safe_join_follows_the_monitor [of _ all_works _ True True False] unfolding safe_controller_def by blast
  ultimately show ?thesis by auto
qed

section \<open>Where the promises end\<close>

text \<open>
  Go live answers "You are on air." and says so in a notification although giving privacy back failed:
  the text of a failure is put into the list that is taken for what was done. The hold is forgotten, so
  nothing tries again.
\<close>

lemma go_live_says_on_air:
  assumes "sj_bound s" and "sj_notifies s" and "sj_held s Privacy" and "\<not> sj_held s Mic"
    and "dig (state_now en s) (part_path Privacy) = JBool True" and "en_run en Privacy False = Some exc"
  shows "fst (go_live en s) = ''You are on air.'' \<and>
    fst (snd (go_live en s)) = [Ran Privacy False False, Told ''ok'' ''You are on air.''] \<and>
    \<not> holding (snd (snd (go_live en s)))"
proof -
  have "sj_notifies (add_note en x t) = sj_notifies t" for x t by simp
  then show ?thesis
    using assms by (simp add: go_live_def release_hold_def run_part_def holding_def tell_def Let_def case_prod_beta)
qed

text \<open>
  When the rig's state cannot be read, the controller also takes a part the person had on, and turns it
  off for the person at the end of the call.
\<close>

lemma unreadable_state_loses_the_mute:
  assumes "sj_held s = (\<lambda>_. False)" and "sj_bound s" and "js_mode (sj_settings s) = JoinSafe"
    and "en_view en = None" and "en_run en Mic True = None"
  shows "sj_held (snd (engage en call s)) Mic"
  using assms by (simp add: engage_held engaged_def state_now_def part_path_def jget_def)

section \<open>The settings file\<close>

fun mode_text :: "join_mode \<Rightarrow> string" where
  "mode_text JoinOff = ''off''"
| "mode_text JoinWarn = ''warn''"
| "mode_text JoinSafe = ''safe''"

text \<open>The document that is written; \<open>shown\<close> is the text of a float.\<close>

definition join_doc :: "(rat \<Rightarrow> string) \<Rightarrow> join_settings \<Rightarrow> (string \<times> json) list" where
  "join_doc shown s = [(''mode'', JStr (mode_text (js_mode s))), (''auto_release_s'', JFloat (js_release s) (shown (js_release s)))]"

definition usable_join :: "join_settings \<Rightarrow> bool" where
  "usable_join s \<longleftrightarrow> RELEASE_LOW \<le> js_release s \<and> js_release s \<le> RELEASE_HIGH"

interpretation join_file: settings_file "join_doc shown" read_join_settings usable_join for shown
proof
  show "read_join_settings (join_doc shown s) = Inr s" if "usable_join s" for s
  proof -
    have "map_of MODES_TEXT (mode_text (js_mode s)) = Some (js_mode s)"
      by (cases "js_mode s") (simp_all add: MODES_TEXT_def)
    then show ?thesis
      using that by (simp add: read_join_settings_def join_doc_def jget_def usable_join_def default_join_def Let_def)
  qed
  show "usable_join s" if "read_join_settings saved = Inr s" for saved s
    using that by (auto simp: read_join_settings_def usable_join_def Let_def default_join_def RELEASE_LOW_def RELEASE_HIGH_def
        split: json.splits if_splits option.splits)
qed

lemma join_set_usable:
  assumes "usable_join (sj_settings s)"
  shows "usable_join (sj_settings (snd (join_set params failed s)))"
proof -
  have "RELEASE_LOW \<le> t \<and> t \<le> RELEASE_HIGH" if changes: "join_changes params = Inr (mode, Some t)" for mode t
  proof -
    have "release_param params = Inr t"
      using changes by (auto simp: join_changes_def Let_def split: if_splits dest: optional_Inr)
    then obtain x where x: "RELEASE_LOW \<le> x" "x \<le> RELEASE_HIGH" "t = py_round1 x"
      by (auto simp: release_param_def dest!: number_param_range)
    then show ?thesis using py_round1_inside [of 0 x 6000] by (simp add: RELEASE_LOW_def RELEASE_HIGH_def)
  qed
  then show ?thesis
    using assms by (auto simp: join_set_def usable_join_def Let_def case_prod_beta split: sum.splits option.splits)
qed

interpretation join_control: settings_controller "join_doc shown" read_join_settings usable_join
    join_set sj_settings sj_writer sj_saves for shown
proof
  show "lw_value (sj_writer (snd (join_set params failed s))) = None" if "lw_value (sj_writer s) = None" for params failed s
    using that save_now_clean by (auto simp: join_set_def Let_def case_prod_beta split: sum.splits)
  show "snd (join_set params None s) = s" if "fst (join_set params None s) = Inl e" for params s e
    using that by (auto simp: join_set_def save_now_def Let_def case_prod_beta split: sum.splits if_splits)
  show "sj_saves (snd (join_set params failed s)) = sj_saves s" for params failed s
    by (auto simp: join_set_def Let_def case_prod_beta split: sum.splits)
qed (rule join_set_usable)

text \<open>Actions on the settings, with the file: a write that succeeds puts the document there.\<close>

definition join_session :: "(rat \<Rightarrow> string) \<Rightarrow> ((string \<times> json) list \<times> string option) list \<Rightarrow>
    safe_join \<times> (string \<times> json) list \<Rightarrow> safe_join \<times> (string \<times> json) list" where
  "join_session shown = fold (\<lambda>(params, failed) (s, f).
     case join_set params failed s of
       (Inl _, s1) \<Rightarrow> (s1, f)
     | (Inr _, s1) \<Rightarrow> (s1, if sj_saves s1 then join_doc shown (sj_settings s1) else f))"

text \<open>
  Settings survive a restart: whatever the file held when it was read (unless reading it raised),
  and after any list of changes, accepted or refused, whose writes succeed, the file reads back as
  exactly the settings in effect, and nothing waits to be written.
\<close>

theorem join_settings_survive:
  assumes "read_join_settings f0 = Inr s0"
    and "join_session shown acts (new_join bound notifies True s0, f0) = (s, f)"
    and "\<forall>(params, failed)\<in>set acts. failed = None"
  shows "read_join_settings f = Inr (sj_settings s) \<and> lw_value (sj_writer s) = None"
  using join_control.session_survives [of shown acts "new_join bound notifies True s0" f0 s f] assms
  by (simp add: join_session_def join_control.session_def) (simp add: new_join_def new_writer_def)

theorem join_settings_survive_witness:
  "\<exists>s f. join_session (\<lambda>_. ''30.0'') [([(''mode'', JStr ''safe''), (''auto_release_s'', JInt 30)], None)] (new_join True True True default_join, []) = (s, f) \<and>
     read_join_settings f = Inr \<lparr>js_mode = JoinSafe, js_release = 30\<rparr>"
proof -
  let ?acts = "[([(''mode'', JStr ''safe''), (''auto_release_s'', JInt 30)], None :: string option)]"
  obtain s f where run: "join_session (\<lambda>_. ''30.0'') ?acts (new_join True True True default_join, []) = (s, f)" by (rule prod.exhaust)
  moreover have "read_join_settings [] = Inr default_join" by (simp add: read_join_settings_def jget_def)
  ultimately have "read_join_settings f = Inr (sj_settings s)" using join_settings_survive [OF _ run] by simp
  moreover have "sj_settings s = \<lparr>js_mode = JoinSafe, js_release = 30\<rparr>"
  proof -
    have "py_round1 30 = 30" using py_round_int [of 300] by (simp add: py_round1_def)
    moreover have "\<not> too_large 30" by (simp add: too_large_def)
    ultimately have "join_changes (fst (hd ?acts)) = Inr (Some JoinSafe, Some 30)"
      by (simp add: join_changes_def unknown_keys_def optional_def mode_param_def release_param_def number_param_def jget_def
          MODES_TEXT_def RELEASE_LOW_def RELEASE_HIGH_def)
    then show ?thesis
      using run by (auto simp: join_session_def join_set_def Let_def case_prod_beta split: sum.splits prod.splits)
  qed
  ultimately show ?thesis using run by auto
qed

end
