(* ===== verification/CallConsole.thy ===== *)
theory CallConsole
  imports CallState ConsoleParams Speech
begin

text \<open>
  \<open>console/call.py\<close>: the Console's call awareness. The controller owns the call monitor and puts the
  speech detector and the watcher of muted talk behind every meter frame; its settings and the reports of
  adapters are actions. The scripted call of the demo rig is not modelled.
\<close>

section \<open>Settings\<close>

definition COOLDOWN_LOW :: rat where "COOLDOWN_LOW = 5"
definition COOLDOWN_HIGH :: rat where "COOLDOWN_HIGH = 300"
definition SOURCE_NAME_MAX :: nat where "SOURCE_NAME_MAX = 40"

definition SENSITIVITY_NAMES :: "(string \<times> sensitivity_name) list" where
  "SENSITIVITY_NAMES = [(''high'', High), (''medium'', Medium), (''low'', Low)]"

record call_settings =
  ct_adapters :: bool
  ct_enabled :: bool
  ct_sensitivity :: sensitivity_name
  ct_cooldown :: rat
  ct_sound :: bool

definition default_call :: call_settings where
  "default_call = \<lparr>ct_adapters = False, ct_enabled = True, ct_sensitivity = Medium, ct_cooldown = 20, ct_sound = False\<rparr>"

definition bool_or :: "bool \<Rightarrow> json \<Rightarrow> bool" where
  "bool_or fallback v = (case v of JBool b \<Rightarrow> b | _ \<Rightarrow> fallback)"

definition sensitivity_of :: "json \<Rightarrow> sensitivity_name option" where
  "sensitivity_of v = (case v of JStr s \<Rightarrow> map_of SENSITIVITY_NAMES s | _ \<Rightarrow> None)"

definition read_call_settings :: "(string \<times> json) list \<Rightarrow> call_settings result" where
  "read_call_settings saved =
     (let s = default_call\<lparr>ct_adapters := bool_or (ct_adapters default_call) (jget saved ''adapters'')\<rparr>;
          clamp = (\<lambda>x. max COOLDOWN_LOW (min COOLDOWN_HIGH x))
      in case jget saved ''muted_warning'' of
           JObj warn \<Rightarrow>
             let s1 = s\<lparr>ct_enabled := bool_or (ct_enabled s) (jget warn ''enabled''),
                    ct_sound := bool_or (ct_sound s) (jget warn ''sound''),
                    ct_sensitivity := (case sensitivity_of (jget warn ''sensitivity'') of None \<Rightarrow> ct_sensitivity s | Some n \<Rightarrow> n)\<rparr>
             in (case jget warn ''cooldown_s'' of
                   JInt n \<Rightarrow> if too_large n then Inl OverflowError else Inr (s1\<lparr>ct_cooldown := clamp (of_int n)\<rparr>)
                 | JFloat x _ \<Rightarrow> Inr (s1\<lparr>ct_cooldown := clamp x\<rparr>)
                 | _ \<Rightarrow> Inr s1)
         | _ \<Rightarrow> Inr s)"

section \<open>The controller\<close>

text \<open>\<open>cc_saves\<close>, \<open>cc_notifies\<close>: whether a path and \<open>notify\<close> were given.\<close>

record call_console =
  cc_monitor :: call_monitor
  cc_saves :: bool
  cc_notifies :: bool
  cc_writer :: "call_settings writer"
  cc_settings :: call_settings
  cc_vad :: detector
  cc_watcher :: watcher
  cc_since_wall :: "rat option"
  cc_last_wall :: "rat option"

definition new_console :: "bool \<Rightarrow> bool \<Rightarrow> call_settings \<Rightarrow> call_console" where
  "new_console saves notifies settings =
     \<lparr>cc_monitor = new_monitor (new_call_detector SETTLE_S LEAVE_HOLD_S), cc_saves = saves, cc_notifies = notifies,
      cc_writer = new_writer, cc_settings = settings, cc_vad = new_detector (ct_sensitivity settings) HOLD_S WINDOW_S,
      cc_watcher = new_watcher (ct_cooldown settings) 3, cc_since_wall = None, cc_last_wall = None\<rparr>"

text \<open>The listener of the monitor, and the poll that calls it.\<close>

definition on_change :: "rat \<Rightarrow> call_snapshot \<Rightarrow> call_snapshot \<Rightarrow> call_console \<Rightarrow> call_console" where
  "on_change wall before after c =
     (let c1 = (if sn_state before \<noteq> sn_state after
            then c\<lparr>cc_since_wall := (if call_active after then Some wall else None)\<rparr> else c)
      in if in_call after then c1 else c1\<lparr>cc_vad := detector_reset (cc_vad c1)\<rparr>)"

definition console_poll :: "gathered result \<Rightarrow> rat \<Rightarrow> rat \<Rightarrow> call_console \<Rightarrow> call_console" where
  "console_poll found now wall c =
     (case poll_once found now (cc_monitor c) of
        (None, m) \<Rightarrow> c\<lparr>cc_monitor := m\<rparr>
      | (Some (before, after), m) \<Rightarrow> on_change wall before after (c\<lparr>cc_monitor := m\<rparr>))"

text \<open>The raw microphone's level in a meter frame; \<open>None\<close> when there is none.\<close>

definition frame_level :: "json \<Rightarrow> rat option result" where
  "frame_level frame =
     (case frame of
        JObj kvs \<Rightarrow>
          (case jget kvs ''mic'' of
             JObj mic \<Rightarrow>
               (case jget mic ''rms_db'' of
                  JFloat x _ \<Rightarrow> Inr (Some x)
                | JInt n \<Rightarrow> if too_large n then Inl OverflowError else Inr (Some (of_int n))
                | JBool b \<Rightarrow> Inr (Some (if b then 1 else 0))
                | _ \<Rightarrow> Inr None)
           | _ \<Rightarrow> Inr None)
      | _ \<Rightarrow> Inr None)"

text \<open>One frame with its level; the result is the notification, if any. \<open>own\<close>: the Console's own mute.\<close>

definition on_level :: "bool option \<Rightarrow> rat \<Rightarrow> rat \<Rightarrow> rat \<Rightarrow> call_console \<Rightarrow> (string \<times> string) option \<times> call_console" where
  "on_level own wall now level c =
     (let snap = monitor_snapshot (cc_monitor c);
          (vad, speaking) = speech_feed (cc_vad c) now level;
          c1 = c\<lparr>cc_vad := vad\<rparr>
      in if \<not> ct_enabled (cc_settings c) then (None, c1\<lparr>cc_watcher := fst (watch (cc_watcher c) now False False False)\<rparr>)
         else
           let (w, fire) = watch (cc_watcher c) now (in_call snap) (call_muted snap \<or> own = Some True) speaking;
               c2 = c1\<lparr>cc_watcher := w\<rparr>;
               who = (case sn_service snap of None \<Rightarrow> ''The call'' | Some s \<Rightarrow> if s = [] then ''The call'' else s)
           in (if fire \<and> cc_notifies c then Some (''warn'', ''You are muted. '' @ who @ '' cannot hear you.'') else None,
               if fire then c2\<lparr>cc_last_wall := Some wall\<rparr> else c2))"

definition console_meters ::
    "bool option \<Rightarrow> rat \<Rightarrow> rat \<Rightarrow> json \<Rightarrow> call_console \<Rightarrow> (string \<times> string) option result \<times> call_console" where
  "console_meters own wall now frame c =
     (case frame_level frame of
        Inl e \<Rightarrow> (Inl e, c)
      | Inr None \<Rightarrow> (Inr None, c)
      | Inr (Some level) \<Rightarrow> (case on_level own wall now level c of (toast, c1) \<Rightarrow> (Inr toast, c1)))"

section \<open>Actions\<close>

record call_changes =
  ch_enabled :: "bool option"
  ch_sound :: "bool option"
  ch_adapters :: "bool option"
  ch_sensitivity :: "sensitivity_name option"
  ch_cooldown :: "rat option"

definition sensitivity_param :: "(string \<times> json) list \<Rightarrow> sensitivity_name result" where
  "sensitivity_param params =
     (case sensitivity_of (jget params ''sensitivity'') of
        Some n \<Rightarrow> Inr n
      | None \<Rightarrow> Inl (ActionError ''sensitivity must be one of high, medium, low'' 400))"

definition cooldown_param :: "(string \<times> json) list \<Rightarrow> rat result" where
  "cooldown_param params =
     bindE (number_param params ''cooldown_s'' (COOLDOWN_LOW, ''5'') (COOLDOWN_HIGH, ''300'')) (\<lambda>x. Inr (py_round1 x))"

definition call_changes_of :: "(string \<times> json) list \<Rightarrow> call_changes result" where
  "call_changes_of params =
     (let unknown = unknown_keys [''enabled'', ''sensitivity'', ''cooldown_s'', ''sound'', ''adapters''] params
      in if unknown \<noteq> [] then Inl (ActionError (''unknown call setting '' @ repr_string (hd unknown)) 400)
         else if params = [] then Inl (ActionError ''nothing to change'' 400)
         else
           bindE (optional params ''enabled'' (bool_param params ''enabled'')) (\<lambda>enabled.
           bindE (optional params ''sound'' (bool_param params ''sound'')) (\<lambda>sound.
           bindE (optional params ''adapters'' (bool_param params ''adapters'')) (\<lambda>adapters.
           bindE (optional params ''sensitivity'' (sensitivity_param params)) (\<lambda>sensitivity.
           bindE (optional params ''cooldown_s'' (cooldown_param params)) (\<lambda>cooldown.
           Inr \<lparr>ch_enabled = enabled, ch_sound = sound, ch_adapters = adapters, ch_sensitivity = sensitivity,
                ch_cooldown = cooldown\<rparr>))))))"

definition new_or :: "'a \<Rightarrow> 'a option \<Rightarrow> 'a" where
  "new_or old change = (case change of None \<Rightarrow> old | Some x \<Rightarrow> x)"

definition changed_settings :: "call_changes \<Rightarrow> call_settings \<Rightarrow> call_settings" where
  "changed_settings ch s =
     \<lparr>ct_adapters = new_or (ct_adapters s) (ch_adapters ch), ct_enabled = new_or (ct_enabled s) (ch_enabled ch),
      ct_sensitivity = new_or (ct_sensitivity s) (ch_sensitivity ch), ct_cooldown = new_or (ct_cooldown s) (ch_cooldown ch),
      ct_sound = new_or (ct_sound s) (ch_sound ch)\<rparr>"

text \<open>\<open>failed\<close>: the text of the \<open>OSError\<close> of the write, if it fails; \<open>now\<close> is the monitor's clock.\<close>

definition call_set :: "(string \<times> json) list \<Rightarrow> string option \<Rightarrow> rat \<Rightarrow> call_console \<Rightarrow> unit result \<times> call_console" where
  "call_set params failed now c =
     (case call_changes_of params of
        Inl e \<Rightarrow> (Inl e, c)
      | Inr ch \<Rightarrow>
          let s = changed_settings ch (cc_settings c);
              m = (if ch_adapters ch = Some False then report_mute None '''' now (cc_monitor c) else cc_monitor c);
              (res, w) = save_now (cc_saves c) failed s (cc_writer c)
          in (res, c\<lparr>cc_monitor := m, cc_settings := s, cc_writer := w,
                cc_vad := set_sensitivity (cc_vad c) (ct_sensitivity s),
                cc_watcher := (cc_watcher c)\<lparr>wt_cooldown := ct_cooldown s\<rparr>\<rparr>))"

definition call_report_mute :: "(string \<times> json) list \<Rightarrow> rat \<Rightarrow> call_console \<Rightarrow> unit result \<times> call_console" where
  "call_report_mute params now c =
     (if \<not> ct_adapters (cc_settings c)
      then (Inl (ActionError ''Mute reports from adapters are off. Turn them on first (call.set adapters).'' 409), c)
      else
        case (case jget params ''muted'' of JNull \<Rightarrow> Some None | JBool b \<Rightarrow> Some (Some b) | _ \<Rightarrow> None) of
          None \<Rightarrow> (Inl (ActionError ''muted must be true, false or null'' 400), c)
        | Some muted \<Rightarrow>
            (case jget params ''source'' of
               JStr source \<Rightarrow>
                 if strip source = [] \<or> SOURCE_NAME_MAX < length source
                 then (Inl (ActionError ''source must name the adapter (up to 40 characters)'' 400), c)
                 else (Inr (), c\<lparr>cc_monitor := report_mute muted (strip source) now (cc_monitor c)\<rparr>)
             | _ \<Rightarrow> (Inl (ActionError ''source must name the adapter (up to 40 characters)'' 400), c)))"

definition call_act :: "string \<Rightarrow> (string \<times> json) list \<Rightarrow> string option \<Rightarrow> rat \<Rightarrow> call_console \<Rightarrow> unit result \<times> call_console" where
  "call_act action params failed now c =
     (if action = ''call.set'' then call_set params failed now c
      else if action = ''call.report_mute'' then call_report_mute params now c
      else (Inl (ActionError (''unknown call action '' @ repr_string action) 400), c))"

section \<open>The settings file\<close>

fun sensitivity_text :: "sensitivity_name \<Rightarrow> string" where
  "sensitivity_text High = ''high''"
| "sensitivity_text Medium = ''medium''"
| "sensitivity_text Low = ''low''"

definition call_doc :: "(rat \<Rightarrow> string) \<Rightarrow> call_settings \<Rightarrow> (string \<times> json) list" where
  "call_doc shown s =
     [(''adapters'', JBool (ct_adapters s)),
      (''muted_warning'', JObj [(''enabled'', JBool (ct_enabled s)), (''sensitivity'', JStr (sensitivity_text (ct_sensitivity s))),
         (''cooldown_s'', JFloat (ct_cooldown s) (shown (ct_cooldown s))), (''sound'', JBool (ct_sound s))])]"

definition usable_call :: "call_settings \<Rightarrow> bool" where
  "usable_call s \<longleftrightarrow> COOLDOWN_LOW \<le> ct_cooldown s \<and> ct_cooldown s \<le> COOLDOWN_HIGH"

interpretation call_file: settings_file "call_doc shown" read_call_settings usable_call for shown
proof
  show "read_call_settings (call_doc shown s) = Inr s" if "usable_call s" for s
  proof -
    have "sensitivity_of (JStr (sensitivity_text (ct_sensitivity s))) = Some (ct_sensitivity s)"
      by (cases "ct_sensitivity s") (simp_all add: sensitivity_of_def SENSITIVITY_NAMES_def)
    then show ?thesis
      using that by (simp add: read_call_settings_def call_doc_def jget_def usable_call_def default_call_def bool_or_def Let_def)
  qed
  show "usable_call s" if "read_call_settings saved = Inr s" for saved s
    using that by (auto simp: read_call_settings_def usable_call_def Let_def default_call_def COOLDOWN_LOW_def COOLDOWN_HIGH_def
        split: json.splits if_splits option.splits)
qed

lemma call_set_settings:
  "cc_settings (snd (call_set params failed now c)) =
     (case call_changes_of params of Inl _ \<Rightarrow> cc_settings c | Inr ch \<Rightarrow> changed_settings ch (cc_settings c))"
  "cc_saves (snd (call_set params failed now c)) = cc_saves c"
  "cc_writer (snd (call_set params failed now c)) =
     (case call_changes_of params of
        Inl _ \<Rightarrow> cc_writer c
      | Inr ch \<Rightarrow> snd (save_now (cc_saves c) failed (changed_settings ch (cc_settings c)) (cc_writer c)))"
  by (simp_all add: call_set_def Let_def case_prod_beta split: sum.splits)

lemma call_set_usable:
  assumes "usable_call (cc_settings c)"
  shows "usable_call (cc_settings (snd (call_set params failed now c)))"
proof -
  have "COOLDOWN_LOW \<le> t \<and> t \<le> COOLDOWN_HIGH"
    if changes: "call_changes_of params = Inr ch" and new: "ch_cooldown ch = Some t" for ch t
  proof -
    have "cooldown_param params = Inr t"
      using changes new by (auto simp: call_changes_of_def Let_def split: if_splits dest: optional_Inr)
    then obtain x where "COOLDOWN_LOW \<le> x" "x \<le> COOLDOWN_HIGH" "t = py_round1 x"
      by (auto simp: cooldown_param_def dest!: number_param_range)
    then show ?thesis using py_round1_inside [of 50 x 3000] by (simp add: COOLDOWN_LOW_def COOLDOWN_HIGH_def)
  qed
  then show ?thesis
    using assms by (auto simp: call_set_settings usable_call_def changed_settings_def new_or_def split: sum.splits option.splits)
qed

interpretation call_control: settings_controller "call_doc shown" read_call_settings usable_call
    "\<lambda>(params, now) failed. call_set params failed now" cc_settings cc_writer cc_saves for shown
proof
  show "snd ((\<lambda>(params, now) failed. call_set params failed now) p None c) = c"
    if "fst ((\<lambda>(params, now) failed. call_set params failed now) p None c) = Inl e" for p c e
    using that by (auto simp: call_set_def save_now_def Let_def case_prod_beta split: sum.splits if_splits)
  show "lw_value (cc_writer (snd ((\<lambda>(params, now) failed. call_set params failed now) p failed c))) = None"
    if "lw_value (cc_writer c) = None" for p failed c
    using that save_now_clean by (auto simp: case_prod_beta call_set_settings split: sum.splits)
  show "usable_call (cc_settings (snd ((\<lambda>(params, now) failed. call_set params failed now) p failed c)))"
    if "usable_call (cc_settings c)" for p failed c
    using call_set_usable [OF that, of "fst p" failed "snd p"] by (simp add: case_prod_beta)
qed (simp add: case_prod_beta call_set_settings)

text \<open>What \<open>SafeJoin\<close> proves of its settings holds of these: they survive a restart.\<close>

lemma call_settings_survive:
  assumes "read_call_settings f0 = Inr s0"
    and "call_control.session shown acts (new_console True notifies s0, f0) = (c, f)"
    and "\<forall>(p, failed)\<in>set acts. failed = None"
  shows "read_call_settings f = Inr (cc_settings c)"
  using call_control.session_survives [OF assms(2) _ _ _ assms(3)] assms(1)
  by (simp add: new_console_def new_writer_def)

section \<open>Adapters\<close>

datatype console_input =
    ConsolePoll "gathered result" rat rat
  | ConsoleMeters "bool option" rat rat json
  | ConsoleAct string "(string \<times> json) list" "string option" rat

definition console_step :: "console_input \<Rightarrow> call_console \<Rightarrow> call_console" where
  "console_step i c =
     (case i of
        ConsolePoll found now wall \<Rightarrow> console_poll found now wall c
      | ConsoleMeters own wall now frame \<Rightarrow> snd (console_meters own wall now frame c)
      | ConsoleAct action params failed now \<Rightarrow> snd (call_act action params failed now c))"

text \<open>With adapters off no report is kept, and none was kept at the last look.\<close>

lemma on_change_keeps [simp]:
  "cc_monitor (on_change wall before after c) = cc_monitor c" "cc_settings (on_change wall before after c) = cc_settings c"
  by (auto simp: on_change_def Let_def)

lemma on_level_keeps [simp]:
  "cc_monitor (snd (on_level own wall now level c)) = cc_monitor c"
  "cc_settings (snd (on_level own wall now level c)) = cc_settings c"
  by (simp_all add: on_level_def Let_def case_prod_beta)

lemma poll_external: "cm_external (snd (poll_once found now m)) = cm_external m"
  by (simp add: poll_once_def Let_def split: sum.split)

lemma console_step_adapters:
  assumes "\<not> ct_adapters (cc_settings c) \<longrightarrow> cm_external (cc_monitor c) = None"
  shows "\<not> ct_adapters (cc_settings (console_step i c)) \<longrightarrow> cm_external (cc_monitor (console_step i c)) = None"
proof (cases i)
  case (ConsolePoll found now wall)
  then show ?thesis
    using assms poll_external [of found now "cc_monitor c"]
    by (auto simp: console_step_def console_poll_def split: prod.splits option.splits)
next
  case (ConsoleMeters own wall now frame)
  then have "cc_settings (console_step i c) = cc_settings c" "cc_monitor (console_step i c) = cc_monitor c"
    by (simp_all add: console_step_def console_meters_def case_prod_beta split: sum.split option.split)
  then show ?thesis using assms by simp
next
  case (ConsoleAct action params failed now)
  have "\<not> ct_adapters (cc_settings (snd (call_set params failed now c))) \<longrightarrow>
      cm_external (cc_monitor (snd (call_set params failed now c))) = None"
    using assms by (auto simp: call_set_def changed_settings_def new_or_def report_mute_def Let_def case_prod_beta
        split: sum.splits option.splits if_splits)
  moreover have "\<not> ct_adapters (cc_settings (snd (call_report_mute params now c))) \<longrightarrow>
      cm_external (cc_monitor (snd (call_report_mute params now c))) = None"
    using assms by (auto simp: call_report_mute_def split: option.splits json.splits)
  ultimately show ?thesis using assms by (simp add: console_step_def ConsoleAct call_act_def)
qed

text \<open>
  Switching adapters off withdraws what they said: after any polls, meter frames and actions, while
  the setting is off the monitor holds no report, so the next look takes the microphone's state from
  the capture streams alone.
\<close>

theorem adapters_off_means_no_report:
  assumes "c = fold console_step is (new_console saves notifies settings)" and "\<not> ct_adapters (cc_settings c)"
  shows "cm_external (cc_monitor c) = None \<and>
    (ga_apps g \<noteq> [] \<longrightarrow>
       sn_mic (monitor_snapshot (cc_monitor (console_poll (Inr g) now wall c))) =
         (if list_ex stream_live (concat (map ev_streams (ga_apps g))) then MicOpen else MicMuted))"
proof -
  have "\<not> ct_adapters (cc_settings (fold console_step is c0)) \<longrightarrow> cm_external (cc_monitor (fold console_step is c0)) = None"
    if "\<not> ct_adapters (cc_settings c0) \<longrightarrow> cm_external (cc_monitor c0) = None" for c0
    using that by (induction "is" arbitrary: c0) (simp, metis console_step_adapters fold_simps(2))
  from this [of "new_console saves notifies settings"] assms
  have none: "cm_external (cc_monitor c) = None" by (simp add: new_console_def new_monitor_def)
  have "cc_monitor (console_poll (Inr g) now wall c) = snd (poll_once (Inr g) now (cc_monitor c))"
    by (simp add: console_poll_def split: prod.split option.split)
  then show ?thesis
    using none by (simp add: poll_once_def monitor_snapshot_def call_update_def mic_state_of_def Let_def)
qed

theorem adapters_off_means_no_report_witness:
  "cm_external (cc_monitor (fold console_step
     [ConsoleAct ''call.set'' [(''adapters'', JBool True)] None 0,
      ConsoleAct ''call.report_mute'' [(''muted'', JBool True), (''source'', JStr ''extension'')] None 1,
      ConsoleAct ''call.set'' [(''adapters'', JBool False)] None 2] (new_console False True default_call))) = None"
proof -
  let ?is = "[ConsoleAct ''call.set'' [(''adapters'', JBool True)] None 0,
      ConsoleAct ''call.report_mute'' [(''muted'', JBool True), (''source'', JStr ''extension'')] None 1,
      ConsoleAct ''call.set'' [(''adapters'', JBool False)] None 2]"
  have set: "call_changes_of [(''adapters'', JBool b)] =
      Inr \<lparr>ch_enabled = None, ch_sound = None, ch_adapters = Some b, ch_sensitivity = None, ch_cooldown = None\<rparr>" for b
    by (simp add: call_changes_of_def unknown_keys_def optional_def bool_param_def jget_def)
  have "\<not> ct_adapters (cc_settings (fold console_step ?is (new_console False True default_call)))"
    by (simp add: console_step_def call_act_def call_set_settings set changed_settings_def new_or_def)
  from adapters_off_means_no_report [OF HOL.refl this] show ?thesis by blast
qed

section \<open>Toasts\<close>

text \<open>What the detector says of frames, and the notifications of the frames.\<close>

fun says :: "detector \<Rightarrow> (rat \<times> rat) list \<Rightarrow> bool list" where
  "says d [] = []"
| "says d ((now, level) # frames) = snd (speech_feed d now level) # says (fst (speech_feed d now level)) frames"

fun level_run :: "bool option \<Rightarrow> rat \<Rightarrow> (rat \<times> rat) list \<Rightarrow> call_console \<Rightarrow> (string \<times> string) option list \<times> call_console" where
  "level_run own wall [] c = ([], c)"
| "level_run own wall ((now, level) # frames) c =
     (let (toast, c1) = on_level own wall now level c; (toasts, c2) = level_run own wall frames c1 in (toast # toasts, c2))"

definition warns_muted :: "bool option \<Rightarrow> call_console \<Rightarrow> bool" where
  "warns_muted own c \<longleftrightarrow> ct_enabled (cc_settings c) \<and> cc_notifies c \<and> in_call (monitor_snapshot (cc_monitor c)) \<and>
     (call_muted (monitor_snapshot (cc_monitor c)) \<or> own = Some True)"

lemma on_level_muted:
  assumes "warns_muted own c"
  shows "fst (on_level own wall now level c) \<noteq> None \<longleftrightarrow> snd (watch (cc_watcher c) now True True (snd (speech_feed (cc_vad c) now level)))"
    and "cc_watcher (snd (on_level own wall now level c)) = fst (watch (cc_watcher c) now True True (snd (speech_feed (cc_vad c) now level)))"
    and "cc_vad (snd (on_level own wall now level c)) = fst (speech_feed (cc_vad c) now level)"
    and "warns_muted own (snd (on_level own wall now level c))"
  using assms by (auto simp: warns_muted_def on_level_def Let_def case_prod_beta)

lemma level_run_muted:
  assumes "warns_muted own c" and "level_run own wall frames c = (toasts, c')"
  shows "muted_run (cc_watcher c) (zip (map fst frames) (says (cc_vad c) frames)) = (cc_watcher c', map (\<lambda>t. t \<noteq> None) toasts)
    \<and> warns_muted own c'"
  using assms
proof (induction frames arbitrary: c toasts)
  case (Cons f frames)
  obtain now level where f: "f = (now, level)" by (cases f)
  obtain toast c1 where step: "on_level own wall now level c = (toast, c1)" by (rule prod.exhaust)
  obtain toasts1 where run: "level_run own wall frames c1 = (toasts1, c')" and toasts: "toasts = toast # toasts1"
    using Cons.prems(2) by (auto simp: f step split: prod.splits)
  note first = on_level_muted [OF Cons.prems(1), of wall now level, unfolded step, simplified]
  from Cons.IH [OF first(4) run] first(1-3) show ?case
    by (simp add: f toasts case_prod_beta Let_def)
qed simp

lemma watch_inv_start:
  "watch w t1 True True True = (w1, True) \<Longrightarrow> watch_inv t1 (wt_cooldown w) (wt_quiet w) [] w1"
  by (auto simp: watch_def watch_inv_def Let_def split: if_splits)

text \<open>
  C37. One toast per episode of talking while muted, at the Console: when the call stays on and muted and
  the settings stay, two toasts of its meter frames with none between are separated by frames the
  detector calls quiet that span the quiet time and reach past the cooldown after the first toast.
\<close>

theorem one_toast_per_episode:
  assumes "warns_muted own c" and "on_level own wall t1 l1 c = (Some a, c1)"
    and "level_run own wall frames c1 = (toasts, c2)" and "\<forall>t\<in>set toasts. t = None"
    and "on_level own wall t2 l2 c2 = (Some b, c3)"
  shows "\<exists>pre mid post. zip (map fst frames) (says (cc_vad c1) frames) = pre @ mid @ post \<and> silence mid \<and>
    wt_quiet (cc_watcher c) \<le> fst (last mid) - fst (hd mid) \<and> wt_cooldown (cc_watcher c) \<le> fst (last mid) - t1"
proof -
  note first = on_level_muted [OF assms(1), of wall t1 l1, unfolded assms(2), simplified]
  note run = level_run_muted [OF first(4) assms(3)]
  then have muted: "warns_muted own c2" by blast
  note second = on_level_muted [OF muted, of wall t2 l2, unfolded assms(5), simplified]
  have none: "True \<notin> set (map (\<lambda>t. t \<noteq> None) toasts)" using assms(4) by auto
  have "watch (cc_watcher c) t1 True True True = (cc_watcher c1, True)"
    using first(1,2) by (auto simp: watch_def Let_def split: if_splits)
  then have "watch_inv t1 (wt_cooldown (cc_watcher c)) (wt_quiet (cc_watcher c)) [] (cc_watcher c1)"
    by (rule watch_inv_start)
  from muted_run_inv [OF this conjunct1 [OF run] none]
  have "watch_inv t1 (wt_cooldown (cc_watcher c)) (wt_quiet (cc_watcher c)) (zip (map fst frames) (says (cc_vad c1) frames)) (cc_watcher c2)"
    by simp
  moreover have "wt_armed (cc_watcher c2)" using second(1) by (auto simp: watch_def Let_def split: if_splits)
  ultimately show ?thesis by (simp add: watch_inv_def episode_over_def)
qed

lemma on_level_vad: "cc_vad (snd (on_level own wall now level c)) = fst (speech_feed (cc_vad c) now level)"
  by (simp add: on_level_def Let_def case_prod_beta)

text \<open>A muted call, a voice at second 0, a quiet room until second 24 and the voice again.\<close>

definition talker :: detector where
  "talker = \<lparr>dt_hold = 1 / 10, dt_window_s = 1, dt_sens = SENSITIVITIES Medium, dt_levels = [], dt_floor = -70,
     dt_floor_at = Some 0, dt_last = Some (-1), dt_window = [], dt_above = 0, dt_speaking = False\<rparr>"

definition muted_call :: call_console where
  "muted_call = (new_console False True default_call)\<lparr>cc_vad := talker,
     cc_monitor := new_monitor ((new_call_detector SETTLE_S LEAVE_HOLD_S)\<lparr>cd_snap :=
       (no_call (Some 0))\<lparr>sn_state := CallInCall, sn_mic := MicMuted\<rparr>\<rparr>)\<rparr>"

theorem one_toast_per_episode_witness:
  "\<exists>a c1 toasts c2 b c3. on_level None 0 0 (-20) muted_call = (Some a, c1) \<and>
     level_run None 0 [(2, -70), (5, -70), (24, -70)] c1 = (toasts, c2) \<and> on_level None 0 25 (-20) c2 = (Some b, c3) \<and>
     (\<exists>pre mid post. zip [2, 5, 24] (says (cc_vad c1) [(2, -70), (5, -70), (24, -70)]) = pre @ mid @ post \<and> silence mid \<and>
        3 \<le> fst (last mid) - fst (hd mid) \<and> 20 \<le> fst (last mid) - (0 :: rat))"
proof -
  note defs = talker_def speech_feed_def track_floor_def threshold_db_def Let_def FLOOR_WINDOW_S_def
    FLOOR_EVERY_S_def FLOOR_CAP_DB_def MAX_STEP_S_def SILENCE_DB_def
  obtain d1 s1 where f1: "speech_feed talker 0 (-20) = (d1, s1)" by (rule prod.exhaust)
  obtain d2 s2 where f2: "speech_feed d1 2 (-70) = (d2, s2)" by (rule prod.exhaust)
  obtain d3 s3 where f3: "speech_feed d2 5 (-70) = (d3, s3)" by (rule prod.exhaust)
  obtain d4 s4 where f4: "speech_feed d3 24 (-70) = (d4, s4)" by (rule prod.exhaust)
  obtain d5 s5 where f5: "speech_feed d4 25 (-20) = (d5, s5)" by (rule prod.exhaust)
  have d1: "d1 = talker\<lparr>dt_levels := [(0, -20)], dt_last := Some 0, dt_window := [(0, 1 / 4, True)], dt_above := 1 / 4,
      dt_speaking := True\<rparr>" "s1"
    using f1 by (simp_all add: defs)
  have d2: "d2 = talker\<lparr>dt_levels := [(0, -20), (2, -70)], dt_floor_at := Some 2, dt_last := Some 2, dt_window := [(2, 1 / 4, False)]\<rparr>"
      "\<not> s2"
    using f2 unfolding d1 by (simp_all add: defs)
  have d3: "d3 = talker\<lparr>dt_levels := [(0, -20), (2, -70), (5, -70)], dt_floor_at := Some 5, dt_last := Some 5,
      dt_window := [(5, 1 / 4, False)]\<rparr>" "\<not> s3"
    using f3 unfolding d2 by (simp_all add: defs)
  have d4: "d4 = talker\<lparr>dt_levels := [(24, -70)], dt_floor_at := Some 24, dt_last := Some 24, dt_window := [(24, 1 / 4, False)]\<rparr>"
      "\<not> s4"
    using f4 unfolding d3 by (simp_all add: defs)
  have s5: "s5" using f5 unfolding d4 by (simp add: defs)
  have muted: "warns_muted None muted_call" "cc_vad muted_call = talker"
    "cc_watcher muted_call = new_watcher 20 3"
    by (simp_all add: warns_muted_def muted_call_def new_console_def default_call_def new_monitor_def monitor_snapshot_def
        in_call_def call_muted_def)
  obtain ta c1 where c1: "on_level None 0 0 (-20) muted_call = (ta, c1)" by (rule prod.exhaust)
  obtain toasts c2 where c2: "level_run None 0 [(2, -70), (5, -70), (24, -70)] c1 = (toasts, c2)" by (rule prod.exhaust)
  obtain tb c3 where c3: "on_level None 0 25 (-20) c2 = (tb, c3)" by (rule prod.exhaust)
  note first = on_level_muted [OF muted(1), of 0 0 "-20", unfolded c1 muted(2) f1, simplified]
  note run = level_run_muted [OF first(4) c2]
  have says: "says (cc_vad c1) [(2, -70), (5, -70), (24, -70)] = [False, False, False]"
    using first(3) f2 f3 f4 d2(2) d3(2) d4(2) by simp
  have w1: "cc_watcher c1 = (new_watcher 20 3)\<lparr>wt_armed := False, wt_talking := True, wt_count := 1, wt_last_at := Some 0\<rparr>"
    and ta: "ta \<noteq> None"
    using first(1,2) d1(2) by (auto simp: muted(3) new_watcher_def watch_def Let_def)
  have "muted_run (cc_watcher c1) [(2, False), (5, False), (24, False)] = (cc_watcher c2, map (\<lambda>t. t \<noteq> None) toasts)"
    using conjunct1 [OF run] unfolding says by simp
  moreover have "\<exists>w. muted_run (cc_watcher c1) [(2, False), (5, False), (24, False)] = (w, [False, False, False]) \<and> wt_armed w"
    unfolding w1 by (simp add: watch_def Let_def new_watcher_def)
  ultimately have "map (\<lambda>t. t \<noteq> None) toasts = [False, False, False]" and w2: "wt_armed (cc_watcher c2)" by auto
  then have none: "\<forall>t\<in>set toasts. t = None" by (auto simp: map_eq_Cons_conv simp del: not_None_eq)
  have "cc_vad c2 = d4" using c2 first(3) f2 f3 f4 on_level_vad
    by (auto simp: Let_def case_prod_beta)
  then have tb: "tb \<noteq> None"
    using on_level_muted(1) [OF conjunct2 [OF run], of 0 25 "-20"] w2 s5 by (simp add: c3 f5 watch_def Let_def)
  obtain a b where ab: "ta = Some a" "tb = Some b" using ta tb by blast
  from one_toast_per_episode [OF muted(1) c1 [unfolded ab] c2 none c3 [unfolded ab]]
  have "\<exists>pre mid post. zip [2, 5, 24] (says (cc_vad c1) [(2, -70), (5, -70), (24, -70)]) = pre @ mid @ post \<and> silence mid \<and>
      3 \<le> fst (last mid) - fst (hd mid) \<and> 20 \<le> fst (last mid) - (0 :: rat)"
    by (simp add: muted(3) new_watcher_def)
  then show ?thesis using c1 c2 c3 ab by blast
qed

end
