(* ===== verification/Store.thy ===== *)
theory Store
  imports PyText "HOL-Library.AList"
begin

text \<open>
  \<open>store.py\<close>: files that survive a crash. One directory is a table of names over inodes, each system
  call of the code is one step on it, and a write is the list of the calls it makes, so that a crash is a
  prefix of the list. What the kernel may refuse and what the callers pass in (decoding, validation) are
  parameters.
\<close>

section \<open>A directory\<close>

text \<open>\<open>fs_synced\<close>: the inodes whose content is on the disk; \<open>fs_next\<close> is the next free inode.\<close>

record folder =
  fs_names :: "(string \<times> nat) list"
  fs_data :: "nat \<Rightarrow> bytes"
  fs_synced :: "nat \<Rightarrow> bool"
  fs_next :: nat

definition file_of :: "folder \<Rightarrow> string \<Rightarrow> bytes option" where
  "file_of d name = map_option (fs_data d) (map_of (fs_names d) name)"

datatype sys_call =
    Create string
  | Append string bytes
  | SyncFile string
  | SyncDir
  | Link string string
  | Rename string string
  | Unlink string

fun do_call :: "sys_call \<Rightarrow> folder \<Rightarrow> folder" where
  "do_call (Create n) d =
     d\<lparr>fs_names := AList.update n (fs_next d) (fs_names d), fs_data := (fs_data d)(fs_next d := []),
       fs_synced := (fs_synced d)(fs_next d := False), fs_next := fs_next d + 1\<rparr>"
| "do_call (Append n data) d =
     (case map_of (fs_names d) n of
        None \<Rightarrow> d
      | Some i \<Rightarrow> d\<lparr>fs_data := (fs_data d)(i := fs_data d i @ data), fs_synced := (fs_synced d)(i := False)\<rparr>)"
| "do_call (SyncFile n) d =
     (case map_of (fs_names d) n of None \<Rightarrow> d | Some i \<Rightarrow> d\<lparr>fs_synced := (fs_synced d)(i := True)\<rparr>)"
| "do_call SyncDir d = d"
| "do_call (Link old new) d =
     (case map_of (fs_names d) old of None \<Rightarrow> d | Some i \<Rightarrow> d\<lparr>fs_names := AList.update new i (fs_names d)\<rparr>)"
| "do_call (Rename old new) d =
     (case map_of (fs_names d) old of
        None \<Rightarrow> d
      | Some i \<Rightarrow> if map_of (fs_names d) new = Some i then d
           else d\<lparr>fs_names := AList.delete old (AList.update new i (fs_names d))\<rparr>)"
| "do_call (Unlink n) d = d\<lparr>fs_names := AList.delete n (fs_names d)\<rparr>"

section \<open>Atomic writes\<close>

text \<open>The names beside \<open>target\<close>: \<open>r\<close> is what \<open>mkstemp\<close> draws, \<open>who\<close> the process and thread id.\<close>

definition temp_name :: "string \<Rightarrow> string \<Rightarrow> string" where
  "temp_name target r = ''.'' @ target @ ''.'' @ r @ ''.tmp''"

definition link_name :: "string \<Rightarrow> string \<Rightarrow> string" where
  "link_name target who = ''.'' @ target @ ''.'' @ who @ ''.link''"

definition BACKUP_SUFFIX :: string where
  "BACKUP_SUFFIX = ''.bak''"

definition backup_name :: "string \<Rightarrow> string" where
  "backup_name target = target @ BACKUP_SUFFIX"

text \<open>
  The places where the kernel may refuse. \<open>FChunk k\<close>: the \<open>k\<close>-th piece of the data that the buffered
  file hands down; \<open>FStart\<close>: everything before the temporary file; \<open>FCheck\<close>: the check of the copy to keep.
\<close>

datatype fault = FStart | FTemp | FChunk nat | FMode | FSync | FClose | FCheck | FOldLink | FLink
  | FRenameLink | FDropLink | FReplace | FDropTemp | FDirSync

text \<open>
  \<open>_keep_backup\<close>: its calls, and whether it raises (the check and the last \<open>unlink\<close> can). \<open>good\<close>: the
  target is a file and \<open>still_good\<close> holds of it.
\<close>

definition backup_calls :: "(fault \<Rightarrow> bool) \<Rightarrow> bool \<Rightarrow> string \<Rightarrow> string \<Rightarrow> sys_call list \<times> bool" where
  "backup_calls fails good target who =
     (let link = link_name target who
      in if fails FCheck then ([], True)
         else if \<not> good then ([], False)
         else
           let made = (if fails FOldLink then []
                 else Unlink link # (if fails FLink then [] else Link target link #
                   (if fails FRenameLink then [] else [Rename link (backup_name target)])))
           in if fails FDropLink then (made, True) else (made @ [Unlink link], False))"

fun chunk_calls :: "(fault \<Rightarrow> bool) \<Rightarrow> string \<Rightarrow> nat \<Rightarrow> bytes list \<Rightarrow> sys_call list \<times> bool" where
  "chunk_calls fails tmp k [] = ([], False)"
| "chunk_calls fails tmp k (c # cs) =
     (if fails (FChunk k) then ([], True)
      else let (calls, raised) = chunk_calls fails tmp (Suc k) cs in (Append tmp c # calls, raised))"

text \<open>
  \<open>atomic_write_bytes\<close>: the calls it makes and whether \<open>OSError\<close> is raised. The part inside \<open>try\<close> up to
  \<open>os.replace\<close> is \<open>prepare_calls\<close>; the temporary file is removed after a failure in it.
\<close>

definition prepare_calls ::
    "(fault \<Rightarrow> bool) \<Rightarrow> bool \<Rightarrow> bool \<Rightarrow> bool \<Rightarrow> string \<Rightarrow> string \<Rightarrow> string \<Rightarrow> bytes list \<Rightarrow> sys_call list \<times> bool" where
  "prepare_calls fails durable keep good target r who chunks =
     (let tmp = temp_name target r;
          (written, raised1) = chunk_calls fails tmp 0 chunks;
          (synced, raised2) =
            (if raised1 \<or> fails FMode then ([], True)
             else if durable \<and> fails FSync then ([], True)
             else (if durable then [SyncFile tmp] else [], fails FClose));
          (kept, raised3) =
            (if raised2 then ([], True) else if keep then backup_calls fails good target who else ([], False))
      in (written @ synced @ kept, raised3))"

definition write_calls ::
    "(fault \<Rightarrow> bool) \<Rightarrow> bool \<Rightarrow> bool \<Rightarrow> bool \<Rightarrow> string \<Rightarrow> string \<Rightarrow> string \<Rightarrow> bytes list \<Rightarrow> sys_call list \<times> bool" where
  "write_calls fails durable keep good target r who chunks =
     (let tmp = temp_name target r
      in if fails FStart \<or> fails FTemp then ([], True)
         else
           let (prepared, raised) = prepare_calls fails durable keep good target r who chunks
           in if raised \<or> fails FReplace then
                (Create tmp # prepared @ (if fails FDropTemp then [] else [Unlink tmp]), True)
              else (Create tmp # prepared @ Rename tmp target # (if durable \<and> \<not> fails FDirSync then [SyncDir] else []), False))"

definition run_calls :: "sys_call list \<Rightarrow> folder \<Rightarrow> folder" where
  "run_calls calls d = fold do_call calls d"



section \<open>Calls that leave a file alone\<close>

text \<open>What every directory reached by these calls satisfies.\<close>

definition folder_ok :: "folder \<Rightarrow> bool" where
  "folder_ok d = (\<forall>n i. map_of (fs_names d) n = Some i \<longrightarrow> i < fs_next d)"

text \<open>The calls before the final rename: only the new file is written, \<open>target\<close> keeps its entry.\<close>

fun spares :: "string \<Rightarrow> string \<Rightarrow> sys_call \<Rightarrow> bool" where
  "spares target tmp (Create n) = (n = tmp)"
| "spares target tmp (Append n data) = (n = tmp)"
| "spares target tmp (SyncFile n) = (n = tmp)"
| "spares target tmp SyncDir = True"
| "spares target tmp (Link old new) = (new \<noteq> target \<and> new \<noteq> tmp)"
| "spares target tmp (Rename old new) = (old \<noteq> target \<and> new \<noteq> target \<and> old \<noteq> tmp \<and> new \<noteq> tmp)"
| "spares target tmp (Unlink n) = (n \<noteq> target)"

definition like_before :: "folder \<Rightarrow> string \<Rightarrow> string \<Rightarrow> folder \<Rightarrow> bool" where
  "like_before d target tmp e =
     (fs_next d \<le> fs_next e \<and> map_of (fs_names e) target = map_of (fs_names d) target \<and>
      (\<forall>i < fs_next d. fs_data e i = fs_data d i \<and> fs_synced e i = fs_synced d i) \<and>
      (\<forall>i. map_of (fs_names e) tmp = Some i \<longrightarrow> fs_next d \<le> i))"

lemma like_before_self: "map_of (fs_names d) tmp = None \<Longrightarrow> like_before d target tmp d"
  by (simp add: like_before_def)

lemma map_of_update [simp]: "map_of (AList.update k v xs) = (map_of xs)(k \<mapsto> v)"
  by (rule update_conv')

lemma map_of_delete [simp]: "map_of (AList.delete k xs) = (map_of xs)(k := None)"
  by (rule delete_conv')

lemma spared_call:
  assumes "like_before d target tmp e" and "spares target tmp c" and "target \<noteq> tmp"
  shows "like_before d target tmp (do_call c e)"
  using assms by (cases c) (auto simp: like_before_def split: option.splits)

lemma spared_calls:
  assumes "like_before d target tmp e" and "list_all (spares target tmp) cs" and "target \<noteq> tmp"
  shows "like_before d target tmp (run_calls cs e)"
  using assms
proof (induction cs arbitrary: e)
  case Nil
  then show ?case by (simp add: run_calls_def)
next
  case (Cons c cs)
  then have "like_before d target tmp (run_calls cs (do_call c e))" using spared_call by auto
  then show ?case by (simp add: run_calls_def)
qed

lemma temp_name_other [simp]: "temp_name target r \<noteq> target" "target \<noteq> temp_name target r"
proof -
  have "length (temp_name target r) \<noteq> length target" by (simp add: temp_name_def)
  then show "temp_name target r \<noteq> target" "target \<noteq> temp_name target r" by metis+
qed


lemma side_names [simp]:
  "link_name target who \<noteq> target" "target \<noteq> link_name target who"
  "backup_name target \<noteq> target" "target \<noteq> backup_name target"
proof -
  have "length (link_name target who) \<noteq> length target" "length (backup_name target) \<noteq> length target"
    by (simp_all add: link_name_def backup_name_def BACKUP_SUFFIX_def)
  then show "link_name target who \<noteq> target" "target \<noteq> link_name target who"
    "backup_name target \<noteq> target" "target \<noteq> backup_name target" by metis+
qed

lemma name_ends:
  "last (temp_name target r) = CHR ''p''" "last (link_name target who) = CHR ''k''"
  "last (backup_name target) = CHR ''k''"
  "last (butlast (backup_name target)) = CHR ''a''" "last (butlast (link_name target who)) = CHR ''n''"
  by (simp_all add: temp_name_def link_name_def backup_name_def BACKUP_SUFFIX_def butlast_append)

lemma ends_differ: "last x = (a :: char) \<Longrightarrow> last y = b \<Longrightarrow> a \<noteq> b \<Longrightarrow> x \<noteq> y"
  by blast

lemma ends_differ2:
  "last (butlast x) = (a :: char) \<Longrightarrow> last (butlast y) = b \<Longrightarrow> a \<noteq> b \<Longrightarrow> x \<noteq> y"
  by blast

lemma distinct_names [simp]:
  "link_name target who \<noteq> temp_name target' r" "temp_name target' r \<noteq> link_name target who"
  "backup_name target \<noteq> temp_name target' r" "temp_name target' r \<noteq> backup_name target"
  by (rule ends_differ, rule name_ends, rule name_ends, simp)+

lemma distinct_side_names [simp]:
  "backup_name target \<noteq> link_name target' who" "link_name target' who \<noteq> backup_name target"
  by (rule ends_differ2, rule name_ends, rule name_ends, simp)+

lemma chunk_calls_spare: "chunk_calls fails tmp k cs = (calls, raised) \<Longrightarrow> list_all (spares target tmp) calls"
  by (induction cs arbitrary: k calls raised) (auto split: if_splits prod.splits)

lemma chunk_calls_all:
  "chunk_calls fails tmp k cs = (calls, False) \<Longrightarrow> calls = map (Append tmp) cs"
  by (induction cs arbitrary: k calls) (auto split: if_splits prod.splits)

lemma backup_calls_spare:
  "backup_calls fails good target who = (calls, raised) \<Longrightarrow> list_all (spares target (temp_name target r)) calls"
  by (auto simp: backup_calls_def Let_def split: if_splits)

lemma prepared_calls_spare:
  assumes "prepare_calls fails durable keep good target r who chunks = (calls, raised)"
  shows "list_all (spares target (temp_name target r)) calls"
proof -
  obtain written raised1 where w: "chunk_calls fails (temp_name target r) 0 chunks = (written, raised1)"
    by fastforce
  obtain kept raised3 where k: "backup_calls fails good target who = (kept, raised3)" by fastforce
  show ?thesis using assms w k chunk_calls_spare [OF w] backup_calls_spare [OF k, of r]
    by (auto simp: prepare_calls_def Let_def split: if_splits)
qed

text \<open>The calls that make the backup touch no content, and no entry but the link's and the backup's.\<close>

fun only_names :: "sys_call \<Rightarrow> bool" where
  "only_names (Create n) = False"
| "only_names (Append n data) = False"
| "only_names (SyncFile n) = False"
| "only_names c = True"

lemma only_names_content:
  assumes "list_all only_names cs"
  shows "fs_data (run_calls cs e) = fs_data e \<and> fs_synced (run_calls cs e) = fs_synced e \<and>
    fs_next (run_calls cs e) = fs_next e"
  using assms
proof (induction cs arbitrary: e)
  case Nil
  then show ?case by (simp add: run_calls_def)
next
  case (Cons c cs)
  have "fs_data (do_call c e) = fs_data e \<and> fs_synced (do_call c e) = fs_synced e \<and>
      fs_next (do_call c e) = fs_next e"
    using Cons.prems by (cases c) (auto split: option.splits)
  with Cons show ?case by (simp add: run_calls_def)
qed

lemma run_calls_append: "run_calls (xs @ ys) d = run_calls ys (run_calls xs d)"
  by (simp add: run_calls_def)

lemma run_calls_Cons: "run_calls (x # xs) d = run_calls xs (do_call x d)"
  by (simp add: run_calls_def)

lemma run_calls_Nil [simp]: "run_calls [] d = d"
  by (simp add: run_calls_def)

lemma appends_done:
  assumes "map_of (fs_names e) tmp = Some i"
  shows "fs_names (run_calls (map (Append tmp) cs) e) = fs_names e \<and>
    fs_data (run_calls (map (Append tmp) cs) e) i = fs_data e i @ concat cs"
  using assms by (induction cs arbitrary: e) (simp_all add: run_calls_Cons)

lemma backup_only_names:
  "backup_calls fails good target who = (calls, raised) \<Longrightarrow> list_all only_names calls"
  by (auto simp: backup_calls_def Let_def split: if_splits)

lemma backup_spares_temp:
  assumes "backup_calls fails good target who = (calls, raised)"
  shows "map_of (fs_names (run_calls calls e)) (temp_name target r) = map_of (fs_names e) (temp_name target r)"
  using assms
  by (auto simp: backup_calls_def Let_def run_calls_append run_calls_Cons split: if_splits option.splits)


section \<open>What a write leaves\<close>

lemma prepared_file:
  assumes "prepare_calls fails durable keep good target r who chunks = (cs, False)"
  shows "map_of (fs_names (run_calls (Create (temp_name target r) # cs) d)) (temp_name target r) = Some (fs_next d)
    \<and> fs_data (run_calls (Create (temp_name target r) # cs) d) (fs_next d) = concat chunks
    \<and> (durable \<longrightarrow> fs_synced (run_calls (Create (temp_name target r) # cs) d) (fs_next d))"
proof -
  let ?tmp = "temp_name target r"
  let ?sync = "if durable then [SyncFile ?tmp] else []"
  obtain kept where cs: "cs = map (Append ?tmp) chunks @ ?sync @ kept"
    and k: "kept = [] \<or> backup_calls fails good target who = (kept, False)"
    using assms chunk_calls_all
    by (fastforce simp: prepare_calls_def Let_def split: if_splits prod.splits)
  define e1 where "e1 = run_calls (map (Append ?tmp) chunks) (do_call (Create ?tmp) d)"
  have e1: "map_of (fs_names e1) ?tmp = Some (fs_next d)" "fs_data e1 (fs_next d) = concat chunks"
    using appends_done [of "do_call (Create ?tmp) d" ?tmp "fs_next d" chunks] by (simp_all add: e1_def)
  define e2 where "e2 = run_calls ?sync e1"
  have e2: "map_of (fs_names e2) ?tmp = Some (fs_next d)" "fs_data e2 (fs_next d) = concat chunks"
    "durable \<longrightarrow> fs_synced e2 (fs_next d)"
    using e1 by (auto simp: e2_def run_calls_Cons)
  have all: "run_calls (Create ?tmp # cs) d = run_calls kept e2"
    by (simp only: run_calls_Cons cs run_calls_append e1_def e2_def)
  have "map_of (fs_names (run_calls kept e2)) ?tmp = map_of (fs_names e2) ?tmp"
    "list_all only_names kept"
    using k backup_spares_temp backup_only_names by auto
  then show ?thesis using e2 only_names_content [of kept e2] by (simp add: all)
qed

lemma prepared_like_before:
  assumes "prepare_calls fails durable keep good target r who chunks = (cs, raised)"
    and "map_of (fs_names d) (temp_name target r) = None"
  shows "like_before d target (temp_name target r) (run_calls (take k (Create (temp_name target r) # cs)) d)"
proof (rule spared_calls)
  show "like_before d target (temp_name target r) d" using assms(2) by (rule like_before_self)
  have "list_all (spares target (temp_name target r)) (Create (temp_name target r) # cs)"
    using prepared_calls_spare [OF assms(1)] by simp
  then show "list_all (spares target (temp_name target r)) (take k (Create (temp_name target r) # cs))"
    using set_take_subset [of k "Create (temp_name target r) # cs"] unfolding list_all_iff by blast
qed simp

text \<open>The calls of a write: those before the rename, and what follows them.\<close>

lemma write_calls_cases:
  assumes "write_calls fails durable keep good target r who chunks = (calls, raised)"
  obtains (early) "calls = []" "raised"
  | (prepared) cs praised rest where
      "prepare_calls fails durable keep good target r who chunks = (cs, praised)"
      "calls = Create (temp_name target r) # cs @ rest"
      "if raised then rest = [] \<or> rest = [Unlink (temp_name target r)]
       else \<not> praised \<and> rest = Rename (temp_name target r) target #
         (if durable \<and> \<not> fails FDirSync then [SyncDir] else [])"
proof -
  obtain cs praised where p: "prepare_calls fails durable keep good target r who chunks = (cs, praised)"
    by fastforce
  show ?thesis
    using assms p early prepared by (auto simp: write_calls_def Let_def split: if_splits)
qed

lemma rest_only_names:
  assumes "if raised then rest = [] \<or> rest = [Unlink tmp]
    else \<not> praised \<and> rest = Rename tmp target # (if b then [SyncDir] else [])"
  shows "list_all only_names rest"
  using assms by (auto split: if_splits)

lemma write_names_at:
  assumes p: "prepare_calls fails durable keep good target r who chunks = (cs, praised)"
    and calls: "calls = Create (temp_name target r) # cs @ rest"
    and rest: "if raised then rest = [] \<or> rest = [Unlink (temp_name target r)]
      else \<not> praised \<and> rest = Rename (temp_name target r) target # (if b then [SyncDir] else [])"
    and ok: "folder_ok d" and new: "map_of (fs_names d) (temp_name target r) = None"
  shows "map_of (fs_names (run_calls (take m calls) d)) target =
    (if \<not> raised \<and> length cs + 1 < m then Some (fs_next d) else map_of (fs_names d) target)"
proof -
  let ?tmp = "temp_name target r"
  let ?pre = "Create ?tmp # cs"
  have before: "map_of (fs_names (run_calls (take k ?pre) d)) target = map_of (fs_names d) target" for k
    using prepared_like_before [OF p new] by (simp add: like_before_def)
  have split: "run_calls (take m calls) d = run_calls (take (m - length ?pre) rest) (run_calls (take m ?pre) d)"
    using calls take_append [of m ?pre rest] by (simp add: run_calls_append [symmetric])
  show ?thesis
  proof (cases "length cs + 1 < m")
    case False
    then have "take (m - length ?pre) rest = []" by simp
    then show ?thesis using before split False by (simp del: take_Suc_Cons)
  next
    case True
    define e where "e = run_calls ?pre d"
    have all: "take m ?pre = ?pre" using True by simp
    obtain k where k: "m - length ?pre = Suc k" using True by (metis Suc_diff_Suc Suc_eq_plus1 length_Cons)
    have e: "map_of (fs_names e) target = map_of (fs_names d) target"
      using before [of m] all by (simp add: e_def)
    have run: "run_calls (take m calls) d = run_calls (take (Suc k) rest) e"
      using split all k by (simp add: e_def)
    show ?thesis
    proof (cases raised)
      case True
      then show ?thesis using rest e run by (auto simp: run_calls_Cons)
    next
      case False
      then have np: "\<not> praised" and r: "rest = Rename ?tmp target # (if b then [SyncDir] else [])"
        using rest by auto
      have t: "map_of (fs_names e) ?tmp = Some (fs_next d)"
        using prepared_file [of fails durable keep good target r who chunks cs d] p np by (simp add: e_def)
      have "map_of (fs_names e) target \<noteq> Some (fs_next d)"
        using ok unfolding e folder_ok_def by (metis less_irrefl)
      then have "map_of (fs_names (do_call (Rename ?tmp target) e)) target = Some (fs_next d)"
        using t by simp
      then show ?thesis using run r False True
        by (cases b; cases k) (simp_all add: run_calls_Cons)
    qed
  qed
qed

lemma write_content_at:
  assumes p: "prepare_calls fails durable keep good target r who chunks = (cs, praised)"
    and calls: "calls = Create (temp_name target r) # cs @ rest" and rest: "list_all only_names rest"
    and new: "map_of (fs_names d) (temp_name target r) = None"
  shows "(\<forall>i < fs_next d. fs_data (run_calls (take n calls) d) i = fs_data d i
      \<and> fs_synced (run_calls (take n calls) d) i = fs_synced d i)
    \<and> (\<not> praised \<and> length cs < n \<longrightarrow> fs_data (run_calls (take n calls) d) (fs_next d) = concat chunks
      \<and> (durable \<longrightarrow> fs_synced (run_calls (take n calls) d) (fs_next d)))"
proof -
  let ?pre = "Create (temp_name target r) # cs"
  have split: "run_calls (take n calls) d = run_calls (take (n - length ?pre) rest) (run_calls (take n ?pre) d)"
    using calls take_append [of n ?pre rest] by (simp add: run_calls_append [symmetric])
  have "list_all only_names (take (n - length ?pre) rest)"
    using rest set_take_subset [of "n - length ?pre" rest] unfolding list_all_iff by blast
  then have same: "fs_data (run_calls (take n calls) d) = fs_data (run_calls (take n ?pre) d)"
    "fs_synced (run_calls (take n calls) d) = fs_synced (run_calls (take n ?pre) d)"
    using only_names_content unfolding split by blast+
  have "length cs < n \<Longrightarrow> take n ?pre = ?pre" by simp
  then show ?thesis
    using prepared_like_before [OF p new, of n] prepared_file [of fails durable keep good target r who chunks cs d] p
    unfolding same like_before_def by (auto simp del: take_Suc_Cons)
qed


section \<open>Power cuts\<close>



lemma no_file: "file_of d name = None \<longleftrightarrow> map_of (fs_names d) name = None"
  by (simp add: file_of_def)




section \<open>The finished write and its backup\<close>

lemma backup_names:
  assumes "backup_calls fails good target who = (kept, raised)" and "good \<Longrightarrow> map_of (fs_names e) target \<noteq> None"
  shows "(\<forall>n. n \<noteq> link_name target who \<and> n \<noteq> backup_name target \<longrightarrow>
      map_of (fs_names (run_calls kept e)) n = map_of (fs_names e) n)
    \<and> (map_of (fs_names (run_calls kept e)) (backup_name target) = map_of (fs_names e) (backup_name target)
      \<or> good \<and> map_of (fs_names (run_calls kept e)) (backup_name target) = map_of (fs_names e) target)
    \<and> (good \<and> \<not> raised \<and> \<not> (fails FOldLink \<or> fails FLink \<or> fails FRenameLink) \<longrightarrow>
      map_of (fs_names (run_calls kept e)) (backup_name target) = map_of (fs_names e) target)"
proof (cases "good \<and> \<not> fails FCheck")
  case False
  then have "kept = []" "good \<longrightarrow> raised" using assms(1) by (auto simp: backup_calls_def Let_def split: if_splits)
  then show ?thesis by auto
next
  case True
  then obtain i where i: "map_of (fs_names e) target = Some i" using assms(2) by auto
  define made where "made = (if fails FOldLink then []
    else Unlink (link_name target who) # (if fails FLink then [] else Link target (link_name target who) #
      (if fails FRenameLink then [] else [Rename (link_name target who) (backup_name target)])))"
  have kept: "kept = made \<or> kept = made @ [Unlink (link_name target who)]"
    using assms(1) True by (auto simp: backup_calls_def Let_def made_def split: if_splits)
  have made: "(\<forall>n. n \<noteq> link_name target who \<and> n \<noteq> backup_name target \<longrightarrow>
      map_of (fs_names (run_calls made e)) n = map_of (fs_names e) n)
    \<and> (if fails FOldLink \<or> fails FLink \<or> fails FRenameLink
       then map_of (fs_names (run_calls made e)) (backup_name target) = map_of (fs_names e) (backup_name target)
       else map_of (fs_names (run_calls made e)) (backup_name target) = map_of (fs_names e) target)"
    using i by (simp add: made_def run_calls_Cons)
  then show ?thesis using kept True by (auto simp: run_calls_append run_calls_Cons split: if_splits)
qed

fun on_temp :: "string \<Rightarrow> sys_call \<Rightarrow> bool" where
  "on_temp tmp (Append n data) = (n = tmp)"
| "on_temp tmp (SyncFile n) = (n = tmp)"
| "on_temp tmp c = False"

lemma on_temp_names: "list_all (on_temp tmp) cs \<Longrightarrow> fs_names (run_calls cs e) = fs_names e"
proof (induction cs arbitrary: e)
  case (Cons c cs)
  have "fs_names (do_call c e) = fs_names e" using Cons.prems by (cases c) (auto split: option.splits)
  then show ?case using Cons by (simp add: run_calls_Cons)
qed simp

lemma chunk_calls_on_temp: "chunk_calls fails tmp k cs = (calls, raised) \<Longrightarrow> list_all (on_temp tmp) calls"
  by (induction cs arbitrary: k calls raised) (auto split: if_splits prod.splits)

lemma prepared_parts:
  assumes "prepare_calls fails durable keep good target r who chunks = (cs, raised)"
  obtains written kept where "cs = written @ kept" "list_all (on_temp (temp_name target r)) written"
    "(kept = [] \<and> (raised \<or> \<not> keep)) \<or> (keep \<and> backup_calls fails good target who = (kept, raised))"
proof -
  obtain written raised1 where w: "chunk_calls fails (temp_name target r) 0 chunks = (written, raised1)"
    by fastforce
  obtain kept kraised where k: "backup_calls fails good target who = (kept, kraised)" by fastforce
  let ?sync = "if durable then [SyncFile (temp_name target r)] else []"
  consider "cs = written" "raised" | "cs = written @ ?sync" "raised \<or> \<not> keep"
    | "cs = (written @ ?sync) @ kept" "keep" "raised = kraised"
    using assms w k by (auto simp: prepare_calls_def Let_def split: if_splits)
  then show ?thesis
  proof cases
    case 1
    then show ?thesis using that [of written "[]"] chunk_calls_on_temp [OF w] by simp
  next
    case 2
    then show ?thesis using that [of "written @ ?sync" "[]"] chunk_calls_on_temp [OF w] by simp
  next
    case 3
    then show ?thesis using that [of "written @ ?sync" kept] chunk_calls_on_temp [OF w] k by simp
  qed
qed

text \<open>The directory before the rename.\<close>

lemma prepared_names:
  assumes p: "prepare_calls fails durable keep good target r who chunks = (cs, raised)"
    and there: "good \<Longrightarrow> map_of (fs_names d) target \<noteq> None"
  defines "N \<equiv> map_of (fs_names (run_calls (Create (temp_name target r) # cs) d))"
  shows "(\<forall>n. n \<notin> {link_name target who, backup_name target, temp_name target r} \<longrightarrow> N n = map_of (fs_names d) n)
    \<and> (N (backup_name target) = map_of (fs_names d) (backup_name target)
      \<or> keep \<and> good \<and> N (backup_name target) = map_of (fs_names d) target)
    \<and> (keep \<and> good \<and> \<not> raised \<and> \<not> (fails FOldLink \<or> fails FLink \<or> fails FRenameLink) \<longrightarrow>
      N (backup_name target) = map_of (fs_names d) target)"
proof -
  obtain written kept where cs: "cs = written @ kept" and w: "list_all (on_temp (temp_name target r)) written"
    and k: "(kept = [] \<and> (raised \<or> \<not> keep)) \<or> (keep \<and> backup_calls fails good target who = (kept, raised))"
    using prepared_parts [OF p] by blast
  define e where "e = run_calls written (do_call (Create (temp_name target r)) d)"
  have e: "map_of (fs_names e) = (map_of (fs_names d))(temp_name target r \<mapsto> fs_next d)"
    using on_temp_names [OF w] by (simp add: e_def)
  have N: "N = map_of (fs_names (run_calls kept e))"
    by (simp only: N_def cs run_calls_Cons run_calls_append e_def)
  from k show ?thesis
  proof
    assume "kept = [] \<and> (raised \<or> \<not> keep)"
    then show ?thesis using N e by auto
  next
    assume b: "keep \<and> backup_calls fails good target who = (kept, raised)"
    have "good \<Longrightarrow> map_of (fs_names e) target \<noteq> None" using there e by simp
    then show ?thesis using backup_names [of fails good target who kept raised e] b e unfolding N by simp
  qed
qed


lemma rest_names:
  assumes "if raised then rest = [] \<or> rest = [Unlink tmp]
    else \<not> praised \<and> rest = Rename tmp target # (if b then [SyncDir] else [])"
    and "name \<noteq> tmp" "name \<noteq> target"
  shows "map_of (fs_names (run_calls rest e)) name = map_of (fs_names e) name"
  using assms by (auto simp: run_calls_Cons split: if_splits option.splits)

lemma same_entry_same_file:
  assumes "map_of (fs_names e) name = map_of (fs_names d) other" and "folder_ok d"
    and "\<forall>i < fs_next d. fs_data e i = fs_data d i"
  shows "file_of e name = file_of d other"
  using assms by (cases "map_of (fs_names d) other") (auto simp: file_of_def folder_ok_def)

lemma temp_dropped:
  assumes "write_calls fails durable keep good target r who chunks = (calls, raised)"
    and "folder_ok d" and "map_of (fs_names d) (temp_name target r) = None" and "\<not> fails FDropTemp"
  shows "map_of (fs_names (run_calls calls d)) (temp_name target r) = None"
proof (cases raised)
  case True
  then show ?thesis using assms
    by (auto simp: write_calls_def Let_def run_calls_append run_calls_Cons split: if_splits prod.splits)
next
  case False
  obtain cs where p: "prepare_calls fails durable keep good target r who chunks = (cs, False)"
    and calls: "calls = (Create (temp_name target r) # cs) @
      Rename (temp_name target r) target # (if durable \<and> \<not> fails FDirSync then [SyncDir] else [])"
    using assms(1) False by (auto simp: write_calls_def Let_def split: if_splits prod.splits)
  define e where "e = run_calls (Create (temp_name target r) # cs) d"
  have t: "map_of (fs_names e) (temp_name target r) = Some (fs_next d)"
    using prepared_file [OF p, of d] by (simp add: e_def)
  have "map_of (fs_names e) target = map_of (fs_names d) target"
    using prepared_like_before [OF p assms(3), of "length cs + 1"] by (simp add: e_def like_before_def)
  then have "map_of (fs_names e) target \<noteq> Some (fs_next d)"
    using assms(2) unfolding folder_ok_def by (metis less_irrefl)
  then have "map_of (fs_names (do_call (Rename (temp_name target r) target) e)) (temp_name target r) = None"
    using t by simp
  moreover have "run_calls calls d =
      run_calls (if durable \<and> \<not> fails FDirSync then [SyncDir] else []) (do_call (Rename (temp_name target r) target) e)"
    by (simp only: calls run_calls_append run_calls_Cons e_def)
  ultimately show ?thesis by (simp add: run_calls_Cons)
qed

lemma write_target:
  assumes "folder_ok d" and new: "map_of (fs_names d) (temp_name target r) = None"
    and "write_calls fails durable keep good target r who chunks = (calls, raised)"
  shows "file_of (run_calls calls d) target = (if raised then file_of d target else Some (concat chunks))"
  using assms(3)
proof (cases rule: write_calls_cases)
  case early
  then show ?thesis by simp
next
  case (prepared cs praised rest)
  note content = write_content_at [OF prepared(1,2) rest_only_names [OF prepared(3)] new, of "length calls"]
  have long: "\<not> raised \<Longrightarrow> length cs + 1 < length calls" using prepared(2,3) by simp
  have target: "map_of (fs_names (run_calls calls d)) target =
      (if raised then map_of (fs_names d) target else Some (fs_next d))"
    using write_names_at [OF prepared(1,2,3) assms(1) new, of "length calls"] long by (cases raised) simp_all
  show ?thesis
  proof (cases raised)
    case True
    have same: "\<forall>i < fs_next d. fs_data (run_calls calls d) i = fs_data d i" using content by simp
    have "map_of (fs_names (run_calls calls d)) target = map_of (fs_names d) target" using target True by simp
    then show ?thesis using same_entry_same_file [OF _ assms(1) same] True by simp
  next
    case False
    then show ?thesis using target content long prepared(3) by (simp add: file_of_def)
  qed
qed

text \<open>What a write leaves in another name is what the calls before the rename leave there.\<close>

lemma write_other:
  assumes "folder_ok d" and new: "map_of (fs_names d) (temp_name target r) = None"
    and there: "good \<Longrightarrow> map_of (fs_names d) target \<noteq> None"
    and "write_calls fails durable keep good target r who chunks = (calls, raised)"
  shows "(name \<notin> {target, temp_name target r, link_name target who, backup_name target} \<longrightarrow>
      file_of (run_calls calls d) name = file_of d name)
    \<and> file_of (run_calls calls d) (backup_name target) \<in>
        (if \<not> (keep \<and> good) then {file_of d (backup_name target)}
         else if \<not> raised \<and> \<not> (fails FOldLink \<or> fails FLink \<or> fails FRenameLink) then {file_of d target}
         else {file_of d (backup_name target), file_of d target})"
  using assms(4)
proof (cases rule: write_calls_cases)
  case early
  then show ?thesis by simp
next
  case (prepared cs praised rest)
  let ?e = "run_calls calls d" and ?f = "run_calls (Create (temp_name target r) # cs) d"
  have e: "?e = run_calls rest ?f"
    by (simp only: prepared(2) append_Cons [symmetric] run_calls_append)
  have same: "\<forall>i < fs_next d. fs_data ?e i = fs_data d i"
    using write_content_at [OF prepared(1,2) rest_only_names [OF prepared(3)] new, of "length calls"] by simp
  note names = prepared_names [OF prepared(1) there]
  note entry = rest_names [OF prepared(3), of _ ?f, folded e]
  have b: "map_of (fs_names ?e) (backup_name target) = map_of (fs_names ?f) (backup_name target)"
    by (rule entry) simp_all
  have "file_of ?e name = file_of d name"
    if "name \<notin> {target, temp_name target r, link_name target who, backup_name target}"
    using names entry [of name] that by (intro same_entry_same_file [OF _ assms(1) same]) simp
  then show ?thesis
    using names b prepared(3) same_entry_same_file [OF _ assms(1) same, of "backup_name target"] by auto
qed

text \<open>
  C16. A saving that returns has put the whole new content in place and one that raises has left the old one; the
  backup is what it was or, only when a backup was asked for and the replaced copy was good, that copy, and it
  surely is that copy when nothing was refused; no temporary file stays and no other file of the directory changes.
\<close>

theorem finished_write:
  assumes "folder_ok d" and "file_of d (temp_name target r) = None" and "good \<longrightarrow> file_of d target \<noteq> None"
    and "write_calls fails durable keep good target r who chunks = (calls, raised)"
  shows "file_of (run_calls calls d) target = (if raised then file_of d target else Some (concat chunks))
    \<and> file_of (run_calls calls d) (backup_name target) \<in>
        (if \<not> (keep \<and> good) then {file_of d (backup_name target)}
         else if \<not> raised \<and> \<not> (fails FOldLink \<or> fails FLink \<or> fails FRenameLink) then {file_of d target}
         else {file_of d (backup_name target), file_of d target})
    \<and> (\<not> fails FDropTemp \<longrightarrow> file_of (run_calls calls d) (temp_name target r) = None)
    \<and> (\<forall>name. name \<notin> {target, temp_name target r, link_name target who, backup_name target} \<longrightarrow>
        file_of (run_calls calls d) name = file_of d name)"
proof -
  note new = assms(2) [unfolded no_file]
  have there: "good \<Longrightarrow> map_of (fs_names d) target \<noteq> None" using assms(3) by (simp add: no_file)
  note other = write_other [OF assms(1) new there assms(4)]
  show ?thesis
  proof (intro conjI)
    show "\<not> fails FDropTemp \<longrightarrow> file_of (run_calls calls d) (temp_name target r) = None"
      using temp_dropped [OF assms(4,1) new] by (simp add: no_file)
    show "\<forall>name. name \<notin> {target, temp_name target r, link_name target who, backup_name target} \<longrightarrow>
        file_of (run_calls calls d) name = file_of d name"
      using conjunct1 [OF other] by (rule allI)
  qed (rule write_target [OF assms(1) new assms(4)], rule conjunct2 [OF other])
qed

theorem finished_write_witness:
  "\<exists>calls. write_calls (\<lambda>f. False) True True True ''a'' ''x'' ''9.9'' [[7], [8]] = (calls, False) \<and>
    file_of (run_calls calls
      \<lparr>fs_names = [(''a'', 0)], fs_data = (\<lambda>i. [5]), fs_synced = (\<lambda>i. True), fs_next = 1\<rparr>) ''a.bak'' = Some [5]"
proof -
  let ?d = "\<lparr>fs_names = [(''a'', 0)], fs_data = (\<lambda>i. [5]), fs_synced = (\<lambda>i. True), fs_next = 1\<rparr> :: folder"
  obtain calls where w: "write_calls (\<lambda>f. False) True True True ''a'' ''x'' ''9.9'' [[7], [8]] = (calls, False)"
    by (simp add: write_calls_def prepare_calls_def backup_calls_def Let_def)
  have "folder_ok ?d" "file_of ?d (temp_name ''a'' ''x'') = None" "True \<longrightarrow> file_of ?d ''a'' \<noteq> None"
    by (simp_all add: folder_ok_def file_of_def temp_name_def)
  moreover have "file_of ?d ''a'' = Some [5]" "backup_name ''a'' = ''a.bak''"
    by (simp_all add: file_of_def backup_name_def BACKUP_SUFFIX_def)
  ultimately show ?thesis using finished_write [OF _ _ _ w, of ?d] w by simp
qed


section \<open>Reading\<close>




subsection \<open>The warning log\<close>

record store_warning =
  sw_id :: string
  sw_path :: string
  sw_problem :: string
  sw_action :: string
  sw_quarantined :: "string option"

definition MAX_WARNINGS :: nat where
  "MAX_WARNINGS = 50"

definition short_path :: "string \<Rightarrow> string \<Rightarrow> string" where
  "short_path home text =
     (if home \<noteq> ''/'' \<and> starts_with (home @ ''/'') text then ''~'' @ drop (length home) text else text)"

text \<open>\<open>record\<close>: \<open>crc\<close> is \<open>zlib.crc32\<close> of the key in eight hexadecimal digits. The listeners are told last.\<close>

definition warn ::
    "(string \<Rightarrow> string) \<Rightarrow> string \<Rightarrow> string \<Rightarrow> string \<Rightarrow> string \<Rightarrow> string option \<Rightarrow> store_warning list \<Rightarrow> store_warning list" where
  "warn crc home path problem action moved warned =
     (let ident = crc (path @ ''|'' @ action @ ''|'' @ problem);
          w = \<lparr>sw_id = ident, sw_path = short_path home path, sw_problem = problem, sw_action = action,
                sw_quarantined = moved\<rparr>
      in if list_ex (\<lambda>v. sw_id v = ident) warned then warned
         else drop (length warned + 1 - MAX_WARNINGS) (warned @ [w]))"

definition dismiss :: "string option \<Rightarrow> store_warning list \<Rightarrow> nat \<times> store_warning list" where
  "dismiss ident warned =
     (let kept = (case ident of None \<Rightarrow> [] | Some i \<Rightarrow> filter (\<lambda>w. sw_id w \<noteq> i) warned)
      in (length warned - length kept, kept))"

subsection \<open>Quarantine\<close>

definition CORRUPT_MARK :: string where
  "CORRUPT_MARK = ''.corrupt-''"

definition KEEP_CORRUPT :: nat where
  "KEEP_CORRUPT = 5"

definition corrupt_name :: "string \<Rightarrow> string \<Rightarrow> nat \<Rightarrow> string" where
  "corrupt_name name stamp counter =
     name @ CORRUPT_MARK @ stamp @ (if counter = 0 then [] else ''-'' @ decimal counter)"

lemma corrupt_name_inj: "inj (corrupt_name name stamp)"
proof (rule injI)
  fix m n assume "corrupt_name name stamp m = corrupt_name name stamp n"
  then have "(if m = 0 then [] else ''-'' @ decimal m) = (if n = 0 then [] else ''-'' @ decimal n)"
    by (simp add: corrupt_name_def)
  then show "m = n" using decimal_inj by (auto split: if_splits)
qed

text \<open>The loop that looks for a name no file has.\<close>

function free_name :: "string \<Rightarrow> string \<Rightarrow> string list \<Rightarrow> nat \<Rightarrow> string" where
  "free_name name stamp taken counter =
     (if corrupt_name name stamp counter \<in> set taken then free_name name stamp taken (counter + 1)
      else corrupt_name name stamp counter)"
  by pat_completeness auto
termination
  by (relation "measure (\<lambda>(name, stamp, taken, counter).
      card {m. counter \<le> m \<and> corrupt_name name stamp m \<in> set taken})")
    (use untried_fewer corrupt_name_inj in auto)

declare free_name.simps [simp del]

lemma free_name_is_free: "free_name name stamp taken counter \<notin> set taken"
  by (induction name stamp taken counter rule: free_name.induct) (subst free_name.simps, simp)


text \<open>
  \<open>quarantine\<close>: the new name and the directory. \<open>stuck\<close>: \<open>os.replace\<close> was refused; the copies beyond the
  last \<open>KEEP_CORRUPT\<close>, sorted by name, are deleted.
\<close>

definition corrupt_copies :: "string \<Rightarrow> folder \<Rightarrow> string list" where
  "corrupt_copies name d = sort (filter (starts_with (name @ CORRUPT_MARK)) (map fst (fs_names d)))"

definition quarantine :: "bool \<Rightarrow> string \<Rightarrow> string \<Rightarrow> folder \<Rightarrow> string option \<times> folder" where
  "quarantine stuck stamp name d =
     (let moved = free_name name stamp (map fst (fs_names d)) 0
      in if stuck then (None, d)
         else
           let e = do_call (Rename name moved) d;
               old = corrupt_copies name e
           in (Some moved, run_calls (map Unlink (take (length old - KEEP_CORRUPT) old)) e))"

subsection \<open>Recovery\<close>






section \<open>What a repair leaves\<close>






lemma unlinks_keys:
  "map fst (fs_names (run_calls (map Unlink ns) d)) = filter (\<lambda>n. n \<notin> set ns) (map fst (fs_names d))"
proof (induction ns arbitrary: d)
  case (Cons n ns)
  then show ?case
    by (simp add: run_calls_Cons delete_keys removeAll_filter_not_eq conj_commute eq_commute [of n])
qed simp




lemma kept_after_take: "length (filter (\<lambda>x. x \<notin> set (take k xs)) xs) \<le> length (drop k xs)"
proof -
  have "filter (\<lambda>x. x \<notin> set (take k xs)) xs = filter (\<lambda>x. x \<notin> set (take k xs)) (take k xs @ drop k xs)"
    by simp
  also have "\<dots> = filter (\<lambda>x. x \<notin> set (take k xs)) (drop k xs)"
    unfolding filter_append by simp
  finally show ?thesis using length_filter_le [of "\<lambda>x. x \<notin> set (take k xs)" "drop k xs"] by simp
qed

text \<open>At most \<open>KEEP_CORRUPT\<close> quarantined copies of a file stay.\<close>

lemma quarantine_keeps_few:
  assumes "quarantine False stamp name d = (moved, e)"
  shows "length (corrupt_copies name e) \<le> KEEP_CORRUPT"
proof -
  define f where "f = do_call (Rename name (free_name name stamp (map fst (fs_names d)) 0)) d"
  let ?all = "corrupt_copies name f"
  let ?olds = "take (length ?all - KEEP_CORRUPT) ?all"
  have e: "e = run_calls (map Unlink ?olds) f" using assms by (simp add: quarantine_def Let_def f_def)
  have "length (corrupt_copies name e) = length (filter (\<lambda>n. n \<notin> set ?olds) ?all)"
    by (simp add: e corrupt_copies_def unlinks_keys filter_sort [symmetric] conj_commute)
  also have "\<dots> \<le> length (drop (length ?all - KEEP_CORRUPT) ?all)"
    by (rule kept_after_take)
  finally show ?thesis by simp
qed



lemma log_bounded: "length warned \<le> MAX_WARNINGS \<Longrightarrow> length (warn crc home path problem action moved warned) \<le> MAX_WARNINGS"
  by (auto simp: warn_def Let_def MAX_WARNINGS_def)






end
