(* ===== verification/EnvFile.thy ===== *)
theory EnvFile
  imports PyText "HOL-Library.AList"
begin

text \<open>
  The KEY=VALUE settings files: \<open>update_env_file\<close> of \<open>store.py\<close> on the file's text, \<open>read_env_file\<close> of
  \<open>config.py\<close>, and the two functions of the standard library's \<open>shlex\<close> they meet in.
\<close>

section \<open>Lines\<close>

definition LF :: char where "LF = CHR 0x0A"
definition CR :: char where "CR = CHR 0x0D"
definition EQ :: char where "EQ = CHR ''=''"

definition after_cr :: "string \<Rightarrow> string" where
  "after_cr s = (case s of [] \<Rightarrow> [] | d # t \<Rightarrow> if d = LF then t else s)"

lemma after_cr_short: "length (after_cr s) \<le> length s"
  by (cases s) (simp_all add: after_cr_def)

text \<open>\<open>str.splitlines()\<close>.\<close>

function (sequential) splitlines :: "string \<Rightarrow> string list" where
  "splitlines [] = []"
| "splitlines (c # s) =
     (if is_line_end c then [] # splitlines (if c = CR then after_cr s else s)
      else case splitlines s of [] \<Rightarrow> [[c]] | p # ps \<Rightarrow> (c # p) # ps)"
  by pat_completeness auto
termination
  by (relation "measure length") (auto simp: le_imp_less_Suc after_cr_short)





section \<open>The shell's quoting\<close>

text \<open>\<open>shlex.quote\<close>.\<close>

definition safe_char :: "char \<Rightarrow> bool" where
  "safe_char c \<longleftrightarrow> code c \<in> {48..57} \<union> {65..90} \<union> {97..122} \<or> c \<in> set ''_@%+=:,./-''"

definition QUOTE :: char where "QUOTE = CHR 0x27"
definition DQUOTE :: char where "DQUOTE = CHR 0x22"
definition BACKSLASH :: char where "BACKSLASH = CHR 0x5C"

definition quote_char :: "char \<Rightarrow> string" where
  "quote_char c = (if c = QUOTE then [QUOTE, DQUOTE, QUOTE, DQUOTE, QUOTE] else [c])"

definition shlex_quote :: "string \<Rightarrow> string" where
  "shlex_quote s =
     (if s = [] then [QUOTE, QUOTE]
      else if list_all safe_char s then s
      else [QUOTE] @ concat (map quote_char s) @ [QUOTE])"

text \<open>
  \<open>shlex.split\<close>: the lexer's states between words, in a word, in a quotation and after a backslash (with the state
  to return to). \<open>None\<close> is \<open>ValueError\<close>.
\<close>

datatype lex_state = Gap | InWord | InQuote char | Escaped lex_state

definition lex_space :: "char \<Rightarrow> bool" where
  "lex_space c \<longleftrightarrow> c \<in> {CHR '' '', CHR 0x09, CR, LF}"

fun lex_run :: "lex_state \<Rightarrow> string \<Rightarrow> bool \<Rightarrow> string \<Rightarrow> string list option" where
  "lex_run Gap token quoted [] = Some []"
| "lex_run InWord token quoted [] = Some (if token = [] \<and> \<not> quoted then [] else [token])"
| "lex_run (InQuote q) token quoted [] = None"
| "lex_run (Escaped back) token quoted [] = None"
| "lex_run Gap token quoted (c # s) =
     (if lex_space c then lex_run Gap [] False s
      else if c = BACKSLASH then lex_run (Escaped InWord) [] False s
      else if c \<in> {QUOTE, DQUOTE} then lex_run (InQuote c) [] False s
      else lex_run InWord [c] False s)"
| "lex_run InWord token quoted (c # s) =
     (if lex_space c then
        (if token \<noteq> [] \<or> quoted then map_option ((#) token) (lex_run Gap [] False s) else lex_run Gap [] False s)
      else if c \<in> {QUOTE, DQUOTE} then lex_run (InQuote c) token quoted s
      else if c = BACKSLASH then lex_run (Escaped InWord) token quoted s
      else lex_run InWord (token @ [c]) quoted s)"
| "lex_run (InQuote q) token quoted (c # s) =
     (if c = q then lex_run InWord token True s
      else if c = BACKSLASH \<and> q = DQUOTE then lex_run (Escaped (InQuote q)) token True s
      else lex_run (InQuote q) (token @ [c]) True s)"
| "lex_run (Escaped back) token quoted (c # s) =
     (if c \<noteq> BACKSLASH \<and> (case back of InQuote q \<Rightarrow> c \<noteq> q | _ \<Rightarrow> False)
      then lex_run back (token @ [BACKSLASH, c]) quoted s
      else lex_run back (token @ [c]) quoted s)"

definition shlex_split :: "string \<Rightarrow> string list option" where
  "shlex_split s = lex_run Gap [] False s"

lemmas lex_chars = lex_space_def CR_def LF_def BACKSLASH_def QUOTE_def DQUOTE_def

lemma safe_char_plain: "safe_char c \<Longrightarrow> \<not> lex_space c \<and> c \<noteq> BACKSLASH \<and> c \<noteq> QUOTE \<and> c \<noteq> DQUOTE"
  by (auto simp: safe_char_def lex_chars code_def)

lemma lex_safe:
  assumes "list_all safe_char s" and "token \<noteq> []"
  shows "lex_run InWord token quoted s = Some [token @ s]"
  using assms by (induction s arbitrary: token) (auto dest: safe_char_plain)

lemma lex_quoted:
  "lex_run (InQuote QUOTE) token True (concat (map quote_char s) @ [QUOTE]) = Some [token @ s]"
proof (induction s arbitrary: token)
  case Nil
  then show ?case by simp
next
  case (Cons c s)
  then show ?case by (simp add: quote_char_def lex_chars)
qed

text \<open>What is quoted comes back as one word.\<close>

lemma split_quote: "shlex_split (shlex_quote s) = Some [s]"
proof -
  consider "s = []" | c t where "s = c # t" "list_all safe_char s"
    | c t where "s = c # t" "\<not> list_all safe_char s" by (cases s) auto
  then show ?thesis
  proof cases
    case 1
    then show ?thesis by (simp add: shlex_split_def shlex_quote_def lex_chars)
  next
    case (2 c t)
    then have "lex_run InWord [c] False t = Some [c # t]" using lex_safe [of t "[c]"] by simp
    then show ?thesis using 2 safe_char_plain [of c] by (simp add: shlex_split_def shlex_quote_def)
  next
    case (3 c t)
    have "lex_run (InQuote QUOTE) [] False (concat (map quote_char s) @ [QUOTE]) = Some [s]"
    proof (cases "c = QUOTE")
      case True
      then show ?thesis using lex_quoted [of "[c]" t] 3(1) by (simp add: quote_char_def lex_chars)
    next
      case False
      then show ?thesis using lex_quoted [of "[c]" t] 3(1) by (simp add: quote_char_def lex_chars)
    qed
    moreover have "shlex_quote s = QUOTE # concat (map quote_char s) @ [QUOTE]"
      using 3 by (auto simp: shlex_quote_def)
    ultimately show ?thesis by (simp add: shlex_split_def lex_chars)
  qed
qed


section \<open>Reading a settings file\<close>

definition remove_prefix :: "string \<Rightarrow> string \<Rightarrow> string" where
  "remove_prefix p s = (if starts_with p s then drop (length p) s else s)"

definition before_eq :: "string \<Rightarrow> string" where
  "before_eq s = takeWhile (\<lambda>c. c \<noteq> EQ) s"

definition after_eq :: "string \<Rightarrow> string" where
  "after_eq s = tl (dropWhile (\<lambda>c. c \<noteq> EQ) s)"

datatype env_line = Blank | Unread | Setting string string

definition read_line :: "string \<Rightarrow> env_line" where
  "read_line raw_line =
     (let line = strip raw_line
      in if line = [] \<or> starts_with ''#'' line then Blank
         else if EQ \<notin> set line then Unread
         else (case shlex_split (after_eq line) of
                 None \<Rightarrow> Unread
               | Some parts \<Rightarrow>
                   Setting (strip (remove_prefix ''export '' (strip (before_eq line)))) (join_with '' '' parts)))"

text \<open>\<open>read_env_file\<close> of the text: the values, and how many lines were skipped.\<close>

fun read_lines :: "string list \<Rightarrow> (string \<rightharpoonup> string) \<times> nat \<Rightarrow> (string \<rightharpoonup> string) \<times> nat" where
  "read_lines [] acc = acc"
| "read_lines (l # ls) (values, skipped) =
     read_lines ls
       (case read_line l of
          Blank \<Rightarrow> (values, skipped)
        | Unread \<Rightarrow> (values, skipped + 1)
        | Setting k v \<Rightarrow> (values(k \<mapsto> v), skipped))"

definition read_env :: "string \<Rightarrow> (string \<rightharpoonup> string) \<times> nat" where
  "read_env content = read_lines (splitlines content) (Map.empty, 0)"

section \<open>Updating it\<close>

definition key_start :: "char \<Rightarrow> bool" where
  "key_start c \<longleftrightarrow> code c \<in> {65..90} \<union> {97..122} \<or> c = CHR ''_''"

text \<open>\<open>ENV_KEY.fullmatch\<close>.\<close>

definition env_key :: "string \<Rightarrow> bool" where
  "env_key s =
     (case s of [] \<Rightarrow> False | c # t \<Rightarrow> key_start c \<and> list_all (\<lambda>x. key_start x \<or> is_digit x) t)"

definition one_line :: "string \<Rightarrow> bool" where
  "one_line v = list_all (\<lambda>c. c \<noteq> LF \<and> c \<noteq> CR \<and> c \<noteq> CHR 0x00) v"

definition setting_name :: "string \<Rightarrow> string" where
  "setting_name line = strip (before_eq (remove_prefix ''export '' (strip line)))"

definition sets :: "string \<Rightarrow> bool" where
  "sets line \<longleftrightarrow> EQ \<in> set line \<and> \<not> starts_with ''#'' (dropWhile is_space line)"

definition env_text :: "string \<Rightarrow> string \<Rightarrow> string" where
  "env_text name value = name @ [EQ] @ shlex_quote value"

text \<open>The loop over the lines: what is written, and what is still pending.\<close>

fun rewrite_lines ::
    "string list \<Rightarrow> (string \<times> string option) list \<Rightarrow> string list \<times> (string \<times> string option) list" where
  "rewrite_lines [] pending = ([], pending)"
| "rewrite_lines (line # ls) pending =
     (let name = setting_name line
      in if sets line \<and> name \<in> fst ` set pending then
           let (out, left) = rewrite_lines ls (AList.delete name pending)
           in (case map_of pending name of
                 Some (Some v) \<Rightarrow> (env_text name v # out, left)
               | _ \<Rightarrow> (out, left))
         else
           let (out, left) = rewrite_lines ls pending in (line # out, left))"

definition new_lines :: "(string \<times> string option) list \<Rightarrow> string list" where
  "new_lines pending = List.map_filter (\<lambda>(k, v). map_option (env_text k) v) pending"

datatype env_error = BadKey string | NotOneLine string

fun check_updates :: "(string \<times> string option) list \<Rightarrow> env_error option" where
  "check_updates [] = None"
| "check_updates ((k, v) # us) =
     (if \<not> env_key k then Some (BadKey k)
      else if (case v of Some t \<Rightarrow> \<not> one_line t | None \<Rightarrow> False) then Some (NotOneLine k)
      else check_updates us)"

text \<open>\<open>update_env_file\<close> on the text of the file; \<open>updates\<close> is the dict in its order.\<close>

definition update_env :: "string \<Rightarrow> (string \<times> string option) list \<Rightarrow> env_error + string" where
  "update_env content updates =
     (case check_updates updates of
        Some e \<Rightarrow> Inl e
      | None \<Rightarrow>
          let (out, pending) = rewrite_lines (splitlines content) updates;
              ls = out @ new_lines pending
          in Inr (if ls = [] then [] else join_with [LF] ls @ [LF]))"


section \<open>Reader and writer agree on the names\<close>

lemma takeWhile_past: "c \<noteq> EQ \<Longrightarrow> before_eq (c # s) = c # before_eq s"
  by (simp add: before_eq_def)

lemma before_eq_append: "EQ \<notin> set p \<Longrightarrow> before_eq (p @ s) = p @ before_eq s"
  by (induction p) (auto simp: before_eq_def)

lemma before_eq_stop: "EQ \<notin> set p \<Longrightarrow> before_eq (p @ EQ # s) = p"
  by (simp add: before_eq_append) (simp add: before_eq_def)

lemma after_eq_stop: "EQ \<notin> set p \<Longrightarrow> after_eq (p @ EQ # s) = s"
  unfolding after_eq_def by (induction p) auto

lemma starts_with_prefix: "starts_with p s \<longleftrightarrow> (\<exists>t. s = p @ t)"
  unfolding starts_with_def by (metis append_eq_conv_conj append_take_drop_id)









lemma key_chars:
  assumes "env_key k"
  shows "k \<noteq> []" "list_all (\<lambda>c. \<not> is_space c \<and> \<not> is_line_end c \<and> c \<noteq> EQ \<and> c \<noteq> CHR ''#'') k"
proof -
  have "key_start c \<or> is_digit c \<Longrightarrow> \<not> is_space c \<and> \<not> is_line_end c \<and> c \<noteq> EQ \<and> c \<noteq> CHR ''#''" for c
    by (auto simp: key_start_def is_digit_def is_space_def is_line_end_def EQ_def code_def)
  then show "k \<noteq> []" "list_all (\<lambda>c. \<not> is_space c \<and> \<not> is_line_end c \<and> c \<noteq> EQ \<and> c \<noteq> CHR ''#'') k"
    using assms by (cases k; auto simp: env_key_def list_all_iff)+
qed

lemma key_strip:
  assumes "env_key k"
  shows "strip k = k"
  using key_chars [OF assms] by (intro strip_noop) (auto simp: list_all_iff)

lemma quote_last: "shlex_quote v \<noteq> [] \<and> \<not> is_space (last (shlex_quote v))"
proof (cases "v = [] \<or> \<not> list_all safe_char v")
  case True
  then show ?thesis by (auto simp: shlex_quote_def QUOTE_def is_space_def code_def)
next
  case False
  then have "safe_char (last v)" by (simp add: list_all_iff)
  then have "\<not> is_space (last v)" by (auto simp: safe_char_def is_space_def code_def)
  then show ?thesis using False by (simp add: shlex_quote_def)
qed

text \<open>A line the writer makes is read as what it sets.\<close>

lemma read_written:
  assumes "env_key k"
  shows "read_line (env_text k v) = Setting k v"
proof -
  note k = key_chars [OF assms]
  have hd: "hd (env_text k v) = hd k" "env_text k v \<noteq> []" "last (env_text k v) = last (shlex_quote v)"
    using k(1) quote_last [of v] by (simp_all add: env_text_def)
  have "strip (env_text k v) = env_text k v"
    using hd k quote_last [of v] by (intro strip_noop) (auto simp: list_all_iff)
  moreover have "\<not> starts_with ''#'' (env_text k v)"
    using k by (cases k) (auto simp: env_text_def starts_with_def)
  moreover have "EQ \<notin> set k" using k(2) by (auto simp: list_all_iff)
  then have "before_eq (env_text k v) = k" "after_eq (env_text k v) = shlex_quote v"
    using before_eq_stop after_eq_stop by (simp_all add: env_text_def)
  moreover have "\<not> starts_with ''export '' k"
    using k(2) by (auto simp: starts_with_prefix is_space_def code_def)
  ultimately show ?thesis
    using hd(2) key_strip [OF assms] split_quote [of v]
    by (simp add: read_line_def remove_prefix_def env_text_def)
qed



section \<open>What is written is what is read\<close>

definition pair_of :: "string \<Rightarrow> (string \<times> string) option" where
  "pair_of line = (case read_line line of Setting k v \<Rightarrow> Some (k, v) | _ \<Rightarrow> None)"

definition pairs :: "string list \<Rightarrow> (string \<times> string) list" where
  "pairs ls = List.map_filter pair_of ls"

text \<open>The values a list of lines gives to one key, in order: the last one counts.\<close>

definition settings_of :: "string \<Rightarrow> string list \<Rightarrow> string list" where
  "settings_of k ls = map snd (filter (\<lambda>p. fst p = k) (pairs ls))"


lemma settings_of_Nil [simp]: "settings_of k [] = []"
  by (simp add: settings_of_def pairs_def List.map_filter_def)







lemma new_lines_Nil [simp]: "new_lines [] = []"
  by (simp add: new_lines_def List.map_filter_def)















section \<open>What the round trip does not cover\<close>

text \<open>
  Of two lines that set one key only the first is replaced, and the second, which the reader lets win, keeps the
  old value; removing the key removes the first line only.
\<close>

lemma second_line_wins:
  "update_env (''A=1'' @ [LF] @ ''A=2'' @ [LF]) [(''A'', Some ''3'')] = Inr (''A=3'' @ [LF] @ ''A=2'' @ [LF])
    \<and> fst (read_env (''A=3'' @ [LF] @ ''A=2'' @ [LF])) ''A'' = Some ''2''"
proof -
  have "check_updates [(''A'', Some ''3'')] = None"
    by (simp add: env_key_def key_start_def one_line_def code_def LF_def CR_def)
  moreover have "splitlines (''A=1'' @ [LF] @ ''A=2'' @ [LF]) = [''A=1'', ''A=2'']"
    "splitlines (''A=3'' @ [LF] @ ''A=2'' @ [LF]) = [''A=3'', ''A=2'']"
    by (simp_all add: LF_def CR_def is_line_end_def code_def)
  moreover have "sets ''A=1''" "setting_name ''A=1'' = ''A''"
    by (simp_all add: sets_def setting_name_def before_eq_def remove_prefix_def starts_with_def strip_def
        is_space_def code_def EQ_def)
  moreover have "env_text ''A'' ''3'' = ''A=3''"
    by (simp add: env_text_def shlex_quote_def safe_char_def EQ_def code_def)
  moreover have "read_line ''A=2'' = Setting ''A'' ''2''" "read_line ''A=3'' = Setting ''A'' ''3''"
    using read_written [of "''A''" "''2''"] read_written [of "''A''" "''3''"]
    by (simp_all add: env_key_def key_start_def env_text_def shlex_quote_def safe_char_def EQ_def code_def)
  ultimately show ?thesis
    by (simp add: update_env_def read_env_def new_lines_def List.map_filter_def)
qed

text \<open>A form feed passes the check of the value, and the reader then ends the line there: the setting is lost.\<close>

lemma form_feed_loses_the_setting:
  "update_env [] [(''A'', Some [CHR ''x'', CHR 0x0C])] = Inr (''A='' @ [QUOTE, CHR ''x'', CHR 0x0C, QUOTE, LF])
    \<and> fst (read_env (''A='' @ [QUOTE, CHR ''x'', CHR 0x0C, QUOTE, LF])) ''A'' = None"
proof -
  have "check_updates [(''A'', Some [CHR ''x'', CHR 0x0C])] = None"
    by (simp add: env_key_def key_start_def one_line_def code_def LF_def CR_def)
  moreover have "splitlines (''A='' @ [QUOTE, CHR ''x'', CHR 0x0C, QUOTE, LF]) = [''A='' @ [QUOTE, CHR ''x''], [QUOTE]]"
    by (simp add: LF_def CR_def QUOTE_def is_line_end_def code_def)
  moreover have "env_text ''A'' [CHR ''x'', CHR 0x0C] = ''A='' @ [QUOTE, CHR ''x'', CHR 0x0C, QUOTE]"
    by (simp add: env_text_def shlex_quote_def safe_char_def quote_char_def QUOTE_def EQ_def code_def)
  moreover have "read_line (''A='' @ [QUOTE, CHR ''x'']) = Unread" "read_line [QUOTE] = Unread"
    by (simp_all add: read_line_def after_eq_def strip_def starts_with_def shlex_split_def lex_chars
        is_space_def code_def EQ_def)
  ultimately show ?thesis
    by (simp add: update_env_def read_env_def new_lines_def List.map_filter_def)
qed

end
