(* ===== verification/Sdp.thy ===== *)
theory Sdp
  imports PyText WhipMedia "HOL-Library.AList"
begin

text \<open>
  \<open>stream/whip/sdp.py\<close>: the offer of a WHIP exchange, the strict reader of a server's answer and the check of
  the answer against the offer. Every \<open>SdpError\<close> is a value with what its message says; numbers of more
  than 4300 digits, which Python's \<open>int\<close> refuses, are not represented.
\<close>

section \<open>The offer\<close>

record media_offer =
  mo_codec :: codec_spec
  mo_mid :: string
  mo_ssrc :: nat

datatype sdp_error =
    NothingOffered
  | NotSdp
  | NotSrtp string
  | MalformedLine string
  | NoSections
  | NotBundled
  | NotAccepted string
  | OtherCodec string string "string list"
  | ChangedPayloadType string
  | NoCredentials string
  | NoFingerprint string
  | DifferentCredentials
  | BadRole string

definition MID_URI :: string where
  "MID_URI = ''urn:ietf:params:rtp-hdrext:sdes:mid''"

definition MID_EXT_ID :: nat where
  "MID_EXT_ID = 1"

definition CRLF :: string where
  "CRLF = [CHR 0x0D, CHR 0x0A]"

definition rtpmap_text :: "codec_spec \<Rightarrow> string" where
  "rtpmap_text c =
     ''a=rtpmap:'' @ decimal (cs_payload_type c) @ '' '' @ cs_name c @ ''/'' @ decimal (cs_clock_rate c) @
     (if cs_channels c \<noteq> 0 then ''/'' @ decimal (cs_channels c) else [])"

record offer_facts =
  of_ufrag :: string
  of_password :: string
  of_fingerprints :: "(string \<times> string) list"
  of_candidates :: "string list"
  of_cname :: string
  of_session_id :: nat
  of_stream_id :: string

text \<open>The lines of one media section.\<close>

definition section_lines :: "offer_facts \<Rightarrow> media_offer \<Rightarrow> string list" where
  "section_lines f item =
     (let codec = mo_codec item; pt = decimal (cs_payload_type codec)
      in [''m='' @ cs_kind codec @ '' 9 UDP/TLS/RTP/SAVPF '' @ pt,
          ''c=IN IP4 0.0.0.0'',
          ''a=rtcp:9 IN IP4 0.0.0.0'',
          ''a=ice-ufrag:'' @ of_ufrag f,
          ''a=ice-pwd:'' @ of_password f] @
         map (\<lambda>(algorithm, digest). ''a=fingerprint:'' @ algorithm @ '' '' @ digest) (of_fingerprints f) @
         [''a=setup:actpass'',
          ''a=mid:'' @ mo_mid item,
          ''a=extmap:'' @ decimal MID_EXT_ID @ '' '' @ MID_URI,
          ''a=sendonly'',
          ''a=msid:'' @ of_stream_id f @ '' '' @ cs_kind codec @ ''-'' @ decimal (mo_ssrc item),
          ''a=rtcp-mux'',
          rtpmap_text codec] @
         map (\<lambda>fb. ''a=rtcp-fb:'' @ pt @ '' '' @ fb) (cs_feedback codec) @
         (if cs_fmtp codec \<noteq> [] then [''a=fmtp:'' @ pt @ '' '' @ cs_fmtp codec] else []) @
         [''a=ssrc:'' @ decimal (mo_ssrc item) @ '' cname:'' @ of_cname f] @
         map (\<lambda>c. ''a=candidate:'' @ c) (of_candidates f) @
         [''a=end-of-candidates''])"

definition session_lines :: "offer_facts \<Rightarrow> media_offer list \<Rightarrow> string list" where
  "session_lines f media =
     [''v=0'',
      ''o=- '' @ decimal (of_session_id f) @ '' 2 IN IP4 127.0.0.1'',
      ''s=StreamStack'',
      ''t=0 0'',
      ''a=group:BUNDLE '' @ join_with '' '' (map mo_mid media),
      ''a=msid-semantic: WMS '' @ of_stream_id f]"

definition build_offer :: "offer_facts \<Rightarrow> media_offer list \<Rightarrow> sdp_error + string" where
  "build_offer f media =
     (if media = [] then Inl NothingOffered
      else Inr (join_with CRLF (session_lines f media @ concat (map (section_lines f) media)) @ CRLF))"

section \<open>The answer\<close>

record answer_codec =
  ac_payload_type :: int
  ac_name :: string
  ac_clock_rate :: int
  ac_channels :: int
  ac_fmtp :: string

record answer_media =
  am_kind :: string
  am_port :: nat
  am_mid :: string
  am_direction :: string
  am_codecs :: "answer_codec list"
  am_ufrag :: string
  am_password :: string
  am_fingerprints :: "(string \<times> string) list"
  am_setup :: string
  am_candidates :: "string list"
  am_extmap :: "(int \<times> string) list"
  am_rtcp_mux :: bool
  am_feedback :: "(int \<times> string list) list"

definition new_media :: "string \<Rightarrow> nat \<Rightarrow> answer_media" where
  "new_media kind port =
     \<lparr>am_kind = kind, am_port = port, am_mid = [], am_direction = [], am_codecs = [], am_ufrag = [], am_password = [],
      am_fingerprints = [], am_setup = [], am_candidates = [], am_extmap = [], am_rtcp_mux = False, am_feedback = []\<rparr>"

definition accepted :: "answer_media \<Rightarrow> bool" where
  "accepted m \<longleftrightarrow> am_port m \<noteq> 0 \<and> am_direction m \<noteq> ''inactive'' \<and> am_codecs m \<noteq> []"

record answer =
  an_ice_lite :: bool
  an_bundle :: "string list"
  an_media :: "answer_media list"

definition section_of :: "answer \<Rightarrow> string \<Rightarrow> answer_media option" where
  "section_of a kind = List.find (\<lambda>m. am_kind m = kind) (an_media a)"

text \<open>\<open>\w\<close> of a regular expression, and \<open>str.upper()\<close> but for the two letters whose capitals are above 255.\<close>

definition regex_word :: "char \<Rightarrow> bool" where
  "regex_word c \<longleftrightarrow>
     code c \<in> {48..57} \<union> {65..90} \<union> {95} \<union> {97..122} \<union> {0xAA, 0xB2, 0xB3, 0xB5, 0xB9, 0xBA, 0xBC, 0xBD, 0xBE}
       \<union> ({192..255} - {215, 247})"

definition upper :: "string \<Rightarrow> string" where
  "upper s = concat (map (\<lambda>c.
     if code c \<in> {97..122} \<union> ({224..254} - {247}) then [char_of (code c - 32)]
     else if code c = 223 then ''SS'' else [c]) s)"

text \<open>\<open>_M_LINE\<close>: kind, port and profile of a media line.\<close>

definition m_line :: "string \<Rightarrow> (string \<times> nat \<times> string) option" where
  "m_line line =
     (if \<not> starts_with ''m='' line then None
      else
        let s = drop 2 line; kind = takeWhile regex_word s;
            s1 = dropWhile regex_word s; port = takeWhile is_digit (tl s1);
            s2 = dropWhile is_digit (tl s1); profile = takeWhile (\<lambda>c. \<not> is_space c) (tl s2);
            s3 = dropWhile (\<lambda>c. \<not> is_space c) (tl s2)
        in if kind \<noteq> [] \<and> starts_with '' '' s1 \<and> port \<noteq> [] \<and> starts_with '' '' s2 \<and> profile \<noteq> [] \<and>
              starts_with '' '' s3 \<and> tl s3 \<noteq> []
           then Some (kind, digits_value 0 port, profile) else None)"

text \<open>\<open>_ATTR\<close>: name and value of an attribute line.\<close>

definition attr_line :: "string \<Rightarrow> (string \<times> string) option" where
  "attr_line line =
     (let s = drop 2 line; name = takeWhile (\<lambda>c. c \<noteq> CHR '':'') s
      in if starts_with ''a='' line \<and> name \<noteq> [] then Some (name, strip (tl (dropWhile (\<lambda>c. c \<noteq> CHR '':'') s)))
         else None)"

text \<open>\<open>first, rest = value.split(None, 1)\<close>.\<close>

definition split_once :: "string \<Rightarrow> (string \<times> string) option" where
  "split_once s = (case split_max 1 s of [a, b] \<Rightarrow> Some (a, b) | _ \<Rightarrow> None)"

definition py_int :: "string \<Rightarrow> int option" where
  "py_int s = int_of_text (strip s)"

definition append_to :: "'k \<Rightarrow> 'v \<Rightarrow> ('k \<times> 'v list) list \<Rightarrow> ('k \<times> 'v list) list" where
  "append_to k v kvs = AList.update k ((case map_of kvs k of None \<Rightarrow> [] | Some vs \<Rightarrow> vs) @ [v]) kvs"

text \<open>\<open>rtpmap\<close>: the codec it names; the fields after the rate are the channels.\<close>

definition read_rtpmap :: "string \<Rightarrow> string \<Rightarrow> answer_codec option" where
  "read_rtpmap kind v =
     (case split_once v of
        None \<Rightarrow> None
      | Some (pt, desc) \<Rightarrow>
          let bits = split_on (CHR ''/'') desc
          in (case (py_int pt, (if 1 < length bits then py_int (bits ! 1) else None),
                (if 2 < length bits then py_int (bits ! 2) else Some (if kind = ''audio'' then 1 else 0))) of
                (Some p, Some rate, Some channels) \<Rightarrow>
                  Some \<lparr>ac_payload_type = p, ac_name = hd bits, ac_clock_rate = rate, ac_channels = channels, ac_fmtp = []\<rparr>
              | _ \<Rightarrow> None))"

text \<open>\<open>_apply\<close>; \<open>None\<close> is the \<open>ValueError\<close> or \<open>IndexError\<close> of a malformed value.\<close>

definition apply_attr :: "answer \<Rightarrow> answer_media \<Rightarrow> string \<Rightarrow> string \<Rightarrow> (answer \<times> answer_media) option" where
  "apply_attr a m name v =
     (if name = ''ice-lite'' then Some (a\<lparr>an_ice_lite := True\<rparr>, m)
      else if name = ''group'' then
        (let bits = words v
         in Some (if bits \<noteq> [] \<and> hd bits = ''BUNDLE'' then a\<lparr>an_bundle := tl bits\<rparr> else a, m))
      else if name = ''ice-ufrag'' then Some (a, m\<lparr>am_ufrag := v\<rparr>)
      else if name = ''ice-pwd'' then Some (a, m\<lparr>am_password := v\<rparr>)
      else if name = ''fingerprint'' then
        map_option (\<lambda>(algorithm, digest).
          (a, m\<lparr>am_fingerprints := am_fingerprints m @ [(lower algorithm, upper (strip digest))]\<rparr>)) (split_once v)
      else if name = ''setup'' then Some (a, m\<lparr>am_setup := v\<rparr>)
      else if name = ''mid'' then Some (a, m\<lparr>am_mid := v\<rparr>)
      else if name = ''candidate'' then Some (a, m\<lparr>am_candidates := am_candidates m @ [v]\<rparr>)
      else if name = ''rtcp-mux'' then Some (a, m\<lparr>am_rtcp_mux := True\<rparr>)
      else if name \<in> {''sendonly'', ''recvonly'', ''sendrecv'', ''inactive''} then Some (a, m\<lparr>am_direction := name\<rparr>)
      else if name = ''extmap'' then
        (case split_once v of
           None \<Rightarrow> None
         | Some (ident, uri) \<Rightarrow>
             map_option (\<lambda>n. (a, m\<lparr>am_extmap := AList.update n (hd (words uri)) (am_extmap m)\<rparr>))
               (py_int (hd (split_on (CHR ''/'') ident))))
      else if name = ''rtpmap'' then
        map_option (\<lambda>c. (a, m\<lparr>am_codecs := am_codecs m @ [c]\<rparr>)) (read_rtpmap (am_kind m) v)
      else if name = ''fmtp'' then
        (case split_once v of
           None \<Rightarrow> None
         | Some (pt, params) \<Rightarrow>
             if am_codecs m = [] then Some (a, m)
             else map_option (\<lambda>p. (a, m\<lparr>am_codecs :=
               map (\<lambda>c. if ac_payload_type c = p then c\<lparr>ac_fmtp := params\<rparr> else c) (am_codecs m)\<rparr>)) (py_int pt))
      else if name = ''rtcp-fb'' then
        (case split_once v of
           None \<Rightarrow> None
         | Some (pt, feedback) \<Rightarrow>
             map_option (\<lambda>p. (a, m\<lparr>am_feedback := append_to p feedback (am_feedback m)\<rparr>))
               (if pt = ''*'' then Some (-1) else py_int pt))
      else Some (a, m))"

text \<open>One line: the answer so far (its last section is the current one) and the session's own attributes.\<close>

definition parse_line :: "string \<Rightarrow> answer \<times> answer_media \<Rightarrow> sdp_error + (answer \<times> answer_media)" where
  "parse_line line = (\<lambda>(a, session).
     (case m_line line of
        Some (kind, port, profile) \<Rightarrow>
          if \<not> contains ''SAVPF'' profile \<and> \<not> contains ''SAVP'' profile then Inl (NotSrtp profile)
          else Inr (a\<lparr>an_media := an_media a @ [(new_media kind port)\<lparr>am_ufrag := am_ufrag session,
                 am_password := am_password session, am_fingerprints := am_fingerprints session,
                 am_setup := am_setup session, am_rtcp_mux := am_rtcp_mux session\<rparr>]\<rparr>, session)
      | None \<Rightarrow>
          (case attr_line line of
             None \<Rightarrow> Inr (a, session)
           | Some (name, v) \<Rightarrow>
               if an_media a = [] then
                 (case apply_attr a session name v of None \<Rightarrow> Inl (MalformedLine name) | Some r \<Rightarrow> Inr r)
               else
                 (case apply_attr a (last (an_media a)) name v of
                    None \<Rightarrow> Inl (MalformedLine name)
                  | Some (a', m) \<Rightarrow> Inr (a'\<lparr>an_media := butlast (an_media a') @ [m]\<rparr>, session)))))"

fun parse_lines :: "string list \<Rightarrow> answer \<times> answer_media \<Rightarrow> sdp_error + (answer \<times> answer_media)" where
  "parse_lines [] st = Inr st"
| "parse_lines (line # ls) st = (case parse_line line st of Inl e \<Rightarrow> Inl e | Inr st' \<Rightarrow> parse_lines ls st')"

text \<open>\<open>text.replace("\r\n", "\n")\<close>.\<close>

fun unix_ends :: "string \<Rightarrow> string" where
  "unix_ends (c # d # s) =
     (if c = CHR 0x0D \<and> d = CHR 0x0A then CHR 0x0A # unix_ends s else c # unix_ends (d # s))"
| "unix_ends s = s"

definition sdp_lines :: "string \<Rightarrow> string list" where
  "sdp_lines s = filter (\<lambda>l. l \<noteq> []) (map strip (split_on (CHR 0x0A) (unix_ends s)))"

definition parse_answer :: "string \<Rightarrow> sdp_error + answer" where
  "parse_answer s =
     (case sdp_lines s of
        [] \<Rightarrow> Inl NotSdp
      | l # ls \<Rightarrow>
          if l \<noteq> ''v=0'' then Inl NotSdp
          else
            (case parse_lines ls (\<lparr>an_ice_lite = False, an_bundle = [], an_media = []\<rparr>, new_media ''session'' 0) of
               Inl e \<Rightarrow> Inl e
             | Inr (a, session) \<Rightarrow> Inr a))"

section \<open>The check of the answer\<close>

definition answers_codec :: "media_offer \<Rightarrow> answer_codec \<Rightarrow> bool" where
  "answers_codec item c \<longleftrightarrow>
     lower (ac_name c) = lower (cs_name (mo_codec item)) \<and> ac_clock_rate c = int (cs_clock_rate (mo_codec item))"

text \<open>The section that answers one offered section, or why there is none.\<close>

definition choose_section :: "answer \<Rightarrow> media_offer \<Rightarrow> sdp_error + answer_media" where
  "choose_section a item =
     (let kind = cs_kind (mo_codec item);
          found = (case List.find (\<lambda>m. am_mid m = mo_mid item) (an_media a) of
                     Some m \<Rightarrow> Some m | None \<Rightarrow> section_of a kind)
      in case found of
           None \<Rightarrow> Inl (NotAccepted kind)
         | Some m \<Rightarrow>
             if \<not> accepted m then Inl (NotAccepted kind)
             else (case List.find (answers_codec item) (am_codecs m) of
                 None \<Rightarrow> Inl (OtherCodec (cs_name (mo_codec item)) kind (sort (remdups (map ac_name (am_codecs m)))))
               | Some c \<Rightarrow>
                   if ac_payload_type c \<noteq> int (cs_payload_type (mo_codec item)) then Inl (ChangedPayloadType kind)
                   else Inr m))"

fun choose_all ::
    "answer \<Rightarrow> media_offer list \<Rightarrow> (string \<times> answer_media) list \<Rightarrow> sdp_error + (string \<times> answer_media) list" where
  "choose_all a [] out = Inr out"
| "choose_all a (item # rest) out =
     (case choose_section a item of
        Inl e \<Rightarrow> Inl e
      | Inr m \<Rightarrow> choose_all a rest (AList.update (cs_kind (mo_codec item)) m out))"

fun check_sections :: "answer_media \<Rightarrow> (string \<times> answer_media) list \<Rightarrow> sdp_error option" where
  "check_sections m0 [] = None"
| "check_sections m0 ((kind, m) # rest) =
     (if am_ufrag m = [] \<or> am_password m = [] then Some (NoCredentials kind)
      else if am_fingerprints m = [] then Some (NoFingerprint kind)
      else if (am_ufrag m, am_password m) \<noteq> (am_ufrag m0, am_password m0) then Some DifferentCredentials
      else check_sections m0 rest)"

text \<open>\<open>negotiate\<close>; with nothing offered the code's \<open>next\<close> raises, but an offer is never empty (\<open>build_offer\<close>).\<close>

definition negotiate :: "answer \<Rightarrow> media_offer list \<Rightarrow> sdp_error + (string \<times> answer_media) list" where
  "negotiate a offered =
     (if an_media a = [] then Inl NoSections
      else if 1 < length offered \<and> set (an_bundle a) \<noteq> set (map mo_mid offered) then Inl NotBundled
      else case choose_all a offered [] of
          Inl e \<Rightarrow> Inl e
        | Inr out \<Rightarrow>
            (let m0 = snd (hd out)
             in case check_sections m0 out of
                  Some e \<Rightarrow> Inl e
                | None \<Rightarrow>
                    if am_setup m0 \<notin> {''active'', ''passive''} then Inl (BadRole (am_setup m0)) else Inr out))"

definition candidate_values :: "answer \<Rightarrow> string list" where
  "candidate_values a = rev (remdups (rev (concat (map am_candidates (an_media a)))))"

lemma candidates_once: "distinct (candidate_values a) \<and> set (candidate_values a) = (\<Union>m \<in> set (an_media a). set (am_candidates m))"
  by (simp add: candidate_values_def)

section \<open>What an accepted answer has\<close>

lemma chosen_sound:
  assumes "choose_section a item = Inr m"
  shows "m \<in> set (an_media a) \<and> accepted m \<and>
    (\<exists>c \<in> set (am_codecs m). answers_codec item c \<and> ac_payload_type c = int (cs_payload_type (mo_codec item)))"
  using assms
  by (auto simp: choose_section_def section_of_def Let_def find_Some_iff split: option.splits if_splits)

lemma update_new: "k \<notin> fst ` set xs \<Longrightarrow> AList.update k v xs = xs @ [(k, v)]"
  by (induction xs) auto

lemma choose_all_keys:
  assumes "choose_all a offered out = Inr res" and "distinct (map (\<lambda>i. cs_kind (mo_codec i)) offered)"
    and "\<forall>item \<in> set offered. cs_kind (mo_codec item) \<notin> fst ` set out"
  shows "res = out @ map (\<lambda>item. (cs_kind (mo_codec item), projr (choose_section a item))) offered
    \<and> (\<forall>item \<in> set offered. \<exists>m. choose_section a item = Inr m)"
  using assms
proof (induction offered arbitrary: out)
  case (Cons item rest)
  obtain m where m: "choose_section a item = Inr m"
    using Cons.prems(1) by (cases "choose_section a item") simp_all
  have upd: "AList.update (cs_kind (mo_codec item)) m out = out @ [(cs_kind (mo_codec item), m)]"
    using Cons.prems(3) by (simp add: update_new)
  have fresh: "\<forall>i \<in> set rest. cs_kind (mo_codec i) \<notin> fst ` set (out @ [(cs_kind (mo_codec item), m)])"
  proof
    fix i assume i: "i \<in> set rest"
    then have "cs_kind (mo_codec i) \<noteq> cs_kind (mo_codec item)" using Cons.prems(2)
      by (auto simp: image_iff)
    then show "cs_kind (mo_codec i) \<notin> fst ` set (out @ [(cs_kind (mo_codec item), m)])"
      using Cons.prems(3) i by simp
  qed
  have next_run: "choose_all a rest (out @ [(cs_kind (mo_codec item), m)]) = Inr res"
    using Cons.prems(1) m upd by simp
  have "distinct (map (\<lambda>i. cs_kind (mo_codec i)) rest)" using Cons.prems(2) by simp
  from Cons.IH [OF next_run this fresh] show ?case using m by simp
qed simp

lemma check_sections_sound:
  assumes "check_sections m0 out = None" and "(kind, m) \<in> set out"
  shows "am_ufrag m \<noteq> [] \<and> am_password m \<noteq> [] \<and> am_fingerprints m \<noteq> [] \<and>
    am_ufrag m = am_ufrag m0 \<and> am_password m = am_password m0"
  using assms by (induction m0 out rule: check_sections.induct) (auto split: if_splits)

text \<open>
  C14. An answer that is accepted gives every offered kind an accepted section with the codec, clock rate and payload
  type that were offered, ICE credentials that are the same for all of them and a DTLS fingerprint; the server bundled
  what was offered, and its DTLS role is active or passive.
\<close>

theorem accepted_answer_fits:
  assumes "negotiate a offered = Inr res" and "offered \<noteq> []" and "distinct (map (\<lambda>i. cs_kind (mo_codec i)) offered)"
  shows "map fst res = map (\<lambda>i. cs_kind (mo_codec i)) offered \<and>
    (1 < length offered \<longrightarrow> set (an_bundle a) = set (map mo_mid offered)) \<and>
    am_setup (snd (hd res)) \<in> {''active'', ''passive''} \<and>
    (\<forall>item \<in> set offered. \<exists>m \<in> set (an_media a).
      map_of res (cs_kind (mo_codec item)) = Some m \<and> accepted m \<and>
      (\<exists>c \<in> set (am_codecs m). answers_codec item c \<and> ac_payload_type c = int (cs_payload_type (mo_codec item))) \<and>
      am_ufrag m \<noteq> [] \<and> am_password m \<noteq> [] \<and> am_fingerprints m \<noteq> [] \<and>
      (am_ufrag m, am_password m) = (am_ufrag (snd (hd res)), am_password (snd (hd res))))"
proof -
  have c: "choose_all a offered [] = Inr res"
    and checked: "check_sections (snd (hd res)) res = None"
    and role: "am_setup (snd (hd res)) \<in> {''active'', ''passive''}"
    and grouped: "1 < length offered \<longrightarrow> set (an_bundle a) = set (map mo_mid offered)"
    using assms(1) by (auto simp: negotiate_def Let_def split: if_splits sum.splits option.splits)
  have res: "res = map (\<lambda>item. (cs_kind (mo_codec item), projr (choose_section a item))) offered"
    and all: "\<forall>item \<in> set offered. \<exists>m. choose_section a item = Inr m"
    using choose_all_keys [OF c assms(3)] by simp_all
  have keys: "map fst res = map (\<lambda>i. cs_kind (mo_codec i)) offered" by (simp add: res)
  have "\<exists>m \<in> set (an_media a).
      map_of res (cs_kind (mo_codec item)) = Some m \<and> accepted m \<and>
      (\<exists>c \<in> set (am_codecs m). answers_codec item c \<and> ac_payload_type c = int (cs_payload_type (mo_codec item))) \<and>
      am_ufrag m \<noteq> [] \<and> am_password m \<noteq> [] \<and> am_fingerprints m \<noteq> [] \<and>
      (am_ufrag m, am_password m) = (am_ufrag (snd (hd res)), am_password (snd (hd res)))"
    if item: "item \<in> set offered" for item
  proof -
    obtain m where m: "choose_section a item = Inr m" using all item by blast
    have in_res: "(cs_kind (mo_codec item), m) \<in> set res" using item m by (force simp: res)
    have "map_of res (cs_kind (mo_codec item)) = Some m"
      using in_res assms(3) keys by (intro map_of_is_SomeI) simp_all
    then show ?thesis using chosen_sound [OF m] check_sections_sound [OF checked in_res] by auto
  qed
  then show ?thesis using keys grouped role by blast
qed


section \<open>Tidy texts\<close>

definition tidy :: "string \<Rightarrow> bool" where
  "tidy s \<longleftrightarrow> CHR 0x0A \<notin> set s \<and> (s \<noteq> [] \<longrightarrow> \<not> is_space (hd s) \<and> \<not> is_space (last s))"

definition one_word :: "string \<Rightarrow> bool" where
  "one_word s \<longleftrightarrow> s \<noteq> [] \<and> list_all (\<lambda>c. \<not> is_space c) s"

lemma tidy_strip: "tidy s \<Longrightarrow> strip s = s"
  by (cases "s = []") (simp add: strip_def, simp add: tidy_def strip_noop)

lemma space_chars [simp]: "is_space (CHR '' '')" "is_space (CHR 0x0A)" "is_space (CHR 0x0D)"
  by (simp_all add: is_space_def code_def)

lemma one_word_tidy: "one_word s \<Longrightarrow> tidy s"
  by (cases s rule: rev_cases) (auto simp: one_word_def tidy_def list_all_iff hd_append)

lemma tidy_cat: "tidy p \<Longrightarrow> tidy s \<Longrightarrow> tidy (p @ s)"
  by (auto simp: tidy_def hd_append last_append)

lemma tidy_gap: "tidy p \<Longrightarrow> p \<noteq> [] \<Longrightarrow> tidy s \<Longrightarrow> s \<noteq> [] \<Longrightarrow> tidy (p @ '' '' @ s)"
  by (auto simp: tidy_def last_append)

lemma digit_not_space: "is_digit c \<Longrightarrow> \<not> is_space c \<and> c \<noteq> CHR ''_'' \<and> c \<noteq> CHR ''+'' \<and> c \<noteq> CHR ''-'' \<and> c \<noteq> CHR ''/''"
  by (auto simp: is_digit_def is_space_def code_def)

lemma decimal_digits: "decimal n \<noteq> [] \<and> list_all is_digit (decimal n)"
proof (induction n rule: decimal.induct)
  case (1 n)
  have d: "m < 10 \<Longrightarrow> is_digit (digit_char m)" for m by (simp add: is_digit_def digit_char_def code_def)
  show ?case
  proof (cases "n < 10")
    case True
    then show ?thesis using d by (subst (1 2) decimal.simps) simp
  next
    case False
    then show ?thesis using 1 d [of "n mod 10"] by (subst (1 2) decimal.simps) simp
  qed
qed

lemma decimal_word: "one_word (decimal n)"
  using decimal_digits [of n] digit_not_space by (auto simp: one_word_def list_all_iff)

lemma digits_value_foldl: "digits_value a s = foldl (\<lambda>v c. v * 10 + (of_char c - 48)) a s"
  by (induction a s rule: digits_value.induct) (simp_all add: code_def mult.commute)

lemma py_int_decimal: "py_int (decimal n) = Some (int n)"
proof -
  have d: "decimal n \<noteq> []" "list_all is_digit (decimal n)" using decimal_digits by auto
  then have "CHR ''_'' \<notin> set (decimal n)" using digit_not_space by (auto simp: list_all_iff)
  then have u: "unsigned_int (decimal n) = Some n"
    using d by (simp add: unsigned_int_def split_on_plain digits_value_foldl decimal_value)
  obtain c s where c: "decimal n = c # s" using d(1) by (cases "decimal n") auto
  then have "is_digit c" using d(2) by simp
  then have "int_of_text (decimal n) = Some (int n)"
    using u digit_not_space [of c] unfolding int_of_text_def c by simp
  then show ?thesis
    using tidy_strip [OF one_word_tidy [OF decimal_word [of n]]] by (simp add: py_int_def)
qed

lemma word_then_rest:
  assumes "list_all (\<lambda>c. \<not> is_space c) w"
  shows "takeWhile (\<lambda>c. \<not> is_space c) (w @ CHR '' '' # s) = w"
    and "dropWhile (\<lambda>c. \<not> is_space c) (w @ CHR '' '' # s) = CHR '' '' # s"
  using assms by (induction w) auto

lemma split_once_gap:
  assumes "one_word w" and "tidy s" and "s \<noteq> []"
  shows "split_once (w @ '' '' @ s) = Some (w, s)"
proof -
  have w: "w \<noteq> []" "list_all (\<lambda>c. \<not> is_space c) w" using assms(1) by (auto simp: one_word_def)
  have "dropWhile is_space (w @ '' '' @ s) = w @ '' '' @ s" using w by (cases w) auto
  moreover have "dropWhile is_space s = s" using assms(2,3) by (cases s) (auto simp: tidy_def)
  ultimately show ?thesis
    using w word_then_rest [OF w(2), of s] assms(3) by (simp add: split_once_def)
qed

lemma split_where_word:
  "list_all (\<lambda>c. \<not> is_space c) w \<Longrightarrow> split_where is_space (w @ CHR '' '' # s) = w # split_where is_space s"
  by (induction w) auto

lemma split_where_all: "list_all (\<lambda>c. \<not> is_space c) w \<Longrightarrow> split_where is_space w = [w]"
  by (induction w) auto

lemma words_join: "list_all one_word ws \<Longrightarrow> words (join_with '' '' ws) = ws"
proof (induction "'' ''" ws rule: join_with.induct)
  case 1
  then show ?case by (simp add: words_def)
next
  case (2 w)
  then show ?case by (simp add: words_def split_where_all one_word_def)
next
  case (3 w v ws)
  then show ?case by (simp add: words_def split_where_word one_word_def)
qed

section \<open>Lines of a text\<close>

definition clean :: "string \<Rightarrow> bool" where
  "clean l \<longleftrightarrow> l \<noteq> [] \<and> tidy l"

lemma unix_ends_line: "CHR 0x0A \<notin> set l \<Longrightarrow> unix_ends (l @ CRLF @ s) = l @ CHR 0x0A # unix_ends s"
proof (induction l)
  case (Cons c l)
  then show ?case by (cases l) (auto simp: CRLF_def)
qed (simp add: CRLF_def)

lemma lines_of_join:
  "list_all clean ls \<Longrightarrow> ls \<noteq> [] \<Longrightarrow> split_on (CHR 0x0A) (unix_ends (join_with CRLF ls @ CRLF)) = ls @ [[]]"
proof (induction CRLF ls rule: join_with.induct)
  case (2 l)
  then show ?case using unix_ends_line [of l "[]"] by (simp add: clean_def tidy_def split_on_append)
next
  case (3 l k ls)
  then show ?case using unix_ends_line [of l "join_with CRLF (k # ls) @ CRLF"]
    by (simp add: clean_def tidy_def split_on_append)
qed simp

lemma sdp_lines_join: "list_all clean ls \<Longrightarrow> ls \<noteq> [] \<Longrightarrow> sdp_lines (join_with CRLF ls @ CRLF) = ls"
proof -
  assume c: "list_all clean ls" "ls \<noteq> []"
  have "map strip ls = ls" using c(1) by (intro map_idI) (auto simp: list_all_iff clean_def tidy_strip)
  moreover have "filter (\<lambda>l. l \<noteq> []) ls = ls" using c(1) by (auto simp: list_all_iff clean_def)
  ultimately show ?thesis using lines_of_join [OF c] by (simp add: sdp_lines_def strip_def)
qed


section \<open>Reading an offer's lines\<close>

lemma attr_named:
  assumes "name \<noteq> []" and "CHR '':'' \<notin> set name" and "tidy v"
  shows "attr_line (''a='' @ name @ '':'' @ v) = Some (name, v)" and "m_line (''a='' @ name @ '':'' @ v) = None"
proof -
  have "takeWhile (\<lambda>c. c \<noteq> CHR '':'') (name @ CHR '':'' # v) = name"
    "dropWhile (\<lambda>c. c \<noteq> CHR '':'') (name @ CHR '':'' # v) = CHR '':'' # v"
    using assms(2) by (induction name) auto
  then show "attr_line (''a='' @ name @ '':'' @ v) = Some (name, v)"
    using assms by (simp add: attr_line_def starts_with_def tidy_strip)
qed (simp add: m_line_def starts_with_def)

lemma attr_flag:
  assumes "name \<noteq> []" and "CHR '':'' \<notin> set name"
  shows "attr_line (''a='' @ name) = Some (name, [])" and "m_line (''a='' @ name) = None"
proof -
  have tw: "takeWhile (\<lambda>c. c \<noteq> CHR '':'') name = name" and dw: "dropWhile (\<lambda>c. c \<noteq> CHR '':'') name = []"
    using assms(2) by (induction name) auto
  show "attr_line (''a='' @ name) = Some (name, [])"
    using assms(1) by (simp add: attr_line_def starts_with_def strip_def tw dw)
qed (simp add: m_line_def starts_with_def)

text \<open>The state inside a section: the answer before it, and the section so far.\<close>

definition within_section :: "answer \<Rightarrow> answer_media \<Rightarrow> answer_media \<Rightarrow> answer \<times> answer_media" where
  "within_section a m session = (a\<lparr>an_media := an_media a @ [m]\<rparr>, session)"

lemma step_named:
  assumes "name \<noteq> []" and "CHR '':'' \<notin> set name" and "tidy v" and "\<And>b. apply_attr b m name v = Some (b, m')"
  shows "parse_lines ((''a='' @ name @ '':'' @ v) # ls) (within_section a m s) = parse_lines ls (within_section a m' s)"
  using attr_named [OF assms(1-3)] assms(4) by (simp add: parse_line_def within_section_def del: append_Cons append_Nil)

lemma step_flag:
  assumes "name \<noteq> []" and "CHR '':'' \<notin> set name" and "\<And>b. apply_attr b m name [] = Some (b, m')"
  shows "parse_lines ((''a='' @ name) # ls) (within_section a m s) = parse_lines ls (within_section a m' s)"
  using attr_flag [OF assms(1,2)] assms(3) by (simp add: parse_line_def within_section_def del: append_Cons append_Nil)

lemma step_candidates:
  assumes "list_all tidy cs"
  shows "parse_lines (map (\<lambda>c. ''a=candidate:'' @ c) cs @ ls) (within_section a m s) =
    parse_lines ls (within_section a (m\<lparr>am_candidates := am_candidates m @ cs\<rparr>) s)"
  using assms
proof (induction cs arbitrary: m)
  case (Cons c cs)
  have "parse_lines ((''a='' @ ''candidate'' @ '':'' @ c) # map (\<lambda>c. ''a=candidate:'' @ c) cs @ ls) (within_section a m s) =
      parse_lines (map (\<lambda>c. ''a=candidate:'' @ c) cs @ ls)
        (within_section a (m\<lparr>am_candidates := am_candidates m @ [c]\<rparr>) s)"
    using Cons.prems by (intro step_named) (simp_all add: apply_attr_def)
  then show ?case using Cons by simp
qed simp

lemma step_fingerprints:
  assumes "list_all (\<lambda>(algorithm, digest). one_word algorithm \<and> tidy digest \<and> digest \<noteq> []) fs"
  shows "parse_lines (map (\<lambda>(algorithm, digest). ''a=fingerprint:'' @ algorithm @ '' '' @ digest) fs @ ls)
      (within_section a m s) =
    parse_lines ls (within_section a (m\<lparr>am_fingerprints := am_fingerprints m @
      map (\<lambda>(algorithm, digest). (lower algorithm, upper digest)) fs\<rparr>) s)"
  using assms
proof (induction fs arbitrary: m)
  case (Cons f fs)
  obtain g d where f: "f = (g, d)" by fastforce
  have w: "one_word g" "tidy d" "d \<noteq> []" using Cons.prems f by auto
  have t: "tidy (g @ '' '' @ d)" using w tidy_gap one_word_tidy by (simp add: one_word_def)
  have "parse_lines ((''a='' @ ''fingerprint'' @ '':'' @ g @ '' '' @ d) #
        map (\<lambda>(algorithm, digest). ''a=fingerprint:'' @ algorithm @ '' '' @ digest) fs @ ls) (within_section a m s) =
      parse_lines (map (\<lambda>(algorithm, digest). ''a=fingerprint:'' @ algorithm @ '' '' @ digest) fs @ ls)
        (within_section a (m\<lparr>am_fingerprints := am_fingerprints m @ [(lower g, upper d)]\<rparr>) s)"
    by (rule step_named) (use t split_once_gap [OF w] tidy_strip [OF w(2)] in \<open>simp_all add: apply_attr_def\<close>)
  then show ?case using Cons f by simp
qed simp

lemma step_feedback:
  assumes "list_all (\<lambda>fb. tidy fb \<and> fb \<noteq> []) fbs" and "am_feedback m = (if old = [] then [] else [(int pt, old)])"
  shows "parse_lines (map (\<lambda>fb. ''a=rtcp-fb:'' @ decimal pt @ '' '' @ fb) fbs @ ls) (within_section a m s) =
    parse_lines ls (within_section a
      (m\<lparr>am_feedback := (if old @ fbs = [] then [] else [(int pt, old @ fbs)])\<rparr>) s)"
  using assms
proof (induction fbs arbitrary: m old)
  case Nil
  then have "m\<lparr>am_feedback := (if old @ [] = [] then [] else [(int pt, old @ [])])\<rparr> = m" by (cases m) simp
  then show ?case by (simp only: list.map append_Nil)
next
  case (Cons fb fbs)
  have w: "tidy fb" "fb \<noteq> []" using Cons.prems by auto
  have t: "tidy (decimal pt @ '' '' @ fb)"
    using w tidy_gap one_word_tidy [OF decimal_word [of pt]] decimal_digits by simp
  have star: "decimal pt \<noteq> ''*''" using decimal_digits [of pt] by (auto simp: is_digit_def code_def)
  let ?m = "m\<lparr>am_feedback := [(int pt, old @ [fb])]\<rparr>"
  have "parse_lines ((''a='' @ ''rtcp-fb'' @ '':'' @ decimal pt @ '' '' @ fb) #
        map (\<lambda>fb. ''a=rtcp-fb:'' @ decimal pt @ '' '' @ fb) fbs @ ls) (within_section a m s) =
      parse_lines (map (\<lambda>fb. ''a=rtcp-fb:'' @ decimal pt @ '' '' @ fb) fbs @ ls) (within_section a ?m s)"
  proof (rule step_named)
    show "apply_attr b m ''rtcp-fb'' (decimal pt @ '' '' @ fb) = Some (b, ?m)" for b
      using split_once_gap [OF decimal_word [of pt] w] star Cons.prems(2)
      by (simp add: apply_attr_def py_int_decimal append_to_def)
  qed (use t in simp_all)
  moreover have "parse_lines (map (\<lambda>fb. ''a=rtcp-fb:'' @ decimal pt @ '' '' @ fb) fbs @ ls) (within_section a ?m s) =
    parse_lines ls (within_section a
      (?m\<lparr>am_feedback := (if (old @ [fb]) @ fbs = [] then [] else [(int pt, (old @ [fb]) @ fbs)])\<rparr>) s)"
    using Cons.prems(1) by (intro Cons.IH) simp_all
  ultimately show ?case by simp
qed


section \<open>An offer is read as it was meant\<close>

definition wf_offer :: "media_offer \<Rightarrow> bool" where
  "wf_offer item =
     (let c = mo_codec item
      in cs_kind c \<noteq> [] \<and> list_all regex_word (cs_kind c) \<and> one_word (mo_mid item) \<and>
         cs_name c \<noteq> [] \<and> tidy (cs_name c) \<and> CHR ''/'' \<notin> set (cs_name c) \<and> tidy (cs_fmtp c) \<and>
         list_all (\<lambda>fb. tidy fb \<and> fb \<noteq> []) (cs_feedback c))"

definition wf_facts :: "offer_facts \<Rightarrow> bool" where
  "wf_facts f \<longleftrightarrow>
     tidy (of_ufrag f) \<and> tidy (of_password f) \<and> list_all tidy (of_candidates f) \<and> tidy (of_cname f) \<and>
     one_word (of_stream_id f) \<and>
     list_all (\<lambda>(algorithm, digest). one_word algorithm \<and> tidy digest \<and> digest \<noteq> []) (of_fingerprints f)"

text \<open>The section a reader of the offer finds.\<close>

definition offered_codec :: "codec_spec \<Rightarrow> answer_codec" where
  "offered_codec c =
     \<lparr>ac_payload_type = int (cs_payload_type c), ac_name = cs_name c, ac_clock_rate = int (cs_clock_rate c),
      ac_channels = (if cs_channels c \<noteq> 0 then int (cs_channels c) else if cs_kind c = ''audio'' then 1 else 0),
      ac_fmtp = cs_fmtp c\<rparr>"

definition offered_media :: "offer_facts \<Rightarrow> media_offer \<Rightarrow> answer_media" where
  "offered_media f item =
     (let c = mo_codec item
      in \<lparr>am_kind = cs_kind c, am_port = 9, am_mid = mo_mid item, am_direction = ''sendonly'',
          am_codecs = [offered_codec c], am_ufrag = of_ufrag f, am_password = of_password f,
          am_fingerprints = map (\<lambda>(algorithm, digest). (lower algorithm, upper digest)) (of_fingerprints f),
          am_setup = ''actpass'', am_candidates = of_candidates f, am_extmap = [(1, MID_URI)], am_rtcp_mux = True,
          am_feedback = (if cs_feedback c = [] then [] else [(int (cs_payload_type c), cs_feedback c)])\<rparr>)"

lemma m_line_offer:
  assumes "kind \<noteq> []" and "list_all regex_word kind"
  shows "m_line (''m='' @ kind @ '' 9 UDP/TLS/RTP/SAVPF '' @ decimal pt) = Some (kind, 9, ''UDP/TLS/RTP/SAVPF'')"
proof -
  have gap: "\<not> regex_word (CHR '' '')" by (simp add: regex_word_def code_def)
  have "takeWhile regex_word (kind @ CHR '' '' # s) = kind" "dropWhile regex_word (kind @ CHR '' '' # s) = CHR '' '' # s" for s
    using assms(2) gap by (induction kind) auto
  moreover have "is_digit (CHR ''9'')" "\<not> is_digit (CHR '' '')" "digits_value 0 ''9'' = 9"
    by (simp_all add: is_digit_def code_def)
  moreover have "takeWhile (\<lambda>c. \<not> is_space c) (''UDP/TLS/RTP/SAVPF'' @ CHR '' '' # s) = ''UDP/TLS/RTP/SAVPF''"
    "dropWhile (\<lambda>c. \<not> is_space c) (''UDP/TLS/RTP/SAVPF'' @ CHR '' '' # s) = CHR '' '' # s" for s
    by (rule word_then_rest, simp add: is_space_def code_def)+
  ultimately show ?thesis using assms(1) decimal_digits [of pt]
    by (simp add: m_line_def starts_with_def)
qed

lemma rtpmap_offer:
  assumes "cs_name c \<noteq> []" "tidy (cs_name c)" "CHR ''/'' \<notin> set (cs_name c)"
  shows "read_rtpmap (cs_kind c) (drop 9 (rtpmap_text c)) = Some ((offered_codec c)\<lparr>ac_fmtp := []\<rparr>)"
    and "tidy (drop 9 (rtpmap_text c))"
proof -
  define rate where "rate = decimal (cs_clock_rate c)"
  define channels where "channels = (if cs_channels c \<noteq> 0 then ''/'' @ decimal (cs_channels c) else [])"
  define desc where "desc = cs_name c @ ''/'' @ rate @ channels"
  have no: "CHR ''/'' \<notin> set (decimal n)" for n
    using decimal_digits [of n] digit_not_space by (auto simp: list_all_iff)
  have tidy_slash: "tidy (''/'')" by (simp add: tidy_def is_space_def code_def)
  have td: "tidy (decimal n)" for n using decimal_word one_word_tidy by blast
  have "tidy channels" using tidy_cat [OF tidy_slash td] by (simp add: channels_def tidy_def)
  then have "tidy (rate @ channels)" using td tidy_cat by (simp add: rate_def)
  then have t: "tidy desc" using tidy_cat [OF tidy_slash] tidy_cat [OF assms(2)] by (simp add: desc_def)
  have line: "drop 9 (rtpmap_text c) = decimal (cs_payload_type c) @ '' '' @ desc"
    by (simp add: rtpmap_text_def desc_def rate_def channels_def)
  have "split_on (CHR ''/'') desc =
      (if cs_channels c \<noteq> 0 then [cs_name c, rate, decimal (cs_channels c)] else [cs_name c, rate])"
    using assms(3) no by (simp add: desc_def channels_def rate_def split_on_append split_on_plain)
  then show "read_rtpmap (cs_kind c) (drop 9 (rtpmap_text c)) = Some ((offered_codec c)\<lparr>ac_fmtp := []\<rparr>)"
    using split_once_gap [OF decimal_word t] assms(1)
    unfolding read_rtpmap_def line by (simp add: desc_def rate_def py_int_decimal offered_codec_def)
  show "tidy (drop 9 (rtpmap_text c))"
    unfolding line using t decimal_digits td assms(1) by (intro tidy_gap) (simp_all add: desc_def)
qed


lemma step_ignored:
  assumes "name \<noteq> []" and "CHR '':'' \<notin> set name" and "tidy v"
    and "name \<in> {''rtcp'', ''msid'', ''ssrc''}"
  shows "parse_lines ((''a='' @ name @ '':'' @ v) # ls) (within_section a m s) = parse_lines ls (within_section a m s)"
proof (rule step_named [OF assms(1-3)])
  show "apply_attr b m name v = Some (b, m)" for b
    using assms(4) by (elim insertE emptyE) (simp_all add: apply_attr_def)
qed

lemma tidy_literals [simp]:
  "tidy ''9 IN IP4 0.0.0.0''" "tidy ''actpass''" "tidy (CHR ''1'' # CHR '' '' # MID_URI)" "tidy (''-'')" "tidy ''cname:''"
  by (simp_all add: tidy_def is_space_def code_def MID_URI_def)

text \<open>The lines up to the fingerprints.\<close>

lemma section_head:
  assumes "wf_facts f" and "wf_offer item" and "s = new_media ''session'' 0"
  defines "c \<equiv> mo_codec item"
  shows "parse_lines ([''m='' @ cs_kind c @ '' 9 UDP/TLS/RTP/SAVPF '' @ decimal (cs_payload_type c), ''c=IN IP4 0.0.0.0'',
      ''a=rtcp:9 IN IP4 0.0.0.0'', ''a=ice-ufrag:'' @ of_ufrag f, ''a=ice-pwd:'' @ of_password f] @ ls) (a, s) =
    parse_lines ls (within_section a ((new_media (cs_kind c) 9)\<lparr>am_ufrag := of_ufrag f, am_password := of_password f\<rparr>) s)"
proof -
  let ?m = "new_media (cs_kind c) 9"
  have k: "cs_kind c \<noteq> []" "list_all regex_word (cs_kind c)" using assms(2) by (auto simp: wf_offer_def c_def Let_def)
  have 1: "parse_line (''m='' @ cs_kind c @ '' 9 UDP/TLS/RTP/SAVPF '' @ decimal (cs_payload_type c)) (a, s) =
      Inr (within_section a ?m s)"
    using m_line_offer [OF k, of "cs_payload_type c"]
    by (simp add: parse_line_def within_section_def assms(3) new_media_def starts_with_def)
  have 2: "parse_line ''c=IN IP4 0.0.0.0'' (within_section a ?m s) = Inr (within_section a ?m s)"
    by (simp add: parse_line_def within_section_def m_line_def attr_line_def starts_with_def)
  have 3: "parse_lines ((''a='' @ ''rtcp'' @ '':'' @ ''9 IN IP4 0.0.0.0'') # ls') (within_section a ?m s) =
      parse_lines ls' (within_section a ?m s)" for ls'
    by (rule step_ignored) simp_all
  have 4: "parse_lines ((''a='' @ ''ice-ufrag'' @ '':'' @ of_ufrag f) # ls') (within_section a ?m s) =
      parse_lines ls' (within_section a (?m\<lparr>am_ufrag := of_ufrag f\<rparr>) s)" for ls'
    using assms(1) by (intro step_named) (simp_all add: wf_facts_def apply_attr_def)
  have 5: "parse_lines ((''a='' @ ''ice-pwd'' @ '':'' @ of_password f) # ls') (within_section a (?m\<lparr>am_ufrag := of_ufrag f\<rparr>) s) =
      parse_lines ls' (within_section a (?m\<lparr>am_ufrag := of_ufrag f, am_password := of_password f\<rparr>) s)" for ls'
    using assms(1) by (intro step_named) (simp_all add: wf_facts_def apply_attr_def)
  show ?thesis using 1 2 3 4 5 by simp
qed

text \<open>From the DTLS role to the codec.\<close>

lemma section_middle:
  assumes "wf_facts f" and "wf_offer item" and "am_kind m = cs_kind (mo_codec item)" and "am_codecs m = []" and "am_extmap m = []"
  defines "c \<equiv> mo_codec item"
  shows "parse_lines ([''a=setup:actpass'', ''a=mid:'' @ mo_mid item, ''a=extmap:'' @ decimal MID_EXT_ID @ '' '' @ MID_URI,
      ''a=sendonly'', ''a=msid:'' @ of_stream_id f @ '' '' @ cs_kind c @ ''-'' @ decimal (mo_ssrc item),
      ''a=rtcp-mux'', rtpmap_text c] @ ls) (within_section a m s) =
    parse_lines ls (within_section a (m\<lparr>am_setup := ''actpass'', am_mid := mo_mid item, am_extmap := [(1, MID_URI)],
      am_direction := ''sendonly'', am_rtcp_mux := True, am_codecs := [(offered_codec c)\<lparr>ac_fmtp := []\<rparr>]\<rparr>) s)"
proof -
  have w: "one_word (mo_mid item)" "cs_name c \<noteq> []" "tidy (cs_name c)" "CHR ''/'' \<notin> set (cs_name c)"
    "list_all regex_word (cs_kind c)" "cs_kind c \<noteq> []"
    using assms(2) by (auto simp: wf_offer_def c_def Let_def)
  define m1 where "m1 = m\<lparr>am_setup := ''actpass''\<rparr>"
  define m2 where "m2 = m1\<lparr>am_mid := mo_mid item\<rparr>"
  define m3 where "m3 = m2\<lparr>am_extmap := [(1, MID_URI)]\<rparr>"
  define m4 where "m4 = m3\<lparr>am_direction := ''sendonly''\<rparr>"
  define m5 where "m5 = m4\<lparr>am_rtcp_mux := True\<rparr>"
  define m6 where "m6 = m5\<lparr>am_codecs := [(offered_codec c)\<lparr>ac_fmtp := []\<rparr>]\<rparr>"
  have 1: "parse_lines ((''a='' @ ''setup'' @ '':'' @ ''actpass'') # ls') (within_section a m s) =
      parse_lines ls' (within_section a m1 s)" for ls'
    by (rule step_named) (simp_all add: apply_attr_def m1_def)
  have 2: "parse_lines ((''a='' @ ''mid'' @ '':'' @ mo_mid item) # ls') (within_section a m1 s) =
      parse_lines ls' (within_section a m2 s)" for ls'
    using one_word_tidy [OF w(1)] by (intro step_named) (simp_all add: apply_attr_def m2_def)
  have ext: "split_once (''1 '' @ MID_URI) = Some (''1'', MID_URI)" "words MID_URI = [MID_URI]"
    by (simp_all add: split_once_def words_def MID_URI_def is_space_def code_def)
  have one: "decimal MID_EXT_ID = ''1''" by (subst decimal.simps) (simp add: MID_EXT_ID_def digit_char_def char_of_eq_iff)
  have 3: "parse_lines ((''a='' @ ''extmap'' @ '':'' @ ''1 '' @ MID_URI) # ls') (within_section a m2 s) =
      parse_lines ls' (within_section a m3 s)" for ls'
  proof (rule step_named)
    have "py_int ''1'' = Some 1" using py_int_decimal [of 1] one by (simp add: MID_EXT_ID_def)
    then show "apply_attr b m2 ''extmap'' (''1 '' @ MID_URI) = Some (b, m3)" for b
      using ext assms(5) by (simp add: apply_attr_def m3_def m2_def m1_def)
  qed simp_all
  have 4: "parse_lines ((''a='' @ ''sendonly'') # ls') (within_section a m3 s) = parse_lines ls' (within_section a m4 s)" for ls'
    by (rule step_flag) (simp_all add: apply_attr_def m4_def)
  have "\<not> is_space c" if "regex_word c" for c using that by (auto simp: regex_word_def is_space_def code_def)
  then have "one_word (cs_kind c)" using w(5,6) by (auto simp: one_word_def list_all_iff)
  then have "tidy (cs_kind c @ ''-'' @ decimal (mo_ssrc item))"
    using tidy_cat [OF tidy_literals(4) one_word_tidy [OF decimal_word]] one_word_tidy tidy_cat by simp
  then have msid: "tidy (of_stream_id f @ '' '' @ cs_kind c @ ''-'' @ decimal (mo_ssrc item))"
    using assms(1) one_word_tidy by (intro tidy_gap) (auto simp: wf_facts_def one_word_def)
  have 5: "parse_lines ((''a='' @ ''msid'' @ '':'' @ of_stream_id f @ '' '' @ cs_kind c @ ''-'' @ decimal (mo_ssrc item)) # ls')
      (within_section a m4 s) = parse_lines ls' (within_section a m4 s)" for ls'
    by (rule step_ignored) (use msid in simp_all)
  have 6: "parse_lines ((''a='' @ ''rtcp-mux'') # ls') (within_section a m4 s) = parse_lines ls' (within_section a m5 s)" for ls'
    by (rule step_flag) (simp_all add: apply_attr_def m5_def)
  have kind: "am_kind m5 = cs_kind c" "am_codecs m5 = []" using assms(3,4) by (simp_all add: m5_def m4_def m3_def m2_def m1_def c_def)
  have 7: "parse_lines ((''a='' @ ''rtpmap'' @ '':'' @ drop 9 (rtpmap_text c)) # ls') (within_section a m5 s) =
      parse_lines ls' (within_section a m6 s)" for ls'
    using rtpmap_offer [OF w(2-4)] kind by (intro step_named) (simp_all add: apply_attr_def m6_def)
  have line: "rtpmap_text c = ''a='' @ ''rtpmap'' @ '':'' @ drop 9 (rtpmap_text c)" by (simp add: rtpmap_text_def)
  have "parse_lines ([''a=setup:actpass'', ''a=mid:'' @ mo_mid item, ''a=extmap:'' @ decimal MID_EXT_ID @ '' '' @ MID_URI,
      ''a=sendonly'', ''a=msid:'' @ of_stream_id f @ '' '' @ cs_kind c @ ''-'' @ decimal (mo_ssrc item),
      ''a=rtcp-mux'', rtpmap_text c] @ ls) (within_section a m s) = parse_lines ls (within_section a m6 s)"
    using 1 2 3 4 5 6 7 [of ls, folded line] by (simp add: one)
  then show ?thesis by (simp add: m6_def m5_def m4_def m3_def m2_def m1_def)
qed


text \<open>From the feedback to the last line.\<close>

lemma section_tail:
  assumes "wf_facts f" and "wf_offer item" and "am_codecs m = [(offered_codec (mo_codec item))\<lparr>ac_fmtp := []\<rparr>]"
    and "am_feedback m = []" and "am_candidates m = []"
  defines "c \<equiv> mo_codec item"
  shows "parse_lines (map (\<lambda>fb. ''a=rtcp-fb:'' @ decimal (cs_payload_type c) @ '' '' @ fb) (cs_feedback c) @
      (if cs_fmtp c \<noteq> [] then [''a=fmtp:'' @ decimal (cs_payload_type c) @ '' '' @ cs_fmtp c] else []) @
      [''a=ssrc:'' @ decimal (mo_ssrc item) @ '' cname:'' @ of_cname f] @
      map (\<lambda>c. ''a=candidate:'' @ c) (of_candidates f) @ [''a=end-of-candidates''] @ ls) (within_section a m s) =
    parse_lines ls (within_section a (m\<lparr>am_codecs := [offered_codec c], am_candidates := of_candidates f,
      am_feedback := (if cs_feedback c = [] then [] else [(int (cs_payload_type c), cs_feedback c)])\<rparr>) s)"
proof -
  have w: "tidy (cs_fmtp c)" "list_all (\<lambda>fb. tidy fb \<and> fb \<noteq> []) (cs_feedback c)"
    using assms(2) by (simp_all add: wf_offer_def c_def Let_def)
  define m1 where "m1 = m\<lparr>am_feedback := (if cs_feedback c = [] then [] else [(int (cs_payload_type c), cs_feedback c)])\<rparr>"
  define m2 where "m2 = m1\<lparr>am_codecs := [offered_codec c]\<rparr>"
  define m3 where "m3 = m2\<lparr>am_candidates := of_candidates f\<rparr>"
  have 1: "parse_lines (map (\<lambda>fb. ''a=rtcp-fb:'' @ decimal (cs_payload_type c) @ '' '' @ fb) (cs_feedback c) @ ls')
      (within_section a m s) = parse_lines ls' (within_section a m1 s)" for ls'
    using step_feedback [OF w(2), of m "[]" "cs_payload_type c"] assms(4) by (simp add: m1_def)
  have pt: "decimal (cs_payload_type c) \<noteq> []" "tidy (decimal (cs_payload_type c))"
    using decimal_digits one_word_tidy [OF decimal_word] by auto
  have codecs: "am_codecs m1 = [(offered_codec c)\<lparr>ac_fmtp := []\<rparr>]" using assms(3) by (simp add: m1_def c_def)
  have same: "cs_fmtp c = [] \<Longrightarrow> m2 = m1" using codecs by (cases m1) (simp add: m2_def offered_codec_def)
  have 2: "parse_lines ((if cs_fmtp c \<noteq> [] then [''a=fmtp:'' @ decimal (cs_payload_type c) @ '' '' @ cs_fmtp c] else []) @ ls')
      (within_section a m1 s) = parse_lines ls' (within_section a m2 s)" for ls'
  proof (cases "cs_fmtp c = []")
    case True
    then show ?thesis using same by simp
  next
    case False
    have "parse_lines ((''a='' @ ''fmtp'' @ '':'' @ decimal (cs_payload_type c) @ '' '' @ cs_fmtp c) # ls')
        (within_section a m1 s) = parse_lines ls' (within_section a m2 s)"
    proof (rule step_named)
      show "apply_attr b m1 ''fmtp'' (decimal (cs_payload_type c) @ '' '' @ cs_fmtp c) = Some (b, m2)" for b
        using split_once_gap [OF decimal_word [of "cs_payload_type c"] w(1) False] codecs
        by (simp add: apply_attr_def py_int_decimal m2_def offered_codec_def)
    qed (use False pt w tidy_gap in simp_all)
    then show ?thesis using False by simp
  qed
  have cname: "tidy (''cname:'' @ of_cname f)"
    using assms(1) by (intro tidy_cat tidy_literals) (simp add: wf_facts_def)
  have ssrc: "tidy (decimal (mo_ssrc item) @ '' '' @ ''cname:'' @ of_cname f)"
    using cname decimal_digits one_word_tidy [OF decimal_word] by (intro tidy_gap) simp_all
  have "parse_lines ((''a='' @ ''ssrc'' @ '':'' @ decimal (mo_ssrc item) @ '' '' @ ''cname:'' @ of_cname f) # ls')
      (within_section a m2 s) = parse_lines ls' (within_section a m2 s)" for ls'
    by (rule step_ignored) (use ssrc in simp_all)
  then have 3: "parse_lines ([''a=ssrc:'' @ decimal (mo_ssrc item) @ '' cname:'' @ of_cname f] @ ls')
      (within_section a m2 s) = parse_lines ls' (within_section a m2 s)" for ls'
    by simp
  have 4: "parse_lines (map (\<lambda>c. ''a=candidate:'' @ c) (of_candidates f) @ ls') (within_section a m2 s) =
      parse_lines ls' (within_section a m3 s)" for ls'
    using step_candidates [of "of_candidates f" ls' a m2 s] assms(1,5) by (simp add: wf_facts_def m3_def m2_def m1_def)
  have "parse_lines ((''a='' @ ''end-of-candidates'') # ls') (within_section a m3 s) =
      parse_lines ls' (within_section a m3 s)" for ls'
    by (rule step_flag) (simp_all add: apply_attr_def)
  then have 5: "parse_lines ([''a=end-of-candidates''] @ ls') (within_section a m3 s) =
      parse_lines ls' (within_section a m3 s)" for ls'
    by simp
  have "parse_lines (map (\<lambda>fb. ''a=rtcp-fb:'' @ decimal (cs_payload_type c) @ '' '' @ fb) (cs_feedback c) @
      (if cs_fmtp c \<noteq> [] then [''a=fmtp:'' @ decimal (cs_payload_type c) @ '' '' @ cs_fmtp c] else []) @
      [''a=ssrc:'' @ decimal (mo_ssrc item) @ '' cname:'' @ of_cname f] @
      map (\<lambda>c. ''a=candidate:'' @ c) (of_candidates f) @ [''a=end-of-candidates''] @ ls) (within_section a m s) =
    parse_lines ls (within_section a m3 s)"
    by (simp only: 1 2 3 4 5)
  moreover have "m3 = m\<lparr>am_codecs := [offered_codec c], am_candidates := of_candidates f,
      am_feedback := (if cs_feedback c = [] then [] else [(int (cs_payload_type c), cs_feedback c)])\<rparr>"
    by (simp add: m3_def m2_def m1_def)
  ultimately show ?thesis by (simp only:)
qed

lemma section_read:
  assumes "wf_facts f" and "wf_offer item" and "s = new_media ''session'' 0"
  shows "parse_lines (section_lines f item @ ls) (a, s) =
    parse_lines ls (a\<lparr>an_media := an_media a @ [offered_media f item]\<rparr>, s)"
proof -
  define c where "c = mo_codec item"
  define m1 where "m1 = (new_media (cs_kind c) 9)\<lparr>am_ufrag := of_ufrag f, am_password := of_password f\<rparr>"
  define m2 where "m2 = m1\<lparr>am_fingerprints := map (\<lambda>(algorithm, digest). (lower algorithm, upper digest)) (of_fingerprints f)\<rparr>"
  define m3 where "m3 = m2\<lparr>am_setup := ''actpass'', am_mid := mo_mid item, am_extmap := [(1, MID_URI)],
      am_direction := ''sendonly'', am_rtcp_mux := True, am_codecs := [(offered_codec c)\<lparr>ac_fmtp := []\<rparr>]\<rparr>"
  have m2: "am_kind m2 = cs_kind (mo_codec item)" "am_codecs m2 = []" "am_extmap m2 = []"
    and m3: "am_codecs m3 = [(offered_codec (mo_codec item))\<lparr>ac_fmtp := []\<rparr>]" "am_feedback m3 = []" "am_candidates m3 = []"
    by (simp_all add: m3_def m2_def m1_def new_media_def c_def)
  have fps: "parse_lines (map (\<lambda>(algorithm, digest). ''a=fingerprint:'' @ algorithm @ '' '' @ digest) (of_fingerprints f) @ ls')
      (within_section a m1 s) = parse_lines ls' (within_section a m2 s)" for ls'
    using step_fingerprints [of "of_fingerprints f" ls' a m1 s] assms(1)
    by (simp add: wf_facts_def m2_def m1_def new_media_def)
  have "parse_lines (section_lines f item @ ls) (a, s) =
      parse_lines ls (within_section a (m3\<lparr>am_codecs := [offered_codec c], am_candidates := of_candidates f,
        am_feedback := (if cs_feedback c = [] then [] else [(int (cs_payload_type c), cs_feedback c)])\<rparr>) s)"
    unfolding section_lines_def Let_def append_assoc
    unfolding section_head [OF assms] m1_def [unfolded c_def, symmetric] fps
      section_middle [OF assms(1,2) m2] m3_def [unfolded c_def, symmetric] section_tail [OF assms(1,2) m3] c_def ..
  then show ?thesis
    by (simp add: within_section_def offered_media_def m3_def m2_def m1_def new_media_def c_def Let_def)
qed

lemma sections_read:
  assumes "wf_facts f" and "list_all wf_offer media" and "s = new_media ''session'' 0"
  shows "parse_lines (concat (map (section_lines f) media)) (a, s) =
    Inr (a\<lparr>an_media := an_media a @ map (offered_media f) media\<rparr>, s)"
  using assms(2)
proof (induction media arbitrary: a)
  case Nil
  then show ?case by (cases a) simp
next
  case (Cons item media)
  then show ?case using section_read [OF assms(1) _ assms(3)] by simp
qed


lemma clean_after: "p \<noteq> [] \<Longrightarrow> \<not> is_space (hd p) \<Longrightarrow> CHR 0x0A \<notin> set p \<Longrightarrow> tidy v \<Longrightarrow> v \<noteq> [] \<Longrightarrow> clean (p @ v)"
  by (auto simp: clean_def tidy_def last_append)

lemma clean_field: "clean p \<Longrightarrow> tidy v \<Longrightarrow> clean (p @ v)"
  by (simp add: clean_def tidy_cat)

lemma clean_literal: "p \<noteq> [] \<Longrightarrow> \<not> is_space (hd p) \<Longrightarrow> \<not> is_space (last p) \<Longrightarrow> CHR 0x0A \<notin> set p \<Longrightarrow> clean p"
  by (simp add: clean_def tidy_def)

lemma tidy_words: "list_all one_word ws \<Longrightarrow> tidy (join_with '' '' ws) \<and> (ws \<noteq> [] \<longrightarrow> join_with '' '' ws \<noteq> [])"
proof (induction "'' ''" ws rule: join_with.induct)
  case 1
  then show ?case by (simp add: tidy_def)
next
  case (2 p)
  then show ?case using one_word_tidy by (simp add: one_word_def)
next
  case (3 p q ps)
  have "tidy (p @ '' '' @ join_with '' '' (q # ps))"
    using 3 one_word_tidy [of p] by (intro tidy_gap) (simp_all add: one_word_def)
  then show ?case by simp
qed

lemma tidy_decimal: "tidy (decimal n)" "decimal n \<noteq> []"
  using one_word_tidy [OF decimal_word] decimal_digits by auto

lemma session_lines_clean:
  assumes "wf_facts f" and "list_all wf_offer media" and "media \<noteq> []"
  shows "list_all clean (session_lines f media)"
proof -
  have mids: "list_all one_word (map mo_mid media)" using assms(2) by (auto simp: wf_offer_def list_all_iff Let_def)
  have "clean (''o=- '' @ decimal (of_session_id f))"
    by (rule clean_after) (use tidy_decimal in \<open>simp_all add: is_space_def code_def\<close>)
  then have 1: "clean ((''o=- '' @ decimal (of_session_id f)) @ '' 2 IN IP4 127.0.0.1'')"
    unfolding clean_def tidy_def by (simp add: is_space_def code_def)
  have 2: "clean (''a=group:BUNDLE '' @ join_with '' '' (map mo_mid media))"
    by (rule clean_after) (use tidy_words [OF mids] assms(3) in \<open>simp_all add: is_space_def code_def\<close>)
  have 3: "clean (''a=msid-semantic: WMS '' @ of_stream_id f)"
    by (rule clean_after)
      (use assms(1) one_word_tidy in \<open>simp_all add: wf_facts_def one_word_def is_space_def code_def\<close>)
  have "clean ''v=0''" "clean ''s=StreamStack''" "clean ''t=0 0''"
    by (rule clean_literal; simp add: is_space_def code_def)+
  with 1 2 3 show ?thesis by (simp add: session_lines_def)
qed

lemma section_lines_clean:
  assumes "wf_facts f" and "wf_offer item"
  shows "list_all clean (section_lines f item)"
proof -
  define c where "c = mo_codec item"
  define pt where "pt = decimal (cs_payload_type c)"
  have w: "cs_kind c \<noteq> []" "list_all regex_word (cs_kind c)" "one_word (mo_mid item)" "cs_name c \<noteq> []" "tidy (cs_name c)"
    "CHR ''/'' \<notin> set (cs_name c)" "tidy (cs_fmtp c)" "list_all (\<lambda>fb. tidy fb \<and> fb \<noteq> []) (cs_feedback c)"
    using assms(2) by (auto simp: wf_offer_def c_def Let_def)
  have f: "tidy (of_ufrag f)" "tidy (of_password f)" "list_all tidy (of_candidates f)" "tidy (of_cname f)" "one_word (of_stream_id f)"
    "list_all (\<lambda>(algorithm, digest). one_word algorithm \<and> tidy digest \<and> digest \<noteq> []) (of_fingerprints f)"
    using assms(1) by (simp_all add: wf_facts_def)
  have pt: "tidy pt" "pt \<noteq> []" by (simp_all add: pt_def tidy_decimal)
  have word: "\<not> is_space x" "x \<noteq> CHR 0x0A" if "regex_word x" for x
    using that by (auto simp: regex_word_def is_space_def code_def)
  have kind: "one_word (cs_kind c)" using w(1,2) word(1) by (auto simp: one_word_def list_all_iff)
  have lits: "clean ''c=IN IP4 0.0.0.0''" "clean ''a=rtcp:9 IN IP4 0.0.0.0''" "clean ''a=setup:actpass''" "clean ''a=sendonly''"
    "clean ''a=rtcp-mux''" "clean ''a=end-of-candidates''" "clean ''a=ice-ufrag:''" "clean ''a=ice-pwd:''" "clean ''a=fingerprint:''"
    "clean ''a=mid:''" "clean ''a=msid:''" "clean ''a=rtcp-fb:''" "clean ''a=fmtp:''" "clean ''a=ssrc:''" "clean ''a=candidate:''"
    "clean ''a=rtpmap:''" "clean ''m=''"
    by (rule clean_literal; simp add: is_space_def code_def)+
  have m: "clean (''m='' @ cs_kind c @ '' '' @ ''9 UDP/TLS/RTP/SAVPF'' @ '' '' @ pt)"
  proof -
    have "tidy ''9 UDP/TLS/RTP/SAVPF''" by (simp add: tidy_def is_space_def code_def)
    from tidy_gap [OF this _ pt] have "tidy (''9 UDP/TLS/RTP/SAVPF'' @ '' '' @ pt)" by simp
    from tidy_gap [OF one_word_tidy [OF kind] w(1) this]
    have "tidy (cs_kind c @ '' '' @ ''9 UDP/TLS/RTP/SAVPF'' @ '' '' @ pt)" by simp
    then show ?thesis by (rule clean_field [OF lits(17)])
  qed
  have ext: "clean (''a=extmap:'' @ decimal MID_EXT_ID @ '' '' @ MID_URI)"
  proof (rule clean_after)
    show "tidy (decimal MID_EXT_ID @ '' '' @ MID_URI)"
      by (rule tidy_gap) (use tidy_decimal in \<open>simp_all add: tidy_def is_space_def code_def MID_URI_def\<close>)
  qed (simp_all add: is_space_def code_def)
  have msid: "clean (''a=msid:'' @ of_stream_id f @ '' '' @ cs_kind c @ ''-'' @ decimal (mo_ssrc item))"
  proof (rule clean_field [OF lits(11)], rule tidy_gap)
    show "tidy (cs_kind c @ ''-'' @ decimal (mo_ssrc item))"
      using tidy_cat [OF one_word_tidy [OF kind] tidy_cat [OF tidy_literals(4) tidy_decimal(1)]] .
  qed (use f(5) one_word_tidy in \<open>simp_all add: one_word_def\<close>)
  have map_line: "clean (rtpmap_text c)"
  proof -
    have "rtpmap_text c = ''a=rtpmap:'' @ drop 9 (rtpmap_text c)" by (simp add: rtpmap_text_def)
    then show ?thesis using clean_field [OF lits(16) rtpmap_offer(2) [OF w(4-6)]] by simp
  qed
  have ssrc: "clean (''a=ssrc:'' @ decimal (mo_ssrc item) @ '' '' @ ''cname:'' @ of_cname f)"
    by (intro clean_field [OF lits(14)] tidy_gap tidy_cat tidy_literals tidy_decimal f) simp
  have fp: "clean (''a=fingerprint:'' @ g @ '' '' @ d)" if "(g, d) \<in> set (of_fingerprints f)" for g d
    using f(6) that one_word_tidy by (intro clean_field [OF lits(9)] tidy_gap) (auto simp: list_all_iff one_word_def)
  have fb: "clean (''a=rtcp-fb:'' @ pt @ '' '' @ x)" if "x \<in> set (cs_feedback c)" for x
    using w(8) that pt by (intro clean_field [OF lits(12)] tidy_gap) (auto simp: list_all_iff)
  have fmtp: "cs_fmtp c \<noteq> [] \<Longrightarrow> clean (''a=fmtp:'' @ pt @ '' '' @ cs_fmtp c)"
    using w(7) pt by (intro clean_field [OF lits(13)] tidy_gap) auto
  have cand: "clean (''a=candidate:'' @ x)" if "x \<in> set (of_candidates f)" for x
    using f(3) that by (intro clean_field [OF lits(15)]) (auto simp: list_all_iff)
  have ends: "clean (''a=ice-ufrag:'' @ of_ufrag f)" "clean (''a=ice-pwd:'' @ of_password f)" "clean (''a=mid:'' @ mo_mid item)"
    by (rule clean_field [OF lits(7) f(1)], rule clean_field [OF lits(8) f(2)],
      rule clean_field [OF lits(10) one_word_tidy [OF w(3)]])
  have line_m: "''m='' @ cs_kind c @ '' 9 UDP/TLS/RTP/SAVPF '' @ pt = ''m='' @ cs_kind c @ '' '' @ ''9 UDP/TLS/RTP/SAVPF'' @ '' '' @ pt"
    and line_s: "''a=ssrc:'' @ decimal (mo_ssrc item) @ '' cname:'' @ of_cname f =
      ''a=ssrc:'' @ decimal (mo_ssrc item) @ '' '' @ ''cname:'' @ of_cname f" by simp_all
  show ?thesis
    unfolding section_lines_def Let_def c_def [symmetric] pt_def [symmetric] line_m line_s list_all_append
  proof (intro conjI)
    show "list_all clean (map (\<lambda>(algorithm, digest). ''a=fingerprint:'' @ algorithm @ '' '' @ digest) (of_fingerprints f))"
      using fp by (auto simp: list_all_iff simp del: append_Cons append_Nil)
    show "list_all clean (map (\<lambda>fb. ''a=rtcp-fb:'' @ pt @ '' '' @ fb) (cs_feedback c))"
      using fb by (auto simp: list_all_iff simp del: append_Cons append_Nil)
    show "list_all clean (map (\<lambda>c. ''a=candidate:'' @ c) (of_candidates f))"
      using cand by (auto simp: list_all_iff simp del: append_Cons append_Nil)
    show "list_all clean (if cs_fmtp c \<noteq> [] then [''a=fmtp:'' @ pt @ '' '' @ cs_fmtp c] else [])"
      using fmtp by (simp del: append_Cons append_Nil)
  qed (simp_all only: list.pred_inject m lits ends ext msid map_line ssrc simp_thms)
qed


lemma strip_space: "strip (CHR '' '' # s) = strip s"
  by (simp add: strip_def)

text \<open>
  C15. The reader finds in an offer everything that was put into it: the BUNDLE group, and for every section its kind,
  identification, codec with its parameters and feedback, credentials, fingerprints, candidates and header extension, for
  every offer of texts without line ends or outer spaces.
\<close>

theorem offer_read_back:
  assumes "wf_facts f" and "list_all wf_offer media" and "build_offer f media = Inr offer"
  shows "parse_answer offer =
    Inr \<lparr>an_ice_lite = False, an_bundle = map mo_mid media, an_media = map (offered_media f) media\<rparr>"
proof -
  let ?s = "new_media ''session'' 0"
  let ?a = "\<lparr>an_ice_lite = False, an_bundle = [], an_media = []\<rparr>"
  let ?b = "?a\<lparr>an_bundle := map mo_mid media\<rparr>"
  have ne: "media \<noteq> []" and offer: "offer = join_with CRLF (session_lines f media @ concat (map (section_lines f) media)) @ CRLF"
    using assms(3) by (auto simp: build_offer_def split: if_splits)
  have "list_all clean (concat (map (section_lines f) media))"
    using section_lines_clean [OF assms(1)] assms(2) by (auto simp: list_all_iff)
  then have lines: "sdp_lines offer = session_lines f media @ concat (map (section_lines f) media)"
    unfolding offer using session_lines_clean [OF assms(1,2) ne]
    by (intro sdp_lines_join) (simp_all add: session_lines_def)
  have mids: "list_all one_word (map mo_mid media)" using assms(2) by (auto simp: wf_offer_def list_all_iff Let_def)
  have plain: "parse_line l (c, ?s) = Inr (c, ?s)" if "\<not> starts_with ''m='' l" "\<not> starts_with ''a='' l" for l c
    using that by (simp add: parse_line_def m_line_def attr_line_def)
  have 1: "parse_line (''o=- '' @ decimal (of_session_id f) @ '' 2 IN IP4 127.0.0.1'') (?a, ?s) = Inr (?a, ?s)"
    "parse_line ''s=StreamStack'' (?a, ?s) = Inr (?a, ?s)" "parse_line ''t=0 0'' (?a, ?s) = Inr (?a, ?s)"
    by (rule plain; simp add: starts_with_def)+
  have "one_word ''BUNDLE''" by (simp add: one_word_def is_space_def code_def)
  then have words: "words (''BUNDLE'' @ '' '' @ join_with '' '' (map mo_mid media)) = ''BUNDLE'' # map mo_mid media"
    using words_join [of "''BUNDLE'' # map mo_mid media"] mids ne by (cases media) simp_all
  have "tidy (''BUNDLE'' @ '' '' @ join_with '' '' (map mo_mid media))"
    by (rule tidy_gap) (use tidy_words [OF mids] ne in \<open>simp_all add: tidy_def is_space_def code_def\<close>)
  then have "attr_line (''a='' @ ''group'' @ '':'' @ ''BUNDLE'' @ '' '' @ join_with '' '' (map mo_mid media)) =
      Some (''group'', ''BUNDLE'' @ '' '' @ join_with '' '' (map mo_mid media))"
    "m_line (''a='' @ ''group'' @ '':'' @ ''BUNDLE'' @ '' '' @ join_with '' '' (map mo_mid media)) = None"
    by (intro attr_named; simp)+
  moreover have "apply_attr ?a ?s ''group'' (''BUNDLE'' @ '' '' @ join_with '' '' (map mo_mid media)) = Some (?b, ?s)"
    unfolding apply_attr_def words by simp
  ultimately have 2: "parse_line (''a=group:BUNDLE '' @ join_with '' '' (map mo_mid media)) (?a, ?s) = Inr (?b, ?s)"
    by (simp add: parse_line_def)
  have "tidy (''WMS'' @ '' '' @ of_stream_id f)"
    using assms(1) one_word_tidy [of "of_stream_id f"]
    by (intro tidy_gap) (simp_all add: wf_facts_def one_word_def tidy_def is_space_def code_def)
  then have "strip ('' '' @ ''WMS'' @ '' '' @ of_stream_id f) = ''WMS '' @ of_stream_id f"
    using tidy_strip by (simp add: strip_space)
  then have "attr_line (''a='' @ ''msid-semantic'' @ '':'' @ '' WMS '' @ of_stream_id f) =
      Some (''msid-semantic'', ''WMS '' @ of_stream_id f)"
    by (simp add: attr_line_def starts_with_def)
  then have 3: "parse_line (''a=msid-semantic: WMS '' @ of_stream_id f) (?b, ?s) = Inr (?b, ?s)"
    by (simp add: parse_line_def m_line_def starts_with_def apply_attr_def)
  have "parse_lines (tl (session_lines f media) @ concat (map (section_lines f) media)) (?a, ?s) =
      parse_lines (concat (map (section_lines f) media)) (?b, ?s)"
    using 1 2 3 by (simp add: session_lines_def)
  also have "\<dots> = Inr (?b\<lparr>an_media := an_media ?b @ map (offered_media f) media\<rparr>, ?s)"
    by (rule sections_read [OF assms(1,2) HOL.refl])
  finally have run: "parse_lines (tl (session_lines f media) @ concat (map (section_lines f) media)) (?a, ?s) =
      Inr (\<lparr>an_ice_lite = False, an_bundle = map mo_mid media, an_media = map (offered_media f) media\<rparr>, ?s)" by simp
  have "session_lines f media = ''v=0'' # tl (session_lines f media)" by (simp add: session_lines_def)
  then have "sdp_lines offer = ''v=0'' # (tl (session_lines f media) @ concat (map (section_lines f) media))"
    unfolding lines by (metis append_Cons)
  then show ?thesis using run by (simp add: parse_answer_def)
qed

theorem offer_read_back_witness:
  "\<exists>offer. build_offer \<lparr>of_ufrag = ''u'', of_password = ''p'', of_fingerprints = [(''sha-256'', ''ab:cd'')],
      of_candidates = [''1 1 udp 1 10.0.0.1 9 typ host''], of_cname = ''c'', of_session_id = 7, of_stream_id = ''s''\<rparr>
      [\<lparr>mo_codec = OPUS_SPEC, mo_mid = ''0'', mo_ssrc = 5\<rparr>] = Inr offer \<and>
    map_option (\<lambda>m. (am_mid m, am_fingerprints m, length (am_codecs m)))
      (section_of (projr (parse_answer offer)) ''audio'') = Some (''0'', [(''sha-256'', ''AB:CD'')], 1)"
proof -
  let ?f = "\<lparr>of_ufrag = ''u'', of_password = ''p'', of_fingerprints = [(''sha-256'', ''ab:cd'')],
    of_candidates = [''1 1 udp 1 10.0.0.1 9 typ host''], of_cname = ''c'', of_session_id = 7, of_stream_id = ''s''\<rparr>"
  let ?m = "[\<lparr>mo_codec = OPUS_SPEC, mo_mid = ''0'', mo_ssrc = 5\<rparr>]"
  obtain offer where o: "build_offer ?f ?m = Inr offer" by (simp add: build_offer_def)
  have "wf_facts ?f" by (simp add: wf_facts_def tidy_def one_word_def is_space_def code_def)
  moreover have "list_all wf_offer ?m"
    by (simp add: wf_offer_def OPUS_SPEC_def tidy_def one_word_def regex_word_def is_space_def code_def)
  ultimately have p: "parse_answer offer =
      Inr \<lparr>an_ice_lite = False, an_bundle = map mo_mid ?m, an_media = map (offered_media ?f) ?m\<rparr>"
    using offer_read_back o by blast
  have up: "lower ''sha-256'' = ''sha-256''" "upper ''ab:cd'' = ''AB:CD''"
    by (simp_all add: lower_def lower_char_def upper_def code_def char_of_eq_iff)
  have "map_option (\<lambda>m. (am_mid m, am_fingerprints m, length (am_codecs m)))
      (section_of (projr (parse_answer offer)) ''audio'') = Some (''0'', [(''sha-256'', ''AB:CD'')], 1)"
    unfolding p by (simp add: section_of_def offered_media_def OPUS_SPEC_def up)
  then show ?thesis using o by blast
qed

theorem accepted_answer_fits_witness:
  "\<exists>res. negotiate \<lparr>an_ice_lite = False, an_bundle = [],
      an_media = [(new_media ''audio'' 9)\<lparr>am_mid := ''0'', am_codecs := [offered_codec OPUS_SPEC], am_ufrag := ''u'',
        am_password := ''p'', am_fingerprints := [(''sha-256'', ''AB'')], am_setup := ''passive''\<rparr>]\<rparr>
      [\<lparr>mo_codec = OPUS_SPEC, mo_mid = ''0'', mo_ssrc = 5\<rparr>] = Inr res \<and> map fst res = [''audio'']"
proof -
  let ?a = "\<lparr>an_ice_lite = False, an_bundle = [],
      an_media = [(new_media ''audio'' 9)\<lparr>am_mid := ''0'', am_codecs := [offered_codec OPUS_SPEC], am_ufrag := ''u'',
        am_password := ''p'', am_fingerprints := [(''sha-256'', ''AB'')], am_setup := ''passive''\<rparr>]\<rparr>"
  let ?o = "[\<lparr>mo_codec = OPUS_SPEC, mo_mid = ''0'', mo_ssrc = 5\<rparr>]"
  have "\<exists>res. negotiate ?a ?o = Inr res"
    by (simp add: negotiate_def choose_section_def accepted_def new_media_def answers_codec_def offered_codec_def OPUS_SPEC_def)
  then obtain res where r: "negotiate ?a ?o = Inr res" by blast
  then have "map fst res = map (\<lambda>i. cs_kind (mo_codec i)) ?o"
    using accepted_answer_fits [of ?a ?o res] by simp
  then show ?thesis using r by (simp add: OPUS_SPEC_def)
qed

end
