(* ===== verification/Spec2Isabelle.thy ===== *)
theory Spec2Isabelle
  imports RtpAv1 RtpHevc CodecRecords MkvCut MkvWriter WhipMedia LatestWriter Adapt HotkeyMatch
    TrackSwitch RelayData Idle Speech LightStore LightRule LightTouch
    Replay SafeJoin CallConsole Store EnvFile Sdp
begin

text \<open>
  A verification library for streamstack, the streaming and desk-control service of the catalogue's
  developer workstation role (\<open>src/roles/developer_workstation/files/streamstack/src/streamstack/\<close>; all
  file names below are relative to it).

  \<^bold>\<open>The program.\<close> A long-running service captures a camera and a microphone, encodes them with ffmpeg and
  hands the stream to recordings, an instant replay, ffmpeg pushes and WebRTC (WHIP) connections. Around it
  stands the desk: lights that follow the camera and the sun, call detection that mutes and hides the person
  when a meeting opens, hotkeys and MIDI bindings, settings files. The parts modelled here are the ones with
  state and decisions of their own; drivers, ffmpeg, GPU code and web pages are outside.

  \<^bold>\<open>The media path\<close>, in the order data takes it.
  \<^item> An encoder writes live Matroska into a pipe. \<open>Ebml\<close> and \<open>MkvReader\<close> are the reader of
    \<open>stream/mkv.py\<close> (ids, sizes, track entries, the incremental \<open>Demuxer\<close>); \<open>MkvCut\<close> shows that the
    way the pipe cuts the stream is without effect; \<open>MkvWriter\<close> is \<open>stream_header\<close> and
    \<open>encode_cluster\<close>, with their round trip.
  \<^item> \<open>TrackSwitch\<close>, \<open>Merger\<close> and \<open>Relay\<close> are \<open>stream/relay.py\<close>: the cut-over between two encoders at a
    keyframe, the interleaving of picture and sound by time, and the \<open>Chain\<close> that writes clusters to its
    sinks; \<open>RelayData\<close> reads the delivered clusters back with the demuxer.
  \<^item> \<open>Sinks\<close> (\<open>stream/sinks.py\<close>: the byte queue, \<open>PipeSink\<close>, \<open>FileSink\<close>) and \<open>Replay\<close>
    (\<open>stream/replay.py\<close>) receive them. The locale \<open>relay_sink\<close> is what the chain relies on; the chain's
    protocol theorem says what a sink can rely on.
  \<^item> \<open>RtpUnits\<close>, \<open>RtpNal\<close>, \<open>RtpHevc\<close>, \<open>RtpAv1\<close> and \<open>CodecRecords\<close> are \<open>stream/whip/payload.py\<close>;
    \<open>WhipMedia\<close> is \<open>stream/whip/media.py\<close> and \<open>Sdp\<close> is \<open>stream/whip/sdp.py\<close>, the offer and the check of a server's
    answer. The receivers of the RFCs are definitions beside the packetizers, and the
    theorems say that they rebuild what went in.
  \<^item> \<open>Adapt\<close> is \<open>stream/adapt.py\<close>: the verdict on a destination and the steps of the picture up and down.

  \<^bold>\<open>The desk.\<close>
  \<^item> \<open>Litra\<close> (\<open>lighting.py\<close>), \<open>LightControl\<close> (\<open>console/lighting.py\<close>), \<open>LightPlan\<close>, \<open>LightStore\<close> and
    \<open>LightLevel\<close> (\<open>lightplan.py\<close>), \<open>LightAuto\<close> (\<open>lightauto.py\<close>): the protocol of the lights, the
    compare-and-set controller, the settings with their validation and file, the schedule, and one tick of the
    automation. \<open>LightRule\<close> and \<open>LightTouch\<close> hold what a tick promises, proved in the locale
    \<open>automated_lights\<close> over the interface the automation uses and interpreted on the controller.
  \<^item> \<open>CameraUse\<close> (\<open>camerause.py\<close>), \<open>CallState\<close> (\<open>callstate.py\<close>), \<open>CallConsole\<close> (\<open>console/call.py\<close>) and \<open>SafeJoin\<close>
    (\<open>console/safejoin.py\<close>): who holds the camera, whether that is a call, what the person is told, and what is
    held for them until they go live. \<open>ConsoleParams\<close> has the controllers' shared parameter checks, and the
    locales \<open>settings_file\<close> and \<open>settings_controller\<close> that both controllers interpret.
  \<^item> \<open>Idle\<close> (\<open>engine/idle.py\<close> and the tick of \<open>console/native.py\<close>) rests the video engine; \<open>Speech\<close> is \<open>speech.py\<close>.
  \<^item> \<open>KeyCombo\<close>, \<open>Midi\<close>, \<open>Hotkeys\<close> and \<open>HotkeyMatch\<close> are \<open>hotkeys.py\<close>.
  \<^item> \<open>LatestWriter\<close> (\<open>saving.py\<close>), \<open>Store\<close> (\<open>store.py\<close>) and \<open>EnvFile\<close> (\<open>store.py\<close>, \<open>config.py\<close>): the newest
    value wins among threads, a file survives a power cut, a settings file reads back.

  \<open>Prelude\<close>, \<open>PyText\<close> and \<open>PyNum\<close> are the shared vocabulary (bytes, exceptions as \<open>Inl\<close>, slices, strings, JSON,
  rounding), \<open>Interfaces\<close> the locales for self-delimiting units, fragments and incremental readers.

  \<^bold>\<open>How code became definitions.\<close> A class is a record of its fields and each method a function from
  the old state to the new one; the methods of the modelled classes run under one lock, so a method is a step, and
  where threads interleave between two lock operations (\<open>LatestWriter\<close>, the writer thread of a \<open>PipeSink\<close>)
  the interleavings are a step relation or a list of steps in any order. Callbacks, commands and calls to other
  parts are a list of effects in the order of the code. Every exception the code raises itself is a
  value. Bytes are words of eight bits, and numbers that the protocols pack into bits are masked where the code
  masks them. Python's floats are exact rationals (Isabelle's \<open>real\<close> with rational inputs), so statements about
  bounds hold for the exact value and not for its rounding in binary; clocks, random names, answers
  of the kernel and of other programs are arguments. Text has code points below 256.

  \<^bold>\<open>What the groups of lemmas show.\<close>
  \<^item> Round trips: every packetizer with its receiver, clusters with the demuxer, recordings and clips with what was
    accepted, settings with their files, an SDP offer with the reader, MIDI with its events.
  \<^item> Safety and order: the calls a sink sees, the lossless failed swap, no light without a camera, no write to a light
    the schedule does not own, an older value never replacing a newer one, the desk given back after a call.
  \<^item> Bounds and liveness: no block waits longer than the merger's hold, the engine rests after its quiet time, a
    replay stays within its byte cap.
  \<^item> Crash safety: \<open>Store\<close> models a directory as names over inodes and a power cut as a prefix of the calls, with the
    directory on disk lagging and unsynced content lost.

  \<^bold>\<open>Loops and fuel.\<close> Loops over data are structural or \<open>function\<close>s with a measure. \<open>packetize_av1\<close> is a partial
  function, because its loop does not end for a payload limit of sixteen bytes or less; it is shown to return
  for every larger limit. The walk over a process's ancestors has the code's own limit of eight steps
  (\<open>ANCESTRY_DEPTH\<close>). No other definition has fuel.

  \<^bold>\<open>What is not modelled.\<close> The supervision of ffmpeg and its command lines (\<open>stream/service.py\<close>), ICE, DTLS, SRTP and
  HTTP (third-party libraries and servers), the web pages, the video engine, the director and the framing
  (GPU code, neural networks, image features), the audio chain and the hardware adapters (text and calls for
  external programs), the Canon bridge, the deck, meeting calendars, the command line. They are input and output
  around the modelled parts, or floating-point computation whose meaning the exact model would not carry.
  Of the modelled parts the status dictionaries made for the pages, log lines and threads' start and stop are left out;
  the position of the sun, JSON parsing and UTF-8 decoding are parameters where they occur.

  \<^bold>\<open>What the modelling showed.\<close> Lemmas that prove a behaviour the code does not intend stand at the end of
  the theory they concern, for example \<open>second_line_wins\<close> and \<open>form_feed_loses_the_setting\<close> in \<open>EnvFile\<close>,
  \<open>overflow_drops_the_header\<close> and \<open>short_write_unnoticed\<close> in \<open>Sinks\<close>, \<open>go_live_says_on_air\<close> in \<open>SafeJoin\<close>.
\<close>

end
